(* ===== verification/Prelude.thy ===== *)
theory Prelude
  imports Main "HOL-Library.Word" "HOL-Library.Signed_Division"
begin

text \<open>
  Shared vocabulary of the development: bytes and C strings, blocks of memory, the
  result codes of the library, and the script that decides which allocations fail.

  A \<open>char\<close> or \<open>unsigned char\<close> of the sources is a \<^typ>\<open>8 word\<close>; a buffer is a list of
  them. The character class macros of the sources give the same answers for signed and
  unsigned bytes, so one type serves both. A C string is the part of a buffer before its
  first zero byte. Object sizes (\<open>size_t\<close>) are natural numbers: every size the code
  computes is bounded by the sizes of objects that exist in memory plus small constants,
  so the additions do not wrap; where the code itself works modulo the word size (hash
  values, checksums, offsets) the model uses words.
\<close>

unbundle bit_operations_syntax

named_theorems ctype_defs "the character class macros"
named_theorems inv_intros "operations that keep the invariant of their component"
named_theorems abs_simps "effect of an operation on the abstraction of its component"

subsection \<open>Integer division\<close>

text \<open>
  The division of C rounds towards zero. It is \<open>sdiv\<close> on integers; where the code only divides
  numbers that are not negative, the theories write \<open>div\<close>.
\<close>

lemma sdiv_pos: "0 < (k :: int) \<Longrightarrow> 0 \<le> a \<Longrightarrow> a sdiv k = a div k"
  by (simp add: signed_divide_int_def sgn_if)

lemma sdiv_neg: "0 < (k :: int) \<Longrightarrow> a < 0 \<Longrightarrow> a sdiv k = - ((- a) div k)"
  by (simp add: signed_divide_int_def sgn_if)

subsection \<open>Bytes and C strings\<close>

type_synonym byte = "8 word"

definition INT_MAX :: int where
  "INT_MAX = 2147483647"

abbreviation ch :: "char \<Rightarrow> byte" where
  "ch \<equiv> of_char"

abbreviation s2b :: "string \<Rightarrow> byte list" where
  "s2b \<equiv> map of_char"

definition cstr :: "byte list \<Rightarrow> byte list" where
  "cstr m = takeWhile (\<lambda>b. b \<noteq> 0) m"

lemma cstr_no_nul [simp]: "0 \<notin> set (cstr m)"
  by (auto simp: cstr_def dest: set_takeWhileD)

lemma cstr_id [simp]: "0 \<notin> set m \<Longrightarrow> cstr m = m"
  by (auto simp: cstr_def takeWhile_eq_all_conv)

lemma cstr_append_nul [simp]: "0 \<notin> set m \<Longrightarrow> cstr (m @ 0 # r) = m"
  by (auto simp: cstr_def takeWhile_tail)

lemma take_cstr [simp]: "take (length (cstr m)) m = cstr m"
  by (simp add: cstr_def takeWhile_eq_take [symmetric])

text \<open>
  The byte of a string at an index, where the end of the list stands for the
  terminating zero: what \<open>*p\<close> reads when \<open>p\<close> points into a C string.
\<close>

definition at :: "byte list \<Rightarrow> nat \<Rightarrow> byte" where
  "at s i = (if i < length s then s ! i else 0)"

lemma at_Nil [simp]: "at [] i = 0"
  by (simp add: at_def)

lemma at_Cons_0 [simp]: "at (x # s) 0 = x"
  by (simp add: at_def)

lemma at_Cons_Suc [simp]: "at (x # s) (Suc i) = at s i"
  by (simp add: at_def)

lemma at_Cons_numeral [simp]: "at (x # s) (numeral n) = at s (pred_numeral n)"
  by (simp add: numeral_eq_Suc)

lemma at_0_eq_0: "0 \<notin> set s \<Longrightarrow> at s 0 = 0 \<longleftrightarrow> s = []"
  by (cases s) auto

lemma at_append [simp]: "at (p @ q) (length p + i) = at q i"
  by (simp add: at_def nth_append)

lemma at_append_0 [simp]: "at (p @ q) (length p) = at q 0"
  using at_append [of p q 0] by simp

lemma length_eq_4: "length xs = 4 \<longleftrightarrow> (\<exists>a b c d. xs = [a, b, c, d])"
  by (auto simp: length_Suc_conv numeral_eq_Suc)

text \<open>The bit positions of a byte, for proofs that compare two bytes bit by bit.\<close>

lemma less_8_cases:
  "n < (8 :: nat) \<longleftrightarrow> n = 0 \<or> n = 1 \<or> n = 2 \<or> n = 3 \<or> n = 4 \<or> n = 5 \<or> n = 6 \<or> n = 7"
  by auto

lemma byte_no_bit [simp]: "8 \<le> n \<Longrightarrow> \<not> bit (b :: byte) n"
  using bit_imp_le_length [of b n] by auto

lemma unat_byte [simp]: "unat (b :: byte) < 256"
  using unsigned_less [of b, where ?'a = nat] by simp

lemma unat_drop_bit_div: "unat (drop_bit n (w :: 'a::len word)) = unat w div 2 ^ n"
  unfolding unat_drop_bit_eq by (rule drop_bit_eq_div)

subsection \<open>Blocks of memory\<close>

definition mem_write :: "byte list \<Rightarrow> nat \<Rightarrow> byte list \<Rightarrow> byte list" where
  "mem_write m i bs = take i m @ bs @ drop (i + length bs) m"

text \<open>
  A \<open>realloc\<close> keeps the bytes up to the smaller size. New bytes are indeterminate in C;
  they are zero here, and no modelled operation reads one before it is written.
\<close>

definition mem_resize :: "byte list \<Rightarrow> nat \<Rightarrow> byte list" where
  "mem_resize m n = take n m @ replicate (n - length m) 0"

lemma length_mem_write [simp]:
  "i + length bs \<le> length m \<Longrightarrow> length (mem_write m i bs) = length m"
  by (simp add: mem_write_def)

lemma length_mem_resize [simp]: "length (mem_resize m n) = n"
  by (simp add: mem_resize_def)

lemma take_mem_resize [simp]:
  "k \<le> n \<Longrightarrow> k \<le> length m \<Longrightarrow> take k (mem_resize m n) = take k m"
  by (simp add: mem_resize_def min_def)

lemma take_mem_write_end [simp]:
  "i + length bs \<le> length m \<Longrightarrow> take (i + length bs) (mem_write m i bs) = take i m @ bs"
  by (simp add: mem_write_def)

lemma take_mem_write_before [simp]:
  "k \<le> i \<Longrightarrow> i \<le> length m \<Longrightarrow> take k (mem_write m i bs) = take k m"
  by (simp add: mem_write_def min_def)

lemma nth_mem_write_single [simp]: "i < length m \<Longrightarrow> mem_write m i [z] ! i = z"
  by (simp add: mem_write_def nth_append)

subsection \<open>Result codes\<close>

text \<open>The codes of \<open>CURLcode\<close> that the modelled functions produce or test.\<close>

datatype CURLcode =
    CURLE_OK
  | CURLE_URL_MALFORMAT
  | CURLE_PARTIAL_FILE
  | CURLE_WRITE_ERROR
  | CURLE_READ_ERROR
  | CURLE_OUT_OF_MEMORY
  | CURLE_ABORTED_BY_CALLBACK
  | CURLE_BAD_FUNCTION_ARGUMENT
  | CURLE_RECV_ERROR
  | CURLE_BAD_CONTENT_ENCODING
  | CURLE_AGAIN
  | CURLE_TOO_LARGE

subsection \<open>Allocation\<close>

text \<open>
  \<open>malloc\<close>, \<open>calloc\<close> and \<open>realloc\<close> may return NULL. Which calls do is decided by a
  script threaded through the operations: its head is the fate of the next allocation,
  and once it is used up allocations succeed. Every finite pattern of failures is the
  pattern of some script.
\<close>

type_synonym alloc_script = "bool list"

fun alloc :: "alloc_script \<Rightarrow> bool \<times> alloc_script" where
  "alloc [] = (True, [])"
| "alloc (b # A) = (b, A)"

definition no_oom :: "alloc_script \<Rightarrow> bool" where
  "no_oom A \<longleftrightarrow> False \<notin> set A"

lemma no_oom_Nil [simp]: "no_oom []"
  by (simp add: no_oom_def)

lemma alloc_no_oom: "no_oom A \<Longrightarrow> \<exists>A'. alloc A = (True, A') \<and> no_oom A'"
  by (cases A) (auto simp: no_oom_def)

lemma alloc_no_oomD:
  "no_oom A \<Longrightarrow> alloc A = (ok, A') \<Longrightarrow> ok \<and> no_oom A'"
  by (cases A) (auto simp: no_oom_def)

end
