(* ===== verification/Ctype.thy ===== *)
theory Ctype
  imports Prelude
begin

text \<open>
  The character class macros of \<open>curl_ctype.h\<close> and the locale independent string
  comparison of \<open>strcase.c\<close>. The two 256-entry tables of \<open>strcase.c\<close> are written as the
  map they tabulate; \<open>Curl_raw_toupper_nat\<close> and \<open>Curl_raw_tolower_nat\<close> give every entry by its
  index.
\<close>

definition ISDIGIT :: "byte \<Rightarrow> bool" where [ctype_defs]:
  "ISDIGIT x \<longleftrightarrow> 0x30 \<le> x \<and> x \<le> 0x39"

definition ISLOWHEXALHA :: "byte \<Rightarrow> bool" where [ctype_defs]:
  "ISLOWHEXALHA x \<longleftrightarrow> 0x61 \<le> x \<and> x \<le> 0x66"

definition ISUPHEXALHA :: "byte \<Rightarrow> bool" where [ctype_defs]:
  "ISUPHEXALHA x \<longleftrightarrow> 0x41 \<le> x \<and> x \<le> 0x46"

definition ISXDIGIT :: "byte \<Rightarrow> bool" where [ctype_defs]:
  "ISXDIGIT x \<longleftrightarrow> ISDIGIT x \<or> ISLOWHEXALHA x \<or> ISUPHEXALHA x"

definition ISUPPER :: "byte \<Rightarrow> bool" where [ctype_defs]:
  "ISUPPER x \<longleftrightarrow> 0x41 \<le> x \<and> x \<le> 0x5A"

definition ISLOWER :: "byte \<Rightarrow> bool" where [ctype_defs]:
  "ISLOWER x \<longleftrightarrow> 0x61 \<le> x \<and> x \<le> 0x7A"

definition ISALPHA :: "byte \<Rightarrow> bool" where [ctype_defs]:
  "ISALPHA x \<longleftrightarrow> ISLOWER x \<or> ISUPPER x"

definition ISALNUM :: "byte \<Rightarrow> bool" where [ctype_defs]:
  "ISALNUM x \<longleftrightarrow> ISDIGIT x \<or> ISLOWER x \<or> ISUPPER x"

definition ISBLANK :: "byte \<Rightarrow> bool" where [ctype_defs]:
  "ISBLANK x \<longleftrightarrow> x = 0x20 \<or> x = 0x09"

definition ISSPACE :: "byte \<Rightarrow> bool" where [ctype_defs]:
  "ISSPACE x \<longleftrightarrow> ISBLANK x \<or> 0x0A \<le> x \<and> x \<le> 0x0D"

definition ISURLPUNTCS :: "byte \<Rightarrow> bool" where [ctype_defs]:
  "ISURLPUNTCS x \<longleftrightarrow> x = 0x2D \<or> x = 0x2E \<or> x = 0x5F \<or> x = 0x7E"

definition ISUNRESERVED :: "byte \<Rightarrow> bool" where [ctype_defs]:
  "ISUNRESERVED x \<longleftrightarrow> ISALNUM x \<or> ISURLPUNTCS x"

subsection \<open>Facts about single bytes\<close>

text \<open>
  A statement about every byte is a finite check: \<open>byte_all\<close> turns it into a
  conjunction over a list of numerals that the simplifier evaluates.
\<close>

lemma byte_range: "(b :: byte) \<in> set (map word_of_nat [0..<256])"
proof -
  have "unat b < 256" using unsigned_less [of b] by simp
  then have "word_of_nat (unat b) \<in> set (map word_of_nat [0..<256] :: byte list)"
    by (metis atLeastLessThan_iff image_eqI le0 set_map set_upt)
  then show ?thesis by simp
qed

lemma byte_all: "list_all P (map word_of_nat [0..<256]) \<Longrightarrow> P (b :: byte)"
  using byte_range [of b] unfolding list_all_iff by blast

lemma ISDIGIT_ISALNUM: "ISDIGIT x \<Longrightarrow> ISALNUM x"
  by (simp add: ISALNUM_def)

lemma ISALPHA_ISALNUM: "ISALPHA x \<Longrightarrow> ISALNUM x"
  by (auto simp: ISALNUM_def ISALPHA_def)

lemma ISDIGIT_not_ISALPHA: "ISDIGIT x \<Longrightarrow> \<not> ISALPHA x"
  unfolding ctype_defs by (auto simp: word_le_nat_alt)

lemma nul_not_class [simp]:
  "\<not> ISALNUM 0" "\<not> ISALPHA 0" "\<not> ISDIGIT 0" "\<not> ISXDIGIT 0" "\<not> ISBLANK 0" "\<not> ISUNRESERVED 0"
  by (simp_all add: ctype_defs)

subsection \<open>Letter case\<close>

definition Curl_raw_toupper :: "byte \<Rightarrow> byte" where
  "Curl_raw_toupper c = (if ISLOWER c then c - 0x20 else c)"

definition Curl_raw_tolower :: "byte \<Rightarrow> byte" where
  "Curl_raw_tolower c = (if ISUPPER c then c + 0x20 else c)"

fun casecompare :: "byte list \<Rightarrow> byte list \<Rightarrow> bool" where
  "casecompare first second =
     (case (first, second) of
        (a # as, b # bs) \<Rightarrow>
          if Curl_raw_toupper a \<noteq> Curl_raw_toupper b then False else casecompare as bs
      | _ \<Rightarrow> (first = []) = (second = []))"

fun ncasecompare :: "byte list \<Rightarrow> byte list \<Rightarrow> nat \<Rightarrow> bool" where
  "ncasecompare first second n =
     (case (first, second, n) of
        (a # as, b # bs, Suc m) \<Rightarrow>
          if Curl_raw_toupper a \<noteq> Curl_raw_toupper b then False else ncasecompare as bs m
      | _ \<Rightarrow> if n = 0 then True
             else Curl_raw_toupper (at first 0) = Curl_raw_toupper (at second 0))"

declare casecompare.simps [simp del] ncasecompare.simps [simp del]

definition curl_strequal :: "byte list option \<Rightarrow> byte list option \<Rightarrow> bool" where
  "curl_strequal first second =
     (case (first, second) of
        (Some a, Some b) \<Rightarrow> casecompare a b
      | _ \<Rightarrow> first = None \<and> second = None)"

definition curl_strnequal :: "byte list option \<Rightarrow> byte list option \<Rightarrow> nat \<Rightarrow> bool" where
  "curl_strnequal first second n =
     (case (first, second) of
        (Some a, Some b) \<Rightarrow> ncasecompare a b n
      | _ \<Rightarrow> first = None \<and> second = None \<and> n \<noteq> 0)"

text \<open>
  \<open>Curl_strntoupper\<close> and \<open>Curl_strntolower\<close> give the bytes written to the destination:
  at most \<open>n\<close>, ending with the zero byte when the source is shorter than that.
\<close>

fun Curl_strntoupper :: "byte list \<Rightarrow> nat \<Rightarrow> byte list" where
  "Curl_strntoupper src 0 = []"
| "Curl_strntoupper [] (Suc n) = [Curl_raw_toupper 0]"
| "Curl_strntoupper (c # src) (Suc n) = Curl_raw_toupper c # Curl_strntoupper src n"

fun Curl_strntolower :: "byte list \<Rightarrow> nat \<Rightarrow> byte list" where
  "Curl_strntolower src 0 = []"
| "Curl_strntolower [] (Suc n) = [Curl_raw_tolower 0]"
| "Curl_strntolower (c # src) (Suc n) = Curl_raw_tolower c # Curl_strntolower src n"

definition Curl_safecmp :: "byte list option \<Rightarrow> byte list option \<Rightarrow> bool" where
  "Curl_safecmp a b =
     (case (a, b) of (Some x, Some y) \<Rightarrow> x = y | _ \<Rightarrow> a = None \<and> b = None)"

text \<open>The difference accumulated by \<open>Curl_timestrcmp\<close>: the function returns it.\<close>

fun timestrcmp_loop :: "byte \<Rightarrow> byte list \<Rightarrow> byte list \<Rightarrow> byte" where
  "timestrcmp_loop match a b =
     (let match' = match OR (at a 0 XOR at b 0)
      in case (a, b) of
           (_ # as, _ # bs) \<Rightarrow> timestrcmp_loop match' as bs
         | _ \<Rightarrow> match')"

declare timestrcmp_loop.simps [simp del]

definition Curl_timestrcmp :: "byte list option \<Rightarrow> byte list option \<Rightarrow> bool" where
  "Curl_timestrcmp a b =
     (case (a, b) of
        (Some x, Some y) \<Rightarrow> timestrcmp_loop 0 x y \<noteq> 0
      | _ \<Rightarrow> a \<noteq> None \<or> b \<noteq> None)"

subsection \<open>Lemmas\<close>

lemma xor_eq_0_iff_eq: "a XOR b = 0 \<longleftrightarrow> a = (b :: 'a::len word)"
proof
  assume "a XOR b = 0"
  then have "(a XOR b) XOR b = 0 XOR b" by (rule arg_cong)
  then show "a = b" by (simp add: xor.assoc)
qed simp

lemma Curl_raw_toupper_nat:
  "n < 256 \<Longrightarrow> Curl_raw_toupper (word_of_nat n) =
     word_of_nat (if 97 \<le> n \<and> n < 123 then n - 32 else n)"
  by (auto simp: Curl_raw_toupper_def ISLOWER_def word_le_nat_alt unat_of_nat)

lemma Curl_raw_tolower_nat:
  "n < 256 \<Longrightarrow> Curl_raw_tolower (word_of_nat n) =
     word_of_nat (if 65 \<le> n \<and> n < 91 then n + 32 else n)"
  by (auto simp: Curl_raw_tolower_def ISUPPER_def word_le_nat_alt unat_of_nat)

lemma Curl_raw_toupper_0 [simp]: "Curl_raw_toupper 0 = 0"
  by (simp add: Curl_raw_toupper_def ISLOWER_def)

lemma Curl_raw_toupper_eq_0 [simp]: "Curl_raw_toupper c = 0 \<longleftrightarrow> c = 0"
  by (auto simp: Curl_raw_toupper_def ISLOWER_def)

lemma casecompare_Cons [simp]:
  "casecompare (a # as) (b # bs) \<longleftrightarrow>
     Curl_raw_toupper a = Curl_raw_toupper b \<and> casecompare as bs"
  by (subst casecompare.simps) simp

lemma casecompare_Nil [simp]:
  "casecompare [] bs \<longleftrightarrow> bs = []" "casecompare as [] \<longleftrightarrow> as = []"
  by (subst casecompare.simps, simp split: list.splits)+

lemma casecompare_iff:
  "casecompare a b \<longleftrightarrow> map Curl_raw_toupper a = map Curl_raw_toupper b"
proof (induction a arbitrary: b)
  case Nil
  then show ?case by auto
next
  case (Cons x a)
  then show ?case by (cases b) auto
qed

lemma ncasecompare_Suc [simp]:
  "ncasecompare (a # as) (b # bs) (Suc m) \<longleftrightarrow>
     Curl_raw_toupper a = Curl_raw_toupper b \<and> ncasecompare as bs m"
  by (subst ncasecompare.simps) simp

lemma ncasecompare_0 [simp]: "ncasecompare a b 0"
  by (subst ncasecompare.simps) (simp split: list.splits)

lemma ncasecompare_iff:
  assumes "0 \<notin> set a" "0 \<notin> set b"
  shows "ncasecompare a b n \<longleftrightarrow>
     map Curl_raw_toupper (take n a) = map Curl_raw_toupper (take n b)"
  using assms
proof (induction a arbitrary: b n)
  case Nil
  then show ?case
    by (subst ncasecompare.simps) (auto split: list.splits nat.splits simp: take_Cons' at_0_eq_0)
next
  case (Cons x a)
  show ?case
  proof (cases n)
    case 0
    then show ?thesis by simp
  next
    case (Suc m)
    with Cons show ?thesis
      by (cases b; cases n) (auto simp: ncasecompare.simps [of "x # a" "[]"] split: nat.splits)
  qed
qed

lemma timestrcmp_loop_zero:
  assumes "0 \<notin> set a" "0 \<notin> set b"
  shows "timestrcmp_loop m a b = 0 \<longleftrightarrow> m = 0 \<and> a = b"
  using assms
proof (induction a arbitrary: m b)
  case Nil
  then show ?case
    by (subst timestrcmp_loop.simps) (cases b; auto simp: or_eq_0_iff)
next
  case (Cons x a)
  show ?case
  proof (cases b)
    case Nil
    with Cons.prems show ?thesis
      by (subst timestrcmp_loop.simps) (auto simp: or_eq_0_iff)
  next
    case (Cons y b')
    with Cons.prems Cons.IH [of b' "m OR (x XOR y)"] show ?thesis
      by (subst timestrcmp_loop.simps) (auto simp: or_eq_0_iff xor_eq_0_iff_eq Let_def)
  qed
qed

end
