(* ===== verification/Dynbuf.thy ===== *)
theory Dynbuf
  imports Prelude
begin

text \<open>
  The growing string buffer of \<open>dynbuf.c\<close>. The allocated block is a list of exactly
  \<open>allc\<close> bytes (\<open>None\<close> for the NULL pointer); \<open>dyn_content\<close> is the string it holds.
  \<open>dyn_inv\<close> collects what the assertions of the C code and its header promise. The
  locale \<open>append_buffer\<close> is what the clients of the buffer rely on: an append either
  adds its bytes or leaves an empty buffer and an error.
\<close>

definition MIN_FIRST_ALLOC :: nat where
  "MIN_FIRST_ALLOC = 32"

record dynbuf =
  bufr :: "byte list option"
  leng :: nat
  allc :: nat
  toobig :: nat

definition Curl_dyn_init :: "nat \<Rightarrow> dynbuf" where
  "Curl_dyn_init big = \<lparr>bufr = None, leng = 0, allc = 0, toobig = big\<rparr>"

definition Curl_dyn_free :: "dynbuf \<Rightarrow> dynbuf" where
  "Curl_dyn_free s = s\<lparr>bufr := None, leng := 0, allc := 0\<rparr>"

text \<open>
  The doubling loop of \<open>dyn_nappend\<close>. The code only reaches it with \<open>a\<close> not zero; the
  guard makes the function total for \<open>a = 0\<close>, where the loop of the code would not stop.
\<close>

function dyn_grow :: "nat \<Rightarrow> nat \<Rightarrow> nat" where
  "dyn_grow a fit = (if a < fit \<and> 0 < a then dyn_grow (a * 2) fit else a)"
  by pat_completeness auto
termination
  by (relation "measure (\<lambda>(a, fit). fit - a)") auto

declare dyn_grow.simps [simp del]

definition dyn_newsize :: "nat \<Rightarrow> nat \<Rightarrow> nat \<Rightarrow> nat" where
  "dyn_newsize a fit big =
     (if a = 0 then
        (if big < MIN_FIRST_ALLOC then big
         else if fit < MIN_FIRST_ALLOC then MIN_FIRST_ALLOC
         else fit)
      else
        (let a' = dyn_grow a fit in if big < a' then big else a'))"

definition dyn_nappend ::
  "dynbuf \<Rightarrow> byte list \<Rightarrow> alloc_script \<Rightarrow> CURLcode \<times> dynbuf \<times> alloc_script" where
  "dyn_nappend s mem A =
     (let indx = leng s;
          fit = length mem + indx + 1
      in if toobig s < fit then (CURLE_TOO_LARGE, Curl_dyn_free s, A)
         else
           let a = dyn_newsize (allc s) fit (toobig s);
               (ok, A') = (if a \<noteq> allc s then alloc A else (True, A))
           in if \<not> ok then (CURLE_OUT_OF_MEMORY, Curl_dyn_free s, A')
              else
                let old = (case bufr s of None \<Rightarrow> [] | Some m \<Rightarrow> m);
                    block = (if a \<noteq> allc s then mem_resize old a else old);
                    block' = mem_write (mem_write block indx mem) (indx + length mem) [0]
                in (CURLE_OK,
                    s\<lparr>bufr := Some block', leng := indx + length mem, allc := a\<rparr>, A'))"

definition Curl_dyn_reset :: "dynbuf \<Rightarrow> dynbuf" where
  "Curl_dyn_reset s =
     (let s' = (if leng s \<noteq> 0 then s\<lparr>bufr := map_option (\<lambda>m. mem_write m 0 [0]) (bufr s)\<rparr>
                else s)
      in s'\<lparr>leng := 0\<rparr>)"

definition Curl_dyn_tail :: "dynbuf \<Rightarrow> nat \<Rightarrow> CURLcode \<times> dynbuf" where
  "Curl_dyn_tail s trail =
     (if leng s < trail then (CURLE_BAD_FUNCTION_ARGUMENT, s)
      else if trail = leng s then (CURLE_OK, s)
      else if trail = 0 then (CURLE_OK, Curl_dyn_reset s)
      else
        (CURLE_OK,
         s\<lparr>bufr := map_option
              (\<lambda>m. mem_write (mem_write m 0 (take trail (drop (leng s - trail) m))) trail [0])
              (bufr s),
           leng := trail\<rparr>))"

definition Curl_dyn_addn ::
  "dynbuf \<Rightarrow> byte list \<Rightarrow> alloc_script \<Rightarrow> CURLcode \<times> dynbuf \<times> alloc_script" where
  "Curl_dyn_addn s mem A = dyn_nappend s mem A"

definition Curl_dyn_add ::
  "dynbuf \<Rightarrow> byte list \<Rightarrow> alloc_script \<Rightarrow> CURLcode \<times> dynbuf \<times> alloc_script" where
  "Curl_dyn_add s str A = dyn_nappend s (cstr str) A"

definition Curl_dyn_ptr :: "dynbuf \<Rightarrow> byte list option" where
  "Curl_dyn_ptr s = bufr s"

definition Curl_dyn_uptr :: "dynbuf \<Rightarrow> byte list option" where
  "Curl_dyn_uptr s = bufr s"

definition Curl_dyn_len :: "dynbuf \<Rightarrow> nat" where
  "Curl_dyn_len s = leng s"

text \<open>
  \<open>None\<close> is the write of the terminating zero through a NULL pointer: the code guards it by
  the length only, which also holds for the length 0 of a buffer without a block.
\<close>

definition Curl_dyn_setlen :: "dynbuf \<Rightarrow> nat \<Rightarrow> (CURLcode \<times> dynbuf) option" where
  "Curl_dyn_setlen s n =
     (if leng s < n then Some (CURLE_BAD_FUNCTION_ARGUMENT, s)
      else
        case bufr s of
          None \<Rightarrow> None
        | Some m \<Rightarrow> Some (CURLE_OK, s\<lparr>leng := n, bufr := Some (mem_write m n [0])\<rparr>))"

subsection \<open>Abstraction and invariant\<close>

definition dyn_content :: "dynbuf \<Rightarrow> byte list" where
  "dyn_content s = (case bufr s of None \<Rightarrow> [] | Some m \<Rightarrow> take (leng s) m)"

definition dyn_inv :: "dynbuf \<Rightarrow> bool" where
  "dyn_inv s \<longleftrightarrow> 0 < toobig s \<and>
     (case bufr s of
        None \<Rightarrow> leng s = 0 \<and> allc s = 0
      | Some m \<Rightarrow> length m = allc s \<and> leng s < allc s \<and> allc s \<le> toobig s \<and> m ! leng s = 0)"

lemma dyn_inv_init [inv_intros]: "0 < big \<Longrightarrow> dyn_inv (Curl_dyn_init big)"
  by (simp add: dyn_inv_def Curl_dyn_init_def)

lemma dyn_content_init [simp, abs_simps]: "dyn_content (Curl_dyn_init big) = []"
  by (simp add: dyn_content_def Curl_dyn_init_def)

lemma toobig_init [simp]: "toobig (Curl_dyn_init big) = big"
  by (simp add: Curl_dyn_init_def)

lemma dyn_inv_free [inv_intros]: "dyn_inv s \<Longrightarrow> dyn_inv (Curl_dyn_free s)"
  by (simp add: dyn_inv_def Curl_dyn_free_def)

lemma dyn_content_free [simp, abs_simps]: "dyn_content (Curl_dyn_free s) = []"
  by (simp add: dyn_content_def Curl_dyn_free_def)

lemma toobig_free [simp]: "toobig (Curl_dyn_free s) = toobig s"
  by (simp add: Curl_dyn_free_def)

lemma dyn_len_content: "dyn_inv s \<Longrightarrow> length (dyn_content s) = Curl_dyn_len s"
  by (auto simp: dyn_inv_def dyn_content_def Curl_dyn_len_def split: option.splits)

text \<open>The block read as a C string is the content, when the content has no zero byte.\<close>

lemma dyn_cstr:
  assumes "dyn_inv s" "Curl_dyn_ptr s = Some m" "0 \<notin> set (dyn_content s)"
  shows "cstr m = dyn_content s"
proof -
  from assms(1,2) have lt: "leng s < length m" and z: "m ! leng s = 0"
    by (auto simp: dyn_inv_def Curl_dyn_ptr_def)
  then have "m = take (leng s) m @ 0 # drop (Suc (leng s)) m"
    using id_take_nth_drop [of "leng s" m] by simp
  moreover have "take (leng s) m = dyn_content s"
    using assms(2) by (simp add: dyn_content_def Curl_dyn_ptr_def)
  ultimately show ?thesis
    using assms(3) cstr_append_nul [of "take (leng s) m" "drop (Suc (leng s)) m"] by metis
qed

subsection \<open>Growth\<close>

lemma dyn_grow_ge: "0 < a \<Longrightarrow> fit \<le> dyn_grow a fit \<and> a \<le> dyn_grow a fit"
proof (induction a fit rule: dyn_grow.induct)
  case (1 a fit)
  then show ?case
    by (cases "a < fit") (auto simp: dyn_grow.simps [of a fit])
qed

lemma dyn_grow_bound: "0 < a \<Longrightarrow> dyn_grow a fit \<le> max a (2 * fit - 1)"
proof (induction a fit rule: dyn_grow.induct)
  case (1 a fit)
  then show ?case
    by (cases "a < fit") (auto simp: dyn_grow.simps [of a fit])
qed

lemma dyn_newsize_bounds:
  assumes "fit \<le> big" "a \<le> big" "0 < fit"
  shows "fit \<le> dyn_newsize a fit big" "a \<le> dyn_newsize a fit big" "dyn_newsize a fit big \<le> big"
    "0 < dyn_newsize a fit big"
  using assms dyn_grow_ge [of a fit]
  by (auto simp: dyn_newsize_def Let_def MIN_FIRST_ALLOC_def)

lemma dyn_newsize_linear:
  shows "dyn_newsize a fit big \<le> max MIN_FIRST_ALLOC (max a (2 * fit))"
  using dyn_grow_bound [of a fit]
  by (auto simp: dyn_newsize_def Let_def)

subsection \<open>Appending\<close>

lemma dyn_nappend_too_large:
  "toobig s \<le> leng s + length mem \<Longrightarrow>
   dyn_nappend s mem A = (CURLE_TOO_LARGE, Curl_dyn_free s, A)"
  by (simp add: dyn_nappend_def)

lemma dyn_nappend_cases [consumes 2]:
  assumes "dyn_nappend s mem A = (r, s', A')" "dyn_inv s"
  obtains
    (large) "r = CURLE_TOO_LARGE" "toobig s \<le> leng s + length mem" "s' = Curl_dyn_free s" "A' = A"
  | (oom) "r = CURLE_OUT_OF_MEMORY" "leng s + length mem < toobig s" "s' = Curl_dyn_free s"
      "alloc A = (False, A')"
  | (ok) "r = CURLE_OK" "leng s + length mem < toobig s" "dyn_inv s'"
      "dyn_content s' = dyn_content s @ mem" "toobig s' = toobig s" "bufr s' \<noteq> None"
      "A' = A \<or> A' = snd (alloc A)"
proof (cases "toobig s \<le> leng s + length mem")
  case True
  with assms large show ?thesis by (simp add: dyn_nappend_too_large)
next
  case False
  define fit where "fit = length mem + leng s + 1"
  define a where "a = dyn_newsize (allc s) fit (toobig s)"
  define old where "old = (case bufr s of None \<Rightarrow> [] | Some m \<Rightarrow> m)"
  define block where "block = (if a \<noteq> allc s then mem_resize old a else old)"
  define block' where
    "block' = mem_write (mem_write block (leng s) mem) (leng s + length mem) [0]"
  from False have fit: "fit \<le> toobig s" by (simp add: fit_def)
  from assms(2) have allc: "allc s \<le> toobig s" "length old = allc s"
    and leng: "leng s \<le> length old" "dyn_content s = take (leng s) old"
    by (auto simp: dyn_inv_def dyn_content_def old_def split: option.splits)
  have bounds: "fit \<le> a" "allc s \<le> a" "a \<le> toobig s" "0 < a"
    using dyn_newsize_bounds [OF fit allc(1)] by (auto simp: a_def fit_def)
  have block: "length block = a" "take (leng s) block = take (leng s) old"
    using bounds allc leng by (auto simp: block_def fit_def)
  have block': "length block' = a" "take (leng s + length mem) block' = take (leng s) old @ mem"
    "block' ! (leng s + length mem) = 0"
    using bounds block leng allc
    by (simp_all add: block'_def fit_def)
  obtain ok A0 where got: "(if a \<noteq> allc s then alloc A else (True, A)) = (ok, A0)"
    by (cases "if a \<noteq> allc s then alloc A else (True, A)")
  have "dyn_nappend s mem A =
      (case (if a \<noteq> allc s then alloc A else (True, A)) of
         (ok, A0) \<Rightarrow>
           if \<not> ok then (CURLE_OUT_OF_MEMORY, Curl_dyn_free s, A0)
           else (CURLE_OK, s\<lparr>bufr := Some block', leng := leng s + length mem, allc := a\<rparr>, A0))"
    using fit
    unfolding dyn_nappend_def Let_def block'_def block_def old_def a_def fit_def
    by (subst if_not_P) (simp_all only: not_less simp_thms)
  then have res: "(r, s', A') =
      (if \<not> ok then (CURLE_OUT_OF_MEMORY, Curl_dyn_free s, A0)
       else (CURLE_OK, s\<lparr>bufr := Some block', leng := leng s + length mem, allc := a\<rparr>, A0))"
    unfolding assms(1) got by simp
  show ?thesis
  proof (cases ok)
    case False
    with got have "alloc A = (False, A0)" by (simp split: if_splits)
    with oom res False \<open>\<not> toobig s \<le> leng s + length mem\<close> show ?thesis by simp
  next
    case True
    show ?thesis
    proof (rule ok)
      show "A' = A \<or> A' = snd (alloc A)"
        using got res True by (auto split: if_splits)
      show "dyn_inv s'"
        using res True block' bounds assms(2) by (auto simp: dyn_inv_def fit_def)
      show "dyn_content s' = dyn_content s @ mem"
        using res True block' leng by (simp add: dyn_content_def)
    qed (use res True False in \<open>auto simp: not_le\<close>)
  qed
qed

lemma dyn_nappend_inv [inv_intros]:
  "dyn_inv s \<Longrightarrow> dyn_nappend s mem A = (r, s', A') \<Longrightarrow> dyn_inv s'"
  by (erule (1) dyn_nappend_cases) (auto intro: inv_intros)

lemma dyn_nappend_no_oom:
  assumes "dyn_inv s" "no_oom A" "leng s + length mem < toobig s"
  obtains s' A' where "dyn_nappend s mem A = (CURLE_OK, s', A')" "dyn_inv s'" "no_oom A'"
    "dyn_content s' = dyn_content s @ mem" "toobig s' = toobig s" "bufr s' \<noteq> None"
proof -
  obtain r s' A' where eq: "dyn_nappend s mem A = (r, s', A')"
    by (cases "dyn_nappend s mem A")
  from eq assms(1) show ?thesis
  proof (cases rule: dyn_nappend_cases)
    case large
    with assms show ?thesis by simp
  next
    case oom
    with assms(2) show ?thesis by (auto dest: alloc_no_oomD)
  next
    case ok
    then have "no_oom A'"
      using assms(2) by (metis alloc_no_oom snd_conv)
    with ok eq that show ?thesis by blast
  qed
qed

subsection \<open>Shrinking\<close>

lemma dyn_reset_inv [inv_intros]: "dyn_inv s \<Longrightarrow> dyn_inv (Curl_dyn_reset s)"
  by (auto simp: dyn_inv_def Curl_dyn_reset_def mem_write_def split: option.splits)

lemma dyn_content_reset [simp, abs_simps]: "dyn_content (Curl_dyn_reset s) = []"
  by (auto simp: dyn_content_def Curl_dyn_reset_def Let_def split: option.splits)

lemma toobig_reset [simp]: "toobig (Curl_dyn_reset s) = toobig s"
  by (simp add: Curl_dyn_reset_def Let_def)

lemma leng_reset [simp]: "leng (Curl_dyn_reset s) = 0"
  by (simp add: Curl_dyn_reset_def Let_def)

lemma dyn_tail_spec:
  assumes "dyn_inv s" "trail \<le> leng s" "Curl_dyn_tail s trail = (r, s')"
  shows "r = CURLE_OK \<and> dyn_inv s' \<and>
    dyn_content s' = drop (length (dyn_content s) - trail) (dyn_content s)"
proof (cases "0 < trail \<and> trail < leng s")
  case False
  then consider "trail = leng s" | "trail = 0" "leng s \<noteq> 0"
    using assms(2) by linarith
  then show ?thesis
  proof cases
    case 1
    with assms show ?thesis
      by (simp add: Curl_dyn_tail_def dyn_len_content Curl_dyn_len_def)
  next
    case 2
    with assms have "r = CURLE_OK" "s' = Curl_dyn_reset s"
      by (simp_all add: Curl_dyn_tail_def)
    with 2 assms(1) show ?thesis by (simp add: inv_intros)
  qed
next
  case True
  from True assms(1) obtain m where m: "bufr s = Some m" "length m = allc s" "leng s < allc s"
    "allc s \<le> toobig s" "0 < toobig s"
    by (auto simp: dyn_inv_def split: option.splits)
  define k where "k = take trail (drop (leng s - trail) m)"
  have k: "length k = trail" "k = drop (leng s - trail) (take (leng s) m)"
    using m True by (auto simp: k_def take_drop)
  have "s' = s\<lparr>bufr := Some (mem_write (mem_write m 0 k) trail [0]), leng := trail\<rparr>" "r = CURLE_OK"
    using assms(3) True m by (auto simp: Curl_dyn_tail_def k_def)
  with m True k show ?thesis
    by (auto simp: dyn_inv_def dyn_content_def mem_write_def nth_append)
qed

lemma dyn_setlen_spec:
  assumes "dyn_inv s" "n \<le> leng s" "Curl_dyn_setlen s n = Some (r, s')"
  shows "r = CURLE_OK \<and> dyn_inv s' \<and> dyn_content s' = take n (dyn_content s)"
  using assms
  by (auto simp: Curl_dyn_setlen_def dyn_inv_def dyn_content_def mem_write_def nth_append
      split: option.splits)

text \<open>With a good buffer the NULL pointer is written to in one case only.\<close>

lemma dyn_setlen_null:
  "dyn_inv s \<Longrightarrow> Curl_dyn_setlen s n = None \<longleftrightarrow> bufr s = None \<and> n = 0"
  by (auto simp: Curl_dyn_setlen_def dyn_inv_def split: option.splits)

subsection \<open>The interface the clients use\<close>

locale append_buffer =
  fixes inv :: "'b \<Rightarrow> bool"
    and content :: "'b \<Rightarrow> byte list"
    and limit :: "'b \<Rightarrow> nat"
    and append :: "'b \<Rightarrow> byte list \<Rightarrow> alloc_script \<Rightarrow> CURLcode \<times> 'b \<times> alloc_script"
  assumes append_inv: "inv s \<Longrightarrow> append s m A = (r, s', A') \<Longrightarrow> inv s'"
    and append_limit: "inv s \<Longrightarrow> append s m A = (r, s', A') \<Longrightarrow> limit s' = limit s"
    and append_ok: "inv s \<Longrightarrow> append s m A = (CURLE_OK, s', A') \<Longrightarrow>
      content s' = content s @ m \<and> length (content s) + length m < limit s"
    and append_error: "inv s \<Longrightarrow> append s m A = (r, s', A') \<Longrightarrow> r \<noteq> CURLE_OK \<Longrightarrow>
      content s' = []"
    and append_enough: "inv s \<Longrightarrow> no_oom A \<Longrightarrow> length (content s) + length m < limit s \<Longrightarrow>
      \<exists>s' A'. append s m A = (CURLE_OK, s', A') \<and> no_oom A'"
begin

text \<open>Appending a list of pieces, stopping at the first error, as the client loops do.\<close>

fun append_all :: "'b \<Rightarrow> byte list list \<Rightarrow> alloc_script \<Rightarrow> CURLcode \<times> 'b \<times> alloc_script" where
  "append_all s [] A = (CURLE_OK, s, A)"
| "append_all s (m # ms) A =
     (case append s m A of
        (r, s', A') \<Rightarrow> if r = CURLE_OK then append_all s' ms A' else (r, s', A'))"

lemma append_all_ok:
  "inv s \<Longrightarrow> append_all s ms A = (CURLE_OK, s', A') \<Longrightarrow>
   inv s' \<and> content s' = content s @ concat ms"
proof (induction ms arbitrary: s A)
  case Nil
  then show ?case by simp
next
  case (Cons m ms)
  from Cons.prems(2) obtain t B where t: "append s m A = (CURLE_OK, t, B)"
    "append_all t ms B = (CURLE_OK, s', A')"
    by (auto split: prod.splits if_splits)
  with Cons.prems(1) have "inv t" "content t = content s @ m"
    by (auto dest: append_inv append_ok)
  with Cons.IH t(2) show ?case by fastforce
qed

lemma append_all_error:
  "inv s \<Longrightarrow> append_all s ms A = (r, s', A') \<Longrightarrow> r \<noteq> CURLE_OK \<Longrightarrow>
   inv s' \<and> content s' = []"
proof (induction ms arbitrary: s A)
  case Nil
  then show ?case by simp
next
  case (Cons m ms)
  obtain q t B where t: "append s m A = (q, t, B)" by (cases "append s m A")
  with Cons.prems(1) have "inv t" by (rule append_inv)
  with Cons t show ?case
    by (cases "q = CURLE_OK") (auto dest: append_error)
qed

lemma append_all_enough:
  "inv s \<Longrightarrow> no_oom A \<Longrightarrow> length (content s) + length (concat ms) < limit s \<Longrightarrow>
   \<exists>s' A'. append_all s ms A = (CURLE_OK, s', A') \<and> no_oom A'"
proof (induction ms arbitrary: s A)
  case Nil
  then show ?case by simp
next
  case (Cons m ms)
  then obtain t B where t: "append s m A = (CURLE_OK, t, B)" "no_oom B"
    using append_enough [of s A m] by auto
  have "inv t" "content t = content s @ m" "limit t = limit s"
    using Cons.prems(1) t(1) by (auto dest: append_inv append_ok append_limit)
  with Cons.IH [of t B] Cons.prems(3) t show ?case by simp
qed

end

interpretation dyn: append_buffer dyn_inv dyn_content toobig Curl_dyn_addn
proof unfold_locales
  fix s m A r s' A'
  assume *: "dyn_inv s" "Curl_dyn_addn s m A = (r, s', A')"
  then show "dyn_inv s'" by (auto simp: Curl_dyn_addn_def intro: inv_intros)
  from * show "toobig s' = toobig s"
    by (auto simp: Curl_dyn_addn_def elim!: dyn_nappend_cases)
  show "dyn_content s' = []" if "r \<noteq> CURLE_OK"
    using * that by (auto simp: Curl_dyn_addn_def elim!: dyn_nappend_cases)
next
  fix s m A s' A'
  assume *: "dyn_inv s" "Curl_dyn_addn s m A = (CURLE_OK, s', A')"
  then have "length (dyn_content s) = leng s" by (simp add: dyn_len_content Curl_dyn_len_def)
  with * show "dyn_content s' = dyn_content s @ m \<and> length (dyn_content s) + length m < toobig s"
    by (auto simp: Curl_dyn_addn_def elim!: dyn_nappend_cases)
next
  fix s A and m :: "byte list"
  assume *: "dyn_inv s" "no_oom A" "length (dyn_content s) + length m < toobig s"
  then have "leng s + length m < toobig s" by (simp add: dyn_len_content Curl_dyn_len_def)
  with * show "\<exists>s' A'. Curl_dyn_addn s m A = (CURLE_OK, s', A') \<and> no_oom A'"
    by (metis Curl_dyn_addn_def dyn_nappend_no_oom)
qed

subsection \<open>Properties\<close>

datatype dyn_op =
    Addn "byte list"
  | Add "byte list"
  | Reset
  | Free
  | Tail nat
  | Setlen nat

fun dyn_step :: "dynbuf \<Rightarrow> alloc_script \<Rightarrow> dyn_op \<Rightarrow> (CURLcode \<times> dynbuf \<times> alloc_script) option" where
  "dyn_step s A (Addn m) = Some (Curl_dyn_addn s m A)"
| "dyn_step s A (Add m) = Some (Curl_dyn_add s m A)"
| "dyn_step s A Reset = Some (CURLE_OK, Curl_dyn_reset s, A)"
| "dyn_step s A Free = Some (CURLE_OK, Curl_dyn_free s, A)"
| "dyn_step s A (Tail n) = (case Curl_dyn_tail s n of (r, s') \<Rightarrow> Some (r, s', A))"
| "dyn_step s A (Setlen n) = map_option (\<lambda>(r, s'). (r, s', A)) (Curl_dyn_setlen s n)"

fun dyn_run :: "dynbuf \<Rightarrow> alloc_script \<Rightarrow> dyn_op list \<Rightarrow> (CURLcode list \<times> dynbuf) option" where
  "dyn_run s A [] = Some ([], s)"
| "dyn_run s A (p # ps) =
     (case dyn_step s A p of
        None \<Rightarrow> None
      | Some (r, s', A') \<Rightarrow> map_option (\<lambda>(rs, t). (r # rs, t)) (dyn_run s' A' ps))"

text \<open>
  The specification: a byte string with a limit, \<open>None\<close> before the first append and after an
  error. The last case is the one the code has no answer to.
\<close>

definition dyn_string :: "dynbuf \<Rightarrow> byte list option" where
  "dyn_string s = map_option (take (leng s)) (bufr s)"

definition str_append :: "nat \<Rightarrow> byte list option \<Rightarrow> byte list \<Rightarrow> CURLcode \<times> byte list option" where
  "str_append big c m =
     (let c = (case c of None \<Rightarrow> [] | Some c \<Rightarrow> c)
      in if length c + length m < big then (CURLE_OK, Some (c @ m)) else (CURLE_TOO_LARGE, None))"

fun str_step :: "nat \<Rightarrow> byte list option \<Rightarrow> dyn_op \<Rightarrow> (CURLcode \<times> byte list option) option" where
  "str_step big c (Addn m) = Some (str_append big c m)"
| "str_step big c (Add m) = Some (str_append big c (cstr m))"
| "str_step big c Reset = Some (CURLE_OK, map_option (\<lambda>_. []) c)"
| "str_step big c Free = Some (CURLE_OK, None)"
| "str_step big None (Tail n) = Some (if 0 < n then CURLE_BAD_FUNCTION_ARGUMENT else CURLE_OK, None)"
| "str_step big (Some c) (Tail n) =
     Some (if length c < n then (CURLE_BAD_FUNCTION_ARGUMENT, Some c) else (CURLE_OK, Some (drop (length c - n) c)))"
| "str_step big (Some c) (Setlen n) =
     Some (if length c < n then (CURLE_BAD_FUNCTION_ARGUMENT, Some c) else (CURLE_OK, Some (take n c)))"
| "str_step big None (Setlen n) = (if 0 < n then Some (CURLE_BAD_FUNCTION_ARGUMENT, None) else None)"

fun str_run :: "nat \<Rightarrow> byte list option \<Rightarrow> dyn_op list \<Rightarrow> (CURLcode list \<times> byte list option) option" where
  "str_run big c [] = Some ([], c)"
| "str_run big c (p # ps) =
     (case str_step big c p of
        None \<Rightarrow> None
      | Some (r, c') \<Rightarrow> map_option (\<lambda>(rs, d). (r # rs, d)) (str_run big c' ps))"

lemma dyn_string_cases:
  assumes "dyn_inv s"
  shows "(case dyn_string s of None \<Rightarrow> [] | Some c \<Rightarrow> c) = dyn_content s"
    "dyn_string s = None \<longleftrightarrow> bufr s = None" "dyn_string s = Some c \<Longrightarrow> length c = leng s"
  using assms by (auto simp: dyn_string_def dyn_content_def dyn_inv_def split: option.splits)

lemma dyn_string_content:
  "bufr s \<noteq> None \<Longrightarrow> dyn_string s = Some (dyn_content s)"
  by (auto simp: dyn_string_def dyn_content_def)

lemma dyn_nappend_refines:
  assumes "dyn_inv s" "no_oom A" "dyn_nappend s m A = (r, s', A')"
  shows "dyn_inv s' \<and> toobig s' = toobig s \<and> no_oom A' \<and>
    (r, dyn_string s') = str_append (toobig s) (dyn_string s) m"
proof -
  have len: "length (dyn_content s) = leng s"
    using dyn_len_content [OF assms(1)] by (simp add: Curl_dyn_len_def)
  have spec: "str_append (toobig s) (dyn_string s) m =
    (if leng s + length m < toobig s then (CURLE_OK, Some (dyn_content s @ m)) else (CURLE_TOO_LARGE, None))"
    unfolding str_append_def dyn_string_cases(1) [OF assms(1)] Let_def len ..
  show ?thesis
  proof (cases "leng s + length m < toobig s")
    case True
    from dyn_nappend_no_oom [OF assms(1,2) this] obtain t B where
      "dyn_nappend s m A = (CURLE_OK, t, B)" "dyn_inv t" "no_oom B"
      "dyn_content t = dyn_content s @ m" "toobig t = toobig s" "bufr t \<noteq> None" by metis
    with assms(3) spec True show ?thesis by (simp add: dyn_string_content del: not_None_eq)
  next
    case False
    with assms(3) have "r = CURLE_TOO_LARGE" "s' = Curl_dyn_free s" "A' = A"
      by (simp_all add: dyn_nappend_too_large)
    with False spec assms(1,2) show ?thesis by (simp add: inv_intros dyn_string_def Curl_dyn_free_def dyn_inv_def)
  qed
qed

lemma dyn_tail_refines:
  assumes "dyn_inv s" "Curl_dyn_tail s n = (r, s')"
  shows "dyn_inv s' \<and> toobig s' = toobig s \<and> Some (r, dyn_string s') = str_step (toobig s) (dyn_string s) (Tail n)"
proof (cases "bufr s")
  case None
  with assms show ?thesis
    by (auto simp: Curl_dyn_tail_def dyn_string_def dyn_inv_def split: if_splits)
next
  case (Some m)
  have len: "length (dyn_content s) = leng s"
    using dyn_len_content [OF assms(1)] by (simp add: Curl_dyn_len_def)
  have c: "dyn_string s = Some (dyn_content s)" using Some by (simp add: dyn_string_content)
  have b: "bufr s' \<noteq> None" "toobig s' = toobig s"
    using assms(2) Some by (auto simp: Curl_dyn_tail_def Curl_dyn_reset_def Let_def split: if_splits)
  show ?thesis
  proof (cases "leng s < n")
    case True
    with assms len c show ?thesis by (simp add: Curl_dyn_tail_def)
  next
    case False
    with dyn_tail_spec [OF assms(1) _ assms(2)] have "r = CURLE_OK" "dyn_inv s'"
      "dyn_content s' = drop (length (dyn_content s) - n) (dyn_content s)" by simp_all
    with False len c b dyn_string_content [OF b(1)] show ?thesis by simp
  qed
qed

lemma dyn_setlen_refines:
  assumes "dyn_inv s" "Curl_dyn_setlen s n = Some (r, s')"
  shows "dyn_inv s' \<and> toobig s' = toobig s \<and> Some (r, dyn_string s') = str_step (toobig s) (dyn_string s) (Setlen n)"
proof (cases "bufr s")
  case None
  with assms show ?thesis
    by (auto simp: Curl_dyn_setlen_def dyn_string_def dyn_inv_def split: if_splits)
next
  case (Some m)
  have len: "length (dyn_content s) = leng s"
    using dyn_len_content [OF assms(1)] by (simp add: Curl_dyn_len_def)
  have c: "dyn_string s = Some (dyn_content s)" using Some by (simp add: dyn_string_content)
  have b: "bufr s' \<noteq> None" "toobig s' = toobig s"
    using assms(2) Some by (auto simp: Curl_dyn_setlen_def split: if_splits)
  show ?thesis
  proof (cases "leng s < n")
    case True
    with assms len c show ?thesis by (simp add: Curl_dyn_setlen_def)
  next
    case False
    with dyn_setlen_spec [OF assms(1) _ assms(2)] have "r = CURLE_OK" "dyn_inv s'"
      "dyn_content s' = take n (dyn_content s)" by simp_all
    with False len c b dyn_string_content [OF b(1)] show ?thesis by simp
  qed
qed

text \<open>One operation: both have no answer, or both answer alike.\<close>

lemma dyn_step_refines:
  assumes "dyn_inv s" "no_oom A"
  shows "case dyn_step s A p of
      None \<Rightarrow> str_step (toobig s) (dyn_string s) p = None
    | Some (r, s', A') \<Rightarrow> dyn_inv s' \<and> toobig s' = toobig s \<and> no_oom A' \<and>
        str_step (toobig s) (dyn_string s) p = Some (r, dyn_string s')"
proof (cases p)
  case (Addn m)
  obtain r s' A' where "dyn_nappend s m A = (r, s', A')" by (cases "dyn_nappend s m A")
  with dyn_nappend_refines [OF assms this] Addn show ?thesis by (simp add: Curl_dyn_addn_def)
next
  case (Add m)
  obtain r s' A' where "dyn_nappend s (cstr m) A = (r, s', A')" by (cases "dyn_nappend s (cstr m) A")
  with dyn_nappend_refines [OF assms this] Add show ?thesis by (simp add: Curl_dyn_add_def)
next
  case Reset
  have "dyn_string (Curl_dyn_reset s) = map_option (\<lambda>_. []) (dyn_string s)"
    by (simp add: dyn_string_def Curl_dyn_reset_def Let_def option.map_comp comp_def)
  with Reset assms show ?thesis by (simp add: inv_intros)
next
  case Free
  with assms show ?thesis by (simp add: inv_intros dyn_string_def Curl_dyn_free_def dyn_inv_def)
next
  case (Tail n)
  obtain r s' where "Curl_dyn_tail s n = (r, s')" by (cases "Curl_dyn_tail s n")
  with dyn_tail_refines [OF assms(1) this] Tail assms(2) show ?thesis by simp
next
  case (Setlen n)
  show ?thesis
  proof (cases "Curl_dyn_setlen s n")
    case None
    then have "dyn_string s = None" "n = 0" using dyn_setlen_null [OF assms(1)] by (simp_all add: dyn_string_def)
    with None Setlen show ?thesis by simp
  next
    case (Some z)
    obtain r s' where z: "z = (r, s')" by (cases z)
    with dyn_setlen_refines [OF assms(1)] Some Setlen assms(2) show ?thesis by simp
  qed
qed

text \<open>
  C14. While no allocation fails, any sequence of operations on a buffer gives the return
  codes and the content of the same operations on a byte string with a size limit that is
  absent before the first append, after freeing and after an error. The one operation
  without an answer is to set the length 0 while the string is absent: there, and only
  there, the code writes through a NULL pointer. The operations keep the buffer's invariant:
  the block has the recorded size, is never larger than the limit, and ends the content with
  a zero byte.
\<close>

theorem dynbuf_refines_string:
  assumes "dyn_inv s" "no_oom A"
  shows "map_option (\<lambda>(rs, t). (rs, dyn_string t)) (dyn_run s A ps) = str_run (toobig s) (dyn_string s) ps \<and>
    (case dyn_run s A ps of None \<Rightarrow> True | Some (rs, t) \<Rightarrow> dyn_inv t)"
  using assms
proof (induction ps arbitrary: s A)
  case (Cons p ps)
  note step = dyn_step_refines [OF Cons.prems, of p]
  show ?case
  proof (cases "dyn_step s A p")
    case None
    with step show ?thesis by simp
  next
    case (Some z)
    obtain r s1 A1 where z: "z = (r, s1, A1)" by (cases z)
    with Some step have s1: "dyn_inv s1" "no_oom A1" "toobig s1 = toobig s"
      "str_step (toobig s) (dyn_string s) p = Some (r, dyn_string s1)" by simp_all
    from Cons.IH [OF s1(1,2)] Some z s1(3,4) show ?thesis
      by (cases "dyn_run s1 A1 ps"; cases "str_run (toobig s) (dyn_string s1) ps") auto
  qed
qed simp

theorem dynbuf_refines_string_witness:
  "map_option (\<lambda>(rs, t). (rs, dyn_string t))
      (dyn_run (Curl_dyn_init 8) [] [Addn [1, 2, 3], Tail 2, Add (s2b ''xyz''), Setlen 9, Addn [4, 5, 6]]) =
    str_run (toobig (Curl_dyn_init 8)) (dyn_string (Curl_dyn_init 8))
      [Addn [1, 2, 3], Tail 2, Add (s2b ''xyz''), Setlen 9, Addn [4, 5, 6]] \<and>
   (case dyn_run (Curl_dyn_init 8) [] [Addn [1, 2, 3], Tail 2, Add (s2b ''xyz''), Setlen 9, Addn [4, 5, 6]] of
      None \<Rightarrow> True | Some (rs, t) \<Rightarrow> dyn_inv t)"
  by (rule dynbuf_refines_string) (simp_all add: inv_intros)

text \<open>The write through NULL, on a buffer that was only initialised.\<close>

lemma setlen_writes_null: "dyn_run (Curl_dyn_init big) A [Setlen 0] = None"
  by (simp add: Curl_dyn_setlen_def Curl_dyn_init_def)

text \<open>
  An append either succeeds, adding exactly its bytes, or frees the buffer and reports
  why: \<open>CURLE_TOO_LARGE\<close> exactly when the result with its terminating zero would exceed
  the limit, \<open>CURLE_OUT_OF_MEMORY\<close> only when the allocator failed.
\<close>

theorem dynbuf_append_or_free:
  assumes "dyn_inv s" "Curl_dyn_addn s m A = (r, s', A')"
  shows "dyn_inv s' \<and> toobig s' = toobig s \<and>
    (r = CURLE_TOO_LARGE \<longleftrightarrow> toobig s \<le> length (dyn_content s) + length m) \<and>
    (r = CURLE_OK \<and> dyn_content s' = dyn_content s @ m \<or>
     r = CURLE_TOO_LARGE \<and> Curl_dyn_ptr s' = None \<or>
     r = CURLE_OUT_OF_MEMORY \<and> \<not> fst (alloc A) \<and> Curl_dyn_ptr s' = None)"
proof -
  have len: "length (dyn_content s) = leng s"
    using dyn_len_content [OF assms(1)] by (simp add: Curl_dyn_len_def)
  from assms have "dyn_nappend s m A = (r, s', A')" by (simp add: Curl_dyn_addn_def)
  from this assms(1) show ?thesis
    by (cases rule: dyn_nappend_cases)
      (use assms(1) len in \<open>auto simp: Curl_dyn_ptr_def Curl_dyn_free_def dyn_inv_def\<close>)
qed

theorem dynbuf_append_or_free_witness:
  "let s = Curl_dyn_init 3; r = Curl_dyn_addn s [1, 2, 3] []
   in dyn_inv (fst (snd r)) \<and> toobig (fst (snd r)) = toobig s \<and>
    (fst r = CURLE_TOO_LARGE \<longleftrightarrow> toobig s \<le> length (dyn_content s) + length [1, 2, 3 :: byte]) \<and>
    (fst r = CURLE_OK \<and> dyn_content (fst (snd r)) = dyn_content s @ [1, 2, 3] \<or>
     fst r = CURLE_TOO_LARGE \<and> Curl_dyn_ptr (fst (snd r)) = None \<or>
     fst r = CURLE_OUT_OF_MEMORY \<and> \<not> fst (alloc []) \<and> Curl_dyn_ptr (fst (snd r)) = None)"
  unfolding Let_def
  by (rule dynbuf_append_or_free [where A' = "snd (snd (Curl_dyn_addn (Curl_dyn_init 3) [1, 2, 3] []))"])
    (simp_all add: inv_intros)

end
