(* ===== verification/Base64.thy ===== *)
theory Base64
  imports Prelude
begin

text \<open>
  Base64 encoding and decoding, \<open>base64.c\<close>. Input pointers walk over byte lists; the
  32-bit accumulator \<open>x\<close> of the decoder is a \<^typ>\<open>32 word\<close>. The main results are the
  exact set of strings the decoder accepts, the length of its output, and that decoding
  inverts encoding.
\<close>

definition base64encdec :: "byte list" where
  "base64encdec =
     s2b ''ABCDEFGHIJKLMNOPQRSTUVWXYZabcdefghijklmnopqrstuvwxyz0123456789+/=''"

definition base64url :: "byte list" where
  "base64url =
     s2b ''ABCDEFGHIJKLMNOPQRSTUVWXYZabcdefghijklmnopqrstuvwxyz0123456789-_''"

definition decodetable :: "byte list" where
  "decodetable =
   [62, 255, 255, 255, 63, 52, 53, 54, 55, 56, 57, 58, 59, 60, 61, 255, 255, 255,
    255, 255, 255, 255, 0, 1, 2, 3, 4, 5, 6, 7, 8, 9, 10, 11, 12, 13, 14, 15, 16,
    17, 18, 19, 20, 21, 22, 23, 24, 25, 255, 255, 255, 255, 255, 255, 26, 27, 28,
    29, 30, 31, 32, 33, 34, 35, 36, 37, 38, 39, 40, 41, 42, 43, 44, 45, 46, 47,
    48, 49, 50, 51]"

text \<open>The 256-entry table filled by \<open>memset\<close> and \<open>memcpy\<close> (\<open>'+'\<close> is 43).\<close>

definition lookup :: "byte \<Rightarrow> byte" where
  "lookup c =
     (if 43 \<le> unat c \<and> unat c < 43 + length decodetable
      then decodetable ! (unat c - 43) else 0xff)"

subsection \<open>Decoding\<close>

function count_padding :: "byte list \<Rightarrow> nat \<Rightarrow> nat option" where
  "count_padding src padding =
     (if at src (length src - 1 - padding) = 0x3D
      then (if padding + 1 > 2 then None else count_padding src (padding + 1))
      else Some padding)"
  by pat_completeness auto
termination
  by (relation "measure (\<lambda>(src, padding). 3 - padding)") auto

declare count_padding.simps [simp del]

text \<open>The loop over the four characters of a quantum without padding.\<close>

fun decode_chars :: "nat \<Rightarrow> 32 word \<Rightarrow> byte list \<Rightarrow> (32 word \<times> byte list) option" where
  "decode_chars 0 x src = Some (x, src)"
| "decode_chars (Suc j) x src =
     (let val = lookup (at src 0)
      in if val = 0xff then None
         else decode_chars j (push_bit 6 x OR ucast val) (drop 1 src))"

definition quantum_bytes :: "32 word \<Rightarrow> byte list" where
  "quantum_bytes x =
     [ucast (drop_bit 16 x AND 0xff), ucast (drop_bit 8 x AND 0xff), ucast (x AND 0xff)]"

fun decode_quantums :: "nat \<Rightarrow> byte list \<Rightarrow> (byte list \<times> byte list) option" where
  "decode_quantums 0 src = Some ([], src)"
| "decode_quantums (Suc n) src =
     (case decode_chars 4 0 src of
        None \<Rightarrow> None
      | Some (x, src') \<Rightarrow>
          (case decode_quantums n src' of
             None \<Rightarrow> None
           | Some (out, rest) \<Rightarrow> Some (quantum_bytes x @ out, rest)))"

fun decode_padded :: "nat \<Rightarrow> 32 word \<Rightarrow> nat \<Rightarrow> nat \<Rightarrow> byte list \<Rightarrow> 32 word option" where
  "decode_padded 0 x padc padding src = Some x"
| "decode_padded (Suc j) x padc padding src =
     (if at src 0 = 0x3D then
        (if padding < padc + 1 then None
         else decode_padded j (push_bit 6 x) (padc + 1) padding (drop 1 src))
      else
        (let val = lookup (at src 0)
         in if val = 0xff then None
            else decode_padded j (push_bit 6 x OR ucast val) padc padding (drop 1 src)))"

definition Curl_base64_decode :: "byte list \<Rightarrow> alloc_script \<Rightarrow> CURLcode \<times> byte list option" where
  "Curl_base64_decode src A =
     (let srclen = length src
      in if srclen = 0 \<or> srclen mod 4 \<noteq> 0 then (CURLE_BAD_CONTENT_ENCODING, None)
         else case count_padding src 0 of
           None \<Rightarrow> (CURLE_BAD_CONTENT_ENCODING, None)
         | Some padding \<Rightarrow>
             let numQuantums = srclen div 4;
                 fullQuantums = numQuantums - (if padding \<noteq> 0 then 1 else 0)
             in if \<not> fst (alloc A) then (CURLE_OUT_OF_MEMORY, None)
                else case decode_quantums fullQuantums src of
                  None \<Rightarrow> (CURLE_BAD_CONTENT_ENCODING, None)
                | Some (out, rest) \<Rightarrow>
                    if padding = 0 then (CURLE_OK, Some out)
                    else case decode_padded 4 0 0 padding rest of
                      None \<Rightarrow> (CURLE_BAD_CONTENT_ENCODING, None)
                    | Some x \<Rightarrow>
                        (CURLE_OK, Some (out @ take (3 - padding) (quantum_bytes x))))"

subsection \<open>Encoding\<close>

fun encode_loop :: "byte list \<Rightarrow> byte list \<Rightarrow> byte list" where
  "encode_loop t (a # b # c # rest) =
     t ! unat (drop_bit 2 a)
     # t ! unat (push_bit 4 (a AND 0x03) OR drop_bit 4 b)
     # t ! unat (push_bit 2 (b AND 0x0F) OR drop_bit 6 (c AND 0xC0))
     # t ! unat (c AND 0x3F)
     # encode_loop t rest"
| "encode_loop t [a] =
     [t ! unat (drop_bit 2 a), t ! unat (push_bit 4 (a AND 0x03))]
     @ (if at t 64 \<noteq> 0 then [at t 64, at t 64] else [])"
| "encode_loop t [a, b] =
     [t ! unat (drop_bit 2 a),
      t ! unat (push_bit 4 (a AND 0x03) OR drop_bit 4 (b AND 0xF0)),
      t ! unat (push_bit 2 (b AND 0x0F))]
     @ (if at t 64 \<noteq> 0 then [at t 64] else [])"
| "encode_loop t [] = []"

definition base64_encode ::
  "byte list \<Rightarrow> byte list \<Rightarrow> nat \<Rightarrow> alloc_script \<Rightarrow> CURLcode \<times> byte list option" where
  "base64_encode table64 inputbuff insize A =
     (let n = (if insize = 0 then length (cstr inputbuff) else insize)
      in if \<not> fst (alloc A) then (CURLE_OUT_OF_MEMORY, None)
         else (CURLE_OK, Some (encode_loop table64 (take n inputbuff))))"

definition Curl_base64_encode ::
  "byte list \<Rightarrow> nat \<Rightarrow> alloc_script \<Rightarrow> CURLcode \<times> byte list option" where
  "Curl_base64_encode inputbuff insize A = base64_encode base64encdec inputbuff insize A"

definition Curl_base64url_encode ::
  "byte list \<Rightarrow> nat \<Rightarrow> alloc_script \<Rightarrow> CURLcode \<times> byte list option" where
  "Curl_base64url_encode inputbuff insize A = base64_encode base64url inputbuff insize A"

subsection \<open>The tables\<close>

lemma length_base64encdec [simp]: "length base64encdec = 65"
  by (simp add: base64encdec_def)

lemma map_lookup_encdec: "map lookup base64encdec = map word_of_nat [0..<64] @ [0xff]"
proof -
  have "map lookup base64encdec = map word_of_nat (0 # 1 # [2..<64]) @ [0xff]"
    by (simp add: base64encdec_def lookup_def decodetable_def upt_rec_numeral)
  then show ?thesis by (simp add: upt_conv_Cons numeral_2_eq_2)
qed

lemma pad_notin_encdec: "0x3D \<notin> set (take 64 base64encdec)"
  by (simp add: base64encdec_def)

lemma lookup_base64encdec:
  assumes "n < 64"
  shows "lookup (base64encdec ! n) = word_of_nat n" "base64encdec ! n \<noteq> 0x3D"
proof -
  have "lookup (base64encdec ! n) = map lookup base64encdec ! n"
    using assms by simp
  also have "\<dots> = word_of_nat n"
    unfolding map_lookup_encdec using assms by (simp add: nth_append)
  finally show "lookup (base64encdec ! n) = word_of_nat n" .
  have "base64encdec ! n \<in> set (take 64 base64encdec)"
    using assms by (auto simp: in_set_conv_nth intro!: exI [of _ n])
  then show "base64encdec ! n \<noteq> 0x3D"
    using pad_notin_encdec by metis
qed

lemma lookup_encdec_word:
  "(v :: byte) < 64 \<Longrightarrow> lookup (base64encdec ! unat v) = v \<and> base64encdec ! unat v \<noteq> 0x3D"
  using lookup_base64encdec [of "unat v"] by (simp add: word_less_nat_alt)

lemma at_base64encdec_64 [simp]: "at base64encdec 64 = 0x3D"
  by (simp add: base64encdec_def)

lemma at_base64url_64 [simp]: "at base64url 64 = 0"
  by (simp add: base64url_def)

lemma lookup_pad [simp]: "lookup 0x3D = 0xff"
  by (simp add: lookup_def decodetable_def)

subsection \<open>Bits\<close>

lemma byte_less_64I: "\<not> bit w 6 \<Longrightarrow> \<not> bit w 7 \<Longrightarrow> (w :: byte) < 64"
proof -
  assume a: "\<not> bit w 6" "\<not> bit w 7"
  have "take_bit 6 w = w"
    by (rule bit_word_eqI) (use a in \<open>auto simp: bit_simps less_8_cases\<close>)
  then have "unat w = take_bit 6 (unat w)" by (metis unsigned_take_bit_eq)
  also have "\<dots> < 2 ^ 6" by (rule take_bit_nat_less_exp)
  finally show ?thesis by (simp add: word_less_nat_alt)
qed

text \<open>The four six-bit groups of three bytes.\<close>

definition six1 :: "byte \<Rightarrow> byte" where "six1 a = drop_bit 2 a"
definition six2 :: "byte \<Rightarrow> byte \<Rightarrow> byte" where "six2 a b = push_bit 4 (a AND 0x03) OR drop_bit 4 b"
definition six3 :: "byte \<Rightarrow> byte \<Rightarrow> byte" where
  "six3 b c = push_bit 2 (b AND 0x0F) OR drop_bit 6 (c AND 0xC0)"
definition six4 :: "byte \<Rightarrow> byte" where "six4 c = c AND 0x3F"

lemmas six_defs = six1_def six2_def six3_def six4_def

lemma six_less [simp]: "six1 a < 64" "six2 a b < 64" "six3 b c < 64" "six4 c < 64"
  unfolding six_defs by (rule byte_less_64I; simp add: bit_simps)+

lemma six_not_bad [simp]: "six1 a \<noteq> 255" "six2 a b \<noteq> 255" "six3 b c \<noteq> 255" "six4 c \<noteq> 255"
  using six_less(1) [of a] six_less(2) [of a b] six_less(3) [of b c] six_less(4) [of c]
  by (auto simp del: six_less)

definition sym :: "byte \<Rightarrow> byte" where "sym v = base64encdec ! unat v"

lemma sym_simps [simp]: "v < 64 \<Longrightarrow> lookup (sym v) = v" "v < 64 \<Longrightarrow> sym v \<noteq> 0x3D"
  by (simp_all add: sym_def lookup_encdec_word)

lemma encode_loop_sym:
  "encode_loop base64encdec (a # b # c # rest) =
     sym (six1 a) # sym (six2 a b) # sym (six3 b c) # sym (six4 c) # encode_loop base64encdec rest"
  "encode_loop base64encdec [a, b] = [sym (six1 a), sym (six2 a b), sym (six3 b 0), 0x3D]"
  "encode_loop base64encdec [a] = [sym (six1 a), sym (six2 a 0), 0x3D, 0x3D]"
proof -
  have "drop_bit 4 (b AND 0xF0) = drop_bit 4 b"
    by (rule bit_word_eqI) (auto simp: bit_simps less_8_cases)
  then show "encode_loop base64encdec [a, b] = [sym (six1 a), sym (six2 a b), sym (six3 b 0), 0x3D]"
    by (simp only: encode_loop.simps at_base64encdec_64 sym_def six_defs) simp
qed (simp_all add: sym_def six_defs)

declare encode_loop.simps (1-3) [simp del]

definition pack :: "byte \<Rightarrow> byte \<Rightarrow> byte \<Rightarrow> byte \<Rightarrow> 32 word" where
  "pack v0 v1 v2 v3 =
     push_bit 6 (push_bit 6 (push_bit 6 (ucast v0) OR ucast v1) OR ucast v2) OR ucast v3"

lemma quantum_of_sextets:
  "quantum_bytes (pack (six1 a) (six2 a b) (six3 b c) (six4 c)) = [a, b, c]"
  unfolding quantum_bytes_def pack_def six_defs list.inject
  by (intro conjI bit_word_eqI; simp add: less_8_cases; elim disjE; simp add: bit_simps)

lemma quantum_of_sextets2:
  "take 2 (quantum_bytes (pack (six1 a) (six2 a b) (six3 b 0) 0)) = [a, b]"
  unfolding quantum_bytes_def pack_def six_defs
  by (simp, intro conjI bit_word_eqI; simp add: less_8_cases; elim disjE; simp add: bit_simps)

lemma quantum_of_sextets1:
  "take (Suc 0) (quantum_bytes (pack (six1 a) (six2 a 0) 0 0)) = [a]"
  unfolding quantum_bytes_def pack_def six_defs
  by (simp, intro conjI bit_word_eqI; simp add: less_8_cases; elim disjE; simp add: bit_simps)

subsection \<open>Padding and quantums\<close>

lemma count_padding_quantum:
  "count_padding (p @ [c0, c1, c2, c3]) 0 =
     (if c3 \<noteq> 0x3D then Some 0 else if c2 \<noteq> 0x3D then Some 1
      else if c1 \<noteq> 0x3D then Some 2 else None)"
proof -
  define s where "s = p @ [c0, c1, c2, c3]"
  have at: "at s (length s - 1) = c3" "at s (length s - 1 - 1) = c2"
    "at s (length s - 1 - 2) = c1"
    using at_append [of p "[c0, c1, c2, c3]" 3] at_append [of p "[c0, c1, c2, c3]" 2]
      at_append [of p "[c0, c1, c2, c3]" 1]
    by (simp_all add: s_def numeral_eq_Suc)
  have at': "at s (length s - Suc 0) = c3" "at s (length s - Suc (Suc 0)) = c2"
    using at by (simp_all add: numeral_2_eq_2)
  have "count_padding s 0 = (if c3 = 0x3D then count_padding s 1 else Some 0)"
    by (subst count_padding.simps) (simp add: at')
  moreover have "count_padding s 1 = (if c2 = 0x3D then count_padding s 2 else Some 1)"
    by (subst count_padding.simps) (simp add: at' numeral_2_eq_2)
  moreover have "count_padding s 2 = (if c1 = 0x3D then None else Some 2)"
    by (subst count_padding.simps) (use at(3) in \<open>simp add: numeral_eq_Suc\<close>)
  ultimately show ?thesis unfolding s_def [symmetric] by auto
qed

lemma decode_chars_valid:
  "lookup c \<noteq> 0xff \<Longrightarrow>
   decode_chars (Suc j) x (c # s) = decode_chars j (push_bit 6 x OR ucast (lookup c)) s"
  by (simp add: Let_def)

lemma decode_chars_quantum:
  "decode_chars 4 0 (c0 # c1 # c2 # c3 # s) =
     (if lookup c0 \<noteq> 0xff \<and> lookup c1 \<noteq> 0xff \<and> lookup c2 \<noteq> 0xff \<and> lookup c3 \<noteq> 0xff
      then Some (pack (lookup c0) (lookup c1) (lookup c2) (lookup c3), s) else None)"
  by (simp add: numeral_eq_Suc Let_def pack_def)

lemma decode_padded_1:
  "c2 \<noteq> 0x3D \<Longrightarrow> decode_padded 4 0 0 1 [c0, c1, c2, 0x3D] =
     (if lookup c0 \<noteq> 0xff \<and> lookup c1 \<noteq> 0xff \<and> lookup c2 \<noteq> 0xff
      then Some (pack (lookup c0) (lookup c1) (lookup c2) 0) else None)"
  by (auto simp add: numeral_eq_Suc Let_def pack_def)

lemma decode_padded_2:
  "c1 \<noteq> 0x3D \<Longrightarrow> decode_padded 4 0 0 2 [c0, c1, 0x3D, 0x3D] =
     (if lookup c0 \<noteq> 0xff \<and> lookup c1 \<noteq> 0xff
      then Some (pack (lookup c0) (lookup c1) 0 0) else None)"
  by (auto simp add: numeral_eq_Suc Let_def pack_def)

subsection \<open>Round trip\<close>

lemma encode_loop_append:
  "length xs mod 3 = 0 \<Longrightarrow> encode_loop t (xs @ ys) = encode_loop t xs @ encode_loop t ys"
  by (induction t xs rule: encode_loop.induct) (auto simp: encode_loop.simps mod_Suc split: if_splits)

lemma length_encode_loop:
  "at t 64 \<noteq> 0 \<Longrightarrow> length (encode_loop t xs) = 4 * ((length xs + 2) div 3)"
proof (induction t xs rule: encode_loop.induct)
  case (1 t a b c rest)
  have "(length (a # b # c # rest) + 2) div 3 = Suc ((length rest + 2) div 3)"
    by simp
  with 1 show ?case by (simp add: encode_loop.simps)
qed (simp_all add: encode_loop.simps)

lemma length_encode_loop_url:
  "at t 64 = 0 \<Longrightarrow> length (encode_loop t xs) = (4 * length xs + 2) div 3"
  by (induction t xs rule: encode_loop.induct) (auto simp: encode_loop.simps)

lemma decode_encode_quantums:
  "length xs = 3 * n \<Longrightarrow>
   decode_quantums n (encode_loop base64encdec xs @ rest) = Some (xs, rest)"
proof (induction n arbitrary: xs)
  case 0
  then show ?case by simp
next
  case (Suc n)
  then obtain a b c ys where xs: "xs = a # b # c # ys" "length ys = 3 * n"
    by (auto simp: length_Suc_conv numeral_eq_Suc)
  show ?case
    by (simp add: xs encode_loop_sym decode_chars_quantum quantum_of_sextets Suc.IH)
qed

text \<open>A non-empty list splits into whole triples and a last group of one to three bytes.\<close>

lemma last_group:
  assumes "xs \<noteq> []"
  obtains ys zs where "xs = ys @ zs" "length ys mod 3 = 0" "0 < length zs" "length zs \<le> 3"
proof -
  define k where "k = 3 * ((length xs - 1) div 3)"
  have len: "0 < length xs" using assms by simp
  have "length xs - 1 = k + (length xs - 1) mod 3" "(length xs - 1) mod 3 < 3"
    by (simp_all add: k_def)
  then have k: "k < length xs" "length xs \<le> k + 3" using len by linarith+
  show ?thesis
    by (rule that [of "take k xs" "drop k xs"]) (use k in \<open>auto simp: k_def\<close>)
qed

lemma decode_encode_loop:
  assumes "xs \<noteq> []" "no_oom A"
  shows "Curl_base64_decode (encode_loop base64encdec xs) A = (CURLE_OK, Some xs)"
proof -
  let ?t = base64encdec
  obtain ys zs where g: "xs = ys @ zs" "length ys mod 3 = 0" "0 < length zs" "length zs \<le> 3"
    using assms(1) by (rule last_group)
  obtain n where n: "length ys = 3 * n" using g(2) by (metis dvd_def mod_0_imp_dvd)
  define e where "e = encode_loop ?t ys"
  have e: "length e = 4 * n" using n by (simp add: e_def length_encode_loop)
  have enc: "encode_loop ?t xs = e @ encode_loop ?t zs"
    using g by (simp add: encode_loop_append e_def)
  have dq: "decode_quantums n (e @ r) = Some (ys, r)" for r
    using decode_encode_quantums [OF n] by (simp add: e_def)
  have ok: "fst (alloc A)" using assms(2) by (metis alloc_no_oom fst_conv)
  consider (three) a b c where "zs = [a, b, c]" | (two) a b where "zs = [a, b]"
    | (one) a where "zs = [a]"
    using g(3,4) by (auto simp: le_Suc_eq length_Suc_conv numeral_eq_Suc)
  then show ?thesis
  proof cases
    case three
    have "decode_quantums (Suc n) (encode_loop ?t xs) = Some (xs, [])"
      using decode_encode_quantums [of xs "Suc n" "[]"] n g three by simp
    then show ?thesis
      using ok three enc e
      by (simp add: Curl_base64_decode_def encode_loop_sym count_padding_quantum)
  next
    case two
    then show ?thesis
      using ok enc e dq g(1)
      by (simp add: Curl_base64_decode_def encode_loop_sym count_padding_quantum
          decode_padded_1 [simplified] quantum_of_sextets2)
  next
    case one
    then show ?thesis
      using ok enc e dq g(1)
      by (simp add: Curl_base64_decode_def encode_loop_sym count_padding_quantum
          decode_padded_2 quantum_of_sextets1)
  qed
qed

text \<open>Encoding, as the callers see it, and back.\<close>

lemma base64_encode_ok:
  assumes "no_oom A" "n \<noteq> 0"
  shows "base64_encode t inp n A = (CURLE_OK, Some (encode_loop t (take n inp)))"
proof -
  have "fst (alloc A)" using assms(1) by (metis alloc_no_oom fst_conv)
  with assms(2) show ?thesis by (simp add: base64_encode_def)
qed

subsection \<open>The strings the decoder accepts\<close>

definition base64_wf :: "byte list \<Rightarrow> bool" where
  "base64_wf s \<longleftrightarrow> s \<noteq> [] \<and> length s mod 4 = 0 \<and>
     (\<exists>pad \<le> 2. drop (length s - pad) s = replicate pad 0x3D \<and>
        set (take (length s - pad) s) \<subseteq> set (take 64 base64encdec))"

lemma decodetable_symbols:
  "list_all (\<lambda>(i, d). d = 255 \<or> d < 64 \<and> base64encdec ! unat d = word_of_nat i)
     (enumerate 43 decodetable)"
  by (simp add: decodetable_def base64encdec_def)

lemma lookup_valid_iff: "lookup c \<noteq> 255 \<longleftrightarrow> c \<in> set (take 64 base64encdec)"
proof
  assume v: "lookup c \<noteq> 255"
  then have r: "43 \<le> unat c" "unat c < 43 + length decodetable"
    by (auto simp: lookup_def split: if_splits)
  define i where "i = unat c - 43"
  have i: "i < length decodetable" "unat c = 43 + i" using r by (auto simp: i_def)
  then have "(43 + i, decodetable ! i) \<in> set (enumerate 43 decodetable)"
    by (metis add.commute in_set_conv_nth length_enumerate nth_enumerate_eq)
  then have "decodetable ! i < 64 \<and> base64encdec ! unat (decodetable ! i) = word_of_nat (43 + i)"
    using decodetable_symbols v i by (fastforce simp: list_all_iff lookup_def)
  moreover have "word_of_nat (43 + i) = c"
  proof -
    have "word_of_nat (unat c) = c" by simp
    then show ?thesis unfolding i(2) .
  qed
  ultimately have "c = take 64 base64encdec ! unat (decodetable ! i)"
    "unat (decodetable ! i) < length (take 64 base64encdec)"
    by (auto simp: word_less_nat_alt)
  then show "c \<in> set (take 64 base64encdec)" by (metis nth_mem)
next
  assume "c \<in> set (take 64 base64encdec)"
  then obtain n where "n < 64" "c = base64encdec ! n" by (auto simp: in_set_conv_nth)
  then have "lookup c = word_of_nat n" using lookup_base64encdec by simp
  moreover have "unat (word_of_nat n :: byte) \<noteq> unat (255 :: byte)"
    using \<open>n < 64\<close> by (simp add: unat_of_nat)
  ultimately show "lookup c \<noteq> 255" by metis
qed

abbreviation valid :: "byte \<Rightarrow> bool" where
  "valid c \<equiv> c \<in> set (take 64 base64encdec)"

lemma decode_quantums_ok_iff:
  "length s = 4 * n \<Longrightarrow>
   (\<exists>out. decode_quantums n (s @ rest) = Some (out, rest) \<and> length out = 3 * n)
     = (\<forall>c \<in> set s. valid c) \<and>
   (\<not> (\<forall>c \<in> set s. valid c) \<longrightarrow> decode_quantums n (s @ rest) = None)"
proof (induction n arbitrary: s)
  case 0
  then show ?case by simp
next
  case (Suc n)
  then obtain c0 c1 c2 c3 t where s: "s = c0 # c1 # c2 # c3 # t" "length t = 4 * n"
    by (auto simp: length_Suc_conv numeral_eq_Suc)
  show ?case
    using Suc.IH [OF s(2)]
    by (auto simp add: s decode_chars_quantum lookup_valid_iff quantum_bytes_def
        split: option.splits)
qed

lemma pad_not_valid [simp]: "\<not> valid 0x3D"
  by (rule pad_notin_encdec)

lemma base64_wf_quantum:
  assumes "length p mod 4 = 0"
  shows "base64_wf (p @ [c0, c1, c2, c3]) \<longleftrightarrow>
    (\<forall>c \<in> set p. valid c) \<and> valid c0 \<and> valid c1 \<and>
    (valid c2 \<and> (valid c3 \<or> c3 = 0x3D) \<or> c2 = 0x3D \<and> c3 = 0x3D)"
proof -
  let ?s = "p @ [c0, c1, c2, c3]"
  have two: "(\<exists>pad \<le> 2. P pad) \<longleftrightarrow> P 0 \<or> P (Suc 0) \<or> P 2" for P
    by (auto simp: le_Suc_eq numeral_2_eq_2)
  have cut: "drop (length ?s - 0) ?s = []" "drop (length ?s - Suc 0) ?s = [c3]"
    "drop (length ?s - 2) ?s = [c2, c3]" "take (length ?s - 0) ?s = ?s"
    "take (length ?s - Suc 0) ?s = p @ [c0, c1, c2]" "take (length ?s - 2) ?s = p @ [c0, c1]"
    by (simp_all add: numeral_eq_Suc)
  show ?thesis
    unfolding base64_wf_def two cut
    using assms by (auto simp: numeral_2_eq_2 mod_Suc simp del: take_append)
qed

lemma decode_ok_iff:
  assumes "no_oom A"
  shows "(\<exists>out. Curl_base64_decode s A = (CURLE_OK, Some out)) = base64_wf s"
    and "Curl_base64_decode s A = (CURLE_OK, Some out) \<Longrightarrow>
      length out = length s div 4 * 3 - length (takeWhile (\<lambda>c. c = 0x3D) (rev s))"
    and "Curl_base64_decode s A = (r, None) \<Longrightarrow> r = CURLE_BAD_CONTENT_ENCODING"
    and "Curl_base64_decode s A = (r, Some out) \<Longrightarrow> r = CURLE_OK"
proof -
  have ok: "fst (alloc A)" using assms by (metis alloc_no_oom fst_conv)
  let ?goal = "(\<exists>out. Curl_base64_decode s A = (CURLE_OK, Some out) \<and>
      length out = length s div 4 * 3 - length (takeWhile (\<lambda>c. c = 0x3D) (rev s))) \<and> base64_wf s \<or>
    Curl_base64_decode s A = (CURLE_BAD_CONTENT_ENCODING, None) \<and> \<not> base64_wf s"
  have ?goal
  proof (cases "s = [] \<or> length s mod 4 \<noteq> 0")
    case True
    then show ?thesis by (auto simp: Curl_base64_decode_def base64_wf_def)
  next
    case False
    then obtain n where n: "length s = 4 * Suc n"
      by (metis dvd_def length_0_conv mod_0_imp_dvd mult_0_right not0_implies_Suc)
    define p where "p = take (4 * n) s"
    have "length (drop (4 * n) s) = 4" using n by simp
    then obtain c0 c1 c2 c3 where "drop (4 * n) s = [c0, c1, c2, c3]"
      unfolding length_eq_4 by blast
    then have s: "s = p @ [c0, c1, c2, c3]" and p: "length p = 4 * n"
      using n append_take_drop_id [of "4 * n" s] by (simp_all add: p_def)
    have wf: "base64_wf s \<longleftrightarrow> (\<forall>c \<in> set p. valid c) \<and> valid c0 \<and> valid c1 \<and>
        (valid c2 \<and> (valid c3 \<or> c3 = 0x3D) \<or> c2 = 0x3D \<and> c3 = 0x3D)"
      unfolding s by (rule base64_wf_quantum) (simp add: p)
    note q = decode_quantums_ok_iff [OF p, of "[c0, c1, c2, c3]"]
    consider (zero) "c3 \<noteq> 0x3D" | (one) "c3 = 0x3D" "c2 \<noteq> 0x3D"
      | (two) "c3 = 0x3D" "c2 = 0x3D" "c1 \<noteq> 0x3D" | (bad) "c3 = 0x3D" "c2 = 0x3D" "c1 = 0x3D"
      by blast
    then show ?thesis
    proof cases
      case zero
      have "length s = 4 * Suc n" by (rule n)
      from decode_quantums_ok_iff [OF this, of "[]"] zero show ?thesis
        unfolding wf
        by (cases "\<forall>c \<in> set s. valid c")
          (auto simp: Curl_base64_decode_def s p ok count_padding_quantum)
    next
      case one
      with q show ?thesis
        unfolding wf
        by (cases "\<forall>c \<in> set p. valid c"; cases "valid c0 \<and> valid c1 \<and> valid c2")
          (auto simp: Curl_base64_decode_def s p ok count_padding_quantum lookup_valid_iff
            decode_padded_1 [simplified] quantum_bytes_def numeral_2_eq_2)
    next
      case two
      with q show ?thesis
        unfolding wf
        by (cases "\<forall>c \<in> set p. valid c"; cases "valid c0 \<and> valid c1")
          (auto simp: Curl_base64_decode_def s p ok count_padding_quantum lookup_valid_iff
            decode_padded_2 quantum_bytes_def)
    next
      case bad
      then show ?thesis
        unfolding wf by (auto simp: Curl_base64_decode_def s p count_padding_quantum)
    qed
  qed
  then show "(\<exists>out. Curl_base64_decode s A = (CURLE_OK, Some out)) = base64_wf s"
    and "Curl_base64_decode s A = (CURLE_OK, Some out) \<Longrightarrow>
      length out = length s div 4 * 3 - length (takeWhile (\<lambda>c. c = 0x3D) (rev s))"
    and "Curl_base64_decode s A = (r, None) \<Longrightarrow> r = CURLE_BAD_CONTENT_ENCODING"
    and "Curl_base64_decode s A = (r, Some out) \<Longrightarrow> r = CURLE_OK"
    by auto
qed

subsection \<open>Properties\<close>

text \<open>
  C15. Decoding inverts encoding: for every non-empty byte string, of any content and with
  any bytes following it in its buffer, \<open>Curl_base64_encode\<close> produces a string whose
  length is four characters per started group of three bytes, and \<open>Curl_base64_decode\<close> of
  that string returns exactly the input, provided no allocation fails.
\<close>

theorem base64_roundtrip:
  assumes "xs \<noteq> []" "no_oom A" "no_oom B"
  shows "\<exists>e. Curl_base64_encode (xs @ r) (length xs) A = (CURLE_OK, Some e) \<and>
    length e = 4 * ((length xs + 2) div 3) \<and>
    Curl_base64_decode e B = (CURLE_OK, Some xs)"
  using assms
  by (simp add: Curl_base64_encode_def base64_encode_ok decode_encode_loop length_encode_loop)

lemma base64_roundtrip_witness:
  "\<exists>e. Curl_base64_encode ([0x00, 0xFF, 0x3D, 0x80] @ [0x99]) (length [0x00, 0xFF, 0x3D, 0x80 :: byte])
        [True] = (CURLE_OK, Some e) \<and>
      length e = 4 * ((length [0x00, 0xFF, 0x3D, 0x80 :: byte] + 2) div 3) \<and>
      Curl_base64_decode e [] = (CURLE_OK, Some [0x00, 0xFF, 0x3D, 0x80])"
  by (rule base64_roundtrip) (simp_all add: no_oom_def)

text \<open>
  C16. The decoder accepts exactly the well-formed strings: a positive multiple of four
  characters, all from the 64-character alphabet but for at most two padding characters
  at the very end. Everything else is rejected with \<open>CURLE_BAD_CONTENT_ENCODING\<close>, and an
  accepted string decodes to three bytes per quantum less one per padding character.
\<close>

theorem base64_decode_accepts:
  assumes "no_oom A"
  shows "case Curl_base64_decode s A of
      (r, None) \<Rightarrow> r = CURLE_BAD_CONTENT_ENCODING \<and> \<not> base64_wf s
    | (r, Some out) \<Rightarrow> r = CURLE_OK \<and> base64_wf s \<and>
        length out = length s div 4 * 3 - length (takeWhile (\<lambda>c. c = 0x3D) (rev s))"
  using decode_ok_iff [OF assms, of s]
  by (auto split: prod.splits option.splits)

lemma decode_instances:
  "Curl_base64_decode (s2b ''QUI='') [] = (CURLE_OK, Some [65, 66])"
  "Curl_base64_decode (s2b ''QUI'') [] = (CURLE_BAD_CONTENT_ENCODING, None)"
  using count_padding_quantum [of "[]"]
  by (simp_all add: Curl_base64_decode_def decode_padded_1 [simplified] lookup_def
      decodetable_def pack_def quantum_bytes_def)

lemma base64_decode_accepts_witness:
  "base64_wf (s2b ''QUI='') \<and> \<not> base64_wf (s2b ''QUI'')"
  using base64_decode_accepts [of "[]" "s2b ''QUI=''"] base64_decode_accepts [of "[]" "s2b ''QUI''"]
  unfolding decode_instances by simp

end
