(* ===== verification/Escape.thy ===== *)
theory Escape
  imports Dynbuf Ctype
begin

text \<open>
  URL escaping and unescaping, \<open>escape.c\<close>. The escaper is a client of the growing buffer:
  each byte of the input is one append of one or three bytes. A string argument is the
  list of bytes its pointer can read; a length of zero means up to the first zero byte.
\<close>

definition CURL_MAX_INPUT_LENGTH :: nat where
  "CURL_MAX_INPUT_LENGTH = 8000000"

subsection \<open>Escaping\<close>

definition hex_upper :: "byte list" where
  "hex_upper = s2b ''0123456789ABCDEF''"

definition escape_byte :: "byte \<Rightarrow> byte list" where
  "escape_byte c =
     (if ISUNRESERVED c then [c]
      else [0x25, hex_upper ! unat (drop_bit 4 c), hex_upper ! unat (c AND 0xf)])"

fun escape_loop :: "byte list \<Rightarrow> dynbuf \<Rightarrow> alloc_script \<Rightarrow> dynbuf option \<times> alloc_script" where
  "escape_loop [] d A = (Some d, A)"
| "escape_loop (c # cs) d A =
     (case Curl_dyn_addn d (escape_byte c) A of
        (r, d', A') \<Rightarrow> if r \<noteq> CURLE_OK then (None, A') else escape_loop cs d' A')"

definition curl_easy_escape ::
  "byte list \<Rightarrow> int \<Rightarrow> alloc_script \<Rightarrow> byte list option \<times> alloc_script" where
  "curl_easy_escape string inlength A =
     (if inlength < 0 then (None, A)
      else
        let d = Curl_dyn_init (CURL_MAX_INPUT_LENGTH * 3);
            n = (if inlength \<noteq> 0 then nat inlength else length (cstr string))
        in if n = 0 then
             (case alloc A of (ok, A') \<Rightarrow> (if ok then Some [0] else None, A'))
           else
             case escape_loop (take n string) d A of
               (None, A') \<Rightarrow> (None, A')
             | (Some d', A') \<Rightarrow> (Curl_dyn_ptr d', A'))"

definition curl_escape ::
  "byte list \<Rightarrow> int \<Rightarrow> alloc_script \<Rightarrow> byte list option \<times> alloc_script" where
  "curl_escape string inlength A = curl_easy_escape string inlength A"

subsection \<open>Unescaping\<close>

definition hextable :: "byte list" where
  "hextable =
   [0, 1, 2, 3, 4, 5, 6, 7, 8, 9, 0, 0, 0, 0, 0, 0,
    0, 10, 11, 12, 13, 14, 15, 0, 0, 0, 0, 0, 0, 0, 0, 0,
    0, 0, 0, 0, 0, 0, 0, 0, 0, 0, 0, 0, 0, 0, 0, 0,
    0, 10, 11, 12, 13, 14, 15]"

definition onehex2dec :: "byte \<Rightarrow> byte" where
  "onehex2dec x = hextable ! (unat x - 0x30)"

datatype urlreject = REJECT_NADA | REJECT_CTRL | REJECT_ZERO

text \<open>One step of the loop: the decoded byte and the input that is left.\<close>

fun url_next :: "byte \<Rightarrow> byte list \<Rightarrow> byte \<times> byte list" where
  "url_next c (h1 # h2 # rest) =
     (if c = 0x25 \<and> ISXDIGIT h1 \<and> ISXDIGIT h2
      then (push_bit 4 (onehex2dec h1) OR onehex2dec h2, rest)
      else (c, h1 # h2 # rest))"
| "url_next c rest = (c, rest)"

definition url_rejected :: "urlreject \<Rightarrow> byte \<Rightarrow> bool" where
  "url_rejected ctrl c \<longleftrightarrow> ctrl = REJECT_CTRL \<and> c < 0x20 \<or> ctrl = REJECT_ZERO \<and> c = 0"

function urldecode_loop :: "urlreject \<Rightarrow> byte list \<Rightarrow> byte list option" where
  "urldecode_loop ctrl [] = Some []"
| "urldecode_loop ctrl (c # cs) =
     (let (b, rest) = url_next c cs
      in if url_rejected ctrl b then None
         else map_option (Cons b) (urldecode_loop ctrl rest))"
  by pat_completeness auto

lemma url_next_length: "length (snd (url_next c cs)) \<le> length cs"
  by (induction c cs rule: url_next.induct) auto

termination urldecode_loop
  by (relation "measure (\<lambda>(ctrl, cs). length cs)")
    (auto, metis snd_conv url_next_length le_imp_less_Suc)

definition Curl_urldecode ::
  "byte list \<Rightarrow> nat \<Rightarrow> urlreject \<Rightarrow> alloc_script \<Rightarrow> CURLcode \<times> byte list option \<times> alloc_script" where
  "Curl_urldecode string n ctrl A =
     (let alloc_len = (if n \<noteq> 0 then n else length (cstr string));
          (ok, A') = alloc A
      in if \<not> ok then (CURLE_OUT_OF_MEMORY, None, A')
         else case urldecode_loop ctrl (take alloc_len string) of
           None \<Rightarrow> (CURLE_URL_MALFORMAT, None, A')
         | Some out \<Rightarrow> (CURLE_OK, Some out, A'))"

text \<open>
  \<open>want_olen\<close> is whether the caller passed a place for the output length; the result is
  the string and that length.
\<close>

definition curl_easy_unescape ::
  "byte list \<Rightarrow> int \<Rightarrow> bool \<Rightarrow> alloc_script \<Rightarrow> byte list option \<times> int option \<times> alloc_script" where
  "curl_easy_unescape string len want_olen A =
     (if 0 \<le> len then
        (case Curl_urldecode string (nat len) REJECT_NADA A of
           (r, str, A') \<Rightarrow>
             if r \<noteq> CURLE_OK then (None, None, A')
             else case str of
               None \<Rightarrow> (None, None, A')
             | Some out \<Rightarrow>
                 if want_olen then
                   (if int (length out) \<le> INT_MAX then (Some out, Some (int (length out)), A')
                    else (None, None, A'))
                 else (Some out, None, A'))
      else (None, None, A))"

definition curl_unescape ::
  "byte list \<Rightarrow> int \<Rightarrow> alloc_script \<Rightarrow> byte list option \<times> alloc_script" where
  "curl_unescape string len A =
     (case curl_easy_unescape string len False A of (s, _, A') \<Rightarrow> (s, A'))"

subsection \<open>Hexadecimal dump\<close>

definition hex_lower :: "byte list" where
  "hex_lower = s2b ''0123456789abcdef''"

fun hexencode_loop :: "byte list \<Rightarrow> nat \<Rightarrow> byte list" where
  "hexencode_loop [] olen = []"
| "hexencode_loop (b # bs) olen =
     (if olen \<ge> 3 then
        hex_lower ! unat (drop_bit 4 (b AND 0xF0)) # hex_lower ! unat (b AND 0x0F)
        # hexencode_loop bs (olen - 2)
      else [])"

text \<open>The bytes written to the output buffer of \<open>olen\<close> bytes, \<open>None\<close> being a NULL source.\<close>

definition Curl_hexencode :: "byte list option \<Rightarrow> nat \<Rightarrow> nat \<Rightarrow> byte list" where
  "Curl_hexencode src len olen =
     (case src of
        Some s \<Rightarrow> if len \<noteq> 0 \<and> olen \<ge> 3 then hexencode_loop (take len s) olen @ [0]
                  else if olen \<noteq> 0 then [0] else []
      | None \<Rightarrow> if olen \<noteq> 0 then [0] else [])"

subsection \<open>Lemmas\<close>

lemma nibble_less_16: "unat (drop_bit 4 (c :: byte)) < 16" "unat (c AND 0xF) < 16"
proof -
  show "unat (drop_bit 4 c) < 16"
    unfolding unat_drop_bit_div using unat_byte [of c] by (simp del: unat_byte)
  have "c AND 0xF = take_bit 4 c" by (simp add: take_bit_eq_mask mask_eq_exp_minus_1)
  then have "unat (c AND 0xF) = take_bit 4 (unat c)" by (metis unsigned_take_bit_eq)
  also have "\<dots> < 2 ^ 4" by (rule take_bit_nat_less_exp)
  finally show "unat (c AND 0xF) < 16" by simp
qed

lemma hex_upper_digit:
  assumes "n < 16"
  shows "ISXDIGIT (hex_upper ! n)" "onehex2dec (hex_upper ! n) = word_of_nat n"
    "ISUNRESERVED (hex_upper ! n)"
proof -
  have "n \<in> {0, 1, 2, 3, 4, 5, 6, 7, 8, 9, 10, 11, 12, 13, 14, 15}"
    using assms unfolding insert_iff empty_iff by presburger
  then show "ISXDIGIT (hex_upper ! n)" "onehex2dec (hex_upper ! n) = word_of_nat n"
    "ISUNRESERVED (hex_upper ! n)"
      by (auto simp: hex_upper_def onehex2dec_def hextable_def ctype_defs)
qed

lemma join_nibbles: "push_bit 4 (drop_bit 4 c) OR (c AND 0xF) = (c :: byte)"
  by (rule bit_word_eqI) (auto simp: bit_simps less_8_cases)

lemma unreserved_not_percent: "ISUNRESERVED c \<Longrightarrow> c \<noteq> 0x25 \<and> c \<noteq> 0"
  by (auto simp: ctype_defs)

lemma escape_byte_length: "length (escape_byte c) \<le> 3" "escape_byte c \<noteq> []"
  by (simp_all add: escape_byte_def)

lemma urldecode_loop_plain:
  "c \<noteq> 0x25 \<Longrightarrow> urldecode_loop ctrl (c # cs) =
     (if url_rejected ctrl c then None else map_option (Cons c) (urldecode_loop ctrl cs))"
  by (cases "(c, cs)" rule: url_next.cases) simp_all

lemma urldecode_escape_byte:
  "urldecode_loop ctrl (escape_byte c @ rest) =
     (if url_rejected ctrl c then None else map_option (Cons c) (urldecode_loop ctrl rest))"
  using hex_upper_digit [OF nibble_less_16(1)] hex_upper_digit [OF nibble_less_16(2)]
  by (simp add: escape_byte_def urldecode_loop_plain unreserved_not_percent join_nibbles
      del: urldecode_loop.simps(2)) (simp add: join_nibbles)

lemma urldecode_escape:
  "urldecode_loop ctrl (concat (map escape_byte cs)) =
     (if \<exists>c \<in> set cs. url_rejected ctrl c then None else Some cs)"
  by (induction cs) (simp_all add: urldecode_escape_byte)

lemma escape_bytes_safe:
  "\<forall>b \<in> set (concat (map escape_byte cs)). ISUNRESERVED b \<or> b = 0x25"
  by (auto simp: escape_byte_def nibble_less_16 hex_upper_digit(3))

lemma length_escape: "length (concat (map escape_byte cs)) \<le> 3 * length cs"
proof (induction cs)
  case (Cons c cs)
  then show ?case using escape_byte_length(1) [of c] by simp
qed simp

text \<open>The loop is a sequence of appends, so the facts of the buffer's interface apply.\<close>

lemma escape_loop_append_all:
  "escape_loop cs d A =
     (case dyn.append_all d (map escape_byte cs) A of
        (r, d', A') \<Rightarrow> (if r = CURLE_OK then Some d' else None, A'))"
  by (induction cs arbitrary: d A) (auto split: prod.splits)

lemma escape_loop_enough:
  assumes "no_oom A" "3 * length cs < CURL_MAX_INPUT_LENGTH * 3"
  shows "\<exists>d A'. escape_loop cs (Curl_dyn_init (CURL_MAX_INPUT_LENGTH * 3)) A = (Some d, A') \<and>
    dyn_inv d \<and> dyn_content d = concat (map escape_byte cs)"
proof -
  let ?d = "Curl_dyn_init (CURL_MAX_INPUT_LENGTH * 3)"
  have inv: "dyn_inv ?d" by (simp add: inv_intros CURL_MAX_INPUT_LENGTH_def)
  have "length (concat (map escape_byte cs)) < toobig ?d"
    using length_escape [of cs] assms(2) by simp
  then obtain d A' where ok: "dyn.append_all ?d (map escape_byte cs) A = (CURLE_OK, d, A')"
    using dyn.append_all_enough [OF inv assms(1), of "map escape_byte cs"] by auto
  then show ?thesis
    using dyn.append_all_ok [OF inv ok] by (simp add: escape_loop_append_all)
qed

lemma urldecode_loop_rejects:
  "urldecode_loop ctrl cs =
     (case urldecode_loop REJECT_NADA cs of
        None \<Rightarrow> None
      | Some out \<Rightarrow> if \<exists>b \<in> set out. url_rejected ctrl b then None else Some out)"
proof (induction ctrl cs rule: urldecode_loop.induct)
  case (2 ctrl c cs)
  then show ?case
    by (auto simp: url_rejected_def split: prod.splits option.splits)
qed simp

lemma urldecode_loop_nada: "\<exists>out. urldecode_loop REJECT_NADA cs = Some out \<and> length out \<le> length cs"
proof (induction "length cs" arbitrary: cs rule: less_induct)
  case less
  show ?case
  proof (cases cs)
    case (Cons c ds)
    obtain b rest where n: "url_next c ds = (b, rest)" by (cases "url_next c ds")
    then have "length rest \<le> length ds" using url_next_length [of c ds] by simp
    with less [of rest] Cons n show ?thesis by (auto simp: url_rejected_def)
  qed simp
qed

lemma length_hexencode_loop: "0 < olen \<Longrightarrow> length (hexencode_loop bs olen) < olen"
  by (induction bs olen rule: hexencode_loop.induct) auto

lemma hexencode_loop_full:
  "2 * length bs < olen \<Longrightarrow> hexencode_loop bs olen =
     concat (map (\<lambda>b. [hex_lower ! unat (drop_bit 4 (b AND 0xF0)), hex_lower ! unat (b AND 0x0F)]) bs)"
  by (induction bs olen rule: hexencode_loop.induct) auto

subsection \<open>Properties\<close>

text \<open>
  C17. Unescaping inverts escaping: for every input of at least one byte and fewer than
  \<open>CURL_MAX_INPUT_LENGTH\<close> bytes, \<open>curl_easy_escape\<close> returns a C string made of unreserved
  characters and percent signs only, and \<open>curl_easy_unescape\<close> of that string gives back the
  input, whatever bytes it has, and its length, whether the length of the string is passed or
  left to be counted (0), provided no allocation fails.
\<close>

theorem escape_roundtrip:
  assumes "cs \<noteq> []" "length cs < CURL_MAX_INPUT_LENGTH" "no_oom A" "no_oom B"
  shows "\<exists>block A' B'. curl_easy_escape (cs @ r) (int (length cs)) A = (Some block, A') \<and>
    (\<forall>b \<in> set (cstr block). ISUNRESERVED b \<or> b = 0x25) \<and>
    curl_easy_unescape block (int (length (cstr block))) True B = (Some cs, Some (int (length cs)), B') \<and>
    curl_easy_unescape block 0 True B = (Some cs, Some (int (length cs)), B') \<and>
    Curl_urldecode block (length (cstr block)) REJECT_NADA B = (CURLE_OK, Some cs, B')"
proof -
  let ?e = "concat (map escape_byte cs)"
  obtain d A' where d: "escape_loop cs (Curl_dyn_init (CURL_MAX_INPUT_LENGTH * 3)) A = (Some d, A')"
    "dyn_inv d" "dyn_content d = ?e"
    using escape_loop_enough [of A cs] assms(2,3) by auto
  have e: "?e \<noteq> []" using assms(1) escape_byte_length(2) by (cases cs) simp_all
  then obtain block where block: "Curl_dyn_ptr d = Some block"
    using d(3) by (auto simp: dyn_content_def Curl_dyn_ptr_def split: option.splits)
  have "\<not> (ISUNRESERVED 0 \<or> (0 :: byte) = 0x25)" by simp
  then have "0 \<notin> set ?e" using escape_bytes_safe [of cs] by blast
  then have cstr: "cstr block = ?e" using dyn_cstr [OF d(2) block] d(3) by simp
  obtain B' where "alloc B = (True, B')" using alloc_no_oom [OF assms(4)] by blast
  then have dec: "Curl_urldecode block (length (cstr block)) REJECT_NADA B = (CURLE_OK, Some cs, B')"
    "Curl_urldecode block 0 REJECT_NADA B = (CURLE_OK, Some cs, B')"
    using e by (simp_all add: Curl_urldecode_def cstr urldecode_escape url_rejected_def
        take_cstr [of block, unfolded cstr])
  have "int (length cs) \<le> INT_MAX" using assms(2) by (simp add: CURL_MAX_INPUT_LENGTH_def INT_MAX_def)
  with dec have "curl_easy_unescape block (int (length (cstr block))) True B = (Some cs, Some (int (length cs)), B')"
    "curl_easy_unescape block 0 True B = (Some cs, Some (int (length cs)), B')"
    by (simp_all add: curl_easy_unescape_def)
  moreover have "curl_easy_escape (cs @ r) (int (length cs)) A = (Some block, A')"
    using assms(1) d(1) block by (simp add: curl_easy_escape_def)
  ultimately show ?thesis using escape_bytes_safe cstr dec(1) by metis
qed

lemma escape_roundtrip_witness:
  "\<exists>block A' B'. curl_easy_escape ([0x20, 0x00, 0x41, 0xE9] @ [0x7A])
        (int (length [0x20, 0x00, 0x41, 0xE9 :: byte])) [True, True] = (Some block, A') \<and>
      (\<forall>b \<in> set (cstr block). ISUNRESERVED b \<or> b = 0x25) \<and>
      curl_easy_unescape block (int (length (cstr block))) True [] =
        (Some [0x20, 0x00, 0x41, 0xE9], Some (int (length [0x20, 0x00, 0x41, 0xE9 :: byte])), B') \<and>
      curl_easy_unescape block 0 True [] =
        (Some [0x20, 0x00, 0x41, 0xE9], Some (int (length [0x20, 0x00, 0x41, 0xE9 :: byte])), B') \<and>
      Curl_urldecode block (length (cstr block)) REJECT_NADA [] =
        (CURLE_OK, Some [0x20, 0x00, 0x41, 0xE9], B')"
  by (rule escape_roundtrip) (simp_all add: no_oom_def CURL_MAX_INPUT_LENGTH_def)

text \<open>
  What \<open>Curl_urldecode\<close> rejects: decoding with a rejection mode gives the plain decoded
  string when it has no byte the mode forbids (no byte below 0x20 for \<open>REJECT_CTRL\<close>, no zero
  byte for \<open>REJECT_ZERO\<close>), and \<open>CURLE_URL_MALFORMAT\<close> with no string otherwise. The plain
  decoding always succeeds and never grows.
\<close>

theorem urldecode_rejects:
  assumes "no_oom A"
  shows "\<exists>out A'. Curl_urldecode s n REJECT_NADA A = (CURLE_OK, Some out, A') \<and>
    length out \<le> (if n \<noteq> 0 then n else length (cstr s)) \<and>
    Curl_urldecode s n ctrl A =
      (if \<exists>b \<in> set out. url_rejected ctrl b then (CURLE_URL_MALFORMAT, None, A')
       else (CURLE_OK, Some out, A'))"
proof -
  let ?s = "take (if n \<noteq> 0 then n else length (cstr s)) s"
  obtain A' where A': "alloc A = (True, A')" using alloc_no_oom [OF assms] by blast
  obtain out where out: "urldecode_loop REJECT_NADA ?s = Some out" "length out \<le> length ?s"
    using urldecode_loop_nada [of ?s] by blast
  from out(1) have "urldecode_loop ctrl ?s =
      (if \<exists>b \<in> set out. url_rejected ctrl b then None else Some out)"
    by (subst urldecode_loop_rejects) simp
  with A' out show ?thesis
    by (intro exI [of _ out] exI [of _ A']) (auto simp: Curl_urldecode_def)
qed

lemma urldecode_rejects_witness:
  "\<exists>out A'. Curl_urldecode (s2b ''a%0Ab'') 5 REJECT_NADA [True] = (CURLE_OK, Some out, A') \<and>
    length out \<le> (if (5 :: nat) \<noteq> 0 then 5 else length (cstr (s2b ''a%0Ab''))) \<and>
    Curl_urldecode (s2b ''a%0Ab'') 5 REJECT_CTRL [True] =
      (if \<exists>b \<in> set out. url_rejected REJECT_CTRL b then (CURLE_URL_MALFORMAT, None, A')
       else (CURLE_OK, Some out, A'))"
  by (rule urldecode_rejects) (simp add: no_oom_def)

text \<open>
  \<open>Curl_hexencode\<close> never writes past its output buffer of \<open>olen\<close> bytes, ends what it
  writes with a zero byte, and writes two digits for every source byte when the buffer
  has room for them.
\<close>

theorem hexencode_bounds:
  assumes "0 < olen"
  shows "length (Curl_hexencode src len olen) \<le> olen \<and>
    last (Curl_hexencode src len olen) = 0 \<and>
    (\<forall>s. src = Some s \<and> s \<noteq> [] \<and> len = length s \<and> 2 * len < olen \<longrightarrow>
       length (Curl_hexencode src len olen) = 2 * len + 1)"
proof -
  have "length (hexencode_loop s olen) = 2 * length s" if "2 * length s < olen" for s
    using that by (simp add: hexencode_loop_full) (induction s, simp_all)
  moreover have "3 \<le> olen" if "s \<noteq> []" "2 * length s < olen" for s :: "byte list"
    using that by (cases s) simp_all
  ultimately show ?thesis
    using assms length_hexencode_loop [OF assms]
    by (auto simp: Curl_hexencode_def Suc_le_eq split: option.splits)
qed

lemma hexencode_bounds_witness:
  "length (Curl_hexencode (Some [0xDE, 0xAD]) 2 4) \<le> 4 \<and>
   last (Curl_hexencode (Some [0xDE, 0xAD]) 2 4) = 0"
  using hexencode_bounds [of 4 "Some [0xDE, 0xAD]" 2] by simp

end
