(* ===== verification/Llist.thy ===== *)
theory Llist
  imports Prelude
begin

text \<open>
  The doubly linked list of \<open>llist.c\<close>, on an explicit store: an element is an address, and
  the store maps the address to its \<open>ptr\<close>, \<open>prev\<close> and \<open>next\<close> fields (\<open>None\<close> is the NULL
  pointer). Elements are provided by the caller, who embeds them in the objects it links,
  so inserting never allocates. The operations update the fields in the order the code
  does. \<open>linked\<close> says which sequence of addresses a header and a store represent, and
  every operation is shown to be the corresponding list operation; the locale
  \<open>sequence_of\<close> is that contract.

  The destructor call of \<open>Curl_llist_remove\<close> is modelled by returning the pointer it is
  given: what is freed with it belongs to the caller.
\<close>

type_synonym addr = nat

record 'p llist_element =
  ptr :: "'p option"
  prev :: "addr option"
  "next" :: "addr option"

record Curl_llist =
  head :: "addr option"
  tail :: "addr option"
  lsize :: nat

type_synonym 'p nodes = "addr \<Rightarrow> 'p llist_element"

subsection \<open>Field updates through a pointer\<close>

definition set_ptr :: "addr \<Rightarrow> 'p option \<Rightarrow> 'p nodes \<Rightarrow> 'p nodes" where
  "set_ptr a v h = h(a := (h a)\<lparr>ptr := v\<rparr>)"

definition set_prev :: "addr \<Rightarrow> addr option \<Rightarrow> 'p nodes \<Rightarrow> 'p nodes" where
  "set_prev a v h = h(a := (h a)\<lparr>prev := v\<rparr>)"

definition set_next :: "addr \<Rightarrow> addr option \<Rightarrow> 'p nodes \<Rightarrow> 'p nodes" where
  "set_next a v h = h(a := (h a)\<lparr>next := v\<rparr>)"

subsection \<open>Operations\<close>

definition Curl_llist_init :: "Curl_llist" where
  "Curl_llist_init = \<lparr>head = None, tail = None, lsize = 0\<rparr>"

definition Curl_llist_insert_next ::
  "Curl_llist \<Rightarrow> addr option \<Rightarrow> 'p \<Rightarrow> addr \<Rightarrow> 'p nodes \<Rightarrow> Curl_llist \<times> 'p nodes" where
  "Curl_llist_insert_next l e p ne h =
     (let h = set_ptr ne (Some p) h
      in if lsize l = 0 then
           (l\<lparr>head := Some ne, tail := Some ne, lsize := lsize l + 1\<rparr>,
            set_next ne None (set_prev ne None h))
         else
           let h = set_next ne (case e of Some a \<Rightarrow> next (h a) | None \<Rightarrow> head l) h;
               h = set_prev ne e h;
               (l, h) =
                 (case e of
                    None \<Rightarrow>
                      (l\<lparr>head := Some ne\<rparr>,
                       case head l of Some f \<Rightarrow> set_prev f (Some ne) h | None \<Rightarrow> h)
                  | Some a \<Rightarrow>
                      (case next (h a) of
                         Some b \<Rightarrow> (l, set_prev b (Some ne) h)
                       | None \<Rightarrow> (l\<lparr>tail := Some ne\<rparr>, h)));
               h = (case e of Some a \<Rightarrow> set_next a (Some ne) h | None \<Rightarrow> h)
           in (l\<lparr>lsize := lsize l + 1\<rparr>, h))"

definition Curl_llist_append ::
  "Curl_llist \<Rightarrow> 'p \<Rightarrow> addr \<Rightarrow> 'p nodes \<Rightarrow> Curl_llist \<times> 'p nodes" where
  "Curl_llist_append l p ne h = Curl_llist_insert_next l (tail l) p ne h"

text \<open>The third component is the pointer handed to the destructor, if it is called.\<close>

definition Curl_llist_remove ::
  "Curl_llist \<Rightarrow> addr option \<Rightarrow> 'p nodes \<Rightarrow> Curl_llist \<times> 'p nodes \<times> 'p option" where
  "Curl_llist_remove l e h =
     (case e of
        None \<Rightarrow> (l, h, None)
      | Some a \<Rightarrow>
          if lsize l = 0 then (l, h, None)
          else
            let (l, h) =
                  (if head l = Some a then
                     (let l = l\<lparr>head := next (h a)\<rparr>
                      in case next (h a) of
                           None \<Rightarrow> (l\<lparr>tail := None\<rparr>, h)
                         | Some b \<Rightarrow> (l, set_prev b None h))
                   else
                     (let h = (case prev (h a) of Some b \<Rightarrow> set_next b (next (h a)) h | None \<Rightarrow> h)
                      in case next (h a) of
                           None \<Rightarrow> (l\<lparr>tail := prev (h a)\<rparr>, h)
                         | Some b \<Rightarrow> (l, set_prev b (prev (h a)) h)));
                p = ptr (h a);
                h = set_next a None (set_prev a None (set_ptr a None h))
            in (l\<lparr>lsize := lsize l - 1\<rparr>, h, p))"

text \<open>
  \<open>Curl_llist_destroy\<close> removes the tail until the size is zero; the result lists the
  pointers given to the destructor, in the order of the calls. The size drops by one in
  every round because the tail of a list with elements is not NULL, which is the guard
  here; without it the loop of the code would not end.
\<close>

function Curl_llist_destroy ::
  "Curl_llist \<Rightarrow> 'p nodes \<Rightarrow> Curl_llist \<times> 'p nodes \<times> 'p option list" where
  "Curl_llist_destroy l h =
     (if lsize l > 0 \<and> tail l \<noteq> None then
        (case Curl_llist_remove l (tail l) h of
           (l', h', p) \<Rightarrow>
             (case Curl_llist_destroy l' h' of (l'', h'', ps) \<Rightarrow> (l'', h'', p # ps)))
      else (l, h, []))"
  by pat_completeness auto

lemma lsize_remove:
  "lsize l > 0 \<Longrightarrow> e \<noteq> None \<Longrightarrow> Curl_llist_remove l e h = (l', h', p) \<Longrightarrow> lsize l' = lsize l - 1"
  by (auto simp: Curl_llist_remove_def Let_def split: option.splits if_splits)

lemma remove_decreases:
  "(l', h', p) = Curl_llist_remove l (Some a) h \<Longrightarrow> lsize l > 0 \<Longrightarrow> lsize l' < lsize l"
  using lsize_remove [of l "Some a" h l' h' p] by simp

termination Curl_llist_destroy
  by (relation "measure (\<lambda>(l, h). lsize l)") (auto intro: remove_decreases)

declare Curl_llist_destroy.simps [simp del]

definition Curl_llist_count :: "Curl_llist \<Rightarrow> nat" where
  "Curl_llist_count l = lsize l"

subsection \<open>Which sequence a list represents\<close>

text \<open>
  A segment: following \<open>next\<close> from \<open>p\<close> visits the addresses in order and ends at \<open>q\<close>,
  and every \<open>prev\<close> points back, the first one to \<open>b\<close>.
\<close>

fun segment :: "'p nodes \<Rightarrow> addr option \<Rightarrow> addr option \<Rightarrow> addr list \<Rightarrow> addr option \<Rightarrow> bool" where
  "segment h b p [] q \<longleftrightarrow> p = q"
| "segment h b p (a # as) q \<longleftrightarrow>
     p = Some a \<and> prev (h a) = b \<and> ptr (h a) \<noteq> None \<and> segment h (Some a) (next (h a)) as q"

definition last_opt :: "addr option \<Rightarrow> addr list \<Rightarrow> addr option" where
  "last_opt b as = (if as = [] then b else Some (last as))"

definition linked :: "Curl_llist \<Rightarrow> 'p nodes \<Rightarrow> addr list \<Rightarrow> bool" where
  "linked l h as \<longleftrightarrow>
     segment h None (head l) as None \<and> tail l = last_opt None as \<and>
     lsize l = length as \<and> distinct as"

definition contents :: "'p nodes \<Rightarrow> addr list \<Rightarrow> 'p list" where
  "contents h as = map (\<lambda>a. the (ptr (h a))) as"

lemma last_opt_simps [simp]:
  "last_opt b [] = b" "last_opt b (a # as) = last_opt (Some a) as"
  "last_opt b (as @ [a]) = Some a"
  by (auto simp: last_opt_def)

lemma field_simps_ptr [simp]:
  "set_ptr a p h c = (if c = a then (h a)\<lparr>ptr := p\<rparr> else h c)"
  "set_prev a v h c = (if c = a then (h a)\<lparr>prev := v\<rparr> else h c)"
  "set_next a v h c = (if c = a then (h a)\<lparr>next := v\<rparr> else h c)"
  by (simp_all add: set_ptr_def set_prev_def set_next_def)

lemma segment_append:
  "segment h b p (as @ cs) q \<longleftrightarrow>
     (\<exists>m. segment h b p as m \<and> segment h (last_opt b as) m cs q)"
  by (induction as arbitrary: b p) auto

lemma segment_cong:
  "(\<And>a. a \<in> set as \<Longrightarrow> h' a = h a) \<Longrightarrow> segment h' b p as q = segment h b p as q"
  by (induction as arbitrary: b p) auto

lemma segment_ptr: "segment h b p as q \<Longrightarrow> a \<in> set as \<Longrightarrow> ptr (h a) \<noteq> None"
  by (induction as arbitrary: b p) auto

lemma contents_cong: "(\<And>a. a \<in> set as \<Longrightarrow> ptr (h' a) = ptr (h a)) \<Longrightarrow> contents h' as = contents h as"
  by (simp add: contents_def)

lemma contents_append [simp]: "contents h (as @ cs) = contents h as @ contents h cs"
  by (simp add: contents_def)

lemma contents_simps [simp]: "contents h [] = []" "contents h (a # as) = the (ptr (h a)) # contents h as"
  by (simp_all add: contents_def)

lemma linked_init: "linked Curl_llist_init h []"
  by (simp add: linked_def Curl_llist_init_def)

text \<open>Splitting a linked list at one of its elements.\<close>

lemma linked_split:
  "linked l h (as @ a # cs) \<longleftrightarrow>
     segment h None (head l) as (Some a) \<and> prev (h a) = last_opt None as \<and> ptr (h a) \<noteq> None \<and>
     segment h (Some a) (next (h a)) cs None \<and> tail l = last_opt (Some a) cs \<and>
     lsize l = Suc (length as + length cs) \<and> distinct (as @ a # cs)"
  by (auto simp: linked_def segment_append last_opt_def)

subsection \<open>Effect of the operations on the sequence\<close>

lemma insert_head_linked:
  assumes "linked l h as" "ne \<notin> set as" "Curl_llist_insert_next l None p ne h = (l', h')"
  shows "linked l' h' (ne # as) \<and> contents h' (ne # as) = p # contents h as \<and>
    (\<forall>c. c \<notin> set as \<and> c \<noteq> ne \<longrightarrow> h' c = h c)"
proof (cases as)
  case Nil
  with assms show ?thesis
    by (auto simp: linked_def Curl_llist_insert_next_def Let_def)
next
  case (Cons f cs)
  with assms have l': "l' = l\<lparr>head := Some ne, lsize := lsize l + 1\<rparr>"
    and h': "h' = set_prev f (Some ne) (set_prev ne None (set_next ne (Some f) (set_ptr ne (Some p) h)))"
    by (auto simp: linked_def Curl_llist_insert_next_def Let_def)
  have "segment h' (Some f) (next (h f)) cs None = segment h (Some f) (next (h f)) cs None"
    by (rule segment_cong) (use assms(1,2) Cons in \<open>auto simp: h' linked_def\<close>)
  moreover have "contents h' cs = contents h cs"
    by (rule contents_cong) (use assms(1,2) Cons in \<open>auto simp: h' linked_def\<close>)
  ultimately show ?thesis
    using assms(1,2) Cons by (auto simp: linked_def l' h')
qed

lemma insert_after_linked:
  assumes "linked l h (as @ a # cs)" "ne \<notin> set (as @ a # cs)"
    "Curl_llist_insert_next l (Some a) p ne h = (l', h')"
  shows "linked l' h' (as @ a # ne # cs) \<and>
    contents h' (as @ a # ne # cs) = contents h (as @ [a]) @ p # contents h cs \<and>
    (\<forall>c. c \<notin> set (as @ a # cs) \<and> c \<noteq> ne \<longrightarrow> h' c = h c)"
proof -
  note lk = assms(1) [unfolded linked_split]
  define h0 where "h0 = set_prev ne (Some a) (set_next ne (next (h a)) (set_ptr ne (Some p) h))"
  have ne: "ne \<noteq> a" "ne \<notin> set as" "ne \<notin> set cs" "a \<notin> set as" "a \<notin> set cs" "set as \<inter> set cs = {}"
    using assms(1,2) by (auto simp: linked_def)
  show ?thesis
  proof (cases cs)
    case Nil
    with lk have nx: "next (h a) = None" by simp
    with ne assms(3) lk have l': "l' = l\<lparr>tail := Some ne, lsize := lsize l + 1\<rparr>"
      and h': "h' = set_next a (Some ne) h0"
      by (auto simp: Curl_llist_insert_next_def Let_def h0_def)
    have "segment h' None (head l) as (Some a) = segment h None (head l) as (Some a)"
      by (rule segment_cong) (use ne in \<open>auto simp: h' h0_def\<close>)
    moreover have "contents h' as = contents h as"
      by (rule contents_cong) (use ne in \<open>auto simp: h' h0_def\<close>)
    ultimately show ?thesis
      using lk ne nx Nil by (auto simp: linked_split h' h0_def l')
  next
    case (Cons b ds)
    with lk have nx: "next (h a) = Some b" by simp
    with ne assms(3) lk Cons have l': "l' = l\<lparr>lsize := lsize l + 1\<rparr>"
      and h': "h' = set_next a (Some ne) (set_prev b (Some ne) h0)"
      by (auto simp: Curl_llist_insert_next_def Let_def h0_def)
    have b: "b \<noteq> a" "b \<noteq> ne" "b \<notin> set as" "b \<notin> set ds" using assms(1) ne Cons by (auto simp: linked_def)
    have "segment h' None (head l) as (Some a) = segment h None (head l) as (Some a)"
      by (rule segment_cong) (use ne b in \<open>auto simp: h' h0_def\<close>)
    moreover have "contents h' as = contents h as"
      by (rule contents_cong) (use ne b in \<open>auto simp: h' h0_def\<close>)
    moreover have "segment h' (Some b) (next (h b)) ds None = segment h (Some b) (next (h b)) ds None"
      by (rule segment_cong) (use ne b Cons in \<open>auto simp: h' h0_def\<close>)
    moreover have "contents h' ds = contents h ds"
      by (rule contents_cong) (use ne b Cons in \<open>auto simp: h' h0_def\<close>)
    ultimately show ?thesis
      using lk ne nx b Cons by (auto simp: linked_split h' h0_def l')
  qed
qed

lemma append_linked:
  assumes "linked l h as" "ne \<notin> set as" "Curl_llist_append l p ne h = (l', h')"
  shows "linked l' h' (as @ [ne]) \<and> contents h' (as @ [ne]) = contents h as @ [p] \<and>
    (\<forall>c. c \<notin> set as \<and> c \<noteq> ne \<longrightarrow> h' c = h c)"
proof (cases as rule: rev_cases)
  case Nil
  with assms have "tail l = None" by (simp add: linked_def)
  with insert_head_linked [of l h as ne p l' h'] assms Nil show ?thesis
    by (simp add: Curl_llist_append_def)
next
  case (snoc bs a)
  with assms have "tail l = Some a" by (simp add: linked_def)
  with insert_after_linked [of l h bs a "[]" ne p l' h'] assms snoc show ?thesis
    by (simp add: Curl_llist_append_def)
qed

lemma remove_linked:
  assumes "linked l h (as @ a # cs)" "Curl_llist_remove l (Some a) h = (l', h', p)"
  shows "linked l' h' (as @ cs) \<and> contents h' (as @ cs) = contents h (as @ cs) \<and> p = ptr (h a) \<and>
    h' a = (h a)\<lparr>ptr := None, prev := None, next := None\<rparr> \<and>
    (\<forall>c. c \<noteq> a \<longrightarrow> ptr (h' c) = ptr (h c)) \<and>
    (\<forall>c. c \<notin> set (as @ a # cs) \<longrightarrow> h' c = h c)"
proof -
  note lk = assms(1) [unfolded linked_split]
  have ne: "a \<notin> set as" "a \<notin> set cs" "set as \<inter> set cs = {}" "distinct as" "distinct cs"
    using assms(1) by (auto simp: linked_def)
  have la: "as = [] \<or> last as \<notin> set cs"
    using ne(3) last_in_set by blast
  define h1 where "h1 = (if as = [] then h else set_next (last as) (next (h a)) h)"
  define h2 where "h2 = (case cs of [] \<Rightarrow> h1 | b # _ \<Rightarrow> set_prev b (last_opt None as) h1)"
  have sz: "lsize l > 0" using lk by simp
  have nx: "next (h a) = (case cs of [] \<Rightarrow> None | b # _ \<Rightarrow> Some b)"
    using lk by (cases cs) auto
  have pv: "prev (h a) = (case as of [] \<Rightarrow> None | _ \<Rightarrow> Some (last as))"
    using lk by (cases as) (auto simp: last_opt_def)
  have hd: "head l = Some a \<longleftrightarrow> as = []"
    using lk ne by (cases as) auto
  have l': "l' = l\<lparr>head := (if as = [] then next (h a) else head l),
      tail := (if cs = [] then last_opt None as else tail l), lsize := lsize l - 1\<rparr>"
    and h': "h' = set_next a None (set_prev a None (set_ptr a None h2))" and p: "p = ptr (h2 a)"
    using assms(2) sz nx pv ne unfolding h1_def h2_def
    by (auto simp: Curl_llist_remove_def Let_def hd last_opt_def split: list.splits if_splits)
  have h'_other: "h' c = h c" if "c \<noteq> a" "as = [] \<or> c \<noteq> last as" "cs = [] \<or> c \<noteq> hd cs" for c
    using that by (auto simp: h' h1_def h2_def split: list.splits)
  have h'_ptr: "ptr (h' c) = ptr (h c)" if "c \<noteq> a" for c
    using that by (auto simp: h' h1_def h2_def split: list.splits)
  have seg1: "segment h' None (head l') as (next (h a))"
  proof (cases as rule: rev_cases)
    case Nil
    then show ?thesis by (simp add: l')
  next
    case (snoc bs z)
    have "segment h' None (head l) bs (Some z) = segment h None (head l) bs (Some z)"
      by (rule segment_cong, rule h'_other) (use ne snoc in auto)
    moreover have "prev (h' z) = prev (h z)" "next (h' z) = next (h a)" "ptr (h' z) = ptr (h z)"
      using ne snoc by (auto simp: h' h1_def h2_def split: list.splits)
    ultimately show ?thesis
      using lk snoc by (auto simp: l' segment_append)
  qed
  have seg2: "segment h' (last_opt None as) (next (h a)) cs None"
  proof (cases cs)
    case Nil
    then show ?thesis using nx by simp
  next
    case (Cons b ds)
    have "segment h' (Some b) (next (h b)) ds None = segment h (Some b) (next (h b)) ds None"
      by (rule segment_cong, rule h'_other) (use ne la Cons in auto)
    moreover have "as = [] \<or> last as \<noteq> b" "b \<noteq> a"
      using ne la Cons by auto
    then have "prev (h' b) = last_opt None as" "next (h' b) = next (h b)" "ptr (h' b) = ptr (h b)"
      using Cons by (auto simp: h' h1_def h2_def split: list.splits)
    ultimately show ?thesis
      using lk Cons nx by auto
  qed
  have "linked l' h' (as @ cs)"
    using seg1 seg2 lk ne
    by (auto simp: linked_def segment_append l' last_opt_def)
  moreover have "contents h' (as @ cs) = contents h (as @ cs)"
    by (rule contents_cong, rule h'_ptr) (use ne in auto)
  moreover have "p = ptr (h a)"
    unfolding p by (auto simp: h1_def h2_def split: list.splits)
  moreover have "h' a = (h a)\<lparr>ptr := None, prev := None, next := None\<rparr>"
    using ne by (auto simp: h' h1_def h2_def split: list.splits)
  moreover have "\<forall>c. c \<notin> set (as @ a # cs) \<longrightarrow> h' c = h c"
    by (intro allI impI, rule h'_other) auto
  ultimately show ?thesis using h'_ptr by blast
qed

lemma destroy_linked:
  "linked l h as \<Longrightarrow> Curl_llist_destroy l h = (l', h', ps) \<Longrightarrow>
   linked l' h' [] \<and> ps = map (\<lambda>a. ptr (h a)) (rev as) \<and> (\<forall>c. c \<notin> set as \<longrightarrow> h' c = h c)"
proof (induction as arbitrary: l h l' h' ps rule: rev_induct)
  case Nil
  then show ?case
    by (subst (asm) Curl_llist_destroy.simps) (auto simp: linked_def)
next
  case (snoc a as)
  from snoc.prems(1) have t: "tail l = Some a" "lsize l > 0" by (auto simp: linked_def)
  obtain l1 h1 p where r: "Curl_llist_remove l (Some a) h = (l1, h1, p)"
    by (cases "Curl_llist_remove l (Some a) h")
  obtain qs where d: "Curl_llist_destroy l1 h1 = (l', h', qs)" "ps = p # qs"
    using snoc.prems(2) t r by (subst (asm) Curl_llist_destroy.simps) (auto split: prod.splits)
  have rm: "linked l1 h1 as" "p = ptr (h a)" "\<forall>c. c \<notin> set (as @ [a]) \<longrightarrow> h1 c = h c"
    using remove_linked [of l h as a "[]" l1 h1 p] snoc.prems(1) r by auto
  have "a \<notin> set as" using snoc.prems(1) by (auto simp: linked_def)
  then have ptrs: "map (\<lambda>a. ptr (h1 a)) as = map (\<lambda>a. ptr (h a)) as"
    using remove_linked [of l h as a "[]" l1 h1 p] snoc.prems(1) r by auto
  from snoc.IH [OF rm(1) d(1)] rm d(2) ptrs show ?case by (auto simp: rev_map)
qed

subsection \<open>The contract, as clients use it\<close>

text \<open>
  What a client that keeps several lists in one store relies on: a list represents a
  sequence of addresses, appending and removing are the sequence operations, and neither
  disturbs a list with other elements.
\<close>

lemma disjoint_update:
  assumes "\<forall>i<n. \<forall>j<n. i \<noteq> j \<longrightarrow> set (ass ! i) \<inter> set (ass ! j) = {}" "length ass = n"
    "\<And>j. j < n \<Longrightarrow> j \<noteq> i \<Longrightarrow> set zs \<inter> set (ass ! j) = {}" "j < n" "k < n" "j \<noteq> k"
  shows "set (ass[i := zs] ! j) \<inter> set (ass[i := zs] ! k) = {}"
proof (cases "j = i")
  case True
  with assms show ?thesis by simp
next
  case False
  show ?thesis
  proof (cases "k = i")
    case True
    with False assms show ?thesis by (simp add: Int_commute)
  next
    case False
    with \<open>j \<noteq> i\<close> assms show ?thesis by simp
  qed
qed

locale sequence_of =
  fixes rep :: "'l \<Rightarrow> 'h \<Rightarrow> addr list \<Rightarrow> bool"
    and elems :: "'h \<Rightarrow> addr list \<Rightarrow> 'p list"
    and empty :: 'l
    and app :: "'l \<Rightarrow> 'p \<Rightarrow> addr \<Rightarrow> 'h \<Rightarrow> 'l \<times> 'h"
    and rem :: "'l \<Rightarrow> addr option \<Rightarrow> 'h \<Rightarrow> 'l \<times> 'h \<times> 'p option"
  assumes rep_empty: "rep empty h []"
    and elems_append: "elems h (as @ cs) = elems h as @ elems h cs"
    and length_elems: "length (elems h as) = length as"
    and rep_app: "rep l h as \<Longrightarrow> ne \<notin> set as \<Longrightarrow> app l p ne h = (l', h') \<Longrightarrow>
      rep l' h' (as @ [ne]) \<and> elems h' (as @ [ne]) = elems h as @ [p]"
    and frame_app: "rep l h as \<Longrightarrow> ne \<notin> set as \<Longrightarrow> app l p ne h = (l', h') \<Longrightarrow>
      set bs \<inter> set (ne # as) = {} \<Longrightarrow> rep m h bs = rep m h' bs \<and> elems h' bs = elems h bs"
    and rep_rem: "rep l h (as @ a # cs) \<Longrightarrow> rem l (Some a) h = (l', h', q) \<Longrightarrow>
      rep l' h' (as @ cs) \<and> elems h' (as @ cs) = elems h (as @ cs) \<and> q = Some (hd (elems h [a]))"
    and frame_rem: "rep l h (as @ a # cs) \<Longrightarrow> rem l (Some a) h = (l', h', q) \<Longrightarrow>
      set bs \<inter> set (as @ a # cs) = {} \<Longrightarrow> rep m h bs = rep m h' bs \<and> elems h' bs = elems h bs"
begin

text \<open>A table of lists over one store, as a hash table has.\<close>

definition table_rep :: "'l list \<Rightarrow> 'h \<Rightarrow> addr list list \<Rightarrow> bool" where
  "table_rep t h ass \<longleftrightarrow>
     length t = length ass \<and> (\<forall>i < length t. rep (t ! i) h (ass ! i)) \<and>
     (\<forall>i < length t. \<forall>j < length t. i \<noteq> j \<longrightarrow> set (ass ! i) \<inter> set (ass ! j) = {})"

lemma table_empty: "table_rep (replicate n empty) h (replicate n [])"
  by (simp add: table_rep_def rep_empty)

lemma table_app:
  assumes "table_rep t h ass" "i < length t" "ne \<notin> \<Union> (set ` set ass)" "app (t ! i) p ne h = (l', h')"
  shows "table_rep (t[i := l']) h' (ass[i := ass ! i @ [ne]]) \<and>
    elems h' (ass ! i @ [ne]) = elems h (ass ! i) @ [p] \<and>
    (\<forall>j < length t. j \<noteq> i \<longrightarrow> elems h' (ass ! j) = elems h (ass ! j))"
proof -
  have len: "length ass = length t" using assms(1) by (simp add: table_rep_def)
  have ne: "ne \<notin> set (ass ! j)" if "j < length t" for j
    using assms(3) that len by (metis UN_I nth_mem)
  have r: "rep (t ! i) h (ass ! i)" using assms(1,2) by (simp add: table_rep_def)
  note here = rep_app [OF r ne [OF assms(2)] assms(4)]
  have other: "rep (t ! j) h' (ass ! j) \<and> elems h' (ass ! j) = elems h (ass ! j)"
    if "j < length t" "j \<noteq> i" for j
  proof -
    have "set (ass ! j) \<inter> set (ne # ass ! i) = {}"
      using assms(1,2) that ne [OF that(1)] by (auto simp: table_rep_def)
    from frame_app [OF r ne [OF assms(2)] assms(4) this, of "t ! j"] assms(1) that
    show ?thesis by (simp add: table_rep_def)
  qed
  have "table_rep (t[i := l']) h' (ass[i := ass ! i @ [ne]])"
    unfolding table_rep_def
  proof (intro conjI allI impI)
    fix j assume "j < length (t[i := l'])"
    then show "rep (t[i := l'] ! j) h' (ass[i := ass ! i @ [ne]] ! j)"
      using here other len by (cases "j = i") auto
  next
    fix j k assume "j < length (t[i := l'])" "k < length (t[i := l'])" "j \<noteq> k"
    then show "set (ass[i := ass ! i @ [ne]] ! j) \<inter> set (ass[i := ass ! i @ [ne]] ! k) = {}"
      using assms(1,2) ne len
      by (intro disjoint_update [of "length t"]) (auto simp: table_rep_def)
  qed (use len in simp)
  with here other show ?thesis by blast
qed

lemma table_rem:
  assumes "table_rep t h ass" "i < length t" "ass ! i = as @ a # cs" "rem (t ! i) (Some a) h = (l', h', p)"
  shows "table_rep (t[i := l']) h' (ass[i := as @ cs]) \<and>
    elems h' (as @ cs) = elems h (as @ cs) \<and> p = Some (hd (elems h [a])) \<and>
    (\<forall>j < length t. j \<noteq> i \<longrightarrow> elems h' (ass ! j) = elems h (ass ! j))"
proof -
  have len: "length ass = length t" using assms(1) by (simp add: table_rep_def)
  have r: "rep (t ! i) h (as @ a # cs)" using assms(1,2,3) by (auto simp: table_rep_def)
  note here = rep_rem [OF r assms(4)]
  have other: "rep (t ! j) h' (ass ! j) \<and> elems h' (ass ! j) = elems h (ass ! j)"
    if "j < length t" "j \<noteq> i" for j
  proof -
    have "set (ass ! j) \<inter> set (as @ a # cs) = {}"
      using assms(1,2) that unfolding table_rep_def assms(3) [symmetric] by metis
    from frame_rem [OF r assms(4) this, of "t ! j"] assms(1) that
    show ?thesis by (simp add: table_rep_def)
  qed
  have dis: "set (as @ cs) \<inter> set (ass ! j) = {}" if "j < length t" "j \<noteq> i" for j
  proof -
    have "set (ass ! i) \<inter> set (ass ! j) = {}"
      using assms(1,2) that unfolding table_rep_def by metis
    then show ?thesis unfolding assms(3) by auto
  qed
  have "table_rep (t[i := l']) h' (ass[i := as @ cs])"
    unfolding table_rep_def
  proof (intro conjI allI impI)
    fix j assume "j < length (t[i := l'])"
    then show "rep (t[i := l'] ! j) h' (ass[i := as @ cs] ! j)"
      using here other len by (cases "j = i") auto
  next
    fix j k assume "j < length (t[i := l'])" "k < length (t[i := l'])" "j \<noteq> k"
    then show "set (ass[i := as @ cs] ! j) \<inter> set (ass[i := as @ cs] ! k) = {}"
      using assms(1) dis len by (intro disjoint_update [of "length t"]) (auto simp: table_rep_def)
  qed (use len in simp)
  with here other show ?thesis by blast
qed

end

lemma linked_frame:
  "(\<And>a. a \<in> set bs \<Longrightarrow> h' a = h a) \<Longrightarrow> linked m h bs = linked m h' bs"
  using segment_cong [of bs h' h] by (auto simp: linked_def)

interpretation ll: sequence_of linked contents Curl_llist_init Curl_llist_append Curl_llist_remove
proof
  fix l h as ne p l' h' bs m
  assume "linked l h as" "ne \<notin> set as" "Curl_llist_append l p ne h = (l', h')"
    "set bs \<inter> set (ne # as) = {}"
  with append_linked [of l h as ne p l' h']
  have "\<And>a. a \<in> set bs \<Longrightarrow> h' a = h a" by auto
  then show "linked m h bs = linked m h' bs \<and> contents h' bs = contents h bs"
    using linked_frame [of bs h' h m] contents_cong [of bs h' h] by auto
next
  fix l h as a cs l' h' p bs m
  assume "linked l h (as @ a # cs)" "Curl_llist_remove l (Some a) h = (l', h', p)"
    "set bs \<inter> set (as @ a # cs) = {}"
  with remove_linked [of l h as a cs l' h' p]
  have "\<And>a. a \<in> set bs \<Longrightarrow> h' a = h a" by auto
  then show "linked m h bs = linked m h' bs \<and> contents h' bs = contents h bs"
    using linked_frame [of bs h' h m] contents_cong [of bs h' h] by auto
next
  fix l h as a cs l' h' p
  assume l: "linked l h (as @ a # cs)" and r: "Curl_llist_remove l (Some a) h = (l', h', p)"
  have "ptr (h a) \<noteq> None" using l by (simp add: linked_split)
  then show "linked l' h' (as @ cs) \<and> contents h' (as @ cs) = contents h (as @ cs) \<and>
      p = Some (hd (contents h [a]))"
    using remove_linked [OF l r] by auto
qed (auto simp: linked_init dest: append_linked, simp add: contents_def)

subsection \<open>Sequences of operations\<close>

datatype 'p llist_op = Insert_next "addr option" 'p addr | Append 'p addr | Remove addr

fun llist_step :: "Curl_llist \<times> 'p nodes \<Rightarrow> 'p llist_op \<Rightarrow> Curl_llist \<times> 'p nodes" where
  "llist_step (l, h) (Insert_next e p ne) = Curl_llist_insert_next l e p ne h"
| "llist_step (l, h) (Append p ne) = Curl_llist_append l p ne h"
| "llist_step (l, h) (Remove a) = (case Curl_llist_remove l (Some a) h of (l', h', _) \<Rightarrow> (l', h'))"

text \<open>
  The specification: a sequence of addresses with their payloads. A step is refused when
  the caller breaks the contract: it inserts an element that is in the list already, or
  names a position or an element that is not there.
\<close>

fun seq_insert_after :: "addr \<Rightarrow> addr \<times> 'p \<Rightarrow> (addr \<times> 'p) list \<Rightarrow> (addr \<times> 'p) list option" where
  "seq_insert_after a x [] = None"
| "seq_insert_after a x (y # ys) =
     (if fst y = a then Some (y # x # ys) else map_option ((#) y) (seq_insert_after a x ys))"

fun seq_step :: "(addr \<times> 'p) list option \<Rightarrow> 'p llist_op \<Rightarrow> (addr \<times> 'p) list option" where
  "seq_step None _ = None"
| "seq_step (Some xs) (Insert_next e p ne) =
     (if ne \<in> set (map fst xs) then None
      else case e of None \<Rightarrow> Some ((ne, p) # xs) | Some a \<Rightarrow> seq_insert_after a (ne, p) xs)"
| "seq_step (Some xs) (Append p ne) =
     (if ne \<in> set (map fst xs) then None else Some (xs @ [(ne, p)]))"
| "seq_step (Some xs) (Remove a) =
     (if a \<in> set (map fst xs) then Some (filter (\<lambda>x. fst x \<noteq> a) xs) else None)"

definition represents :: "Curl_llist \<times> 'p nodes \<Rightarrow> (addr \<times> 'p) list \<Rightarrow> bool" where
  "represents s xs \<longleftrightarrow>
     linked (fst s) (snd s) (map fst xs) \<and> contents (snd s) (map fst xs) = map snd xs"

lemma contents_split:
  "contents h (map fst us @ a # map fst vs) = map snd us @ p # map snd vs \<longleftrightarrow>
     contents h (map fst us) = map snd us \<and> the (ptr (h a)) = p \<and> contents h (map fst vs) = map snd vs"
  by (simp add: contents_def append_eq_append_conv)

lemma seq_insert_after_split:
  "seq_insert_after a x xs = Some zs \<Longrightarrow>
   \<exists>us y vs. xs = us @ y # vs \<and> fst y = a \<and> zs = us @ y # x # vs"
proof (induction xs arbitrary: zs)
  case (Cons y ys)
  show ?case
  proof (cases "fst y = a")
    case True
    with Cons.prems show ?thesis by (intro exI [of _ "[]"]) auto
  next
    case False
    with Cons.prems obtain ws where ws: "seq_insert_after a x ys = Some ws" "zs = y # ws" by auto
    from Cons.IH [OF ws(1)] obtain us z vs
      where "ys = us @ z # vs" "fst z = a" "ws = us @ z # x # vs" by blast
    with ws(2) show ?thesis by (intro exI [of _ "y # us"]) auto
  qed
qed simp

lemma seq_step_None_fold [simp]: "foldl seq_step None ops = None"
  by (induction ops) auto

lemma linked_distinct: "linked l h as \<Longrightarrow> distinct as"
  by (simp add: linked_def)

lemma llist_step_represents:
  assumes "represents s xs" "seq_step (Some xs) opr = Some ys"
  shows "represents (llist_step s opr) ys"
proof -
  obtain l h where s: "s = (l, h)" by (cases s)
  have l: "linked l h (map fst xs)" and c: "contents h (map fst xs) = map snd xs"
    using assms(1) by (simp_all add: represents_def s)
  show ?thesis
  proof (cases opr)
    case (Insert_next e p ne)
    obtain l' h' where r: "Curl_llist_insert_next l e p ne h = (l', h')"
      by (cases "Curl_llist_insert_next l e p ne h")
    have ne: "ne \<notin> set (map fst xs)" using assms(2) Insert_next by (auto split: if_splits)
    show ?thesis
    proof (cases e)
      case None
      with assms(2) Insert_next ne have ys: "ys = (ne, p) # xs" by simp
      show ?thesis
        using insert_head_linked [OF l ne] r None c by (simp add: represents_def s ys Insert_next)
    next
      case (Some a)
      with assms(2) Insert_next ne obtain us y vs
        where xs: "xs = us @ y # vs" "fst y = a" "ys = us @ y # (ne, p) # vs"
        by (auto dest: seq_insert_after_split)
      from insert_after_linked [of l h "map fst us" a "map fst vs" ne p l' h'] l ne r Some xs c
      show ?thesis
        using c [unfolded xs list.map map_append xs(2) contents_split]
        by (simp add: represents_def s Insert_next)
    qed
  next
    case (Append p ne)
    obtain l' h' where r: "Curl_llist_append l p ne h = (l', h')"
      by (cases "Curl_llist_append l p ne h")
    from assms(2) Append have ne: "ne \<notin> set (map fst xs)" and ys: "ys = xs @ [(ne, p)]"
      by (auto split: if_splits)
    show ?thesis
      using append_linked [OF l ne r] c by (simp add: represents_def s ys Append r)
  next
    case (Remove a)
    obtain l' h' q where r: "Curl_llist_remove l (Some a) h = (l', h', q)"
      by (cases "Curl_llist_remove l (Some a) h")
    from assms(2) Remove have "a \<in> set (map fst xs)" and ys: "ys = filter (\<lambda>x. fst x \<noteq> a) xs"
      by (auto split: if_splits)
    then obtain us y vs where xs: "xs = us @ y # vs" "fst y = a"
      by (metis (no_types, lifting) imageE list.set_map split_list)
    from linked_distinct [OF l] have "a \<notin> fst ` set us" "a \<notin> fst ` set vs"
      unfolding xs by (simp_all add: xs(2))
    then have "\<forall>x \<in> set us. fst x \<noteq> a" "\<forall>x \<in> set vs. fst x \<noteq> a"
      by blast+
    then have ys': "ys = us @ vs"
      by (simp add: ys xs filter_id_conv)
    have c': "contents h (map fst us) = map snd us" "contents h (map fst vs) = map snd vs"
      using c [unfolded xs list.map map_append xs(2) contents_split] by simp_all
    from remove_linked [of l h "map fst us" a "map fst vs" l' h' q] l r xs
    show ?thesis by (auto simp: represents_def s Remove ys' c')
  qed
qed

text \<open>
  C13. Any sequence of insertions, appends and removals that respects the contract leaves
  a well-formed doubly linked list (both directions, head, tail and size agree) that holds
  exactly the elements, in exactly the order, of the sequence specification.
\<close>

theorem llist_refines_sequence:
  "foldl seq_step (Some []) ops = Some xs \<Longrightarrow>
   represents (foldl llist_step (Curl_llist_init, h) ops) xs"
proof -
  have "represents s ys \<Longrightarrow> foldl seq_step (Some ys) ops = Some xs \<Longrightarrow>
      represents (foldl llist_step s ops) xs" for s ys
  proof (induction ops arbitrary: s ys)
    case (Cons opr ops)
    then obtain zs where "seq_step (Some ys) opr = Some zs"
      by (cases "seq_step (Some ys) opr") auto
    with Cons show ?case
      using llist_step_represents [of s ys opr zs] by simp
  qed simp
  moreover have "represents (Curl_llist_init, h) []"
    by (simp add: represents_def linked_init)
  ultimately show "foldl seq_step (Some []) ops = Some xs \<Longrightarrow> ?thesis" by blast
qed

theorem llist_refines_sequence_witness:
  "represents
     (foldl llist_step (Curl_llist_init, \<lambda>_. \<lparr>ptr = None, prev = None, next = None\<rparr>)
        [Append ''b'' 7, Insert_next None ''a'' 3, Append ''c'' 9, Remove 7, Insert_next (Some 3) ''d'' 7])
     [(3, ''a''), (7, ''d''), (9, ''c'')]"
  by (rule llist_refines_sequence) simp

text \<open>
  Destroying a list hands every element's pointer to the destructor exactly once,
  from the tail to the head, leaves the list empty, and does not touch other memory.
\<close>

theorem llist_destroy_all:
  assumes "linked l h as" "Curl_llist_destroy l h = (l', h', ps)"
  shows "linked l' h' [] \<and> ps = map Some (rev (contents h as)) \<and> (\<forall>c. c \<notin> set as \<longrightarrow> h' c = h c)"
proof -
  have "\<forall>a \<in> set as. ptr (h a) \<noteq> None"
    using assms(1) segment_ptr by (auto simp: linked_def)
  then have "map (\<lambda>a. ptr (h a)) (rev as) = map Some (rev (contents h as))"
    by (auto simp: contents_def rev_map [symmetric])
  with destroy_linked [OF assms] show ?thesis by simp
qed

theorem llist_destroy_all_witness:
  "let h = (\<lambda>_. \<lparr>ptr = None, prev = None, next = None\<rparr>) (5 := \<lparr>ptr = Some ''x'', prev = None, next = Some 6\<rparr>,
             6 := \<lparr>ptr = Some ''y'', prev = Some 5, next = None\<rparr>);
       r = Curl_llist_destroy \<lparr>head = Some 5, tail = Some 6, lsize = 2\<rparr> h
   in linked (fst r) (fst (snd r)) [] \<and> snd (snd r) = map Some (rev (contents h [5, 6])) \<and>
      (\<forall>c. c \<notin> set [5, 6] \<longrightarrow> fst (snd r) c = h c)"
  unfolding Let_def
  by (rule llist_destroy_all) (simp_all add: linked_def)

end
