(* ===== verification/Hash.thy ===== *)
theory Hash
  imports Llist "HOL-Library.Multiset"
begin

text \<open>
  The hash table of \<open>hash.c\<close>: an array of the linked lists of \<open>llist.c\<close>, allocated by the
  first insertion. An element embeds its list node, so both have one address; the store
  maps it to the node, whose \<open>ptr\<close> is the element. Keys are byte strings with their
  length. The walks along \<open>next\<close> pointers are partial functions (\<open>None\<close> would be a walk
  that does not end); the theorems show that they return. Calls of the user's destructor
  are listed in the results, in order.

  The locale \<open>hashing\<close> is what the table needs of its two function pointers; under it
  every operation is shown to act on the chains as a list operation, and the chains to
  represent a finite map. It is interpreted on \<open>Curl_hash_str\<close> and
  \<open>Curl_str_key_compare\<close>.
\<close>

record 'v Curl_hash_element =
  eptr :: "'v option"
  ekey :: "byte list"

record Curl_hash =
  "table" :: "Curl_llist list option"
  hash_func :: "byte list \<Rightarrow> nat \<Rightarrow> nat"
  comp_func :: "byte list \<Rightarrow> byte list \<Rightarrow> bool"
  slots :: nat
  hsize :: nat

record Curl_hash_iterator =
  slot_index :: nat
  current_element :: "addr option"

type_synonym 'v hash_nodes = "'v Curl_hash_element nodes"

subsection \<open>Hash function and comparator\<close>

text \<open>
  \<open>size_t\<close> arithmetic wraps; \<open>char\<close> is signed on the targets, so a byte is sign-extended
  before it is combined.
\<close>

fun hash_str_loop :: "64 word \<Rightarrow> byte list \<Rightarrow> 64 word" where
  "hash_str_loop h [] = h"
| "hash_str_loop h (c # cs) = hash_str_loop ((h + push_bit 5 h) XOR scast c) cs"

definition Curl_hash_str :: "byte list \<Rightarrow> nat \<Rightarrow> nat" where
  "Curl_hash_str key slots_num = unat (hash_str_loop 5381 key) mod slots_num"

definition Curl_str_key_compare :: "byte list \<Rightarrow> byte list \<Rightarrow> bool" where
  "Curl_str_key_compare k1 k2 \<longleftrightarrow> length k1 = length k2 \<and> list_all2 (=) k1 k2"

subsection \<open>Operations\<close>

definition Curl_hash_init ::
  "nat \<Rightarrow> (byte list \<Rightarrow> nat \<Rightarrow> nat) \<Rightarrow> (byte list \<Rightarrow> byte list \<Rightarrow> bool) \<Rightarrow> Curl_hash" where
  "Curl_hash_init n hfunc comparator =
     \<lparr>table = None, hash_func = hfunc, comp_func = comparator, slots = n, hsize = 0\<rparr>"

definition hash_element_dtor :: "'v Curl_hash_element option \<Rightarrow> 'v list" where
  "hash_element_dtor e = (case e of None \<Rightarrow> [] | Some he \<Rightarrow> (case eptr he of None \<Rightarrow> [] | Some v \<Rightarrow> [v]))"

definition bucket :: "Curl_hash \<Rightarrow> nat \<Rightarrow> Curl_llist" where
  "bucket H i = the (table H) ! i"

definition set_bucket :: "nat \<Rightarrow> Curl_llist \<Rightarrow> Curl_hash \<Rightarrow> Curl_hash" where
  "set_bucket i l H = H\<lparr>table := Some ((the (table H))[i := l])\<rparr>"

definition element :: "'v hash_nodes \<Rightarrow> addr \<Rightarrow> 'v Curl_hash_element" where
  "element h a = the (ptr (h a))"

text \<open>The search loop shared by \<open>Curl_hash_add\<close>, \<open>Curl_hash_delete\<close> and \<open>Curl_hash_pick\<close>.\<close>

partial_function (option) hash_find ::
  "(byte list \<Rightarrow> byte list \<Rightarrow> bool) \<Rightarrow> byte list \<Rightarrow> 'v hash_nodes \<Rightarrow> addr option \<Rightarrow> addr option option" where
  "hash_find cmp key h le =
     (case le of
        None \<Rightarrow> Some None
      | Some a \<Rightarrow>
          if cmp (ekey (element h a)) key then Some (Some a)
          else hash_find cmp key h (next (h a)))"

definition hash_unlink ::
  "Curl_hash \<Rightarrow> 'v hash_nodes \<Rightarrow> nat \<Rightarrow> addr \<Rightarrow> Curl_hash \<times> 'v hash_nodes \<times> 'v list" where
  "hash_unlink H h i a =
     (case Curl_llist_remove (bucket H i) (Some a) h of
        (l, h, p) \<Rightarrow> ((set_bucket i l H)\<lparr>hsize := hsize H - 1\<rparr>, h, hash_element_dtor p))"

text \<open>
  \<open>ne\<close> is the address \<open>mk_hash_element\<close> obtains from \<open>malloc\<close>; the fourth component of the
  result lists the destructor calls and the last is the pointer returned.
\<close>

definition Curl_hash_add ::
  "Curl_hash \<Rightarrow> 'v hash_nodes \<Rightarrow> alloc_script \<Rightarrow> byte list \<Rightarrow> 'v option \<Rightarrow> addr \<Rightarrow>
     (Curl_hash \<times> 'v hash_nodes \<times> alloc_script \<times> 'v list \<times> 'v option) option" where
  "Curl_hash_add H h A key p ne =
     (case (case table H of
              Some t \<Rightarrow> (Some t, A)
            | None \<Rightarrow>
                (case alloc A of
                   (ok, A) \<Rightarrow> (if ok then Some (replicate (slots H) Curl_llist_init) else None, A))) of
        (None, A) \<Rightarrow> Some (H, h, A, [], None)
      | (Some t, A) \<Rightarrow>
          let H = H\<lparr>table := Some t\<rparr>;
              i = hash_func H key (slots H)
          in case hash_find (comp_func H) key h (head (bucket H i)) of
               None \<Rightarrow> None
             | Some le \<Rightarrow>
                 (case (case le of
                          Some a \<Rightarrow> hash_unlink H h i a
                        | None \<Rightarrow> (H, h, [])) of
                    (H, h, fs) \<Rightarrow>
                      (case alloc A of
                         (ok, A) \<Rightarrow>
                           if ok then
                             (case Curl_llist_append (bucket H i) \<lparr>eptr = p, ekey = key\<rparr> ne h of
                                (l, h) \<Rightarrow> Some ((set_bucket i l H)\<lparr>hsize := hsize H + 1\<rparr>, h, A, fs, p))
                           else Some (H, h, A, fs, None))))"

definition Curl_hash_delete ::
  "Curl_hash \<Rightarrow> 'v hash_nodes \<Rightarrow> byte list \<Rightarrow> (Curl_hash \<times> 'v hash_nodes \<times> 'v list \<times> int) option" where
  "Curl_hash_delete H h key =
     (case table H of
        None \<Rightarrow> Some (H, h, [], 1)
      | Some _ \<Rightarrow>
          let i = hash_func H key (slots H)
          in case hash_find (comp_func H) key h (head (bucket H i)) of
               None \<Rightarrow> None
             | Some None \<Rightarrow> Some (H, h, [], 1)
             | Some (Some a) \<Rightarrow> (case hash_unlink H h i a of (H, h, fs) \<Rightarrow> Some (H, h, fs, 0)))"

definition Curl_hash_pick ::
  "Curl_hash \<Rightarrow> 'v hash_nodes \<Rightarrow> byte list \<Rightarrow> 'v option option" where
  "Curl_hash_pick H h key =
     (case table H of
        None \<Rightarrow> Some None
      | Some _ \<Rightarrow>
          let i = hash_func H key (slots H)
          in case hash_find (comp_func H) key h (head (bucket H i)) of
               None \<Rightarrow> None
             | Some None \<Rightarrow> Some None
             | Some (Some a) \<Rightarrow> Some (eptr (element h a)))"

fun hash_destroy_loop :: "Curl_llist list \<Rightarrow> 'v hash_nodes \<Rightarrow> 'v hash_nodes \<times> 'v list" where
  "hash_destroy_loop [] h = (h, [])"
| "hash_destroy_loop (l # ls) h =
     (case Curl_llist_destroy l h of
        (_, h, ps) \<Rightarrow>
          (case hash_destroy_loop ls h of
             (h, fs) \<Rightarrow> (h, concat (map hash_element_dtor ps) @ fs)))"

definition Curl_hash_destroy :: "Curl_hash \<Rightarrow> 'v hash_nodes \<Rightarrow> Curl_hash \<times> 'v hash_nodes \<times> 'v list" where
  "Curl_hash_destroy H h =
     (case (case table H of None \<Rightarrow> (h, []) | Some t \<Rightarrow> hash_destroy_loop t h) of
        (h, fs) \<Rightarrow> (H\<lparr>table := None, hsize := 0, slots := 0\<rparr>, h, fs))"

text \<open>
  The criterium is a callback, NULL (\<open>None\<close>) to remove everything; its \<open>user\<close> argument is
  part of it. The successor of an element is read before the element is removed.
\<close>

partial_function (option) hash_clean_bucket ::
  "('v option \<Rightarrow> bool) option \<Rightarrow> nat \<Rightarrow> Curl_hash \<Rightarrow> 'v hash_nodes \<Rightarrow> 'v list \<Rightarrow> addr option \<Rightarrow>
     (Curl_hash \<times> 'v hash_nodes \<times> 'v list) option" where
  "hash_clean_bucket crit i H h fs le =
     (case le of
        None \<Rightarrow> Some (H, h, fs)
      | Some a \<Rightarrow>
          let he = element h a;
              lnext = next (h a)
          in if (case crit of None \<Rightarrow> True | Some cmp \<Rightarrow> cmp (eptr he)) then
               (case hash_unlink H h i a of
                  (H, h, gs) \<Rightarrow> hash_clean_bucket crit i H h (fs @ gs) lnext)
             else hash_clean_bucket crit i H h fs lnext)"

fun hash_clean_slots ::
  "('v option \<Rightarrow> bool) option \<Rightarrow> nat list \<Rightarrow> Curl_hash \<Rightarrow> 'v hash_nodes \<Rightarrow> 'v list \<Rightarrow>
     (Curl_hash \<times> 'v hash_nodes \<times> 'v list) option" where
  "hash_clean_slots crit [] H h fs = Some (H, h, fs)"
| "hash_clean_slots crit (i # is) H h fs =
     (case hash_clean_bucket crit i H h fs (head (bucket H i)) of
        None \<Rightarrow> None
      | Some (H, h, fs) \<Rightarrow> hash_clean_slots crit is H h fs)"

definition Curl_hash_clean_with_criterium ::
  "Curl_hash \<Rightarrow> 'v hash_nodes \<Rightarrow> ('v option \<Rightarrow> bool) option \<Rightarrow>
     (Curl_hash \<times> 'v hash_nodes \<times> 'v list) option" where
  "Curl_hash_clean_with_criterium H h crit =
     (case table H of
        None \<Rightarrow> Some (H, h, [])
      | Some _ \<Rightarrow> hash_clean_slots crit [0..<slots H] H h [])"

definition Curl_hash_clean :: "Curl_hash \<Rightarrow> 'v hash_nodes \<Rightarrow> (Curl_hash \<times> 'v hash_nodes \<times> 'v list) option" where
  "Curl_hash_clean H h = Curl_hash_clean_with_criterium H h None"

definition Curl_hash_start_iterate :: Curl_hash_iterator where
  "Curl_hash_start_iterate = \<lparr>slot_index = 0, current_element = None\<rparr>"

text \<open>The end of a chain is reached: the first list from \<open>slot_index\<close> on that has a head.\<close>

definition hash_scan :: "Curl_llist list \<Rightarrow> nat \<Rightarrow> Curl_hash_iterator \<Rightarrow> Curl_hash_iterator" where
  "hash_scan t n it =
     (case List.find (\<lambda>i. head (t ! i) \<noteq> None) [slot_index it..<n] of
        None \<Rightarrow> it
      | Some i \<Rightarrow> it\<lparr>current_element := head (t ! i), slot_index := i + 1\<rparr>)"

definition Curl_hash_next_element ::
  "Curl_hash \<Rightarrow> 'v hash_nodes \<Rightarrow> Curl_hash_iterator \<Rightarrow> Curl_hash_iterator \<times> addr option" where
  "Curl_hash_next_element H h it =
     (case table H of
        None \<Rightarrow> (it, None)
      | Some t \<Rightarrow>
          let it = (case current_element it of
                      Some a \<Rightarrow> it\<lparr>current_element := next (h a)\<rparr>
                    | None \<Rightarrow> it);
              it = (case current_element it of
                      Some _ \<Rightarrow> it
                    | None \<Rightarrow> hash_scan t (slots H) it)
          in (it, current_element it))"

text \<open>A \<open>curl_off_t\<close> is used as a key by its eight bytes in memory, little-endian.\<close>

definition offt_key :: "64 word \<Rightarrow> byte list" where
  "offt_key i = map (\<lambda>n. ucast (drop_bit (8 * n) i)) [0, 1, 2, 3, 4, 5, 6, 7]"

definition Curl_hash_offt_init :: "nat \<Rightarrow> Curl_hash" where
  "Curl_hash_offt_init n = Curl_hash_init n Curl_hash_str Curl_str_key_compare"

definition Curl_hash_offt_set ::
  "Curl_hash \<Rightarrow> 'v hash_nodes \<Rightarrow> alloc_script \<Rightarrow> 64 word \<Rightarrow> 'v option \<Rightarrow> addr \<Rightarrow>
     (Curl_hash \<times> 'v hash_nodes \<times> alloc_script \<times> 'v list \<times> 'v option) option" where
  "Curl_hash_offt_set H h A i elem ne = Curl_hash_add H h A (offt_key i) elem ne"

definition Curl_hash_offt_remove ::
  "Curl_hash \<Rightarrow> 'v hash_nodes \<Rightarrow> 64 word \<Rightarrow> (Curl_hash \<times> 'v hash_nodes \<times> 'v list \<times> int) option" where
  "Curl_hash_offt_remove H h i = Curl_hash_delete H h (offt_key i)"

definition Curl_hash_offt_get :: "Curl_hash \<Rightarrow> 'v hash_nodes \<Rightarrow> 64 word \<Rightarrow> 'v option option" where
  "Curl_hash_offt_get H h i = Curl_hash_pick H h (offt_key i)"

subsection \<open>Chains and the map they represent\<close>

text \<open>
  The contract between the table and its function pointers: hashing stays within the
  table and the comparator is equality of keys.
\<close>

locale hashing =
  fixes hf :: "byte list \<Rightarrow> nat \<Rightarrow> nat"
    and cmp :: "byte list \<Rightarrow> byte list \<Rightarrow> bool"
  assumes hf_range: "0 < n \<Longrightarrow> hf k n < n"
    and cmp_eq: "cmp k k' \<longleftrightarrow> k = k'"

definition chains :: "'v hash_nodes \<Rightarrow> addr list list \<Rightarrow> 'v Curl_hash_element list list" where
  "chains h ass = map (contents h) ass"

text \<open>Every element is in the chain its key hashes to, and no chain holds a key twice.\<close>

definition keys_ok :: "(byte list \<Rightarrow> nat \<Rightarrow> nat) \<Rightarrow> 'v Curl_hash_element list list \<Rightarrow> bool" where
  "keys_ok hf es \<longleftrightarrow>
     (\<forall>i < length es. distinct (map ekey (es ! i)) \<and> (\<forall>e \<in> set (es ! i). hf (ekey e) (length es) = i))"

definition abs_map ::
  "(byte list \<Rightarrow> nat \<Rightarrow> nat) \<Rightarrow> 'v Curl_hash_element list list \<Rightarrow> (byte list \<rightharpoonup> 'v option)" where
  "abs_map hf es k = map_of (map (\<lambda>e. (ekey e, eptr e)) (es ! hf k (length es))) k"

definition hash_rep ::
  "(byte list \<Rightarrow> nat \<Rightarrow> nat) \<Rightarrow> (byte list \<Rightarrow> byte list \<Rightarrow> bool) \<Rightarrow>
     Curl_hash \<Rightarrow> 'v hash_nodes \<Rightarrow> addr list list \<Rightarrow> bool" where
  "hash_rep hf cmp H h ass \<longleftrightarrow>
     hash_func H = hf \<and> comp_func H = cmp \<and> 0 < slots H \<and> length ass = slots H \<and>
     hsize H = sum_list (map length ass) \<and>
     (case table H of None \<Rightarrow> ass = replicate (slots H) [] | Some t \<Rightarrow> ll.table_rep t h ass)"

lemma length_chains [simp]: "length (chains h ass) = length ass"
  by (simp add: chains_def)

lemma nth_chains [simp]: "i < length ass \<Longrightarrow> chains h ass ! i = contents h (ass ! i)"
  by (simp add: chains_def)

lemma contents_element: "contents h as = map (element h) as"
  by (simp add: contents_def element_def)

lemma map_of_elements_None:
  "map_of (map (\<lambda>e. (ekey e, eptr e)) es) k = None \<longleftrightarrow> k \<notin> ekey ` set es"
  by (induction es) auto

lemma map_of_elements_notin [simp]:
  "k \<notin> ekey ` set es \<Longrightarrow> map_of (map (\<lambda>e. (ekey e, eptr e)) es) k = None"
  by (simp add: map_of_elements_None)

lemma map_of_elements_append:
  "map_of (map (\<lambda>e. (ekey e, eptr e)) (us @ vs)) k =
     (if k \<in> ekey ` set us then map_of (map (\<lambda>e. (ekey e, eptr e)) us) k
      else map_of (map (\<lambda>e. (ekey e, eptr e)) vs) k)"
  by (induction us) auto

text \<open>Removing an element from its chain, and appending one with a new key.\<close>

lemma chain_del:
  assumes "keys_ok hf es" "i < length es" "es ! i = us @ e # vs" "es' = es[i := us @ vs]"
  shows "keys_ok hf es' \<and> abs_map hf es' = (abs_map hf es)(ekey e := None)"
proof -
  have i: "hf (ekey e) (length es) = i" and
    e: "ekey e \<notin> ekey ` set us" "ekey e \<notin> ekey ` set vs" and d: "distinct (map ekey (us @ vs))"
  proof -
    have "distinct (map ekey (us @ e # vs)) \<and> (\<forall>e \<in> set (us @ e # vs). hf (ekey e) (length es) = i)"
      using assms(1,2) unfolding keys_ok_def assms(3) [symmetric] by blast
    then show "hf (ekey e) (length es) = i" "ekey e \<notin> ekey ` set us" "ekey e \<notin> ekey ` set vs"
      "distinct (map ekey (us @ vs))"
      by auto
  qed
  have "abs_map hf es' k = ((abs_map hf es)(ekey e := None)) k" for k
  proof (cases "hf k (length es) = i")
    case True
    then show ?thesis
      using assms(2) e by (cases "k = ekey e") (simp_all add: abs_map_def assms(3,4)
          map_of_elements_append del: map_append)
  next
    case False
    then show ?thesis using i by (auto simp: abs_map_def assms(4))
  qed
  moreover have "keys_ok hf es'"
    unfolding keys_ok_def assms(4)
  proof (intro allI impI)
    fix j assume "j < length (es[i := us @ vs])"
    with assms(1-3) d show "distinct (map ekey (es[i := us @ vs] ! j)) \<and>
        (\<forall>e \<in> set (es[i := us @ vs] ! j). hf (ekey e) (length (es[i := us @ vs])) = j)"
      by (cases "j = i") (auto simp: keys_ok_def)
  qed
  ultimately show ?thesis by blast
qed

lemma chain_add:
  assumes "keys_ok hf es" "hf (ekey e) (length es) = i" "i < length es" "ekey e \<notin> ekey ` set (es ! i)"
    "es' = es[i := es ! i @ [e]]"
  shows "keys_ok hf es' \<and> abs_map hf es' = (abs_map hf es)(ekey e \<mapsto> eptr e)"
proof -
  have "abs_map hf es' k = ((abs_map hf es)(ekey e \<mapsto> eptr e)) k" for k
  proof (cases "hf k (length es) = i")
    case True
    then show ?thesis
      using assms(3,4) by (cases "k = ekey e") (simp_all add: abs_map_def assms(5)
          map_of_elements_append del: map_append)
  next
    case False
    then show ?thesis using assms(2) by (auto simp: abs_map_def assms(5))
  qed
  moreover have "keys_ok hf es'"
    using assms(1-4) unfolding keys_ok_def assms(5)
    by (auto simp: nth_list_update)
  ultimately show ?thesis by blast
qed

lemma keys_ok_empty: "keys_ok hf (chains h (replicate n []))"
  by (simp add: keys_ok_def)

lemma abs_map_empty: "(\<And>k. hf k n < n) \<Longrightarrow> abs_map hf (chains h (replicate n [])) = Map.empty"
  by (rule ext) (simp add: abs_map_def)

subsection \<open>The operations on the chains\<close>

lemma hash_find_segment:
  "segment h b p as None \<Longrightarrow>
   hash_find cmp key h p = Some (List.find (\<lambda>a. cmp (ekey (element h a)) key) as)"
  by (induction as arbitrary: b p; subst hash_find.simps) auto

lemma hash_rep_bucket:
  "hash_rep hf cmp H h ass \<Longrightarrow> table H \<noteq> None \<Longrightarrow> i < slots H \<Longrightarrow> linked (bucket H i) h (ass ! i)"
  by (auto simp: hash_rep_def ll.table_rep_def bucket_def)

lemma hash_rep_find:
  assumes "hash_rep hf cmp H h ass" "table H \<noteq> None" "i < slots H"
  shows "hash_find cmp key h (head (bucket H i)) =
    Some (List.find (\<lambda>a. cmp (ekey (element h a)) key) (ass ! i))"
  using hash_rep_bucket [OF assms] hash_find_segment unfolding linked_def by blast

lemma sum_list_length_update:
  "i < length ass \<Longrightarrow>
   sum_list (map length (ass[i := zs])) + length (ass ! i) = sum_list (map length ass) + length zs"
  using member_le_sum_list [of "length (ass ! i)" "map length ass"]
  by (simp add: map_update sum_list_update)

lemma hash_rep_unlink:
  assumes "hash_rep hf cmp H h ass" "table H \<noteq> None" "i < slots H" "ass ! i = us @ a # vs"
    "hash_unlink H h i a = (H', h', fs)"
  shows "hash_rep hf cmp H' h' (ass[i := us @ vs]) \<and> table H' \<noteq> None \<and> slots H' = slots H \<and>
    chains h' (ass[i := us @ vs]) = (chains h ass)[i := contents h us @ contents h vs] \<and>
    fs = hash_element_dtor (Some (element h a)) \<and> (\<forall>c. c \<noteq> a \<longrightarrow> element h' c = element h c)"
proof -
  obtain t where t: "table H = Some t" using assms(2) by auto
  have tr: "ll.table_rep t h ass" and len: "length ass = slots H" "length t = slots H"
    using assms(1) t by (auto simp: hash_rep_def ll.table_rep_def)
  obtain l p where r: "Curl_llist_remove (t ! i) (Some a) h = (l, h', p)"
    and H': "H' = (set_bucket i l H)\<lparr>hsize := hsize H - 1\<rparr>" and fs: "fs = hash_element_dtor p"
    using assms(5) t by (auto simp: hash_unlink_def bucket_def split: prod.splits)
  note rem = ll.table_rem [OF tr _ assms(4) r]
  have "linked (t ! i) h (us @ a # vs)"
    using hash_rep_bucket [OF assms(1-3)] t assms(4) by (simp add: bucket_def)
  from remove_linked [OF this r] have el: "\<forall>c. c \<noteq> a \<longrightarrow> element h' c = element h c"
    by (simp add: element_def)
  have "chains h' (ass[i := us @ vs]) = (chains h ass)[i := contents h us @ contents h vs]"
    using rem assms(3) len by (intro nth_equalityI) (auto simp: chains_def nth_list_update)
  moreover have "hsize H - 1 = sum_list (map length (ass[i := us @ vs]))"
    using sum_list_length_update [of i ass "us @ vs"] assms(1,3,4) len by (simp add: hash_rep_def)
  ultimately show ?thesis
    using rem assms(1,3) len t el
    by (simp add: hash_rep_def H' set_bucket_def fs element_def contents_def)
qed

lemma hash_rep_append:
  assumes "hash_rep hf cmp H h ass" "table H \<noteq> None" "i < slots H" "ne \<notin> \<Union> (set ` set ass)"
    "Curl_llist_append (bucket H i) e ne h = (l, h')" "H' = (set_bucket i l H)\<lparr>hsize := hsize H + 1\<rparr>"
  shows "hash_rep hf cmp H' h' (ass[i := ass ! i @ [ne]]) \<and>
    chains h' (ass[i := ass ! i @ [ne]]) = (chains h ass)[i := chains h ass ! i @ [e]]"
proof -
  obtain t where t: "table H = Some t" using assms(2) by auto
  have tr: "ll.table_rep t h ass" and len: "length ass = slots H" "length t = slots H"
    using assms(1) t by (auto simp: hash_rep_def ll.table_rep_def)
  have r: "Curl_llist_append (t ! i) e ne h = (l, h')" using assms(5) t by (simp add: bucket_def)
  note app = ll.table_app [OF tr _ assms(4) r]
  have "chains h' (ass[i := ass ! i @ [ne]]) = (chains h ass)[i := chains h ass ! i @ [e]]"
    using app assms(3) len by (intro nth_equalityI) (auto simp: chains_def nth_list_update)
  moreover have "hsize H + 1 = sum_list (map length (ass[i := ass ! i @ [ne]]))"
    using sum_list_length_update [of i ass "ass ! i @ [ne]"] assms(1,3) len by (simp add: hash_rep_def)
  ultimately show ?thesis
    using app assms(1,3) len t by (simp add: hash_rep_def assms(6) set_bucket_def)
qed

text \<open>
  What a table represents: a map from keys to pointers, with the addresses its elements
  may use. \<open>freed\<close> is what happens to the entry an operation drops.
\<close>

definition hash_map ::
  "(byte list \<Rightarrow> nat \<Rightarrow> nat) \<Rightarrow> (byte list \<Rightarrow> byte list \<Rightarrow> bool) \<Rightarrow> Curl_hash \<Rightarrow> 'v hash_nodes \<Rightarrow>
     addr set \<Rightarrow> (byte list \<rightharpoonup> 'v option) \<Rightarrow> bool" where
  "hash_map hf cmp H h used m \<longleftrightarrow>
     (\<exists>ass. hash_rep hf cmp H h ass \<and> keys_ok hf (chains h ass) \<and> abs_map hf (chains h ass) = m \<and>
        \<Union> (set ` set ass) \<subseteq> used)"

definition freed :: "'v option option \<Rightarrow> 'v list" where
  "freed x = (case x of Some (Some v) \<Rightarrow> [v] | _ \<Rightarrow> [])"

lemma freed_simps [simp]: "freed None = []" "freed (Some None) = []" "freed (Some (Some v)) = [v]"
  by (simp_all add: freed_def)

lemma hash_element_dtor_freed: "hash_element_dtor (Some e) = freed (Some (eptr e))"
  by (simp add: hash_element_dtor_def split: option.split)

lemma find_elements:
  "map_option (\<lambda>a. eptr (element h a)) (List.find (\<lambda>a. ekey (element h a) = key) as) =
   map_of (map (\<lambda>e. (ekey e, eptr e)) (contents h as)) key"
  by (induction as) (auto simp: contents_element element_def)

lemma find_Some_split:
  "List.find P xs = Some x \<Longrightarrow> \<exists>us vs. xs = us @ x # vs \<and> P x"
  by (induction xs) (auto split: if_splits, metis append_Cons)

context hashing
begin

lemma find_abs:
  assumes "hash_rep hf cmp H h ass" "table H \<noteq> None" "i = hf key (slots H)"
  shows "\<exists>r. hash_find (comp_func H) key h (head (bucket H i)) = Some r \<and> i < slots H \<and>
    abs_map hf (chains h ass) key = map_option (\<lambda>a. eptr (element h a)) r \<and>
    (\<forall>a. r = Some a \<longrightarrow> (\<exists>us vs. ass ! i = us @ a # vs \<and> ekey (element h a) = key)) \<and>
    (r = None \<longrightarrow> key \<notin> ekey ` set (chains h ass ! i))"
proof -
  have i: "i < slots H" and len: "length ass = slots H" and c: "comp_func H = cmp"
    using assms hf_range by (auto simp: hash_rep_def)
  let ?r = "List.find (\<lambda>a. ekey (element h a) = key) (ass ! i)"
  have "hash_find (comp_func H) key h (head (bucket H i)) = Some ?r"
    using hash_rep_find [OF assms(1,2) i] by (simp add: c cmp_eq)
  moreover have "abs_map hf (chains h ass) key = map_option (\<lambda>a. eptr (element h a)) ?r"
    using i len by (simp add: abs_map_def assms(3) find_elements)
  moreover have "\<forall>a. ?r = Some a \<longrightarrow> (\<exists>us vs. ass ! i = us @ a # vs \<and> ekey (element h a) = key)"
    using find_Some_split [of "\<lambda>a. ekey (element h a) = key" "ass ! i"] by blast
  moreover have "?r = None \<longrightarrow> key \<notin> ekey ` set (chains h ass ! i)"
    using i len by (auto simp: find_None_iff contents_element)
  ultimately show ?thesis using i by (intro exI [of _ ?r]) simp
qed

lemma unlink_map:
  assumes "hash_rep hf cmp H h ass" "keys_ok hf (chains h ass)" "table H \<noteq> None" "i < slots H"
    "ass ! i = us @ a # vs" "hash_unlink H h i a = (H', h', fs)" "ass' = ass[i := us @ vs]"
  shows "hash_rep hf cmp H' h' ass' \<and> keys_ok hf (chains h' ass') \<and> table H' \<noteq> None \<and>
    slots H' = slots H \<and> hash_func H' = hash_func H \<and>
    abs_map hf (chains h' ass') = (abs_map hf (chains h ass))(ekey (element h a) := None) \<and>
    fs = freed (Some (eptr (element h a))) \<and> \<Union> (set ` set ass') \<subseteq> \<Union> (set ` set ass)"
proof -
  have len: "length ass = slots H" using assms(1) by (simp add: hash_rep_def)
  note un = hash_rep_unlink [OF assms(1,3,4,5,6), folded assms(7)]
  have ch: "chains h ass ! i = contents h us @ element h a # contents h vs"
    using assms(4,5) len by (simp add: element_def)
  have rm: "keys_ok hf (chains h' ass') \<and>
      abs_map hf (chains h' ass') = (abs_map hf (chains h ass))(ekey (element h a) := None)"
    by (rule chain_del [OF assms(2) _ ch]) (use un assms(4) len in simp_all)
  have "set ass' \<subseteq> insert (us @ vs) (set ass)"
    using set_update_subset_insert assms(7) by metis
  moreover have "set (us @ vs) \<subseteq> \<Union> (set ` set ass)"
  proof -
    have "ass ! i \<in> set ass" using assms(4) len by simp
    then have "set (us @ a # vs) \<subseteq> \<Union> (set ` set ass)" unfolding assms(5) by blast
    then show ?thesis by simp
  qed
  ultimately have "\<Union> (set ` set ass') \<subseteq> \<Union> (set ` set ass)" by blast
  with rm un assms(1) show ?thesis
    by (simp add: hash_element_dtor_freed hash_rep_def)
qed

lemma pick_map:
  assumes "hash_map hf cmp H h used m"
  shows "Curl_hash_pick H h key = Some (case m key of None \<Rightarrow> None | Some p \<Rightarrow> p)"
proof -
  obtain ass where a: "hash_rep hf cmp H h ass" "abs_map hf (chains h ass) = m"
    using assms by (auto simp: hash_map_def)
  then have hfn: "hash_func H = hf" by (simp add: hash_rep_def)
  show ?thesis
  proof (cases "table H")
    case None
    with a have "ass = replicate (slots H) []" "0 < slots H" by (simp_all add: hash_rep_def)
    with a have "m = Map.empty" using abs_map_empty [of hf "slots H" h] hf_range by simp
    with None show ?thesis by (simp add: Curl_hash_pick_def)
  next
    case (Some t)
    obtain r where "hash_find (comp_func H) key h (head (bucket H (hf key (slots H)))) = Some r"
      "abs_map hf (chains h ass) key = map_option (\<lambda>a. eptr (element h a)) r"
      using find_abs [OF a(1) _ refl, of key] Some by blast
    with Some a(2) hfn show ?thesis
      by (auto simp: Curl_hash_pick_def split: option.split)
  qed
qed

lemma hash_mapI:
  "hash_rep hf cmp H h ass \<Longrightarrow> keys_ok hf (chains h ass) \<Longrightarrow> abs_map hf (chains h ass) = m \<Longrightarrow>
   \<Union> (set ` set ass) \<subseteq> used \<Longrightarrow> hash_map hf cmp H h used m"
  by (auto simp: hash_map_def)

text \<open>Searching the chain of a key and unlinking what is found, as both callers do.\<close>

lemma find_unlink:
  assumes "hash_rep hf cmp H h ass" "keys_ok hf (chains h ass)" "table H \<noteq> None"
    "abs_map hf (chains h ass) = m" "i = hf key (slots H)"
  shows "\<exists>r H' h' ass'. hash_find (comp_func H) key h (head (bucket H i)) = Some r \<and>
    (r = None \<longleftrightarrow> m key = None) \<and>
    (case r of Some a \<Rightarrow> hash_unlink H h i a | None \<Rightarrow> (H, h, [])) = (H', h', freed (m key)) \<and>
    hash_rep hf cmp H' h' ass' \<and> keys_ok hf (chains h' ass') \<and> table H' \<noteq> None \<and>
    slots H' = slots H \<and> hash_func H' = hash_func H \<and>
    abs_map hf (chains h' ass') = m(key := None) \<and> \<Union> (set ` set ass') \<subseteq> \<Union> (set ` set ass)"
proof -
  obtain r where r: "hash_find (comp_func H) key h (head (bucket H i)) = Some r" "i < slots H"
    "m key = map_option (\<lambda>a. eptr (element h a)) r"
    "\<forall>a. r = Some a \<longrightarrow> (\<exists>us vs. ass ! i = us @ a # vs \<and> ekey (element h a) = key)"
    using find_abs [OF assms(1,3,5)] assms(4) by blast
  show ?thesis
  proof (cases r)
    case None
    with r have "m key = None" by simp
    then have "m(key := None) = m" by auto
    with None r(1) assms \<open>m key = None\<close> show ?thesis
      by (intro exI [of _ None] exI [of _ H] exI [of _ h] exI [of _ ass]) simp
  next
    case (Some x)
    obtain us vs where x: "ass ! i = us @ x # vs" "ekey (element h x) = key"
      using r(4) Some by blast
    obtain H' h' fs where u: "hash_unlink H h i x = (H', h', fs)"
      by (cases "hash_unlink H h i x")
    note un = unlink_map [OF assms(1-3) r(2) x(1) u refl]
    have "fs = freed (m key)" using un by (simp add: r(3) Some)
    with un x(2) u r(1,3) Some assms(4) show ?thesis
      by (intro exI [of _ "Some x"] exI [of _ H'] exI [of _ h'] exI [of _ "ass[i := us @ vs]"]) simp
  qed
qed

lemma table_None_empty:
  "hash_rep hf cmp H h ass \<Longrightarrow> table H = None \<Longrightarrow> abs_map hf (chains h ass) = Map.empty"
  using abs_map_empty [of hf "slots H" h] hf_range by (simp add: hash_rep_def)

lemma delete_map:
  assumes "hash_map hf cmp H h used m"
  shows "\<exists>H' h'. Curl_hash_delete H h key = Some (H', h', freed (m key), if m key = None then 1 else 0) \<and>
    hash_map hf cmp H' h' used (m(key := None))"
proof -
  obtain ass where a: "hash_rep hf cmp H h ass" "keys_ok hf (chains h ass)"
    "abs_map hf (chains h ass) = m" "\<Union> (set ` set ass) \<subseteq> used"
    using assms by (auto simp: hash_map_def)
  then have hfn: "hash_func H = hf" by (simp add: hash_rep_def)
  show ?thesis
  proof (cases "table H")
    case None
    have "m = Map.empty" using table_None_empty [OF a(1) None] a(3) by simp
    with None assms show ?thesis by (simp add: Curl_hash_delete_def)
  next
    case (Some t)
    then have tb: "table H \<noteq> None" by simp
    obtain r H' h' ass' where u: "hash_find (comp_func H) key h (head (bucket H (hf key (slots H)))) = Some r"
      "r = None \<longleftrightarrow> m key = None"
      "(case r of Some a \<Rightarrow> hash_unlink H h (hf key (slots H)) a | None \<Rightarrow> (H, h, [])) = (H', h', freed (m key))"
      "hash_rep hf cmp H' h' ass'" "keys_ok hf (chains h' ass')"
      "abs_map hf (chains h' ass') = m(key := None)" "\<Union> (set ` set ass') \<subseteq> \<Union> (set ` set ass)"
      using find_unlink [OF a(1,2) tb a(3) refl, of key] by (elim exE conjE) (rule that)
    have "hash_map hf cmp H' h' used (m(key := None))"
      by (rule hash_mapI [OF u(4-6)]) (use u(7) a(4) in blast)
    with u(1-3) Some hfn show ?thesis
      by (cases r) (simp_all add: Curl_hash_delete_def)
  qed
qed

text \<open>
  Adding: the table is allocated if there is none, an entry with the key is dropped, and
  then the new element is allocated. So a failure to allocate the element loses the old
  entry.
\<close>

lemma add_map:
  assumes "hash_map hf cmp H h used m" "ne \<notin> used"
    "(if table H = None then alloc A else (True, A)) = (ok1, A1)" "alloc A1 = (ok2, A2)"
  shows "\<exists>H' h'. Curl_hash_add H h A key p ne =
      (if \<not> ok1 then Some (H', h', A1, [], None)
       else if \<not> ok2 then Some (H', h', A2, freed (m key), None)
       else Some (H', h', A2, freed (m key), p)) \<and>
    hash_map hf cmp H' h' (insert ne used)
      (if \<not> ok1 then m else if \<not> ok2 then m(key := None) else m(key \<mapsto> p))"
proof -
  obtain ass where a: "hash_rep hf cmp H h ass" "keys_ok hf (chains h ass)"
    "abs_map hf (chains h ass) = m" "\<Union> (set ` set ass) \<subseteq> used"
    using assms by (auto simp: hash_map_def)
  show ?thesis
  proof (cases ok1)
    case False
    with assms(3) have "table H = None" "alloc A = (False, A1)" by (auto split: if_splits)
    then show ?thesis using False hash_mapI [OF a(1-3), of "insert ne used"] a(4)
      by (auto simp: Curl_hash_add_def)
  next
    case True
    define t where "t = (case table H of Some t \<Rightarrow> t | None \<Rightarrow> replicate (slots H) Curl_llist_init)"
    define H1 where "H1 = H\<lparr>table := Some t\<rparr>"
    let ?i = "hf key (slots H)"
    have rep1: "hash_rep hf cmp H1 h ass"
      using a(1) ll.table_empty [where h = h and n = "slots H"]
      by (auto simp: hash_rep_def H1_def t_def split: option.splits)
    have H1: "slots H1 = slots H" "hash_func H1 = hf" "table H1 \<noteq> None"
      using a(1) by (simp_all add: H1_def hash_rep_def)
    obtain r H2 h2 ass2 where u: "hash_find (comp_func H1) key h (head (bucket H1 ?i)) = Some r"
      "(case r of Some a \<Rightarrow> hash_unlink H1 h ?i a | None \<Rightarrow> (H1, h, [])) = (H2, h2, freed (m key))"
      "hash_rep hf cmp H2 h2 ass2" "keys_ok hf (chains h2 ass2)" "table H2 \<noteq> None" "slots H2 = slots H1"
      "abs_map hf (chains h2 ass2) = m(key := None)" "\<Union> (set ` set ass2) \<subseteq> \<Union> (set ` set ass)"
      using find_unlink [OF rep1 a(2) H1(3) a(3), of ?i key] H1(1) by auto
    have add: "Curl_hash_add H h A key p ne =
        (if ok2 then
           (case Curl_llist_append (bucket H2 ?i) \<lparr>eptr = p, ekey = key\<rparr> ne h2 of
              (l, h) \<Rightarrow> Some ((set_bucket ?i l H2)\<lparr>hsize := hsize H2 + 1\<rparr>, h, A2, freed (m key), p))
         else Some (H2, h2, A2, freed (m key), None))"
    proof -
      have tb: "(case table H of Some t \<Rightarrow> (Some t, A)
            | None \<Rightarrow>
                (case alloc A of
                   (ok, A) \<Rightarrow> (if ok then Some (replicate (slots H) Curl_llist_init) else None, A))) = (Some t, A1)"
        using assms(3) True by (auto simp: t_def split: option.splits)
      have e: "hash_func H1 key (slots H1) = ?i" by (simp add: H1)
      show ?thesis
        unfolding Curl_hash_add_def tb prod.case option.case H1_def [symmetric] Let_def e u(1,2) assms(4)
        using u(3,6) H1 by (simp add: hash_rep_def)
    qed
    show ?thesis
    proof (cases ok2)
      case False
      have "hash_map hf cmp H2 h2 (insert ne used) (m(key := None))"
        by (rule hash_mapI [OF u(3,4,7)]) (use u(8) a(4) in blast)
      with False True add show ?thesis by simp
    next
      case ok2: True
      obtain l h3 where ap: "Curl_llist_append (bucket H2 ?i) \<lparr>eptr = p, ekey = key\<rparr> ne h2 = (l, h3)"
        by (cases "Curl_llist_append (bucket H2 ?i) \<lparr>eptr = p, ekey = key\<rparr> ne h2")
      have i: "?i < slots H2" "length ass2 = slots H2" using u(3,6) H1(1) hf_range by (auto simp: hash_rep_def)
      have ne: "ne \<notin> \<Union> (set ` set ass2)" using u(8) a(4) assms(2) by blast
      define ass3 where "ass3 = ass2[?i := ass2 ! ?i @ [ne]]"
      note app = hash_rep_append [OF u(3,5) i(1) ne ap refl, folded ass3_def]
      have "abs_map hf (chains h2 ass2) key = None" using u(7) by simp
      then have nk: "key \<notin> ekey ` set (chains h2 ass2 ! ?i)"
        using i u(6) H1(1) by (simp add: abs_map_def map_of_elements_None del: nth_chains)
      have ch: "keys_ok hf (chains h3 ass3) \<and> abs_map hf (chains h3 ass3) = (m(key := None))(key \<mapsto> p)"
        using chain_add [OF u(4), of "\<lparr>eptr = p, ekey = key\<rparr>" ?i "chains h3 ass3"] app i u(6,7) H1(1) nk
        by (simp del: nth_chains)
      have "set ass3 \<subseteq> insert (ass2 ! ?i @ [ne]) (set ass2)"
        unfolding ass3_def by (rule set_update_subset_insert)
      moreover from i have "ass2 ! ?i \<in> set ass2" by simp
      then have "set (ass2 ! ?i @ [ne]) \<subseteq> insert ne (\<Union> (set ` set ass2))" by auto
      ultimately have "\<Union> (set ` set ass3) \<subseteq> insert ne (\<Union> (set ` set ass2))" by blast
      also have "\<dots> \<subseteq> insert ne used" using u(8) a(4) by blast
      finally have "\<Union> (set ` set ass3) \<subseteq> insert ne used" .
      with app ch have "hash_map hf cmp ((set_bucket ?i l H2)\<lparr>hsize := hsize H2 + 1\<rparr>) h3 (insert ne used) (m(key \<mapsto> p))"
        by (intro hash_mapI [of _ h3 ass3]) auto
      with ok2 True add ap show ?thesis by simp
    qed
  qed
qed

end

subsection \<open>Cleaning, destroying and iterating\<close>

definition dtor_calls :: "'v Curl_hash_element list \<Rightarrow> 'v list" where
  "dtor_calls es = concat (map (\<lambda>e. hash_element_dtor (Some e)) es)"

definition chosen :: "('p \<Rightarrow> bool) option \<Rightarrow> 'p \<Rightarrow> bool" where
  "chosen crit p = (case crit of None \<Rightarrow> True | Some cmp \<Rightarrow> cmp p)"

abbreviation selected :: "('v option \<Rightarrow> bool) option \<Rightarrow> 'v Curl_hash_element \<Rightarrow> bool" where
  "selected crit e \<equiv> chosen crit (eptr e)"

lemma dtor_calls_simps [simp]:
  "dtor_calls [] = []" "dtor_calls (e # es) = hash_element_dtor (Some e) @ dtor_calls es"
  "dtor_calls (es @ ds) = dtor_calls es @ dtor_calls ds"
  by (simp_all add: dtor_calls_def)

lemma clean_bucket_step:
  "hash_clean_bucket crit i H h fs None = Some (H, h, fs)"
  "hash_clean_bucket crit i H h fs (Some a) =
     (if selected crit (element h a) then
        (case hash_unlink H h i a of (H', h', gs) \<Rightarrow> hash_clean_bucket crit i H' h' (fs @ gs) (next (h a)))
      else hash_clean_bucket crit i H h fs (next (h a)))"
  by (subst hash_clean_bucket.simps, simp add: chosen_def)+

lemma linked_next:
  "linked l h (us @ a # vs) \<Longrightarrow> next (h a) = (case vs of [] \<Rightarrow> None | b # _ \<Rightarrow> Some b)"
  by (cases vs) (auto simp: linked_split)

lemma clean_bucket_chain:
  "hash_rep hf cmp H h ass \<Longrightarrow> table H \<noteq> None \<Longrightarrow> i < slots H \<Longrightarrow> ass ! i = us @ vs \<Longrightarrow>
   p = (case vs of [] \<Rightarrow> None | b # _ \<Rightarrow> Some b) \<Longrightarrow>
   \<exists>H' h' zs. hash_clean_bucket crit i H h fs p =
       Some (H', h', fs @ dtor_calls (filter (\<lambda>e. selected crit e) (contents h vs))) \<and>
     hash_rep hf cmp H' h' (ass[i := us @ zs]) \<and> table H' \<noteq> None \<and> slots H' = slots H \<and>
     set zs \<subseteq> set vs \<and>
     chains h' (ass[i := us @ zs]) =
       (chains h ass)[i := contents h us @ filter (\<lambda>e. \<not> selected crit e) (contents h vs)]"
proof (induction vs arbitrary: H h ass us p fs)
  case Nil
  have "length ass = slots H" using Nil.prems(1) by (simp add: hash_rep_def)
  then have "ass[i := us] = ass" "(chains h ass)[i := contents h us] = chains h ass"
    using Nil.prems(3,4) by (simp_all add: list_update_same_conv)
  with Nil.prems show ?case
    by (intro exI [of _ H] exI [of _ h] exI [of _ "[]"]) (simp add: clean_bucket_step)
next
  case (Cons a vs)
  have len: "length ass = slots H" using Cons.prems(1) by (simp add: hash_rep_def)
  have l: "linked (bucket H i) h (us @ a # vs)"
    using hash_rep_bucket [OF Cons.prems(1-3)] Cons.prems(4) by simp
  note nx = linked_next [OF l]
  have cont: "contents h (a # vs) = element h a # contents h vs" by (simp add: element_def)
  show ?case
  proof (cases "selected crit (element h a)")
    case True
    obtain H1 h1 gs where u: "hash_unlink H h i a = (H1, h1, gs)" by (cases "hash_unlink H h i a")
    note un = hash_rep_unlink [OF Cons.prems(1-4) u]
    have "a \<notin> set vs" "a \<notin> set us" using linked_distinct [OF l] by auto
    then have same: "contents h1 vs = contents h vs" "contents h1 us = contents h us"
      using un by (auto simp: contents_element)
    obtain H' h' zs where r: "hash_clean_bucket crit i H1 h1 (fs @ gs) (next (h a)) =
        Some (H', h', (fs @ gs) @ dtor_calls (filter (\<lambda>e. selected crit e) (contents h1 vs)))"
      "hash_rep hf cmp H' h' ((ass[i := us @ vs])[i := us @ zs])" "table H' \<noteq> None"
      "slots H' = slots H1" "set zs \<subseteq> set vs"
      "chains h' ((ass[i := us @ vs])[i := us @ zs]) =
        (chains h1 (ass[i := us @ vs]))[i := contents h1 us @ filter (\<lambda>e. \<not> selected crit e) (contents h1 vs)]"
      using Cons.IH [of H1 h1 "ass[i := us @ vs]" us "next (h a)" "fs @ gs"] un nx Cons.prems(3) len by auto
    then show ?thesis
      using True u un Cons.prems(5) cont same
      by (intro exI [of _ H'] exI [of _ h'] exI [of _ zs]) (auto simp: clean_bucket_step)
  next
    case False
    obtain H' h' zs where r: "hash_clean_bucket crit i H h fs (next (h a)) =
        Some (H', h', fs @ dtor_calls (filter (\<lambda>e. selected crit e) (contents h vs)))"
      "hash_rep hf cmp H' h' (ass[i := (us @ [a]) @ zs])" "table H' \<noteq> None" "slots H' = slots H" "set zs \<subseteq> set vs"
      "chains h' (ass[i := (us @ [a]) @ zs]) =
        (chains h ass)[i := contents h (us @ [a]) @ filter (\<lambda>e. \<not> selected crit e) (contents h vs)]"
      using Cons.IH [of H h ass "us @ [a]" "next (h a)" fs] nx Cons.prems by auto
    then show ?thesis
      using False Cons.prems(5) cont
      by (intro exI [of _ H'] exI [of _ h'] exI [of _ "a # zs"]) (auto simp: clean_bucket_step element_def)
  qed
qed

lemma take_Suc_update: "j < length xs \<Longrightarrow> take (Suc j) (xs[j := z]) = take j xs @ [z]"
  by (simp add: take_Suc_conv_app_nth)

lemma clean_slots_chains:
  assumes "hash_rep hf cmp H h ass" "table H \<noteq> None" "k \<le> slots H"
  shows "\<exists>H' h' ass'. hash_clean_slots crit [slots H - k..<slots H] H h fs =
       Some (H', h', fs @ dtor_calls (filter (\<lambda>e. selected crit e) (concat (drop (slots H - k) (chains h ass))))) \<and>
     hash_rep hf cmp H' h' ass' \<and> \<Union> (set ` set ass') \<subseteq> \<Union> (set ` set ass) \<and>
     chains h' ass' = take (slots H - k) (chains h ass) @
       map (filter (\<lambda>e. \<not> selected crit e)) (drop (slots H - k) (chains h ass))"
  using assms
proof (induction k arbitrary: H h ass fs)
  case 0
  have "length ass = slots H" using 0(1) by (simp add: hash_rep_def)
  with 0 show ?case by (intro exI [of _ H] exI [of _ h] exI [of _ ass]) simp
next
  case (Suc k)
  let ?i = "slots H - Suc k"
  have len: "length ass = slots H" using Suc.prems(1) by (simp add: hash_rep_def)
  have i: "?i < slots H" "Suc ?i = slots H - k" using Suc.prems(3) by auto
  have up: "[?i..<slots H] = ?i # [slots H - k..<slots H]" using i by (simp add: upt_conv_Cons)
  have hd: "head (bucket H ?i) = (case ass ! ?i of [] \<Rightarrow> None | b # _ \<Rightarrow> Some b)"
    using hash_rep_bucket [OF Suc.prems(1,2) i(1)] by (cases "ass ! ?i") (auto simp: linked_def)
  obtain H1 h1 zs where b: "hash_clean_bucket crit ?i H h fs (head (bucket H ?i)) =
        Some (H1, h1, fs @ dtor_calls (filter (\<lambda>e. selected crit e) (contents h (ass ! ?i))))"
    "hash_rep hf cmp H1 h1 (ass[?i := zs])" "table H1 \<noteq> None" "slots H1 = slots H" "set zs \<subseteq> set (ass ! ?i)"
    "chains h1 (ass[?i := zs]) = (chains h ass)[?i := filter (\<lambda>e. \<not> selected crit e) (contents h (ass ! ?i))]"
    using clean_bucket_chain [OF Suc.prems(1,2) i(1), of "[]" "ass ! ?i" _ crit fs] hd by auto
  obtain H' h' ass' where r: "hash_clean_slots crit [slots H - k..<slots H] H1 h1
        (fs @ dtor_calls (filter (\<lambda>e. selected crit e) (contents h (ass ! ?i)))) =
       Some (H', h', (fs @ dtor_calls (filter (\<lambda>e. selected crit e) (contents h (ass ! ?i)))) @
         dtor_calls (filter (\<lambda>e. selected crit e) (concat (drop (slots H - k) (chains h1 (ass[?i := zs]))))))"
    "hash_rep hf cmp H' h' ass'" "\<Union> (set ` set ass') \<subseteq> \<Union> (set ` set (ass[?i := zs]))"
    "chains h' ass' = take (slots H - k) (chains h1 (ass[?i := zs])) @
       map (filter (\<lambda>e. \<not> selected crit e)) (drop (slots H - k) (chains h1 (ass[?i := zs])))"
    using Suc.IH [OF b(2,3)] Suc.prems(3) b(4) by (metis Suc_leD)
  have dr: "drop ?i (chains h ass) = contents h (ass ! ?i) # drop (slots H - k) (chains h ass)"
    using i len by (metis Cons_nth_drop_Suc length_chains nth_chains)
  have dr1: "drop (slots H - k) (chains h1 (ass[?i := zs])) = drop (slots H - k) (chains h ass)"
    using i by (simp add: b(6))
  have tk1: "take (slots H - k) (chains h1 (ass[?i := zs])) =
      take ?i (chains h ass) @ [filter (\<lambda>e. \<not> selected crit e) (contents h (ass ! ?i))]"
    unfolding b(6) i(2) [symmetric] by (rule take_Suc_update) (use i(1) len in simp)
  have sub: "\<Union> (set ` set (ass[?i := zs])) \<subseteq> \<Union> (set ` set ass)"
  proof -
    have "set (ass[?i := zs]) \<subseteq> insert zs (set ass)" by (rule set_update_subset_insert)
    moreover have "ass ! ?i \<in> set ass" using i len by simp
    then have "set zs \<subseteq> \<Union> (set ` set ass)" using b(5) by blast
    ultimately show ?thesis by blast
  qed
  show ?case
    unfolding up hash_clean_slots.simps b(1) option.case prod.case r(1) dr
    by (intro exI [of _ H'] exI [of _ h'] exI [of _ ass'])
      (use r(2,3,4) sub dr1 tk1 in auto)
qed

text \<open>Filtering the chains filters the map.\<close>

lemma map_of_filter:
  "distinct (map ekey es) \<Longrightarrow>
   map_of (map (\<lambda>e. (ekey e, eptr e)) (filter (\<lambda>e. Q (eptr e)) es)) k =
     (case map_of (map (\<lambda>e. (ekey e, eptr e)) es) k of
        Some p \<Rightarrow> if Q p then Some p else None | None \<Rightarrow> None)"
  by (induction es) (auto split: option.split)

lemma keys_ok_filter:
  "keys_ok hf es \<Longrightarrow> keys_ok hf (map (filter P) es)"
  by (auto simp: keys_ok_def distinct_map_filter)

lemma abs_map_filter:
  assumes "keys_ok hf es" "hf k (length es) < length es"
  shows "abs_map hf (map (filter (\<lambda>e. Q (eptr e))) es) k =
    (case abs_map hf es k of Some p \<Rightarrow> if Q p then Some p else None | None \<Rightarrow> None)"
  using assms by (simp add: abs_map_def keys_ok_def map_of_filter)

text \<open>The entries of the chains enumerate the map, every key once.\<close>

lemma keys_ok_distinct:
  assumes "keys_ok hf es"
  shows "distinct (map ekey (concat es))"
proof -
  have "distinct (concat (map (map ekey) es))"
  proof -
    have ok: "distinct (map ekey (es ! i)) \<and> (\<forall>e \<in> set (es ! i). hf (ekey e) (length es) = i)"
      if "i < length es" for i
      using assms that by (simp add: keys_ok_def)
    have "distinct (concat (map (map ekey) (take n es))) \<and>
        (\<forall>k \<in> set (concat (map (map ekey) (take n es))). hf k (length es) < n)" if "n \<le> length es" for n
      using that
    proof (induction n)
      case (Suc n)
      then have "take (Suc n) es = take n es @ [es ! n]" by (simp add: take_Suc_conv_app_nth)
      with Suc ok [of n] show ?case by fastforce
    qed simp
    from this [of "length es"] show ?thesis by simp
  qed
  then show ?thesis by (simp add: map_concat)
qed

lemma abs_map_concat:
  assumes "keys_ok hf es" "\<And>k. hf k (length es) < length es"
  shows "abs_map hf es = map_of (map (\<lambda>e. (ekey e, eptr e)) (concat es))"
proof
  fix k
  have d: "distinct (map fst (map (\<lambda>e. (ekey e, eptr e)) (concat es)))"
    using keys_ok_distinct [OF assms(1)] by (simp add: comp_def)
  show "abs_map hf es k = map_of (map (\<lambda>e. (ekey e, eptr e)) (concat es)) k"
  proof (cases "abs_map hf es k")
    case None
    then have "k \<notin> ekey ` set (es ! hf k (length es))"
      by (simp add: abs_map_def map_of_elements_None)
    moreover have "j = hf (ekey e) (length es)" if "e \<in> set (es ! j)" "j < length es" for e j
      using assms(1) that by (auto simp: keys_ok_def)
    ultimately have "k \<notin> ekey ` set (concat es)"
      by (auto simp: in_set_conv_nth [of _ es])
    with None show ?thesis by simp
  next
    case (Some p)
    then have "(k, p) \<in> set (map (\<lambda>e. (ekey e, eptr e)) (es ! hf k (length es)))"
      by (auto simp: abs_map_def dest: map_of_SomeD)
    then have "(k, p) \<in> set (map (\<lambda>e. (ekey e, eptr e)) (concat es))"
      using assms(2) by force
    with d Some show ?thesis by (simp add: map_of_eq_Some_iff [OF d])
  qed
qed

lemma dom_map_of_elements: "dom (map_of (map (\<lambda>e. (ekey e, eptr e)) es)) = ekey ` set es"
  by (simp add: dom_map_of_conv_image_fst image_image)

context hashing
begin

lemma hash_map_concat:
  "hash_rep hf cmp H h ass \<Longrightarrow> keys_ok hf (chains h ass) \<Longrightarrow>
   abs_map hf (chains h ass) = map_of (map (\<lambda>e. (ekey e, eptr e)) (concat (chains h ass)))"
  by (rule abs_map_concat) (use hf_range in \<open>auto simp: hash_rep_def\<close>)

lemma hash_map_size:
  assumes "hash_map hf cmp H h used m"
  shows "hsize H = card (dom m)"
proof -
  obtain ass where a: "hash_rep hf cmp H h ass" "keys_ok hf (chains h ass)"
    "abs_map hf (chains h ass) = m"
    using assms by (auto simp: hash_map_def)
  have "dom m = set (map ekey (concat (chains h ass)))"
    unfolding a(3) [symmetric] hash_map_concat [OF a(1,2)] by (simp add: dom_map_of_elements)
  then have "card (dom m) = length (concat (chains h ass))"
    using distinct_card [OF keys_ok_distinct [OF a(2)]] by simp
  also have "\<dots> = sum_list (map length ass)"
    by (simp add: length_concat chains_def comp_def contents_def)
  finally show ?thesis using a(1) by (simp add: hash_rep_def)
qed

text \<open>
  Cleaning keeps the entries the criterium does not select; the destructor is called once
  for every entry selected whose pointer is not NULL.
\<close>

lemma clean_map:
  assumes "hash_map hf cmp H h used m"
  shows "\<exists>H' h' ks. Curl_hash_clean_with_criterium H h crit =
      Some (H', h', concat (map (\<lambda>k. freed (m k)) ks)) \<and>
    distinct ks \<and> set ks = {k. \<exists>p. m k = Some p \<and> chosen crit p} \<and>
    hash_map hf cmp H' h' used (\<lambda>k. case m k of Some p \<Rightarrow> if chosen crit p then None else Some p | None \<Rightarrow> None)"
proof -
  obtain ass where a: "hash_rep hf cmp H h ass" "keys_ok hf (chains h ass)"
    "abs_map hf (chains h ass) = m" "\<Union> (set ` set ass) \<subseteq> used"
    using assms by (auto simp: hash_map_def)
  let ?es = "concat (chains h ass)"
  let ?ks = "map ekey (filter (\<lambda>e. chosen crit (eptr e)) ?es)"
  have len: "length ass = slots H" using a(1) by (simp add: hash_rep_def)
  have m: "m = map_of (map (\<lambda>e. (ekey e, eptr e)) ?es)"
    using hash_map_concat [OF a(1,2)] a(3) by simp
  have d: "distinct (map ekey ?es)" by (rule keys_ok_distinct [OF a(2)])
  have me: "m (ekey e) = Some (eptr e)" if "e \<in> set ?es" for e
    unfolding m by (rule map_of_is_SomeI) (use d that in \<open>auto simp: comp_def\<close>)
  have ks: "distinct ?ks" "set ?ks = {k. \<exists>p. m k = Some p \<and> chosen crit p}"
  proof -
    show "distinct ?ks" by (rule distinct_map_filter [OF d])
    show "set ?ks = {k. \<exists>p. m k = Some p \<and> chosen crit p}"
    proof (intro set_eqI iffI)
      fix k assume "k \<in> {k. \<exists>p. m k = Some p \<and> chosen crit p}"
      then obtain p where "m k = Some p" "chosen crit p" by blast
      then have "(k, p) \<in> set (map (\<lambda>e. (ekey e, eptr e)) ?es)"
        unfolding m by (blast dest: map_of_SomeD)
      with \<open>chosen crit p\<close> show "k \<in> set ?ks" by auto
    qed (use me in auto)
  qed
  have calls: "dtor_calls (filter (\<lambda>e. chosen crit (eptr e)) ?es) = concat (map (\<lambda>k. freed (m k)) ?ks)"
    unfolding dtor_calls_def map_map comp_def
    by (rule arg_cong [where f = concat], rule map_cong) (auto simp: hash_element_dtor_freed me)
  let ?m' = "\<lambda>k. case m k of Some p \<Rightarrow> if chosen crit p then None else Some p | None \<Rightarrow> None"
  show ?thesis
  proof (cases "table H")
    case None
    have "m = Map.empty" using table_None_empty [OF a(1) None] a(3) by simp
    with None assms show ?thesis
      by (intro exI [of _ H] exI [of _ h] exI [of _ "[]"])
        (simp add: Curl_hash_clean_with_criterium_def)
  next
    case (Some t)
    then have tb: "table H \<noteq> None" by simp
    obtain H' h' ass' where c: "hash_clean_slots crit [0..<slots H] H h [] =
        Some (H', h', dtor_calls (filter (\<lambda>e. chosen crit (eptr e)) ?es))"
      "hash_rep hf cmp H' h' ass'" "\<Union> (set ` set ass') \<subseteq> \<Union> (set ` set ass)"
      "chains h' ass' = map (filter (\<lambda>e. \<not> chosen crit (eptr e))) (chains h ass)"
      using clean_slots_chains [OF a(1) tb order_refl, of crit "[]"] by auto
    have "keys_ok hf (chains h' ass')"
      unfolding c(4) by (rule keys_ok_filter [OF a(2)])
    moreover have "abs_map hf (chains h' ass') = ?m'"
    proof
      fix k
      have "hf k (length (chains h ass)) < length (chains h ass)"
        using a(1) hf_range by (simp add: hash_rep_def)
      from abs_map_filter [OF a(2) this, of "\<lambda>p. \<not> chosen crit p"]
      show "abs_map hf (chains h' ass') k = ?m' k"
        unfolding c(4) a(3) by (auto split: option.split)
    qed
    ultimately have "hash_map hf cmp H' h' used ?m'"
      by (rule hash_mapI [OF c(2)]) (use c(3) a(4) in blast)
    with c(1) ks Some show ?thesis
      by (intro exI [of _ H'] exI [of _ h'] exI [of _ ?ks])
        (simp add: Curl_hash_clean_with_criterium_def calls)
  qed
qed

end

text \<open>
  Iterating. \<open>hash_iterate\<close> is the loop every user of the iterator writes: it calls
  \<open>Curl_hash_next_element\<close> until it returns NULL.
\<close>

partial_function (option) hash_iterate ::
  "Curl_hash \<Rightarrow> 'v hash_nodes \<Rightarrow> Curl_hash_iterator \<Rightarrow> addr list option" where
  "hash_iterate H h it =
     (case Curl_hash_next_element H h it of
        (it', None) \<Rightarrow> Some []
      | (it', Some a) \<Rightarrow>
          Option.bind (hash_iterate H h it') (\<lambda>as. Some (a # as)))"

definition rest_of :: "addr list list \<Rightarrow> Curl_hash_iterator \<Rightarrow> addr list \<Rightarrow> bool" where
  "rest_of ass it as \<longleftrightarrow>
     (case current_element it of
        None \<Rightarrow> as = concat (drop (slot_index it) ass)
      | Some a \<Rightarrow>
          \<exists>i us vs. slot_index it = Suc i \<and> i < length ass \<and> ass ! i = us @ a # vs \<and>
            as = vs @ concat (drop (Suc i) ass))"

lemma find_upt_Some:
  "List.find P [i..<n] = Some j \<Longrightarrow> i \<le> j \<and> j < n \<and> P j \<and> (\<forall>k. i \<le> k \<and> k < j \<longrightarrow> \<not> P k)"
proof (induction "n - i" arbitrary: i)
  case (Suc d)
  then have i: "i < n" by simp
  show ?case
  proof (cases "P i")
    case True
    with Suc.prems i show ?thesis by (auto simp: upt_conv_Cons)
  next
    case False
    with Suc.prems i have "List.find P [Suc i..<n] = Some j" by (simp add: upt_conv_Cons)
    with Suc.hyps(1) [of "Suc i"] Suc.hyps(2) have ih: "Suc i \<le> j \<and> j < n \<and> P j \<and> (\<forall>k. Suc i \<le> k \<and> k < j \<longrightarrow> \<not> P k)" by simp
    moreover have "\<not> P k" if "i \<le> k" "k < j" for k
      using that False ih by (cases "k = i") auto
    ultimately show ?thesis by (meson Suc_leD)
  qed
qed simp

lemma concat_drop_empty:
  "i \<le> j \<Longrightarrow> j \<le> length ass \<Longrightarrow> \<forall>k. i \<le> k \<and> k < j \<longrightarrow> ass ! k = [] \<Longrightarrow>
   concat (drop i ass) = concat (drop j ass)"
proof (induction "j - i" arbitrary: i)
  case (Suc d)
  then have i: "i < j" "i < length ass" by simp_all
  then have "drop i ass = ass ! i # drop (Suc i) ass" by (simp add: Cons_nth_drop_Suc)
  moreover have "ass ! i = []" using Suc.prems(3) i by simp
  ultimately show ?case
    using Suc.hyps(1) [of "Suc i"] Suc.hyps(2) Suc.prems by simp
qed simp

lemma next_element_rest:
  assumes "hash_rep hf cmp H h ass" "rest_of ass it as"
  shows "case Curl_hash_next_element H h it of
      (it', None) \<Rightarrow> as = [] | (it', Some a) \<Rightarrow> \<exists>bs. as = a # bs \<and> rest_of ass it' bs"
proof (cases "table H")
  case None
  then have "ass = replicate (slots H) []" using assms(1) by (simp add: hash_rep_def)
  with assms(2) have "as = []"
    by (auto simp: rest_of_def split: option.splits)
  with None show ?thesis by (simp add: Curl_hash_next_element_def)
next
  case (Some t)
  have len: "length ass = slots H" "length t = slots H" and
    l: "\<And>i. i < slots H \<Longrightarrow> linked (t ! i) h (ass ! i)"
    using assms(1) Some by (auto simp: hash_rep_def ll.table_rep_def)
  have hd: "head (t ! i) = (case ass ! i of [] \<Rightarrow> None | b # _ \<Rightarrow> Some b)" if "i < slots H" for i
    using l [OF that] by (cases "ass ! i") (auto simp: linked_def)
  have scan: "case current_element (hash_scan t (slots H) it') of
      None \<Rightarrow> as' = []
    | Some a \<Rightarrow> \<exists>bs. as' = a # bs \<and> rest_of ass (hash_scan t (slots H) it') bs"
    if "current_element it' = None" "as' = concat (drop (slot_index it') ass)" for it' as'
  proof (cases "List.find (\<lambda>i. head (t ! i) \<noteq> None) [slot_index it'..<slots H]")
    case None
    then have "\<forall>k. slot_index it' \<le> k \<and> k < length ass \<longrightarrow> head (t ! k) = None"
      using len by (auto simp: find_None_iff)
    then have "\<forall>k. slot_index it' \<le> k \<and> k < length ass \<longrightarrow> ass ! k = []"
      using hd len by (metis list.case(2) list.exhaust option.discI)
    then have "as' = []"
      using that(2) concat_drop_empty [of "slot_index it'" "length ass" ass]
      by (cases "slot_index it' \<le> length ass") auto
    with None that(1) show ?thesis by (simp add: hash_scan_def)
  next
    case (Some i)
    note f = find_upt_Some [OF Some]
    have "ass ! i \<noteq> []" using f hd [of i] by (auto split: list.splits)
    then obtain b cs where b: "ass ! i = b # cs" by (cases "ass ! i") auto
    have "\<forall>k. slot_index it' \<le> k \<and> k < i \<longrightarrow> head (t ! k) = None" using f by blast
    then have "\<forall>k. slot_index it' \<le> k \<and> k < i \<longrightarrow> ass ! k = []"
      using hd f by (metis list.case(2) list.exhaust option.discI order_less_trans)
    then have "as' = concat (drop i ass)"
      using that(2) f len concat_drop_empty [of "slot_index it'" i ass] by simp
    also have "\<dots> = b # cs @ concat (drop (Suc i) ass)"
      using f len b by (metis Cons_nth_drop_Suc append_Cons concat.simps(2))
    finally have "as' = b # cs @ concat (drop (Suc i) ass)" .
    then show ?thesis
      using f len b Some hd [of i] by (auto simp: hash_scan_def rest_of_def intro!: exI [of _ "[]"])
  qed
  show ?thesis
  proof (cases "current_element it")
    case None
    with assms(2) have "as = concat (drop (slot_index it) ass)" by (simp add: rest_of_def)
    from scan [OF None this] show ?thesis
      using Some None by (simp add: Curl_hash_next_element_def Let_def split: option.splits)
  next
    case cur: (Some a)
    obtain i us vs where i: "slot_index it = Suc i" "i < length ass" "ass ! i = us @ a # vs"
      "as = vs @ concat (drop (Suc i) ass)"
      using assms(2) cur by (auto simp: rest_of_def)
    have nx: "next (h a) = (case vs of [] \<Rightarrow> None | b # _ \<Rightarrow> Some b)"
      using linked_next l [of i] i(2,3) len by metis
    show ?thesis
    proof (cases vs)
      case Nil
      with scan [of "it\<lparr>current_element := None\<rparr>" as] i(1,4)
      have "case current_element (hash_scan t (slots H) (it\<lparr>current_element := None\<rparr>)) of
          None \<Rightarrow> as = []
        | Some a \<Rightarrow> \<exists>bs. as = a # bs \<and> rest_of ass (hash_scan t (slots H) (it\<lparr>current_element := None\<rparr>)) bs"
        by simp
      then show ?thesis
        using Some cur nx Nil by (simp add: Curl_hash_next_element_def Let_def split: option.splits)
    next
      case (Cons b cs)
      have "ass ! i = (us @ [a]) @ b # cs" using i(3) Cons by simp
      then have "rest_of ass (it\<lparr>current_element := Some b\<rparr>) (cs @ concat (drop (Suc i) ass))"
        using i(1,2) by (simp add: rest_of_def)
      then show ?thesis
        using Some cur nx Cons i(4) by (simp add: Curl_hash_next_element_def Let_def)
    qed
  qed
qed

lemma hash_iterate_rest:
  "hash_rep hf cmp H h ass \<Longrightarrow> rest_of ass it as \<Longrightarrow> hash_iterate H h it = Some as"
proof (induction as arbitrary: it)
  case Nil
  with next_element_rest [OF Nil] show ?case
    by (subst hash_iterate.simps) (auto split: option.splits)
next
  case (Cons a as)
  from next_element_rest [OF Cons.prems] Cons.IH [OF Cons.prems(1)] show ?case
    by (subst hash_iterate.simps) (auto split: option.splits)
qed

lemma hash_iterate_all:
  "hash_rep hf cmp H h ass \<Longrightarrow> hash_iterate H h Curl_hash_start_iterate = Some (concat ass)"
  by (rule hash_iterate_rest) (auto simp: rest_of_def Curl_hash_start_iterate_def)

text \<open>Destroying: every chain is emptied from its tail.\<close>

lemma hash_destroy_loop_calls:
  "list_all2 (\<lambda>l as. linked l h as) t ass \<Longrightarrow>
   (\<And>i j. i < j \<Longrightarrow> j < length ass \<Longrightarrow> set (ass ! i) \<inter> set (ass ! j) = {}) \<Longrightarrow>
   snd (hash_destroy_loop t h) = dtor_calls (concat (map (\<lambda>as. rev (contents h as)) ass))"
proof (induction ass arbitrary: t h)
  case Nil
  then show ?case by simp
next
  case (Cons as ass)
  obtain l t' where t: "t = l # t'" and l: "linked l h as" and rest: "list_all2 (\<lambda>l as. linked l h as) t' ass"
    using Cons.prems(1) by (auto simp: list_all2_Cons2)
  obtain l' h' ps where d: "Curl_llist_destroy l h = (l', h', ps)"
    by (cases "Curl_llist_destroy l h")
  have "segment h None (head l) as None" using l by (simp add: linked_def)
  from segment_ptr [OF this] have all: "\<forall>a \<in> set as. ptr (h a) \<noteq> None" by blast
  have ps: "ps = map (\<lambda>a. ptr (h a)) (rev as)" and fr: "\<forall>c. c \<notin> set as \<longrightarrow> h' c = h c"
    using destroy_linked [OF l d] by auto
  have dis: "set as \<inter> set bs = {}" if "bs \<in> set ass" for bs
  proof -
    from that obtain j where "j < length ass" "bs = ass ! j" by (metis in_set_conv_nth)
    with Cons.prems(2) [of 0 "Suc j"] show ?thesis by simp
  qed
  have "list_all2 (\<lambda>l as. linked l h' as) t' ass"
  proof (rule list.rel_mono_strong [OF rest])
    fix m bs assume "bs \<in> set ass" "linked m h bs"
    then show "linked m h' bs"
      using dis [of bs] fr linked_frame [of bs h' h m] by blast
  qed
  moreover have "set (ass ! i) \<inter> set (ass ! j) = {}" if "i < j" "j < length ass" for i j
    using Cons.prems(2) [of "Suc i" "Suc j"] that by simp
  ultimately have "snd (hash_destroy_loop t' h') = dtor_calls (concat (map (\<lambda>as. rev (contents h' as)) ass))"
    by (rule Cons.IH)
  moreover have "map (\<lambda>as. rev (contents h' as)) ass = map (\<lambda>as. rev (contents h as)) ass"
  proof (rule map_cong [OF refl])
    fix bs assume "bs \<in> set ass"
    from dis [OF this] fr have "contents h' bs = contents h bs"
      by (intro contents_cong) (metis disjoint_iff)
    then show "rev (contents h' bs) = rev (contents h bs)" by simp
  qed
  moreover have "concat (map hash_element_dtor ps) = dtor_calls (rev (contents h as))"
  proof -
    have "map (\<lambda>a. hash_element_dtor (ptr (h a))) (rev as) =
        map (\<lambda>a. hash_element_dtor (Some (element h a))) (rev as)"
      using all by (intro map_cong) (auto simp: element_def)
    then show ?thesis
      unfolding ps dtor_calls_def contents_element rev_map map_map comp_def by (rule arg_cong)
  qed
  ultimately show ?case using d t by (auto split: prod.splits)
qed

context hashing
begin

lemma destroy_map:
  assumes "hash_map hf cmp H h used m"
  shows "\<exists>h' ks. Curl_hash_destroy H h =
      (H\<lparr>table := None, hsize := 0, slots := 0\<rparr>, h', concat (map (\<lambda>k. freed (m k)) ks)) \<and>
    distinct ks \<and> set ks = dom m"
proof -
  obtain ass where a: "hash_rep hf cmp H h ass" "keys_ok hf (chains h ass)"
    "abs_map hf (chains h ass) = m" "\<Union> (set ` set ass) \<subseteq> used"
    using assms by (auto simp: hash_map_def)
  show ?thesis
  proof (cases "table H")
    case None
    have "m = Map.empty" using table_None_empty [OF a(1) None] a(3) by simp
    with None show ?thesis
      by (intro exI [of _ h] exI [of _ "[]"]) (simp add: Curl_hash_destroy_def)
  next
    case (Some t)
    let ?es = "concat (map (\<lambda>as. rev (contents h as)) ass)"
    have tr: "ll.table_rep t h ass" using a(1) Some by (simp add: hash_rep_def)
    have "snd (hash_destroy_loop t h) = dtor_calls ?es"
      by (rule hash_destroy_loop_calls)
        (use tr in \<open>auto simp: ll.table_rep_def list_all2_conv_all_nth\<close>)
    moreover have m: "m = map_of (map (\<lambda>e. (ekey e, eptr e)) (concat (chains h ass)))"
      using hash_map_concat [OF a(1,2)] a(3) by simp
    have d: "distinct (map ekey (concat (chains h ass)))" by (rule keys_ok_distinct [OF a(2)])
    have "mset ?es = mset (concat (chains h ass))"
      unfolding chains_def by (induction ass) simp_all
    then have "mset (map ekey ?es) = mset (map ekey (concat (chains h ass)))" "set ?es = set (concat (chains h ass))"
      by (simp only: mset_map, rule mset_eq_setD)
    then have "distinct (map ekey ?es)" "set ?es = set (concat (chains h ass))"
      using d mset_eq_imp_distinct_iff by blast+
    moreover have me: "m (ekey e) = Some (eptr e)" if "e \<in> set (concat (chains h ass))" for e
      unfolding m by (rule map_of_is_SomeI) (use d that in \<open>auto simp: comp_def\<close>)
    moreover have "dom m = ekey ` set (concat (chains h ass))"
      unfolding m by (rule dom_map_of_elements)
    moreover have "dtor_calls ?es = concat (map (\<lambda>k. freed (m k)) (map ekey ?es))"
      unfolding dtor_calls_def map_map comp_def
    proof (rule arg_cong [where f = concat], rule map_cong [OF refl])
      fix e assume "e \<in> set ?es"
      then have "m (ekey e) = Some (eptr e)" by (simp only: \<open>set ?es = _\<close> me)
      then show "hash_element_dtor (Some e) = freed (m (ekey e))" by (simp add: hash_element_dtor_freed)
    qed
    ultimately have "distinct (map ekey ?es) \<and> set (map ekey ?es) = dom m \<and>
        snd (hash_destroy_loop t h) = concat (map (\<lambda>k. freed (m k)) (map ekey ?es))"
      by (metis list.set_map)
    then show ?thesis
      using Some by (intro exI [of _ "fst (hash_destroy_loop t h)"] exI [of _ "map ekey ?es"])
        (cases "hash_destroy_loop t h", simp add: Curl_hash_destroy_def)
  qed
qed

text \<open>Every key of the map is visited by exactly one element.\<close>

lemma iterate_map:
  assumes "hash_map hf cmp H h used m"
  shows "\<exists>as. hash_iterate H h Curl_hash_start_iterate = Some as \<and>
    distinct (map (\<lambda>a. ekey (element h a)) as) \<and>
    m = map_of (map (\<lambda>a. (ekey (element h a), eptr (element h a))) as)"
proof -
  obtain ass where a: "hash_rep hf cmp H h ass" "keys_ok hf (chains h ass)" "abs_map hf (chains h ass) = m"
    using assms by (auto simp: hash_map_def)
  have c: "concat (chains h ass) = map (element h) (concat ass)"
    by (simp add: chains_def contents_element [abs_def] map_concat)
  show ?thesis
    using hash_iterate_all [OF a(1)] hash_map_concat [OF a(1,2)] keys_ok_distinct [OF a(2)] a(3)
    by (simp add: c comp_def)
qed

end

subsection \<open>The hash function and comparator of the library\<close>

interpretation hstr: hashing Curl_hash_str Curl_str_key_compare
  by unfold_locales (auto simp: Curl_hash_str_def Curl_str_key_compare_def simp flip: list_all2_eq)

lemma hash_map_init:
  "0 < n \<Longrightarrow> hash_map Curl_hash_str Curl_str_key_compare
     (Curl_hash_init n Curl_hash_str Curl_str_key_compare) h {} Map.empty"
  by (rule hstr.hash_mapI [of _ h "replicate n []"])
    (auto simp: hash_rep_def Curl_hash_init_def keys_ok_empty abs_map_empty hstr.hf_range sum_list_replicate)

lemma hash_map_mono: "hash_map hf cmp H h used m \<Longrightarrow> used \<subseteq> used' \<Longrightarrow> hash_map hf cmp H h used' m"
  by (auto simp: hash_map_def)

text \<open>Sequences of calls, and the map they are specified by.\<close>

datatype 'v hash_call =
    Hash_add "byte list" "'v option" addr
  | Hash_delete "byte list"
  | Hash_pick "byte list"

datatype 'v hash_result = Ptr "'v option" | Status int

fun hash_run ::
  "Curl_hash \<Rightarrow> 'v hash_nodes \<Rightarrow> alloc_script \<Rightarrow> 'v hash_call list \<Rightarrow>
     ('v hash_result list \<times> 'v list \<times> Curl_hash \<times> 'v hash_nodes) option" where
  "hash_run H h A [] = Some ([], [], H, h)"
| "hash_run H h A (Hash_add k p ne # cs) =
     Option.bind (Curl_hash_add H h A k p ne) (\<lambda>(H, h, A, fs, r).
       map_option (\<lambda>(rs, gs, s). (Ptr r # rs, fs @ gs, s)) (hash_run H h A cs))"
| "hash_run H h A (Hash_delete k # cs) =
     Option.bind (Curl_hash_delete H h k) (\<lambda>(H, h, fs, r).
       map_option (\<lambda>(rs, gs, s). (Status r # rs, fs @ gs, s)) (hash_run H h A cs))"
| "hash_run H h A (Hash_pick k # cs) =
     Option.bind (Curl_hash_pick H h k) (\<lambda>r.
       map_option (\<lambda>(rs, gs, s). (Ptr r # rs, gs, s)) (hash_run H h A cs))"

fun map_run ::
  "(byte list \<rightharpoonup> 'v option) \<Rightarrow> 'v hash_call list \<Rightarrow>
     'v hash_result list \<times> 'v list \<times> (byte list \<rightharpoonup> 'v option)" where
  "map_run m [] = ([], [], m)"
| "map_run m (Hash_add k p ne # cs) =
     (case map_run (m(k \<mapsto> p)) cs of (rs, gs, m') \<Rightarrow> (Ptr p # rs, freed (m k) @ gs, m'))"
| "map_run m (Hash_delete k # cs) =
     (case map_run (m(k := None)) cs of
        (rs, gs, m') \<Rightarrow> (Status (if m k = None then 1 else 0) # rs, freed (m k) @ gs, m'))"
| "map_run m (Hash_pick k # cs) =
     (case map_run m cs of
        (rs, gs, m') \<Rightarrow> (Ptr (case m k of None \<Rightarrow> None | Some p \<Rightarrow> p) # rs, gs, m'))"

fun call_addrs :: "'v hash_call list \<Rightarrow> addr list" where
  "call_addrs [] = []"
| "call_addrs (Hash_add k p ne # cs) = ne # call_addrs cs"
| "call_addrs (Hash_delete k # cs) = call_addrs cs"
| "call_addrs (Hash_pick k # cs) = call_addrs cs"

lemma hash_run_map:
  "hash_map Curl_hash_str Curl_str_key_compare H h used m \<Longrightarrow> no_oom A \<Longrightarrow> distinct (call_addrs cs) \<Longrightarrow>
   used \<inter> set (call_addrs cs) = {} \<Longrightarrow>
   \<exists>rs fs H' h' m' used'. hash_run H h A cs = Some (rs, fs, H', h') \<and> map_run m cs = (rs, fs, m') \<and>
     hash_map Curl_hash_str Curl_str_key_compare H' h' used' m'"
proof (induction cs arbitrary: H h used m A rule: call_addrs.induct)
  case 1
  then show ?case by auto
next
  case (2 k p ne cs)
  obtain ok1 A1 where a1: "(if table H = None then alloc A else (True, A)) = (ok1, A1)" by fastforce
  obtain ok2 A2 where a2: "alloc A1 = (ok2, A2)" by fastforce
  have ok: "ok1" "no_oom A1"
    using a1 alloc_no_oomD [OF "2.prems"(2)] "2.prems"(2) by (auto split: if_splits)
  have ok2: "ok2" "no_oom A2" using alloc_no_oomD [OF ok(2) a2] by auto
  have "ne \<notin> used" using "2.prems"(4) by auto
  from hstr.add_map [OF "2.prems"(1) this a1 a2, of k p] ok ok2
  obtain H1 h1 where s: "Curl_hash_add H h A k p ne = Some (H1, h1, A2, freed (m k), p)"
    "hash_map Curl_hash_str Curl_str_key_compare H1 h1 (insert ne used) (m(k \<mapsto> p))" by auto
  have "distinct (call_addrs cs)" "insert ne used \<inter> set (call_addrs cs) = {}"
    using "2.prems"(3,4) by auto
  from "2.IH" [OF s(2) ok2(2) this] obtain rs fs H' h' m' used'
    where "hash_run H1 h1 A2 cs = Some (rs, fs, H', h')" "map_run (m(k \<mapsto> p)) cs = (rs, fs, m')"
      "hash_map Curl_hash_str Curl_str_key_compare H' h' used' m'" by blast
  with s(1) show ?case by (simp del: fun_upd_apply) blast
next
  case three1: (3 k cs)
  from hstr.delete_map [OF three1.prems(1), of k] obtain H1 h1
    where s: "Curl_hash_delete H h k = Some (H1, h1, freed (m k), if m k = None then 1 else 0)"
      "hash_map Curl_hash_str Curl_str_key_compare H1 h1 used (m(k := None))" by blast
  have "distinct (call_addrs cs)" "used \<inter> set (call_addrs cs) = {}"
    using three1.prems(3,4) by auto
  from three1.IH [OF s(2) three1.prems(2) this] obtain rs fs H' h' m' used'
    where "hash_run H1 h1 A cs = Some (rs, fs, H', h')" "map_run (m(k := None)) cs = (rs, fs, m')"
      "hash_map Curl_hash_str Curl_str_key_compare H' h' used' m'" by blast
  with s(1) show ?case by (simp del: fun_upd_apply) blast
next
  case three2: (4 k cs)
  have "distinct (call_addrs cs)" "used \<inter> set (call_addrs cs) = {}"
    using three2.prems(3,4) by auto
  from three2.IH [OF three2.prems(1,2) this] obtain rs fs H' h' m' used'
    where "hash_run H h A cs = Some (rs, fs, H', h')" "map_run m cs = (rs, fs, m')"
      "hash_map Curl_hash_str Curl_str_key_compare H' h' used' m'" by blast
  with hstr.pick_map [OF three2.prems(1), of k] show ?case by simp blast
qed

text \<open>
  C3. A new table, used through any sequence of insertions, deletions and lookups with
  no allocation failing, returns and frees exactly what the same operations on a finite map
  return and free; it still represents that map at the end, and its size is the number of
  keys.
\<close>

theorem hash_refines_map:
  assumes "0 < n" "no_oom A" "distinct (call_addrs cs)"
  shows "\<exists>rs fs H' h' m' used. hash_run (Curl_hash_init n Curl_hash_str Curl_str_key_compare) h A cs =
      Some (rs, fs, H', h') \<and> map_run Map.empty cs = (rs, fs, m') \<and>
    hash_map Curl_hash_str Curl_str_key_compare H' h' used m' \<and> hsize H' = card (dom m')"
proof -
  have "{} \<inter> set (call_addrs cs) = {}" by simp
  from hash_run_map [OF hash_map_init [OF assms(1)] assms(2,3) this, of h] obtain rs fs H' h' m' used
    where "hash_run (Curl_hash_init n Curl_hash_str Curl_str_key_compare) h A cs = Some (rs, fs, H', h')"
      "map_run Map.empty cs = (rs, fs, m')" "hash_map Curl_hash_str Curl_str_key_compare H' h' used m'"
    by blast
  with hstr.hash_map_size show ?thesis by blast
qed

theorem hash_refines_map_witness:
  "\<exists>rs fs H' h' m' used. hash_run (Curl_hash_init 7 Curl_hash_str Curl_str_key_compare)
      (\<lambda>_. \<lparr>ptr = None, prev = None, next = None\<rparr>) []
      [Hash_add (s2b ''ab'') (Some (1 :: int)) 10, Hash_add (s2b ''cd'') (Some 2) 11, Hash_delete (s2b ''ab''),
       Hash_add (s2b ''cd'') (Some 3) 12, Hash_pick (s2b ''cd'')] = Some (rs, fs, H', h') \<and>
    map_run Map.empty
      [Hash_add (s2b ''ab'') (Some (1 :: int)) 10, Hash_add (s2b ''cd'') (Some 2) 11, Hash_delete (s2b ''ab''),
       Hash_add (s2b ''cd'') (Some 3) 12, Hash_pick (s2b ''cd'')] = (rs, fs, m') \<and>
    hash_map Curl_hash_str Curl_str_key_compare H' h' used m' \<and> hsize H' = card (dom m')"
  by (rule hash_refines_map) simp_all

text \<open>
  When the element of an insertion cannot be allocated, \<open>Curl_hash_add\<close> returns NULL,
  and an entry that had the key before is lost (its destructor has been called); when the
  table itself cannot be allocated nothing changes.
\<close>

theorem hash_add_out_of_memory:
  assumes "hash_map Curl_hash_str Curl_str_key_compare H h used m" "ne \<notin> used"
    "fst (alloc A) = False"
  shows "\<exists>H' h'. Curl_hash_add H h A key p ne =
      Some (H', h', snd (alloc A), if table H = None then [] else freed (m key), None) \<and>
    hash_map Curl_hash_str Curl_str_key_compare H' h' (insert ne used)
      (if table H = None then m else m(key := None))"
proof (cases "table H = None")
  case True
  then have "(if table H = None then alloc A else (True, A)) = (False, snd (alloc A))"
    using assms(3) by (cases "alloc A") auto
  moreover obtain ok2 A2 where "alloc (snd (alloc A)) = (ok2, A2)" by fastforce
  ultimately show ?thesis
    using hstr.add_map [OF assms(1,2)] True by fastforce
next
  case False
  then have "(if table H = None then alloc A else (True, A)) = (True, A)" by (rule if_not_P)
  moreover have "alloc A = (False, snd (alloc A))" using assms(3) by (cases "alloc A") auto
  ultimately show ?thesis
    using hstr.add_map [OF assms(1,2), of A True A False "snd (alloc A)" key p] False by auto
qed

theorem hash_add_out_of_memory_witness:
  "\<exists>H' h'. Curl_hash_add (Curl_hash_init 5 Curl_hash_str Curl_str_key_compare)
      (\<lambda>_. \<lparr>ptr = None, prev = None, next = None\<rparr>) [False] (s2b ''k'') (Some (1 :: int)) 3 =
      Some (H', h', snd (alloc [False]),
        if table (Curl_hash_init 5 Curl_hash_str Curl_str_key_compare) = None then [] else freed (Map.empty (s2b ''k'')), None) \<and>
    hash_map Curl_hash_str Curl_str_key_compare H' h' (insert 3 {})
      (if table (Curl_hash_init 5 Curl_hash_str Curl_str_key_compare) = None then Map.empty
       else Map.empty(s2b ''k'' := None))"
  by (rule hash_add_out_of_memory) (simp_all add: hash_map_init)

text \<open>
  \<open>Curl_hash_clean_with_criterium\<close> removes exactly the entries whose pointer the
  callback selects (all of them when it is NULL) and calls the destructor once for each
  that is not NULL; it terminates although it removes elements of the chains it walks.
\<close>

theorem hash_clean_exact:
  assumes "hash_map Curl_hash_str Curl_str_key_compare H h used m"
  shows "\<exists>H' h' ks. Curl_hash_clean_with_criterium H h crit =
      Some (H', h', concat (map (\<lambda>k. freed (m k)) ks)) \<and>
    distinct ks \<and> set ks = {k. \<exists>p. m k = Some p \<and> chosen crit p} \<and>
    hash_map Curl_hash_str Curl_str_key_compare H' h' used
      (\<lambda>k. case m k of Some p \<Rightarrow> if chosen crit p then None else Some p | None \<Rightarrow> None)"
  by (rule hstr.clean_map [OF assms])

lemma one_entry_table:
  "\<exists>H (h :: int hash_nodes). hash_map Curl_hash_str Curl_str_key_compare H h {3} [s2b ''k'' \<mapsto> Some 1]"
proof -
  have "(if table (Curl_hash_init 5 Curl_hash_str Curl_str_key_compare) = None then alloc [] else (True, [])) = (True, [])"
    by simp
  from hstr.add_map [OF hash_map_init [of 5 "\<lambda>_. \<lparr>ptr = None, prev = None, next = None\<rparr>"] _ this, of 3 True "[]" "s2b ''k''" "Some 1"]
  show ?thesis by auto
qed

theorem hash_clean_exact_witness:
  "\<exists>H (h :: int hash_nodes) H' h' ks. Curl_hash_clean_with_criterium H h (Some (\<lambda>p. p = Some 1)) =
      Some (H', h', concat (map (\<lambda>k. freed ([s2b ''k'' \<mapsto> Some 1] k)) ks)) \<and> ks = [s2b ''k'']"
proof -
  obtain H and h :: "int hash_nodes"
    where m: "hash_map Curl_hash_str Curl_str_key_compare H h {3} [s2b ''k'' \<mapsto> Some 1]"
    using one_entry_table by blast
  obtain H' h' ks where c: "Curl_hash_clean_with_criterium H h (Some (\<lambda>p. p = Some 1)) =
      Some (H', h', concat (map (\<lambda>k. freed ([s2b ''k'' \<mapsto> Some 1] k)) ks))" "distinct ks"
    "set ks = {k. \<exists>p. [s2b ''k'' \<mapsto> Some 1] k = Some p \<and> chosen (Some (\<lambda>p. p = Some (1 :: int))) p}"
    using hash_clean_exact [OF m, of "Some (\<lambda>p. p = Some 1)"] by blast
  have "set ks = {s2b ''k''}"
    unfolding c(3) by (auto simp: chosen_def)
  with c(2) have "ks = [s2b ''k'']"
    by (cases ks; cases "tl ks") auto
  with c(1) show ?thesis by blast
qed

text \<open>
  The iterator visits every entry of the table exactly once, and terminates.
\<close>

theorem hash_iterate_exact:
  assumes "hash_map Curl_hash_str Curl_str_key_compare H h used m"
  shows "\<exists>as. hash_iterate H h Curl_hash_start_iterate = Some as \<and>
    distinct (map (\<lambda>a. ekey (element h a)) as) \<and>
    m = map_of (map (\<lambda>a. (ekey (element h a), eptr (element h a))) as)"
  by (rule hstr.iterate_map [OF assms])

theorem hash_iterate_exact_witness:
  "\<exists>H (h :: int hash_nodes) as. hash_iterate H h Curl_hash_start_iterate = Some as \<and>
     map_of (map (\<lambda>a. (ekey (element h a), eptr (element h a))) as) = [s2b ''k'' \<mapsto> Some 1]"
proof -
  obtain H and h :: "int hash_nodes"
    where m: "hash_map Curl_hash_str Curl_str_key_compare H h {3} [s2b ''k'' \<mapsto> Some 1]"
    using one_entry_table by blast
  from hash_iterate_exact [OF m] obtain as where "hash_iterate H h Curl_hash_start_iterate = Some as"
    "[s2b ''k'' \<mapsto> Some 1] = map_of (map (\<lambda>a. (ekey (element h a), eptr (element h a))) as)"
    by blast
  then show ?thesis by (intro exI [of _ H] exI [of _ h] exI [of _ as]) simp
qed

text \<open>
  \<open>Curl_hash_destroy\<close> calls the destructor exactly once for every entry that holds a
  pointer, and leaves a table with no slots and no storage.
\<close>

theorem hash_destroy_exact:
  assumes "hash_map Curl_hash_str Curl_str_key_compare H h used m"
  shows "\<exists>h' ks. Curl_hash_destroy H h =
      (H\<lparr>table := None, hsize := 0, slots := 0\<rparr>, h', concat (map (\<lambda>k. freed (m k)) ks)) \<and>
    distinct ks \<and> set ks = dom m"
  by (rule hstr.destroy_map [OF assms])

theorem hash_destroy_exact_witness:
  "\<exists>H (h :: int hash_nodes) h'. snd (snd (Curl_hash_destroy H h)) = [1] \<and> table H \<noteq> None \<and>
     Curl_hash_destroy H h = (H\<lparr>table := None, hsize := 0, slots := 0\<rparr>, h', [1])"
proof -
  obtain H and h :: "int hash_nodes"
    where m: "hash_map Curl_hash_str Curl_str_key_compare H h {3} [s2b ''k'' \<mapsto> Some 1]"
    using one_entry_table by blast
  from hash_destroy_exact [OF m] obtain h' ks where d: "Curl_hash_destroy H h =
      (H\<lparr>table := None, hsize := 0, slots := 0\<rparr>, h', concat (map (\<lambda>k. freed ([s2b ''k'' \<mapsto> Some 1] k)) ks))"
    "distinct ks" "set ks = {s2b ''k''}" by auto
  then have "ks = [s2b ''k'']" by (cases ks; cases "tl ks") auto
  moreover have "table H \<noteq> None"
  proof
    assume none: "table H = None"
    obtain ass where "hash_rep Curl_hash_str Curl_str_key_compare H h ass"
      "abs_map Curl_hash_str (chains h ass) = [s2b ''k'' \<mapsto> Some 1]"
      using m by (auto simp: hash_map_def)
    with hstr.table_None_empty [OF _ none] show False by (metis fun_upd_same option.discI)
  qed
  ultimately show ?thesis using d(1) by (intro exI [of _ H] exI [of _ h] exI [of _ h']) simp
qed

lemma inj_offt_key: "offt_key i = offt_key j \<longleftrightarrow> i = j"
proof
  assume eq: "offt_key i = offt_key j"
  have byte: "(ucast (drop_bit (8 * n) i) :: byte) = ucast (drop_bit (8 * n) j)" if "n < 8" for n
    using eq that by (auto simp: offt_key_def less_8_cases)
  show "i = j"
  proof (rule bit_word_eqI)
    fix n assume n: "n < LENGTH(64)"
    have "bit (ucast (drop_bit (8 * (n div 8)) i) :: byte) (n mod 8) =
        bit (ucast (drop_bit (8 * (n div 8)) j) :: byte) (n mod 8)"
      using byte [of "n div 8"] n by simp
    then show "bit i n = bit j n"
      using n by (simp add: bit_unsigned_iff bit_drop_bit_eq possible_bit_def)
  qed
qed simp

text \<open>
  In the table keyed by numbers, a lookup after \<open>Curl_hash_offt_set\<close> finds the new
  element under its number, and under every other number what was found before.
\<close>

theorem hash_offt_get_set:
  assumes "hash_map Curl_hash_str Curl_str_key_compare H h used m" "ne \<notin> used" "no_oom A"
  shows "\<exists>H' h' A' fs. Curl_hash_offt_set H h A i p ne = Some (H', h', A', fs, p) \<and>
    (\<forall>j. Curl_hash_offt_get H' h' j = (if j = i then Some p else Curl_hash_offt_get H h j))"
proof -
  obtain ok1 A1 where a1: "(if table H = None then alloc A else (True, A)) = (ok1, A1)" by fastforce
  obtain ok2 A2 where a2: "alloc A1 = (ok2, A2)" by fastforce
  have ok: "ok1" "no_oom A1"
    using a1 alloc_no_oomD [OF assms(3)] assms(3) by (auto split: if_splits)
  have "ok2" using alloc_no_oomD [OF ok(2) a2] by auto
  with hstr.add_map [OF assms(1,2) a1 a2, of "offt_key i" p] ok obtain H' h'
    where s: "Curl_hash_add H h A (offt_key i) p ne = Some (H', h', A2, freed (m (offt_key i)), p)"
      "hash_map Curl_hash_str Curl_str_key_compare H' h' (insert ne used) (m(offt_key i \<mapsto> p))" by auto
  from hstr.pick_map [OF s(2)] hstr.pick_map [OF assms(1)] s(1) show ?thesis
    by (simp add: Curl_hash_offt_set_def Curl_hash_offt_get_def inj_offt_key)
qed

theorem hash_offt_get_set_witness:
  "\<exists>H' h' A' fs. Curl_hash_offt_set (Curl_hash_init 5 Curl_hash_str Curl_str_key_compare)
      (\<lambda>_. \<lparr>ptr = None, prev = None, next = None\<rparr>) [] 4096 (Some (1 :: int)) 3 = Some (H', h', A', fs, Some 1) \<and>
    (\<forall>j. Curl_hash_offt_get H' h' j = (if j = 4096 then Some (Some 1) else
       Curl_hash_offt_get (Curl_hash_init 5 Curl_hash_str Curl_str_key_compare)
         (\<lambda>_. \<lparr>ptr = None, prev = None, next = None\<rparr>) j))"
  by (rule hash_offt_get_set [OF hash_map_init]) simp_all

end
