(* ===== verification/Splay.thy ===== *)
theory Splay
  imports Prelude
begin

text \<open>
  The splay tree of \<open>splay.c\<close>, the timer queue of the multi handle. A node is an address.
  The shape given by the \<open>smaller\<close> and \<open>larger\<close> pointers is a tree of addresses; the other
  fields, the key and the ring of nodes with the same key (\<open>samen\<close>, \<open>samep\<close>), are in a
  store, as several operations reach them through a node pointer. The temporary node
  \<open>N\<close> of the top-down splay with its two growing trees is a pair of stacks, the last
  linked node on top.

  \<open>represents_queue\<close> relates a tree and store to a list of keys and addresses in order of
  the keys, and within a key in order of insertion; every operation is shown to be the
  queue operation on that list.
\<close>

subsection \<open>Times\<close>

datatype curltime = Curltime (tv_sec: int) (tv_usec: int)

definition Curl_splaycomparekeys :: "curltime \<Rightarrow> curltime \<Rightarrow> int" where
  "Curl_splaycomparekeys i j =
     (if tv_sec i < tv_sec j then -1
      else if tv_sec i > tv_sec j then 1
      else if tv_usec i < tv_usec j then -1
      else if tv_usec i > tv_usec j then 1
      else 0)"

definition tv_zero :: curltime where
  "tv_zero = Curltime 0 0"

definition KEY_NOTUSED :: curltime where
  "KEY_NOTUSED = Curltime (-1) (-1)"

instantiation curltime :: linorder
begin

definition less_eq_curltime :: "curltime \<Rightarrow> curltime \<Rightarrow> bool" where
  "less_eq_curltime i j \<longleftrightarrow> tv_sec i < tv_sec j \<or> tv_sec i = tv_sec j \<and> tv_usec i \<le> tv_usec j"

definition less_curltime :: "curltime \<Rightarrow> curltime \<Rightarrow> bool" where
  "less_curltime i j \<longleftrightarrow> tv_sec i < tv_sec j \<or> tv_sec i = tv_sec j \<and> tv_usec i < tv_usec j"

instance
  by intro_classes
    (auto simp: less_eq_curltime_def less_curltime_def intro: curltime.expand)

end

lemma compare_simps [simp]:
  "Curl_splaycomparekeys i j < 0 \<longleftrightarrow> i < j"
  "Curl_splaycomparekeys i j > 0 \<longleftrightarrow> i > j"
  "Curl_splaycomparekeys i j = 0 \<longleftrightarrow> i = j"
  by (auto simp: Curl_splaycomparekeys_def less_curltime_def intro: curltime.expand)

subsection \<open>Nodes and trees\<close>

type_synonym node = nat

record Curl_tree =
  samen :: node
  samep :: node
  key :: curltime

type_synonym store = "node \<Rightarrow> Curl_tree"

datatype tree = Tip | Node (smaller: tree) (root: node) (larger: tree)

definition set_samen :: "node \<Rightarrow> node \<Rightarrow> store \<Rightarrow> store" where
  "set_samen a v st = st(a := (st a)\<lparr>samen := v\<rparr>)"

definition set_samep :: "node \<Rightarrow> node \<Rightarrow> store \<Rightarrow> store" where
  "set_samep a v st = st(a := (st a)\<lparr>samep := v\<rparr>)"

definition set_key :: "node \<Rightarrow> curltime \<Rightarrow> store \<Rightarrow> store" where
  "set_key a v st = st(a := (st a)\<lparr>key := v\<rparr>)"

lemma store_simps [simp]:
  "set_samen a v st c = (if c = a then (st a)\<lparr>samen := v\<rparr> else st c)"
  "set_samep a v st c = (if c = a then (st a)\<lparr>samep := v\<rparr> else st c)"
  "set_key a k st c = (if c = a then (st a)\<lparr>key := k\<rparr> else st c)"
  by (simp_all add: set_samen_def set_samep_def set_key_def)

subsection \<open>Splaying\<close>

text \<open>
  The tree under \<open>N.larger\<close> and the tree under \<open>N.smaller\<close> with the last link filled in:
  a stack entry is a linked node with its other subtree.
\<close>

fun fill_l :: "(node \<times> tree) list \<Rightarrow> tree \<Rightarrow> tree" where
  "fill_l [] x = x"
| "fill_l ((a, sm) # ls) x = fill_l ls (Node sm a x)"

fun fill_r :: "(node \<times> tree) list \<Rightarrow> tree \<Rightarrow> tree" where
  "fill_r [] x = x"
| "fill_r ((a, lg) # rs) x = fill_r rs (Node x a lg)"

definition assemble :: "(node \<times> tree) list \<Rightarrow> tree \<Rightarrow> node \<Rightarrow> tree \<Rightarrow> (node \<times> tree) list \<Rightarrow> tree" where
  "assemble ls sm a lg rs = Node (fill_l ls sm) a (fill_r rs lg)"

text \<open>The loop, on the node \<open>t\<close> given by its three parts.\<close>

function splay_loop ::
  "(node \<Rightarrow> curltime) \<Rightarrow> curltime \<Rightarrow> (node \<times> tree) list \<Rightarrow> tree \<Rightarrow> node \<Rightarrow> tree \<Rightarrow> (node \<times> tree) list \<Rightarrow> tree" where
  "splay_loop ky i ls sm a lg rs =
     (let cmp = Curl_splaycomparekeys i (ky a)
      in if cmp < 0 then
           (case sm of
              Tip \<Rightarrow> assemble ls sm a lg rs
            | Node ysm y ylg \<Rightarrow>
                if Curl_splaycomparekeys i (ky y) < 0 then
                  (case ysm of
                     Tip \<Rightarrow> assemble ls ysm y (Node ylg a lg) rs
                   | Node zsm z zlg \<Rightarrow> splay_loop ky i ls zsm z zlg ((y, Node ylg a lg) # rs))
                else splay_loop ky i ls ysm y ylg ((a, lg) # rs))
         else if cmp > 0 then
           (case lg of
              Tip \<Rightarrow> assemble ls sm a lg rs
            | Node ysm y ylg \<Rightarrow>
                if Curl_splaycomparekeys i (ky y) > 0 then
                  (case ylg of
                     Tip \<Rightarrow> assemble ls (Node sm a ysm) y ylg rs
                   | Node zsm z zlg \<Rightarrow> splay_loop ky i ((y, Node sm a ysm) # ls) zsm z zlg rs)
                else splay_loop ky i ((a, sm) # ls) ysm y ylg rs)
         else assemble ls sm a lg rs)"
  by pat_completeness auto

termination splay_loop
  by (relation "measure (\<lambda>(_, _, _, sm, _, lg, _). size sm + size lg)") auto

declare splay_loop.simps [simp del]

definition Curl_splay :: "(node \<Rightarrow> curltime) \<Rightarrow> curltime \<Rightarrow> tree \<Rightarrow> tree" where
  "Curl_splay ky i t = (case t of Tip \<Rightarrow> Tip | Node sm a lg \<Rightarrow> splay_loop ky i [] sm a lg [])"

abbreviation keys :: "store \<Rightarrow> node \<Rightarrow> curltime" where
  "keys st a \<equiv> key (st a)"

subsection \<open>Operations\<close>

definition Curl_splayinsert :: "curltime \<Rightarrow> tree \<Rightarrow> node option \<Rightarrow> store \<Rightarrow> tree \<times> store" where
  "Curl_splayinsert i t nd st =
     (case nd of
        None \<Rightarrow> (t, st)
      | Some n \<Rightarrow>
          let t = (if t \<noteq> Tip then Curl_splay (keys st) i t else t)
          in if t \<noteq> Tip \<and> Curl_splaycomparekeys i (keys st (root t)) = 0 then
               let r = root t;
                   st = set_key n KEY_NOTUSED st;
                   st = set_samen n r st;
                   st = set_samep n (samep (st r)) st;
                   st = set_samen (samep (st r)) n st;
                   st = set_samep r n st
               in (t, st)
             else
               let (sm, lg) =
                     (case t of
                        Tip \<Rightarrow> (Tip, Tip)
                      | Node tsm r tlg \<Rightarrow>
                          if Curl_splaycomparekeys i (keys st r) < 0 then (tsm, Node Tip r tlg)
                          else (Node tsm r Tip, tlg));
                   st = set_key n i st;
                   st = set_samen n n st;
                   st = set_samep n n st
               in (Node sm n lg, st))"

text \<open>
  The root \<open>t\<close> of a ring is replaced by its successor \<open>x\<close>, which takes over its key and
  its place in the tree; \<open>Curl_splaygetbest\<close> and \<open>Curl_splayremove\<close> contain these lines.
\<close>

definition promote :: "node \<Rightarrow> node \<Rightarrow> store \<Rightarrow> store" where
  "promote t x st =
     (let st = set_key x (keys st t) st;
          st = set_samep x (samep (st t)) st
      in set_samen (samep (st t)) x st)"

definition Curl_splaygetbest :: "curltime \<Rightarrow> tree \<Rightarrow> store \<Rightarrow> tree \<times> node option \<times> store" where
  "Curl_splaygetbest i t st =
     (case Curl_splay (keys st) tv_zero t of
        Tip \<Rightarrow> (Tip, None, st)
      | Node sm r lg \<Rightarrow>
          if Curl_splaycomparekeys i (keys st r) < 0 then (Node sm r lg, None, st)
          else
            let x = samen (st r)
            in if x \<noteq> r then (Node sm x lg, Some r, promote r x st)
               else (lg, Some r, st))"

text \<open>
  The result is the return code, the tree in memory and the store. \<open>newroot\<close> is assigned
  the root of that tree only when the code is zero: with another code the caller keeps
  its old root pointer, although the tree may have been splayed.
\<close>

definition Curl_splayremove :: "tree \<Rightarrow> node option \<Rightarrow> store \<Rightarrow> int \<times> tree \<times> store" where
  "Curl_splayremove t removenode st =
     (if t = Tip \<or> removenode = None then (1, t, st)
      else
        let n = the removenode
        in if Curl_splaycomparekeys KEY_NOTUSED (keys st n) = 0 then
             if samen (st n) = n then (3, t, st)
             else
               let st = set_samen (samep (st n)) (samen (st n)) st;
                   st = set_samep (samen (st n)) (samep (st n)) st;
                   st = set_samen n n st
               in (0, t, st)
           else
             (case Curl_splay (keys st) (keys st n) t of
                Tip \<Rightarrow> (2, Tip, st)
              | Node sm r lg \<Rightarrow>
                  if r \<noteq> n then (2, Node sm r lg, st)
                  else
                    let x = samen (st r)
                    in if x \<noteq> r then (0, Node sm x lg, promote r x st)
                       else
                         (0, (case sm of
                                Tip \<Rightarrow> lg
                              | _ \<Rightarrow>
                                  (case Curl_splay (keys st) (keys st n) sm of
                                     Tip \<Rightarrow> Tip
                                   | Node xsm x xlg \<Rightarrow> Node xsm x lg)), st)))"

subsection \<open>What splaying does\<close>

fun inorder :: "tree \<Rightarrow> node list" where
  "inorder Tip = []"
| "inorder (Node l a r) = inorder l @ a # inorder r"

fun left_nodes :: "(node \<times> tree) list \<Rightarrow> node list" where
  "left_nodes [] = []"
| "left_nodes ((a, sm) # ls) = left_nodes ls @ inorder sm @ [a]"

fun right_nodes :: "(node \<times> tree) list \<Rightarrow> node list" where
  "right_nodes [] = []"
| "right_nodes ((a, lg) # rs) = a # inorder lg @ right_nodes rs"

definition ordered :: "(node \<Rightarrow> curltime) \<Rightarrow> node list \<Rightarrow> bool" where
  "ordered ky as \<longleftrightarrow> sorted_wrt (\<lambda>x y. ky x < ky y) as"

lemma ordered_append:
  "ordered ky (as @ cs) \<longleftrightarrow> ordered ky as \<and> ordered ky cs \<and> (\<forall>x \<in> set as. \<forall>y \<in> set cs. ky x < ky y)"
  by (simp add: ordered_def sorted_wrt_append)

lemma ordered_Cons: "ordered ky (a # as) \<longleftrightarrow> (\<forall>y \<in> set as. ky a < ky y) \<and> ordered ky as"
  by (simp add: ordered_def)

lemma ordered_Nil [simp]: "ordered ky []"
  by (simp add: ordered_def)

lemma inorder_fill_l [simp]: "inorder (fill_l ls x) = left_nodes ls @ inorder x"
  by (induction ls x rule: fill_l.induct) simp_all

lemma inorder_fill_r [simp]: "inorder (fill_r rs x) = inorder x @ right_nodes rs"
  by (induction rs x rule: fill_r.induct) simp_all

lemma inorder_empty [simp]: "inorder t = [] \<longleftrightarrow> t = Tip"
  by (cases t) auto

lemma splay_loop_inorder:
  "inorder (splay_loop ky i ls sm a lg rs) =
   left_nodes ls @ inorder sm @ a # inorder lg @ right_nodes rs"
proof (induction "size sm + size lg" arbitrary: ls sm a lg rs rule: less_induct)
  case less
  note IH = less.hyps
  show ?case
    by (subst splay_loop.simps) (auto simp: Let_def assemble_def IH split: tree.split)
qed

text \<open>After splaying, the root separates the nodes before the key from those after it.\<close>

definition separated :: "(node \<Rightarrow> curltime) \<Rightarrow> curltime \<Rightarrow> tree \<Rightarrow> bool" where
  "separated ky i t \<longleftrightarrow>
     (\<forall>x \<in> set (inorder (smaller t)). ky x < i) \<and> (\<forall>x \<in> set (inorder (larger t)). i < ky x)"

lemma separated_assemble:
  "\<forall>x \<in> set (left_nodes ls @ inorder sm). ky x < i \<Longrightarrow>
   \<forall>x \<in> set (inorder lg @ right_nodes rs). i < ky x \<Longrightarrow>
   separated ky i (assemble ls sm a lg rs)"
  by (auto simp: separated_def assemble_def)

lemma splay_loop_separated:
  "ordered ky (inorder sm @ a # inorder lg) \<Longrightarrow>
   \<forall>x \<in> set (left_nodes ls). ky x < i \<Longrightarrow> \<forall>x \<in> set (right_nodes rs). i < ky x \<Longrightarrow>
   separated ky i (splay_loop ky i ls sm a lg rs)"
proof (induction ky i ls sm a lg rs rule: splay_loop.induct)
  case (1 ky i ls sm a lg rs)
  note ord = "1.prems"(1) [unfolded ordered_append ordered_Cons]
  consider "i < ky a" | "i > ky a" | "i = ky a" by (meson not_less_iff_gr_or_eq)
  then show ?case
  proof cases
    case less: 1
    have L: "\<forall>x \<in> set (inorder lg). i < ky x" using less ord by (meson less_trans)
    show ?thesis
    proof (cases sm)
      case Tip
      with less L "1.prems" ord show ?thesis
        by (subst splay_loop.simps) (auto simp: Let_def intro!: separated_assemble)
    next
      case (Node ysm y ylg)
      show ?thesis
      proof (cases "i < ky y")
        case True
        have M: "\<forall>x \<in> set (inorder ylg). i < ky x"
          using True ord unfolding Node inorder.simps ordered_append ordered_Cons by (meson less_trans)
        show ?thesis
        proof (cases ysm)
          case Tip
          with \<open>sm = Node ysm y ylg\<close> True M less L "1.prems" ord show ?thesis
            by (subst splay_loop.simps)
              (auto simp: Let_def ordered_append ordered_Cons intro!: separated_assemble)
        next
          case (Node zsm z zlg)
          with \<open>sm = Node ysm y ylg\<close> True M less L "1.prems" ord show ?thesis
            by (subst splay_loop.simps)
              (auto simp: Let_def ordered_append ordered_Cons intro!: "1.IH"(1) [OF refl])
        qed
      next
        case False
        with Node less L "1.prems" ord show ?thesis
          by (subst splay_loop.simps)
            (auto simp: Let_def ordered_append ordered_Cons intro!: "1.IH"(2) [OF refl])
      qed
    qed
  next
    case greater: 2
    have L: "\<forall>x \<in> set (inorder sm). ky x < i"
      using greater ord by (meson less_trans list.set_intros(1))
    show ?thesis
    proof (cases lg)
      case Tip
      with greater L "1.prems" ord show ?thesis
        by (subst splay_loop.simps) (auto simp: Let_def intro!: separated_assemble)
    next
      case (Node ysm y ylg)
      show ?thesis
      proof (cases "i > ky y")
        case True
        have M: "\<forall>x \<in> set (inorder ysm). ky x < i"
          using True ord unfolding Node inorder.simps ordered_append ordered_Cons
          by (meson less_trans list.set_intros(1))
        show ?thesis
        proof (cases ylg)
          case Tip
          with Node True M greater L "1.prems" ord show ?thesis
            by (subst splay_loop.simps)
              (auto simp: Let_def ordered_append ordered_Cons intro!: separated_assemble)
        next
          case (Node zsm z zlg)
          with \<open>lg = Node ysm y ylg\<close> True M greater L "1.prems" ord show ?thesis
            by (subst splay_loop.simps)
              (auto simp: Let_def ordered_append ordered_Cons intro!: "1.IH"(3) [OF refl])
        qed
      next
        case False
        with Node greater L "1.prems" ord show ?thesis
          by (subst splay_loop.simps)
            (auto simp: Let_def ordered_append ordered_Cons intro!: "1.IH"(4) [OF refl])
      qed
    qed
  next
    case equal: 3
    with "1.prems" ord show ?thesis
      by (subst splay_loop.simps) (auto simp: Let_def intro!: separated_assemble)
  qed
qed

lemma splay_inorder [simp]: "inorder (Curl_splay ky i t) = inorder t"
  by (simp add: Curl_splay_def splay_loop_inorder split: tree.split)

lemma splay_Tip [simp]: "Curl_splay ky i t = Tip \<longleftrightarrow> t = Tip"
  using splay_inorder [of ky i t] inorder_empty by metis

lemma splay_separated:
  "ordered ky (inorder t) \<Longrightarrow> t \<noteq> Tip \<Longrightarrow> separated ky i (Curl_splay ky i t)"
  by (cases t) (auto simp: Curl_splay_def intro: splay_loop_separated)

lemma splay_parts:
  assumes "ordered ky (inorder t)" "Curl_splay ky i t = Node l r g"
  shows "inorder t = inorder l @ r # inorder g" "\<And>x. x \<in> set (inorder l) \<Longrightarrow> ky x < i"
    "\<And>x. x \<in> set (inorder g) \<Longrightarrow> i < ky x"
proof -
  have "t \<noteq> Tip" using assms(2) by (auto simp: Curl_splay_def)
  from splay_separated [OF assms(1) this, of i] assms(2)
  show "\<And>x. x \<in> set (inorder l) \<Longrightarrow> ky x < i" "\<And>x. x \<in> set (inorder g) \<Longrightarrow> i < ky x"
    by (auto simp: separated_def)
  from splay_inorder [of ky i t] assms(2) show "inorder t = inorder l @ r # inorder g" by simp
qed

text \<open>A key that is in the tree ends up at the root.\<close>

lemma splay_root:
  assumes "ordered ky (inorder t)" "a \<in> set (inorder t)" "i = ky a" "Curl_splay ky i t = Node l r g"
  shows "r = a"
  using splay_parts [OF assms(1,4)] assms(2,3) by auto

subsection \<open>Rings of nodes with the same key\<close>

fun chain :: "store \<Rightarrow> node \<Rightarrow> node list \<Rightarrow> node \<Rightarrow> bool" where
  "chain st a [] b \<longleftrightarrow> samen (st a) = b \<and> samep (st b) = a"
| "chain st a (x # xs) b \<longleftrightarrow> samen (st a) = x \<and> samep (st x) = a \<and> chain st x xs b"

lemma chain_append:
  "chain st a (us @ x # vs) b \<longleftrightarrow> chain st a us x \<and> chain st x vs b"
  by (induction us arbitrary: a) auto

lemma chain_cong:
  "(\<And>c. c \<in> set (a # xs) \<Longrightarrow> samen (st' c) = samen (st c)) \<Longrightarrow>
   (\<And>c. c \<in> set (xs @ [b]) \<Longrightarrow> samep (st' c) = samep (st c)) \<Longrightarrow>
   chain st' a xs b = chain st a xs b"
  by (induction xs arbitrary: a) auto

lemma chain_first: "chain st a xs b \<Longrightarrow> samen (st a) = hd (xs @ [b])"
  by (cases xs) auto

lemma chain_last: "chain st a xs b \<Longrightarrow> samep (st b) = last (a # xs)"
  by (induction xs arbitrary: a) auto

text \<open>A ring starts at the node in the tree: \<open>a\<close> followed by \<open>xs\<close>, and back to \<open>a\<close>.\<close>

lemma ring_snoc:
  assumes "chain st a xs a" "n \<notin> set (a # xs)" "distinct (a # xs)" "z = samep (st a)"
    "samen (st' z) = n" "samep (st' n) = z" "samen (st' n) = a" "samep (st' a) = n"
    "\<And>c. c \<noteq> z \<Longrightarrow> c \<noteq> n \<Longrightarrow> samen (st' c) = samen (st c)"
    "\<And>c. c \<noteq> a \<Longrightarrow> c \<noteq> n \<Longrightarrow> samep (st' c) = samep (st c)"
  shows "chain st' a (xs @ [n]) a"
proof (cases xs rule: rev_cases)
  case Nil
  with assms show ?thesis by simp
next
  case (snoc ys y)
  have z: "z = y" using chain_last [OF assms(1)] snoc assms(4) by simp
  have "chain st a ys y" using assms(1) snoc by (simp add: chain_append)
  moreover have "\<forall>c \<in> set (a # ys). c \<noteq> z \<and> c \<noteq> n" "\<forall>c \<in> set (ys @ [y]). c \<noteq> a \<and> c \<noteq> n"
    using assms(2,3) snoc z by auto
  ultimately have "chain st' a ys y"
    using assms(9,10) by (subst chain_cong [of a ys st' st y]) blast+
  then show ?thesis using snoc z assms(5-8) by (simp add: chain_append)
qed

lemma ring_unlink:
  assumes "chain st a (us @ r # vs) b" "distinct (a # us @ r # vs)" "b = a \<or> b \<notin> set (us @ r # vs)" "b \<noteq> r"
    "samen (st' (samep (st r))) = samen (st r)" "samep (st' (samen (st r))) = samep (st r)"
    "\<And>c. c \<noteq> samep (st r) \<Longrightarrow> c \<noteq> r \<Longrightarrow> samen (st' c) = samen (st c)"
    "\<And>c. c \<noteq> samen (st r) \<Longrightarrow> samep (st' c) = samep (st c)"
  shows "chain st' a (us @ vs) b"
proof -
  have ch: "chain st a us r" "chain st r vs b" using assms(1) by (auto simp: chain_append)
  have p: "samep (st r) = last (a # us)" using chain_last [OF ch(1)] .
  have nx: "samen (st r) = hd (vs @ [b])" using chain_first [OF ch(2)] .
  have tail: "chain st' (last (a # us)) vs b"
  proof (cases vs)
    case Nil
    then show ?thesis using assms(5,6) p nx by simp
  next
    case (Cons v ws)
    have "chain st v ws b" using ch(2) Cons by simp
    moreover have "\<forall>c \<in> set (v # ws). c \<noteq> samep (st r) \<and> c \<noteq> r" "\<forall>c \<in> set (ws @ [b]). c \<noteq> samen (st r)"
      using assms(2,3) Cons last_in_set [of "a # us"] unfolding p nx by auto
    ultimately have "chain st' v ws b"
      using assms(7,8) by (subst chain_cong [of v ws st' st b]) blast+
    then show ?thesis using assms(5,6) p nx Cons by simp
  qed
  show ?thesis
  proof (cases us rule: rev_cases)
    case Nil
    with tail show ?thesis by simp
  next
    case (snoc ys y)
    have "chain st a ys y" using ch(1) snoc by (simp add: chain_append)
    moreover have "\<forall>c \<in> set (a # ys). c \<noteq> samep (st r) \<and> c \<noteq> r" "\<forall>c \<in> set (ys @ [y]). c \<noteq> samen (st r)"
      using assms(2,3) nx snoc unfolding p by (cases vs; auto)+
    ultimately have "chain st' a ys y"
      using assms(7,8) by (subst chain_cong [of a ys st' st y]) blast+
    with tail snoc show ?thesis by (simp add: chain_append)
  qed
qed

lemma ring_promote:
  assumes "chain st a (x # xs) a" "distinct (a # x # xs)" "st' = promote a x st"
  shows "chain st' x xs x \<and> keys st' x = keys st a \<and>
    (\<forall>c. c \<noteq> x \<longrightarrow> keys st' c = keys st c) \<and> (\<forall>c. c \<notin> set (a # x # xs) \<longrightarrow> st' c = st c)"
proof -
  have ch: "chain st x xs a" using assms(1) by simp
  have p: "samep (st a) = last (x # xs)" using chain_last [OF ch] .
  have ax: "a \<noteq> x" "last (x # xs) \<noteq> a" "last (x # xs) \<in> set (x # xs)"
    using assms(2) last_in_set [of "x # xs"] by auto
  have st': "samen (st' c) = (if c = last (x # xs) then x else samen (st c))"
    "samep (st' c) = (if c = x then last (x # xs) else samep (st c))"
    "keys st' c = (if c = x then keys st a else keys st c)" for c
    using ax p by (auto simp: assms(3) promote_def Let_def)
  have "chain st' x xs x"
  proof (cases xs rule: rev_cases)
    case Nil
    then show ?thesis by (simp add: st')
  next
    case (snoc ys y)
    have "chain st x ys y" using ch snoc by (simp add: chain_append)
    then have "chain st' x ys y"
      using assms(2) snoc by (subst chain_cong [of x ys st' st y]) (auto simp: st')
    then show ?thesis using snoc by (simp add: chain_append st')
  qed
  moreover have "\<forall>c. c \<notin> set (a # x # xs) \<longrightarrow> st' c = st c"
    using ax p by (auto simp: assms(3) promote_def Let_def)
  ultimately show ?thesis using st'(3) by simp
qed

subsection \<open>The queue a tree represents\<close>

text \<open>
  \<open>R\<close> gives the nodes in the ring of each tree node, after it. The queue lists every node
  with its key, by key and then in ring order.
\<close>

definition ring_nodes :: "(node \<Rightarrow> node list) \<Rightarrow> node list \<Rightarrow> node list" where
  "ring_nodes R as = concat (map (\<lambda>a. a # R a) as)"

definition queue_of :: "store \<Rightarrow> (node \<Rightarrow> node list) \<Rightarrow> node list \<Rightarrow> (curltime \<times> node) list" where
  "queue_of st R as = concat (map (\<lambda>a. map (Pair (keys st a)) (a # R a)) as)"

definition rings_ok :: "store \<Rightarrow> (node \<Rightarrow> node list) \<Rightarrow> node list \<Rightarrow> bool" where
  "rings_ok st R as \<longleftrightarrow>
     (\<forall>a \<in> set as. keys st a \<noteq> KEY_NOTUSED \<and> chain st a (R a) a \<and> (\<forall>x \<in> set (R a). keys st x = KEY_NOTUSED))"

definition represents_queue :: "tree \<Rightarrow> store \<Rightarrow> (curltime \<times> node) list \<Rightarrow> bool" where
  "represents_queue t st q \<longleftrightarrow>
     (\<exists>R. ordered (keys st) (inorder t) \<and> distinct (ring_nodes R (inorder t)) \<and>
        rings_ok st R (inorder t) \<and> q = queue_of st R (inorder t))"

lemma queue_simps [simp]:
  "ring_nodes R [] = []" "ring_nodes R (a # as) = (a # R a) @ ring_nodes R as"
  "ring_nodes R (as @ cs) = ring_nodes R as @ ring_nodes R cs"
  "queue_of st R [] = []" "queue_of st R (a # as) = map (Pair (keys st a)) (a # R a) @ queue_of st R as"
  "queue_of st R (as @ cs) = queue_of st R as @ queue_of st R cs"
  "rings_ok st R []"
  "rings_ok st R (as @ cs) \<longleftrightarrow> rings_ok st R as \<and> rings_ok st R cs"
  by (auto simp: ring_nodes_def queue_of_def rings_ok_def)

lemma rings_ok_Cons [simp]:
  "rings_ok st R (a # as) \<longleftrightarrow> keys st a \<noteq> KEY_NOTUSED \<and> chain st a (R a) a \<and>
     (\<forall>x \<in> set (R a). keys st x = KEY_NOTUSED) \<and> rings_ok st R as"
  by (auto simp: rings_ok_def)

lemma ordered_cong: "(\<And>a. a \<in> set as \<Longrightarrow> ky a = ky' a) \<Longrightarrow> ordered ky as = ordered ky' as"
  by (induction as) (auto simp: ordered_Cons)

lemma set_ring_nodes: "set (ring_nodes R as) = (\<Union>a \<in> set as. insert a (set (R a)))"
  by (auto simp: ring_nodes_def)

lemma nodes_of_queue: "map snd (queue_of st R as) = ring_nodes R as"
  by (induction as) (simp_all add: comp_def)

lemma queue_keys: "(k, x) \<in> set (queue_of st R as) \<Longrightarrow> \<exists>a \<in> set as. k = keys st a \<and> x \<in> set (a # R a)"
  by (auto simp: queue_of_def)

text \<open>Changes outside a list of rings do not matter to it.\<close>

lemma rings_frame:
  assumes "\<And>c. c \<in> set (ring_nodes R as) \<Longrightarrow> st' c = st c" "\<And>a. a \<in> set as \<Longrightarrow> R' a = R a"
  shows "rings_ok st' R' as = rings_ok st R as" "queue_of st' R' as = queue_of st R as"
    "ring_nodes R' as = ring_nodes R as" "ordered (keys st') as = ordered (keys st) as"
proof -
  have same: "st' c = st c" if "a \<in> set as" "c = a \<or> c \<in> set (R a)" for a c
    using assms(1) that by (auto simp: set_ring_nodes)
  have "chain st' a (R a) a = chain st a (R a) a" if "a \<in> set as" for a
    by (rule chain_cong) (use same [OF that] in auto)
  then show "rings_ok st' R' as = rings_ok st R as"
    using same assms(2) unfolding rings_ok_def by (intro ball_cong) auto
  show "queue_of st' R' as = queue_of st R as"
    unfolding queue_of_def
    by (rule arg_cong [where f = concat], rule map_cong) (use same assms(2) in auto)
  show "ring_nodes R' as = ring_nodes R as"
    unfolding ring_nodes_def
    by (rule arg_cong [where f = concat], rule map_cong) (use assms(2) in auto)
  show "ordered (keys st') as = ordered (keys st) as"
    by (rule ordered_cong) (use same in auto)
qed

subsection \<open>The operations on the queue\<close>

text \<open>A new entry goes behind all entries with a key that is not larger.\<close>

definition enqueue :: "curltime \<Rightarrow> node \<Rightarrow> (curltime \<times> node) list \<Rightarrow> (curltime \<times> node) list" where
  "enqueue i n q = takeWhile (\<lambda>x. fst x \<le> i) q @ (i, n) # dropWhile (\<lambda>x. fst x \<le> i) q"

lemma enqueue_split:
  "\<forall>x \<in> set A. fst x \<le> i \<Longrightarrow> \<forall>x \<in> set B. i < fst x \<Longrightarrow> enqueue i n (A @ B) = A @ (i, n) # B"
  by (cases B) (auto simp: enqueue_def takeWhile_append dropWhile_append)

lemma represents_queueI:
  "ordered (keys st) (inorder t) \<Longrightarrow> distinct (ring_nodes R (inorder t)) \<Longrightarrow>
   rings_ok st R (inorder t) \<Longrightarrow> q = queue_of st R (inorder t) \<Longrightarrow> represents_queue t st q"
  by (auto simp: represents_queue_def)

lemma queue_below: "\<forall>a \<in> set as. keys st a < i \<Longrightarrow> \<forall>x \<in> set (queue_of st R as). fst x < i"
  by (force simp: queue_of_def)

lemma queue_above: "\<forall>a \<in> set as. i < keys st a \<Longrightarrow> \<forall>x \<in> set (queue_of st R as). i < fst x"
  by (force simp: queue_of_def)

text \<open>Two nodes of the tree whose rings are not touched, around one whose ring is.\<close>

lemma replace_ring:
  assumes "ordered (keys st) (L @ r # G)" "distinct (ring_nodes R (L @ r # G))" "rings_ok st R (L @ r # G)"
    "\<And>c. c \<in> set (ring_nodes R (L @ G)) \<Longrightarrow> st' c = st c"
    "set (r' # xs') \<inter> set (ring_nodes R (L @ G)) = {}" "distinct (r' # xs')"
    "keys st' r' = keys st r" "chain st' r' xs' r'" "\<forall>x \<in> set xs'. keys st' x = KEY_NOTUSED"
    "R' = R(r' := xs')"
  shows "ordered (keys st') (L @ r' # G)" "distinct (ring_nodes R' (L @ r' # G))"
    "rings_ok st' R' (L @ r' # G)"
    "queue_of st' R' (L @ r' # G) = queue_of st R L @ map (Pair (keys st r)) (r' # xs') @ queue_of st R G"
proof -
  have "r' \<notin> set (L @ G)" using assms(5) by (auto simp: set_ring_nodes)
  then have R': "R' a = R a" if "a \<in> set (L @ G)" for a using that assms(10) by auto
  note fr = rings_frame [of R "L @ G" st' st R', OF assms(4) R']
  note frL = rings_frame [of R L st' st R'] and frG = rings_frame [of R G st' st R']
  have L: "rings_ok st' R' L = rings_ok st R L" "queue_of st' R' L = queue_of st R L"
    "ring_nodes R' L = ring_nodes R L"
    by (rule frL; use assms(4) R' in auto)+
  have G: "rings_ok st' R' G = rings_ok st R G" "queue_of st' R' G = queue_of st R G"
    "ring_nodes R' G = ring_nodes R G"
    by (rule frG; use assms(4) R' in auto)+
  have same: "keys st' a = keys st a" if "a \<in> set L \<union> set G" for a
    by (subst assms(4)) (use that in \<open>auto simp: set_ring_nodes\<close>)
  show "ordered (keys st') (L @ r' # G)"
    using assms(1) fr(4) same assms(7) by (simp add: ordered_append ordered_Cons)
  show "distinct (ring_nodes R' (L @ r' # G))"
    using assms(2,5,6,10) L(3) G(3) by auto
  show "rings_ok st' R' (L @ r' # G)"
    using assms(3,7-10) L(1) G(1) by simp
  show "queue_of st' R' (L @ r' # G) = queue_of st R L @ map (Pair (keys st r)) (r' # xs') @ queue_of st R G"
    using assms(7,10) L(2) G(2) by simp
qed

lemma new_ring:
  assumes "ordered (keys st) (A @ B)" "distinct (ring_nodes R (A @ B))" "rings_ok st R (A @ B)"
    "n \<notin> set (ring_nodes R (A @ B))" "\<forall>a \<in> set A. keys st a < i" "\<forall>b \<in> set B. i < keys st b"
    "i \<noteq> KEY_NOTUSED" "inorder t' = A @ n # B"
    "st1 = set_samep n n (set_samen n n (set_key n i st))"
  shows "represents_queue t' st1 (enqueue i n (queue_of st R (A @ B)))"
proof -
  let ?R = "R(n := [])"
  have st1: "keys st1 n = i" "chain st1 n [] n" "\<And>c. c \<noteq> n \<Longrightarrow> st1 c = st c"
    by (simp_all add: assms(9))
  have n: "n \<notin> set A \<union> set B" using assms(4) by (auto simp: set_ring_nodes)
  have out: "st1 c = st c" if "c \<in> set (ring_nodes R A) \<union> set (ring_nodes R B)" for c
    by (rule st1(3)) (use that assms(4) in auto)
  have R: "?R a = R a" if "a \<in> set A \<union> set B" for a using n that by auto
  have A: "rings_ok st1 ?R A = rings_ok st R A" "queue_of st1 ?R A = queue_of st R A"
    "ring_nodes ?R A = ring_nodes R A" "ordered (keys st1) A = ordered (keys st) A"
    by (rule rings_frame; use out R in blast)+
  have B: "rings_ok st1 ?R B = rings_ok st R B" "queue_of st1 ?R B = queue_of st R B"
    "ring_nodes ?R B = ring_nodes R B" "ordered (keys st1) B = ordered (keys st) B"
    by (rule rings_frame; use out R in blast)+
  have same: "keys st1 a = keys st a" if "a \<in> set A \<union> set B" for a
    using n that st1(3) by metis
  have "ordered (keys st1) (inorder t')"
    using assms(1,5,6) A(4) B(4) st1(1) same
    unfolding assms(8) ordered_append ordered_Cons by force
  moreover have "distinct (ring_nodes ?R (inorder t'))"
    using assms(2,4) A(3) B(3) by (auto simp: assms(8))
  moreover have "rings_ok st1 ?R (inorder t')"
    using assms(3,7) A(1) B(1) st1(1,2) by (simp add: assms(8))
  moreover have "enqueue i n (queue_of st R (A @ B)) = queue_of st1 ?R (inorder t')"
  proof -
    have "\<forall>x \<in> set (queue_of st R A). fst x \<le> i"
      using queue_below [OF assms(5)] by (metis less_imp_le)
    from enqueue_split [OF this queue_above [OF assms(6)]]
    show ?thesis using A(2) B(2) st1(1) by (simp add: assms(8))
  qed
  ultimately show ?thesis by (rule represents_queueI)
qed

lemma insert_queue:
  assumes "represents_queue t st q" "n \<notin> snd ` set q" "i \<noteq> KEY_NOTUSED"
    "Curl_splayinsert i t (Some n) st = (t', st')"
  shows "represents_queue t' st' (enqueue i n q)"
proof -
  obtain R where rep: "ordered (keys st) (inorder t)" "distinct (ring_nodes R (inorder t))"
    "rings_ok st R (inorder t)" "q = queue_of st R (inorder t)"
    using assms(1) by (auto simp: represents_queue_def)
  have n: "n \<notin> set (ring_nodes R (inorder t))"
    using assms(2) nodes_of_queue [of st R "inorder t"] unfolding rep(4) set_map [symmetric] by simp
  let ?st1 = "set_samep n n (set_samen n n (set_key n i st))"
  show ?thesis
  proof (cases t)
    case Tip
    with assms(4) rep(4) have "t' = Node Tip n Tip" "st' = ?st1" "q = queue_of st R ([] @ [])"
      by (auto simp: Curl_splayinsert_def Let_def)
    then show ?thesis
      using new_ring [of st "[]" "[]" R n i t' st'] assms(3) by simp
  next
    case (Node _ _ _)
    then have "t \<noteq> Tip" by simp
    then obtain l r g where s: "Curl_splay (keys st) i t = Node l r g"
      by (cases "Curl_splay (keys st) i t") auto
    let ?L = "inorder l" and ?G = "inorder g"
    note p = splay_parts [OF rep(1) s]
    note rep' = rep [unfolded p(1)] and n' = n [unfolded p(1)]
    have lo: "\<forall>x \<in> set (queue_of st R ?L). fst x < i" using p(2) queue_below by blast
    have hi: "\<forall>x \<in> set (queue_of st R ?G). i < fst x" using p(3) queue_above by blast
    show ?thesis
    proof (cases "i = keys st r")
      case True
      have ring: "chain st r (R r) r" "distinct (r # R r)" "n \<notin> set (r # R r)"
        using rep'(2,3) n' by auto
      have t': "t' = Node l r g" and st': "st' = set_samep r n (set_samen (samep (st r)) n
            (set_samep n (samep (st r)) (set_samen n r (set_key n KEY_NOTUSED st))))"
        using assms(4) True s ring(3) by (auto simp: Curl_splayinsert_def Let_def \<open>t \<noteq> Tip\<close>)
      have z: "samep (st r) \<in> set (r # R r)"
        using chain_last [OF ring(1)] last_in_set [of "r # R r"] by simp
      have chain': "chain st' r (R r @ [n]) r"
        by (rule ring_snoc [OF ring(1,3,2) refl]) (use ring(3) z in \<open>auto simp: st'\<close>)
      have out: "st' c = st c" if "c \<in> set (ring_nodes R (?L @ ?G))" for c
        using that rep'(2) n' z by (auto simp: st')
      have keys': "keys st' r = keys st r" "\<forall>x \<in> set (R r @ [n]). keys st' x = KEY_NOTUSED"
        using ring(3) rep'(3) by (auto simp: st')
      have dis: "set (r # R r @ [n]) \<inter> set (ring_nodes R (?L @ ?G)) = {}" "distinct (r # R r @ [n])"
        using rep'(2) n' by auto
      note rr = replace_ring [OF rep'(1,2,3) out dis keys'(1) chain' keys'(2) refl]
      have "enqueue i n q = (queue_of st R ?L @ map (Pair (keys st r)) (r # R r)) @ (i, n) # queue_of st R ?G"
        unfolding rep'(4) using lo hi True
        by (subst enqueue_split [symmetric]) (auto simp: less_imp_le)
      then show ?thesis
        using rr True by (intro represents_queueI [of _ _ "R(r := R r @ [n])"]) (simp_all add: t')
    next
      case False
      then consider "i < keys st r" | "i > keys st r" by (meson not_less_iff_gr_or_eq)
      then show ?thesis
      proof cases
        case less: 1
        have t': "t' = Node l n (Node Tip r g)" "st' = ?st1"
          using assms(4) less False s by (auto simp: Curl_splayinsert_def Let_def \<open>t \<noteq> Tip\<close>)
        have "\<forall>b \<in> set (r # ?G). i < keys st b" using p(3) less by auto
        with p(2) show ?thesis
          unfolding rep'(4) t'(2) using rep'(1-3) n' assms(3)
          by (intro new_ring [OF _ _ _ _ _ _ _ _ refl]) (auto simp: t'(1))
      next
        case greater: 2
        have t': "t' = Node (Node l r Tip) n g" "st' = ?st1"
          using assms(4) less_not_sym [OF greater] False s
          by (auto simp: Curl_splayinsert_def Let_def \<open>t \<noteq> Tip\<close>)
        have "\<forall>a \<in> set (?L @ [r]). keys st a < i" using p(2) greater by auto
        moreover have "q = queue_of st R ((?L @ [r]) @ ?G)" using rep'(4) by simp
        ultimately show ?thesis
          using new_ring [of st "?L @ [r]" ?G R n i t' ?st1] rep'(1-3) n' assms(3) p(3)
          by (simp add: t')
      qed
    qed
  qed
qed

text \<open>The root of a ring is replaced by the next node of the ring.\<close>

lemma promote_queue:
  assumes "ordered (keys st) (inorder l @ r # inorder g)" "distinct (ring_nodes R (inorder l @ r # inorder g))"
    "rings_ok st R (inorder l @ r # inorder g)" "R r = x # xs"
  shows "represents_queue (Node l x g) (promote r x st)
    (queue_of st R (inorder l) @ map (Pair (keys st r)) (x # xs) @ queue_of st R (inorder g))"
proof -
  have ring: "chain st r (x # xs) r" "distinct (r # x # xs)" using assms(2-4) by auto
  note pr = ring_promote [OF ring refl]
  have out: "promote r x st c = st c" if "c \<in> set (ring_nodes R (inorder l @ inorder g))" for c
  proof -
    have "c \<notin> set (r # x # xs)" using that assms(2,4) by auto
    from pr [THEN conjunct2, THEN conjunct2, THEN conjunct2, rule_format, OF this] show ?thesis .
  qed
  have dis: "set (x # xs) \<inter> set (ring_nodes R (inorder l @ inorder g)) = {}" "distinct (x # xs)"
    using assms(2,4) by auto
  have ch: "keys (promote r x st) x = keys st r" "chain (promote r x st) x xs x"
    "\<forall>y \<in> set xs. keys (promote r x st) y = KEY_NOTUSED"
  proof -
    have "\<forall>y \<in> set xs. y \<noteq> x \<and> keys st y = KEY_NOTUSED" using assms(3,4) ring(2) by auto
    then show "\<forall>y \<in> set xs. keys (promote r x st) y = KEY_NOTUSED"
      using pr [THEN conjunct2, THEN conjunct2, THEN conjunct1] by simp
  qed (use pr in blast)+
  note rr = replace_ring [OF assms(1-3) out dis ch refl]
  show ?thesis
    by (rule represents_queueI [of _ _ "R(x := xs)"]) (use rr in simp_all)
qed

text \<open>Taking a tree node with a ring of its own out of the tree.\<close>

lemma drop_ring:
  assumes "ordered (keys st) (A @ r # B)" "distinct (ring_nodes R (A @ r # B))" "rings_ok st R (A @ r # B)"
    "inorder t' = A @ B"
  shows "represents_queue t' st (queue_of st R A @ queue_of st R B)"
  by (rule represents_queueI [of _ _ R])
    (use assms in \<open>auto simp: ordered_append ordered_Cons\<close>)

lemma ring_next:
  assumes "chain st r ys r" "distinct (r # ys)"
  shows "samen (st r) = r \<longleftrightarrow> ys = []" "ys = x # xs \<Longrightarrow> samen (st r) = x"
  using assms by (cases ys; auto)+

lemma filter_pairs [simp]: "n \<notin> set us \<Longrightarrow> filter (\<lambda>x. snd x \<noteq> n) (map (Pair k) us) = map (Pair k) us"
  by (induction us) auto

lemma getbest_queue:
  assumes "represents_queue t st q" "\<forall>x \<in> set q. tv_zero \<le> fst x" "Curl_splaygetbest i t st = (t', rm, st')"
  shows "case q of
      [] \<Rightarrow> rm = None \<and> represents_queue t' st' q
    | (k, x) # q' \<Rightarrow>
        if i < k then rm = None \<and> represents_queue t' st' q
        else rm = Some x \<and> represents_queue t' st' q'"
proof -
  obtain R where rep: "ordered (keys st) (inorder t)" "distinct (ring_nodes R (inorder t))"
    "rings_ok st R (inorder t)" "q = queue_of st R (inorder t)"
    using assms(1) by (auto simp: represents_queue_def)
  show ?thesis
  proof (cases "Curl_splay (keys st) tv_zero t")
    case Tip
    then have "t = Tip" by simp
    with assms(1,3) rep(4) show ?thesis by (auto simp: Curl_splaygetbest_def Curl_splay_def)
  next
    case (Node l r g)
    note p = splay_parts [OF rep(1) Node]
    have "l = Tip"
    proof (rule ccontr)
      assume "l \<noteq> Tip"
      then obtain a where a: "a \<in> set (inorder l)" by (cases l) auto
      then have "(keys st a, a) \<in> set q" unfolding rep(4) p(1) by (auto simp: queue_of_def)
      with assms(2) p(2) [OF a] show False by fastforce
    qed
    with p(1) have io: "inorder t = inorder l @ r # inorder g" "inorder l = []" by simp_all
    note rep' = rep [unfolded io(1)]
    have q: "q = (keys st r, r) # map (Pair (keys st r)) (R r) @ queue_of st R (inorder g)"
      using rep'(4) io(2) by simp
    have ring: "chain st r (R r) r" "distinct (r # R r)" using rep'(2,3) by auto
    show ?thesis
    proof (cases "i < keys st r")
      case True
      with assms(3) Node have "t' = Node l r g" "rm = None" "st' = st" by (auto simp: Curl_splaygetbest_def)
      then show ?thesis using True q rep' by (auto intro: represents_queueI)
    next
      case False
      show ?thesis
      proof (cases "R r")
        case Nil
        with ring_next(1) [OF ring] False assms(3) Node have "t' = g" "rm = Some r" "st' = st"
          by (auto simp: Curl_splaygetbest_def Let_def)
        with drop_ring [OF rep'(1-3), of t'] False q Nil io(2) show ?thesis by simp
      next
        case (Cons x xs)
        with ring ring_next(2) [OF ring Cons] False assms(3) Node
        have "t' = Node l x g" "rm = Some r" "st' = promote r x st"
          by (auto simp: Curl_splaygetbest_def Let_def)
        with promote_queue [OF rep'(1-3) Cons] False q Cons io(2) show ?thesis by simp
      qed
    qed
  qed
qed

lemma filter_queue:
  "n \<notin> set (ring_nodes R as) \<Longrightarrow> filter (\<lambda>x. snd x \<noteq> n) (queue_of st R as) = queue_of st R as"
  by (auto simp: filter_id_conv set_ring_nodes queue_of_def)

lemma remove_queue:
  assumes "represents_queue t st q" "n \<in> snd ` set q" "Curl_splayremove t (Some n) st = (rc, t', st')"
  shows "rc = 0 \<and> represents_queue t' st' (filter (\<lambda>x. snd x \<noteq> n) q)"
proof -
  obtain R where rep: "ordered (keys st) (inorder t)" "distinct (ring_nodes R (inorder t))"
    "rings_ok st R (inorder t)" "q = queue_of st R (inorder t)"
    using assms(1) by (auto simp: represents_queue_def)
  have "n \<in> set (ring_nodes R (inorder t))"
    using assms(2) nodes_of_queue [of st R "inorder t"] unfolding rep(4) set_map [symmetric] by simp
  then obtain a where a: "a \<in> set (inorder t)" "n = a \<or> n \<in> set (R a)" by (auto simp: set_ring_nodes)
  then have "t \<noteq> Tip" by auto
  show ?thesis
  proof (cases "n = a")
    case False
    with a have n: "n \<in> set (R a)" by simp
    obtain us vs where R: "R a = us @ n # vs" using split_list [OF n] by blast
    obtain A B where AB: "inorder t = A @ a # B" using split_list [OF a(1)] by blast
    note rep' = rep [unfolded AB]
    have ring: "chain st a (us @ n # vs) a" "distinct (a # us @ n # vs)" "keys st n = KEY_NOTUSED"
      using rep'(2,3) R by auto
    have pn: "samep (st n) = last (a # us)" "samen (st n) = hd (vs @ [a])"
      using ring(1) chain_last [of st a us n] chain_first [of st n vs a] by (auto simp: chain_append)
    have mem: "samep (st n) \<in> set (a # us)" "samen (st n) \<in> set (vs @ [a])"
      unfolding pn using last_in_set [of "a # us"] hd_in_set [of "vs @ [a]"] by auto
    have nn: "samen (st n) \<noteq> n" "samep (st n) \<noteq> n" using mem ring(2) by auto
    with assms(3) ring(3) \<open>t \<noteq> Tip\<close> have rc: "rc = 0" "t' = t" and
      st': "st' = set_samen n n (set_samep (samen (st n)) (samep (st n)) (set_samen (samep (st n)) (samen (st n)) st))"
      by (auto simp: Curl_splayremove_def Let_def)
    have chain': "chain st' a (us @ vs) a"
      by (rule ring_unlink [OF ring(1,2)]) (use ring(2) nn in \<open>auto simp: st'\<close>)
    have out: "st' c = st c" if "c \<in> set (ring_nodes R (A @ B))" for c
    proof -
      have "c \<notin> set (a # us @ n # vs)" using that rep'(2) R by auto
      then show ?thesis using mem by (auto simp: st')
    qed
    have dis: "set (a # us @ vs) \<inter> set (ring_nodes R (A @ B)) = {}" "distinct (a # us @ vs)"
      using rep'(2) R by auto
    have ks: "keys st' a = keys st a" "\<forall>x \<in> set (us @ vs). keys st' x = KEY_NOTUSED"
      using rep'(3) R by (auto simp: st')
    note rr = replace_ring [OF rep'(1-3) out dis ks(1) chain' ks(2) refl]
    have "filter (\<lambda>x. snd x \<noteq> n) q =
        queue_of st R A @ map (Pair (keys st a)) (a # us @ vs) @ queue_of st R B"
      using rep'(2) R False filter_queue [of n R A st] filter_queue [of n R B st] ring(2)
      unfolding rep'(4) by auto
    then show ?thesis
      using rr rc AB by (auto intro!: represents_queueI [of _ _ "R(a := us @ vs)"])
  next
    case True
    have kn: "keys st n \<noteq> KEY_NOTUSED" using a(1) True rep(3) by (auto simp: rings_ok_def)
    obtain l r g where s: "Curl_splay (keys st) (keys st n) t = Node l r g"
      using \<open>t \<noteq> Tip\<close> by (cases "Curl_splay (keys st) (keys st n) t") auto
    have "r = n" using splay_root [OF rep(1) a(1) _ s] True by simp
    note p = splay_parts [OF rep(1) s, unfolded \<open>r = n\<close>]
    note rep' = rep [unfolded p(1)]
    have ring: "chain st n (R n) n" "distinct (n # R n)" using rep'(2,3) by auto
    have q': "filter (\<lambda>x. snd x \<noteq> n) q =
        queue_of st R (inorder l) @ map (Pair (keys st n)) (R n) @ queue_of st R (inorder g)"
      using rep'(2) filter_queue [of n R "inorder l" st] filter_queue [of n R "inorder g" st] ring(2)
      unfolding rep'(4) by auto
    show ?thesis
    proof (cases "R n")
      case Nil
      have "rc = 0 \<and> st' = st \<and> inorder t' = inorder l @ inorder g"
      proof (cases l)
        case Tip
        with assms(3) kn s \<open>r = n\<close> \<open>t \<noteq> Tip\<close> ring_next(1) [OF ring] Nil show ?thesis
          by (auto simp: Curl_splayremove_def Let_def)
      next
        case l: (Node ll la lg)
        have ol: "ordered (keys st) (inorder l)" using rep'(1) by (simp add: ordered_append)
        obtain xsm x xlg where s2: "Curl_splay (keys st) (keys st n) l = Node xsm x xlg"
          using l by (cases "Curl_splay (keys st) (keys st n) l") auto
        note p2 = splay_parts [OF ol s2]
        have "xlg = Tip"
        proof (rule ccontr)
          assume "xlg \<noteq> Tip"
          then obtain b where b: "b \<in> set (inorder xlg)" by (cases xlg) auto
          from p2(3) [OF b] p(2) [of b] p2(1) b show False by fastforce
        qed
        with assms(3) kn s s2 l \<open>r = n\<close> \<open>t \<noteq> Tip\<close> ring_next(1) [OF ring] Nil p2(1) show ?thesis
          by (auto simp: Curl_splayremove_def Let_def)
      qed
      with drop_ring [OF rep'(1-3), of t'] q' Nil show ?thesis by simp
    next
      case (Cons x xs)
      with ring ring_next(2) [OF ring Cons] assms(3) kn s \<open>r = n\<close> \<open>t \<noteq> Tip\<close>
      have "rc = 0" "t' = Node l x g" "st' = promote n x st"
        by (auto simp: Curl_splayremove_def Let_def)
      with promote_queue [OF rep'(1-3) Cons] q' Cons show ?thesis by simp
    qed
  qed
qed

subsection \<open>The contract of a timer queue\<close>

text \<open>
  What the owner of a timer queue relies on, without mention of trees: the queue is kept
  in order, and the expired entries come out in that order. Its time has to be at or
  after zero, because the smallest entry is searched for with the key zero.
\<close>

locale timer_queue =
  fixes rep :: "'t \<Rightarrow> 's \<Rightarrow> (curltime \<times> node) list \<Rightarrow> bool"
    and getb :: "curltime \<Rightarrow> 't \<Rightarrow> 's \<Rightarrow> 't \<times> node option \<times> 's"
  assumes getb_rep: "rep t s q \<Longrightarrow> \<forall>x \<in> set q. tv_zero \<le> fst x \<Longrightarrow> getb i t s = (t', rm, s') \<Longrightarrow>
      (case q of
         [] \<Rightarrow> rm = None \<and> rep t' s' q
       | (k, x) # q' \<Rightarrow>
           if i < k then rm = None \<and> rep t' s' q else rm = Some x \<and> rep t' s' q')"
begin

text \<open>Taking expired entries until there is none, with at most \<open>n\<close> calls.\<close>

fun pop_all :: "nat \<Rightarrow> curltime \<Rightarrow> 't \<Rightarrow> 's \<Rightarrow> node list \<times> 't \<times> 's" where
  "pop_all 0 i t s = ([], t, s)"
| "pop_all (Suc n) i t s =
     (case getb i t s of
        (t', None, s') \<Rightarrow> ([], t', s')
      | (t', Some x, s') \<Rightarrow> (case pop_all n i t' s' of (xs, r) \<Rightarrow> (x # xs, r)))"

lemma pop_all_expired:
  "rep t s q \<Longrightarrow> \<forall>x \<in> set q. tv_zero \<le> fst x \<Longrightarrow> length q < n \<Longrightarrow> pop_all n i t s = (xs, t', s') \<Longrightarrow>
   xs = map snd (takeWhile (\<lambda>x. fst x \<le> i) q) \<and> rep t' s' (dropWhile (\<lambda>x. fst x \<le> i) q)"
proof (induction n arbitrary: t s q xs t' s')
  case (Suc n)
  obtain t1 rm s1 where g: "getb i t s = (t1, rm, s1)" by (cases "getb i t s")
  note step = getb_rep [OF Suc.prems(1,2) g]
  show ?case
  proof (cases q)
    case Nil
    with step Suc.prems(4) g show ?thesis by auto
  next
    case (Cons e q')
    obtain k x where e: "e = (k, x)" by (cases e)
    show ?thesis
    proof (cases "i < k")
      case True
      with step Suc.prems(4) g Cons e show ?thesis by auto
    next
      case False
      with step Cons e have rm: "rm = Some x" "rep t1 s1 q'" by auto
      obtain ys t2 s2 where r: "pop_all n i t1 s1 = (ys, t2, s2)" by (cases "pop_all n i t1 s1")
      with Suc.prems(4) g rm have "xs = x # ys" "t2 = t'" "s2 = s'" by auto
      with Suc.IH [OF rm(2) _ _ r] Suc.prems(2,3) Cons e False show ?thesis by auto
    qed
  qed
qed simp

end

interpretation splay: timer_queue represents_queue Curl_splaygetbest
  by unfold_locales (rule getbest_queue)

subsection \<open>Properties\<close>

text \<open>
  C11. Inserting a timer keeps the tree in order and puts the node behind every node whose
  key is not larger: nodes with equal keys stay in the order they came.
\<close>

theorem splay_insert_fifo:
  assumes "represents_queue t st q" "n \<notin> snd ` set q" "i \<noteq> KEY_NOTUSED"
  shows "case Curl_splayinsert i t (Some n) st of (t', st') \<Rightarrow> represents_queue t' st' (enqueue i n q)"
  using insert_queue [OF assms] by (cases "Curl_splayinsert i t (Some n) st") simp

theorem splay_insert_fifo_witness:
  "case Curl_splayinsert (Curltime 4 0) (Node Tip 1 Tip)
      (Some 2) (\<lambda>_. \<lparr>samen = 1, samep = 1, key = Curltime 4 0\<rparr>) of
     (t', st') \<Rightarrow> represents_queue t' st' (enqueue (Curltime 4 0) 2 [(Curltime 4 0, 1)])"
  by (rule splay_insert_fifo)
    (auto simp: KEY_NOTUSED_def ordered_Cons intro!: represents_queueI [of _ _ "\<lambda>_. []"])

text \<open>
  Taking the best fit: with no node, or when the smallest key is larger than the one
  asked for, nothing is removed; otherwise the first node of the queue is, that is the
  oldest of those with the smallest key. Keys have to be at or after time zero.
\<close>

theorem splay_getbest_first:
  assumes "represents_queue t st q" "\<forall>x \<in> set q. tv_zero \<le> fst x" "Curl_splaygetbest i t st = (t', rm, st')"
  shows "case q of
      [] \<Rightarrow> rm = None \<and> represents_queue t' st' q
    | (k, x) # q' \<Rightarrow>
        if i < k then rm = None \<and> represents_queue t' st' q
        else rm = Some x \<and> represents_queue t' st' q'"
  by (rule getbest_queue [OF assms])

theorem splay_getbest_first_witness:
  "let st = (\<lambda>_. \<lparr>samen = 1, samep = 1, key = Curltime 4 0\<rparr>);
       r = Curl_splaygetbest (Curltime 5 0) (Node Tip 1 Tip) st
   in fst (snd r) = Some 1 \<and> represents_queue (fst r) (snd (snd r)) []"
proof -
  let ?st = "\<lambda>_. \<lparr>samen = 1, samep = 1, key = Curltime 4 0\<rparr>"
  let ?r = "Curl_splaygetbest (Curltime 5 0) (Node Tip 1 Tip) ?st"
  have "represents_queue (Node Tip 1 Tip) ?st [(Curltime 4 0, 1)]"
    by (auto simp: KEY_NOTUSED_def ordered_Cons intro!: represents_queueI [of _ _ "\<lambda>_. []"])
  moreover have "\<forall>x \<in> set [(Curltime 4 0, 1 :: node)]. tv_zero \<le> fst x"
    by (simp add: tv_zero_def less_eq_curltime_def)
  moreover have "?r = (fst ?r, fst (snd ?r), snd (snd ?r))" by simp
  ultimately show ?thesis
    using splay_getbest_first [of "Node Tip 1 Tip" ?st "[(Curltime 4 0, 1)]" "Curltime 5 0" "fst ?r" "fst (snd ?r)" "snd (snd ?r)"]
    by (simp add: less_curltime_def Let_def)
qed

text \<open>
  Repeating \<open>Curl_splaygetbest\<close> until it removes nothing takes out exactly the expired
  nodes, in order, and leaves the others.
\<close>

theorem splay_expired_in_order:
  assumes "represents_queue t st q" "\<forall>x \<in> set q. tv_zero \<le> fst x"
  shows "case splay.pop_all (Suc (length q)) i t st of (xs, t', st') \<Rightarrow>
    xs = map snd (takeWhile (\<lambda>x. fst x \<le> i) q) \<and>
    represents_queue t' st' (dropWhile (\<lambda>x. fst x \<le> i) q) \<and>
    fst (snd (Curl_splaygetbest i t' st')) = None"
proof -
  obtain xs t' st' where p: "splay.pop_all (Suc (length q)) i t st = (xs, t', st')"
    by (cases "splay.pop_all (Suc (length q)) i t st")
  note pa = splay.pop_all_expired [OF assms lessI p]
  obtain t2 rm st2 where g: "Curl_splaygetbest i t' st' = (t2, rm, st2)"
    by (cases "Curl_splaygetbest i t' st'")
  have "\<forall>x \<in> set (dropWhile (\<lambda>x. fst x \<le> i) q). tv_zero \<le> fst x"
    using assms(2) by (auto dest: set_dropWhileD)
  from getbest_queue [OF pa [THEN conjunct2] this g] have "rm = None"
  proof (cases "dropWhile (\<lambda>x. fst x \<le> i) q")
    case (Cons e q')
    then have "\<not> fst e \<le> i" using hd_dropWhile [of "\<lambda>x. fst x \<le> i" q] by (metis list.discI list.sel(1))
    with Cons \<open>case dropWhile _ q of [] \<Rightarrow> _ | _ \<Rightarrow> _\<close> show ?thesis by (auto simp: not_le split: prod.splits)
  qed simp
  with p pa g show ?thesis by simp
qed

theorem splay_expired_in_order_witness:
  "case splay.pop_all (Suc (length [(Curltime 4 0, 1 :: node)])) (Curltime 5 0) (Node Tip 1 Tip)
      (\<lambda>_. \<lparr>samen = 1, samep = 1, key = Curltime 4 0\<rparr>) of (xs, t', st') \<Rightarrow>
    xs = map snd (takeWhile (\<lambda>x. fst x \<le> Curltime 5 0) [(Curltime 4 0, 1)]) \<and>
    represents_queue t' st' (dropWhile (\<lambda>x. fst x \<le> Curltime 5 0) [(Curltime 4 0, 1)]) \<and>
    fst (snd (Curl_splaygetbest (Curltime 5 0) t' st')) = None"
  by (rule splay_expired_in_order)
    (auto simp: KEY_NOTUSED_def ordered_Cons tv_zero_def less_eq_curltime_def
      intro!: represents_queueI [of _ _ "\<lambda>_. []"])

text \<open>
  C12. Removing a node that is in the queue succeeds and removes just that node, whether it
  is alone in the tree, the root of a ring, or inside a ring.
\<close>

theorem splay_remove_exact:
  assumes "represents_queue t st q" "n \<in> snd ` set q"
  shows "case Curl_splayremove t (Some n) st of
    (rc, t', st') \<Rightarrow> rc = 0 \<and> represents_queue t' st' (filter (\<lambda>x. snd x \<noteq> n) q)"
  using remove_queue [OF assms] by (cases "Curl_splayremove t (Some n) st") simp

theorem splay_remove_exact_witness:
  "case Curl_splayremove (Node Tip 1 Tip) (Some 1) (\<lambda>_. \<lparr>samen = 1, samep = 1, key = Curltime 4 0\<rparr>) of
    (rc, t', st') \<Rightarrow> rc = 0 \<and> represents_queue t' st' (filter (\<lambda>x. snd x \<noteq> 1) [(Curltime 4 0, 1)])"
  by (rule splay_remove_exact)
    (auto simp: KEY_NOTUSED_def ordered_Cons intro!: represents_queueI [of _ _ "\<lambda>_. []"])

text \<open>The part of a tree below a node, as seen through a pointer to that node.\<close>

fun subtree_at :: "node \<Rightarrow> tree \<Rightarrow> tree" where
  "subtree_at a Tip = Tip"
| "subtree_at a (Node l b r) =
     (if a = b then Node l b r
      else case subtree_at a l of Tip \<Rightarrow> subtree_at a r | s \<Rightarrow> s)"

text \<open>
  A node that is not in the tree is refused with an error, and no node is lost from
  the tree in memory; but the tree may have been splayed, and the root pointer, which is
  left alone, may then no longer reach every node.
\<close>

theorem splay_remove_foreign:
  assumes "represents_queue t st q" "n \<notin> snd ` set q" "key (st n) \<noteq> KEY_NOTUSED"
  shows "(case Curl_splayremove t (Some n) st of (rc, t', st') \<Rightarrow>
      rc = (if t = Tip then 1 else 2) \<and> st' = st \<and> inorder t' = inorder t) \<and>
    (\<exists>t0 st0 q0. represents_queue t0 st0 q0 \<and> 9 \<notin> snd ` set q0 \<and>
      (case Curl_splayremove t0 (Some 9) st0 of (rc, t', st') \<Rightarrow>
         rc = 2 \<and> inorder (subtree_at (root t0) t') \<noteq> inorder t0))"
proof
  obtain R where rep: "ordered (keys st) (inorder t)" "q = queue_of st R (inorder t)"
    using assms(1) by (auto simp: represents_queue_def)
  show "case Curl_splayremove t (Some n) st of (rc, t', st') \<Rightarrow>
      rc = (if t = Tip then 1 else 2) \<and> st' = st \<and> inorder t' = inorder t"
  proof (cases "t = Tip")
    case True
    then show ?thesis by (simp add: Curl_splayremove_def)
  next
    case False
    then obtain l r g where s: "Curl_splay (keys st) (keys st n) t = Node l r g"
      by (cases "Curl_splay (keys st) (keys st n) t") auto
    note p = splay_parts [OF rep(1) s]
    have "n \<notin> set (ring_nodes R (inorder t))"
      using assms(2) nodes_of_queue [of st R "inorder t"] unfolding rep(2) set_map [symmetric] by simp
    then have "n \<notin> set (inorder t)" by (auto simp: set_ring_nodes)
    then have "r \<noteq> n" using p(1) by auto
    with False s p(1) assms(3) show ?thesis by (auto simp: Curl_splayremove_def Let_def)
  qed
next
  let ?st = "\<lambda>a. \<lparr>samen = a, samep = a, key = if a = 2 then Curltime 2 0 else Curltime 1 0\<rparr>"
  let ?t = "Node (Node Tip 1 Tip) 2 Tip"
  have "represents_queue ?t ?st [(Curltime 1 0, 1), (Curltime 2 0, 2)]"
    by (rule represents_queueI [of _ _ "\<lambda>_. []"])
      (auto simp: KEY_NOTUSED_def ordered_Cons less_curltime_def)
  moreover have "Curl_splayremove ?t (Some 9) ?st = (2, Node Tip 1 (Node Tip 2 Tip), ?st)"
    by (simp add: Curl_splayremove_def Curl_splay_def splay_loop.simps assemble_def
        Let_def Curl_splaycomparekeys_def KEY_NOTUSED_def)
  ultimately show "\<exists>t0 st0 q0. represents_queue t0 st0 q0 \<and> 9 \<notin> snd ` set q0 \<and>
      (case Curl_splayremove t0 (Some 9) st0 of (rc, t', st') \<Rightarrow>
         rc = 2 \<and> inorder (subtree_at (root t0) t') \<noteq> inorder t0)"
    by (intro exI [of _ ?t] exI [of _ ?st] exI [of _ "[(Curltime 1 0, 1), (Curltime 2 0, 2)]"]) simp
qed

theorem splay_remove_foreign_witness:
  "case Curl_splayremove (Node Tip 1 Tip) (Some 7) (\<lambda>_. \<lparr>samen = 1, samep = 1, key = Curltime 4 0\<rparr>) of
     (rc, t', st') \<Rightarrow> rc = 2 \<and> inorder t' = [1]"
proof -
  let ?st = "\<lambda>_. \<lparr>samen = 1, samep = 1, key = Curltime 4 0\<rparr>"
  have "represents_queue (Node Tip 1 Tip) ?st [(Curltime 4 0, 1)]"
    by (auto simp: KEY_NOTUSED_def ordered_Cons intro!: represents_queueI [of _ _ "\<lambda>_. []"])
  from splay_remove_foreign [OF this, of 7] show ?thesis
    by (auto simp: KEY_NOTUSED_def)
qed

end
