(* ===== verification/Bufq.thy ===== *)
theory Bufq
  imports Prelude
begin

text \<open>
  The queues of byte chunks of \<open>bufq.c\<close>. A list linked by \<open>next\<close> is a list of chunks; the
  \<open>tail\<close> pointer of a queue always is the last chunk of its \<open>head\<close> list, or NULL when that
  is empty, and is not stored. A pool may be shared by several queues, so it is threaded
  through the operations together with the script of allocation results, as the
  environment of a call. A call that returns a \<open>ssize_t\<close> and sets \<open>*err\<close> returns
  \<open>Inl\<close> of the error when the number is -1 and \<open>Inr\<close> of the number otherwise; \<open>*err\<close> is not
  read by any caller in the second case. Readers and writers are callbacks on a state of
  their own.

  The lemmas show that a queue is a byte string written at the end and read at the start,
  how much a write accepts, and that the loops end. The locale \<open>byte_queue\<close> is the
  contract towards clients.
\<close>

subsection \<open>Chunks\<close>

record buf_chunk =
  dlen :: nat
  r_offset :: nat
  w_offset :: nat
  data :: "byte list"

definition chunk_is_empty :: "buf_chunk \<Rightarrow> bool" where
  "chunk_is_empty c \<longleftrightarrow> r_offset c \<ge> w_offset c"

definition chunk_is_full :: "buf_chunk \<Rightarrow> bool" where
  "chunk_is_full c \<longleftrightarrow> w_offset c \<ge> dlen c"

definition chunk_len :: "buf_chunk \<Rightarrow> nat" where
  "chunk_len c = w_offset c - r_offset c"

definition chunk_space :: "buf_chunk \<Rightarrow> nat" where
  "chunk_space c = dlen c - w_offset c"

definition chunk_reset :: "buf_chunk \<Rightarrow> buf_chunk" where
  "chunk_reset c = c\<lparr>r_offset := 0, w_offset := 0\<rparr>"

definition chunk_append :: "buf_chunk \<Rightarrow> byte list \<Rightarrow> nat \<times> buf_chunk" where
  "chunk_append c buf =
     (let n = dlen c - w_offset c
      in if n \<noteq> 0 then
           let n = min n (length buf)
           in (n, c\<lparr>data := mem_write (data c) (w_offset c) (take n buf), w_offset := w_offset c + n\<rparr>)
         else (n, c))"

text \<open>The result is the number of bytes and the bytes themselves.\<close>

definition chunk_read :: "buf_chunk \<Rightarrow> nat \<Rightarrow> nat \<times> byte list \<times> buf_chunk" where
  "chunk_read c len =
     (let n = w_offset c - r_offset c;
          p = drop (r_offset c) (data c)
      in if n = 0 then (0, [], c)
         else if n \<le> len then (n, take n p, c\<lparr>r_offset := 0, w_offset := 0\<rparr>)
         else (len, take len p, c\<lparr>r_offset := r_offset c + len\<rparr>))"

type_synonym 'r reader = "'r \<Rightarrow> nat \<Rightarrow> 'r \<times> (CURLcode + byte list)"
type_synonym 'w writer = "'w \<Rightarrow> byte list \<Rightarrow> 'w \<times> (CURLcode + nat)"

definition chunk_slurpn ::
  "buf_chunk \<Rightarrow> nat \<Rightarrow> 'r reader \<Rightarrow> 'r \<Rightarrow> (CURLcode + nat) \<times> buf_chunk \<times> 'r" where
  "chunk_slurpn c max_len reader ctx =
     (let n = dlen c - w_offset c
      in if n = 0 then (Inl CURLE_AGAIN, c, ctx)
         else
           let n = (if max_len \<noteq> 0 \<and> n > max_len then max_len else n)
           in case reader ctx n of
                (ctx, Inl err) \<Rightarrow> (Inl err, c, ctx)
              | (ctx, Inr bs) \<Rightarrow>
                  (Inr (length bs),
                   c\<lparr>data := mem_write (data c) (w_offset c) bs, w_offset := w_offset c + length bs\<rparr>,
                   ctx))"

definition chunk_peek :: "buf_chunk \<Rightarrow> byte list" where
  "chunk_peek c = take (w_offset c - r_offset c) (drop (r_offset c) (data c))"

definition chunk_peek_at :: "buf_chunk \<Rightarrow> nat \<Rightarrow> byte list" where
  "chunk_peek_at c offset =
     (let offset = offset + r_offset c in take (w_offset c - offset) (drop offset (data c)))"

definition chunk_skip :: "buf_chunk \<Rightarrow> nat \<Rightarrow> nat \<times> buf_chunk" where
  "chunk_skip c amount =
     (let n = w_offset c - r_offset c
      in if n \<noteq> 0 then
           let n = min n amount;
               c = c\<lparr>r_offset := r_offset c + n\<rparr>
           in (n, if r_offset c = w_offset c then c\<lparr>r_offset := 0, w_offset := 0\<rparr> else c)
         else (n, c))"

definition new_chunk :: "nat \<Rightarrow> buf_chunk" where
  "new_chunk n = \<lparr>dlen = n, r_offset = 0, w_offset = 0, data = replicate n 0\<rparr>"

subsection \<open>Pools\<close>

record bufc_pool =
  pspare :: "buf_chunk list"
  pchunk_size :: nat
  spare_count :: nat
  spare_max :: nat

definition Curl_bufcp_init :: "nat \<Rightarrow> nat \<Rightarrow> bufc_pool" where
  "Curl_bufcp_init csize smax = \<lparr>pspare = [], pchunk_size = csize, spare_count = 0, spare_max = smax\<rparr>"

record env =
  pool :: bufc_pool
  script :: alloc_script

definition env_alloc :: "env \<Rightarrow> bool \<times> env" where
  "env_alloc e = (case alloc (script e) of (ok, A) \<Rightarrow> (ok, e\<lparr>script := A\<rparr>))"

definition bufcp_take :: "env \<Rightarrow> buf_chunk option \<times> env" where
  "bufcp_take e =
     (case pspare (pool e) of
        c # cs \<Rightarrow>
          (Some (chunk_reset c),
           e\<lparr>pool := (pool e)\<lparr>pspare := cs, spare_count := spare_count (pool e) - 1\<rparr>\<rparr>)
      | [] \<Rightarrow>
          (case env_alloc e of
             (ok, e) \<Rightarrow> (if ok then Some (new_chunk (pchunk_size (pool e))) else None, e)))"

definition bufcp_put :: "bufc_pool \<Rightarrow> buf_chunk \<Rightarrow> bufc_pool" where
  "bufcp_put p c =
     (if spare_count p \<ge> spare_max p then p
      else p\<lparr>pspare := chunk_reset c # pspare p, spare_count := spare_count p + 1\<rparr>)"

definition Curl_bufcp_free :: "bufc_pool \<Rightarrow> bufc_pool" where
  "Curl_bufcp_free p = p\<lparr>pspare := [], spare_count := 0\<rparr>"

subsection \<open>Queues\<close>

definition BUFQ_OPT_NONE :: int where "BUFQ_OPT_NONE = 0"
definition BUFQ_OPT_SOFT_LIMIT :: int where "BUFQ_OPT_SOFT_LIMIT = push_bit 0 1"
definition BUFQ_OPT_NO_SPARES :: int where "BUFQ_OPT_NO_SPARES = push_bit 1 1"

text \<open>\<open>pooled\<close> is whether the \<open>pool\<close> pointer is set; the pool is the one of the environment.\<close>

record bufq =
  chunks :: "buf_chunk list"
  spare :: "buf_chunk list"
  pooled :: bool
  chunk_count :: nat
  max_chunks :: nat
  chunk_size :: nat
  opts :: int

definition bufq_init :: "bool \<Rightarrow> nat \<Rightarrow> nat \<Rightarrow> int \<Rightarrow> bufq" where
  "bufq_init has_pool csize mchunks os =
     \<lparr>chunks = [], spare = [], pooled = has_pool, chunk_count = 0, max_chunks = mchunks,
      chunk_size = csize, opts = os\<rparr>"

definition Curl_bufq_init2 :: "nat \<Rightarrow> nat \<Rightarrow> int \<Rightarrow> bufq" where
  "Curl_bufq_init2 csize mchunks os = bufq_init False csize mchunks os"

definition Curl_bufq_init :: "nat \<Rightarrow> nat \<Rightarrow> bufq" where
  "Curl_bufq_init csize mchunks = bufq_init False csize mchunks BUFQ_OPT_NONE"

definition Curl_bufq_initp :: "bufc_pool \<Rightarrow> nat \<Rightarrow> int \<Rightarrow> bufq" where
  "Curl_bufq_initp p mchunks os = bufq_init True (pchunk_size p) mchunks os"

definition Curl_bufq_free :: "bufq \<Rightarrow> bufq" where
  "Curl_bufq_free q = q\<lparr>chunks := [], spare := [], chunk_count := 0\<rparr>"

definition Curl_bufq_reset :: "bufq \<Rightarrow> bufq" where
  "Curl_bufq_reset q = q\<lparr>chunks := [], spare := rev (chunks q) @ spare q\<rparr>"

definition Curl_bufq_len :: "bufq \<Rightarrow> nat" where
  "Curl_bufq_len q = sum_list (map chunk_len (chunks q))"

definition Curl_bufq_space :: "bufq \<Rightarrow> nat" where
  "Curl_bufq_space q =
     (if chunks q \<noteq> [] then chunk_space (last (chunks q)) else 0) +
     sum_list (map dlen (spare q)) +
     (if chunk_count q < max_chunks q then (max_chunks q - chunk_count q) * chunk_size q else 0)"

definition Curl_bufq_is_empty :: "bufq \<Rightarrow> bool" where
  "Curl_bufq_is_empty q \<longleftrightarrow> chunks q = [] \<or> chunk_is_empty (hd (chunks q))"

definition Curl_bufq_is_full :: "bufq \<Rightarrow> bool" where
  "Curl_bufq_is_full q =
     (if chunks q = [] \<or> spare q \<noteq> [] then False
      else if chunk_count q < max_chunks q then False
      else if chunk_count q > max_chunks q then True
      else chunk_is_full (last (chunks q)))"

definition get_spare :: "bufq \<Rightarrow> env \<Rightarrow> buf_chunk option \<times> bufq \<times> env" where
  "get_spare q e =
     (case spare q of
        c # cs \<Rightarrow> (Some (chunk_reset c), q\<lparr>spare := cs\<rparr>, e)
      | [] \<Rightarrow>
          if chunk_count q \<ge> max_chunks q \<and> opts q AND BUFQ_OPT_SOFT_LIMIT = 0 then (None, q, e)
          else if pooled q then
            (case bufcp_take e of
               (None, e) \<Rightarrow> (None, q, e)
             | (Some c, e) \<Rightarrow> (Some c, q\<lparr>chunk_count := chunk_count q + 1\<rparr>, e))
          else
            (case env_alloc e of
               (ok, e) \<Rightarrow>
                 if \<not> ok then (None, q, e)
                 else (Some (new_chunk (chunk_size q)), q\<lparr>chunk_count := chunk_count q + 1\<rparr>, e)))"

fun prune_loop :: "buf_chunk list \<Rightarrow> bufq \<Rightarrow> bufc_pool \<Rightarrow> bufq \<times> bufc_pool" where
  "prune_loop [] q p = (q\<lparr>chunks := []\<rparr>, p)"
| "prune_loop (c # cs) q p =
     (if chunk_is_empty c then
        if pooled q then prune_loop cs (q\<lparr>chunk_count := chunk_count q - 1\<rparr>) (bufcp_put p c)
        else if chunk_count q > max_chunks q \<or> opts q AND BUFQ_OPT_NO_SPARES \<noteq> 0 then
          prune_loop cs (q\<lparr>chunk_count := chunk_count q - 1\<rparr>) p
        else prune_loop cs (q\<lparr>spare := c # spare q\<rparr>) p
      else (q\<lparr>chunks := c # cs\<rparr>, p))"

definition prune_head :: "bufq \<Rightarrow> env \<Rightarrow> bufq \<times> env" where
  "prune_head q e = (case prune_loop (chunks q) q (pool e) of (q, p) \<Rightarrow> (q, e\<lparr>pool := p\<rparr>))"

text \<open>The chunk to write to is the last one of the result; the flag tells whether there is one.\<close>

definition get_non_full_tail :: "bufq \<Rightarrow> env \<Rightarrow> bool \<times> bufq \<times> env" where
  "get_non_full_tail q e =
     (if chunks q \<noteq> [] \<and> \<not> chunk_is_full (last (chunks q)) then (True, q, e)
      else case get_spare q e of
             (None, q, e) \<Rightarrow> (False, q, e)
           | (Some c, q, e) \<Rightarrow> (True, q\<lparr>chunks := chunks q @ [c]\<rparr>, e))"

definition set_head :: "buf_chunk \<Rightarrow> bufq \<Rightarrow> bufq" where
  "set_head c q = q\<lparr>chunks := c # tl (chunks q)\<rparr>"

definition set_tail :: "buf_chunk \<Rightarrow> bufq \<Rightarrow> bufq" where
  "set_tail c q = q\<lparr>chunks := butlast (chunks q) @ [c]\<rparr>"

subsection \<open>Writing and reading\<close>

function bufq_write_loop ::
  "bufq \<Rightarrow> env \<Rightarrow> byte list \<Rightarrow> nat \<Rightarrow> (CURLcode + nat) \<times> byte list \<times> bufq \<times> env" where
  "bufq_write_loop q e buf nwritten =
     (if buf = [] then (Inr nwritten, buf, q, e)
      else case get_non_full_tail q e of
             (False, q, e) \<Rightarrow>
               if chunk_count q < max_chunks q \<or> opts q AND BUFQ_OPT_SOFT_LIMIT \<noteq> 0
               then (Inl CURLE_OUT_OF_MEMORY, buf, q, e)
               else (Inr nwritten, buf, q, e)
           | (True, q, e) \<Rightarrow>
               (case chunk_append (last (chunks q)) buf of
                  (n, t) \<Rightarrow>
                    if n = 0 then (Inr nwritten, buf, q, e)
                    else bufq_write_loop (set_tail t q) e (drop n buf) (nwritten + n)))"
  by pat_completeness auto

termination bufq_write_loop
  by (relation "measure (\<lambda>(_, _, buf, _). length buf)") (auto simp: diff_less)

declare bufq_write_loop.simps [simp del]

definition Curl_bufq_write :: "bufq \<Rightarrow> env \<Rightarrow> byte list \<Rightarrow> (CURLcode + nat) \<times> bufq \<times> env" where
  "Curl_bufq_write q e buf =
     (case bufq_write_loop q e buf 0 of
        (Inl err, _, q, e) \<Rightarrow> (Inl err, q, e)
      | (Inr nwritten, rest, q, e) \<Rightarrow>
          (if nwritten = 0 \<and> rest \<noteq> [] then Inl CURLE_AGAIN else Inr nwritten, q, e))"

definition Curl_bufq_cwrite :: "bufq \<Rightarrow> env \<Rightarrow> byte list \<Rightarrow> CURLcode \<times> nat \<times> bufq \<times> env" where
  "Curl_bufq_cwrite q e buf =
     (case Curl_bufq_write q e buf of
        (Inl err, q, e) \<Rightarrow> (err, 0, q, e)
      | (Inr n, q, e) \<Rightarrow> (CURLE_OK, n, q, e))"

text \<open>For the loops over the head: pruning never adds a chunk and drops an empty head.\<close>

lemma prune_loop_chunks: "chunks (fst (prune_loop cs q p)) = dropWhile chunk_is_empty cs"
  by (induction cs q p rule: prune_loop.induct) auto

lemma prune_head_chunks: "chunks (fst (prune_head q e)) = dropWhile chunk_is_empty (chunks q)"
  using prune_loop_chunks [of "chunks q" q "pool e"] by (auto simp: prune_head_def split: prod.split)

lemma length_dropWhile: "length (dropWhile P xs) \<le> length xs"
  by (induction xs) auto

lemma chunk_read_nothing: "chunk_read c len = (0, bs, c') \<Longrightarrow> len \<noteq> 0 \<Longrightarrow> chunk_is_empty c'"
  by (auto simp: chunk_read_def chunk_is_empty_def Let_def split: if_splits)

lemma chunk_skip_nothing: "chunk_skip c amount = (0, c') \<Longrightarrow> amount \<noteq> 0 \<Longrightarrow> chunk_is_empty c'"
  by (auto simp: chunk_skip_def chunk_is_empty_def Let_def split: if_splits)

lemma prune_set_head:
  assumes "prune_head (set_head c q) e = (q', e')" "chunks q \<noteq> []"
  shows "length (chunks q') \<le> length (chunks q)"
    "chunk_is_empty c \<Longrightarrow> length (chunks q') < length (chunks q)"
proof -
  have c: "chunks q' = dropWhile chunk_is_empty (c # tl (chunks q))"
    using prune_head_chunks [of "set_head c q" e] assms(1) by (simp add: set_head_def)
  have len: "length (chunks q) = Suc (length (tl (chunks q)))"
    using assms(2) by (cases "chunks q") auto
  show "length (chunks q') \<le> length (chunks q)"
    using length_dropWhile [of chunk_is_empty "c # tl (chunks q)"] unfolding c len by simp
  show "length (chunks q') < length (chunks q)" if "chunk_is_empty c"
    using length_dropWhile [of chunk_is_empty "tl (chunks q)"] that unfolding c len by simp
qed

function bufq_read_loop :: "bufq \<Rightarrow> env \<Rightarrow> nat \<Rightarrow> byte list \<times> bufq \<times> env" where
  "bufq_read_loop q e len =
     (if len \<noteq> 0 \<and> chunks q \<noteq> [] then
        (case chunk_read (hd (chunks q)) len of
           (n, bs, c) \<Rightarrow>
             (case prune_head (set_head c q) e of
                (q, e) \<Rightarrow>
                  (case bufq_read_loop q e (len - n) of
                     (bs', q, e) \<Rightarrow> (bs @ bs', q, e))))
      else ([], q, e))"
  by pat_completeness auto

termination bufq_read_loop
proof (relation "measure (\<lambda>(q, _, len). len + length (chunks q))")
  fix q :: bufq and e :: env and len n :: nat and y bs c q' e'
  assume "len \<noteq> 0 \<and> chunks q \<noteq> []" "(n, y) = chunk_read (hd (chunks q)) len" "(bs, c) = y"
    "(q', e') = prune_head (set_head c q) e"
  then have r: "chunk_read (hd (chunks q)) len = (n, bs, c)" and p: "prune_head (set_head c q) e = (q', e')"
    and ne: "len \<noteq> 0" "chunks q \<noteq> []" by auto
  note sh = prune_set_head [OF p ne(2)]
  show "((q', e', len - n), (q, e, len)) \<in> measure (\<lambda>(q, _, len). len + length (chunks q))"
  proof (cases "n = 0")
    case True
    with chunk_read_nothing r ne(1) sh(2) show ?thesis by auto
  next
    case False
    with ne(1) sh(1) show ?thesis by auto
  qed
qed simp

declare bufq_read_loop.simps [simp del]

definition Curl_bufq_read :: "bufq \<Rightarrow> env \<Rightarrow> nat \<Rightarrow> (CURLcode + byte list) \<times> bufq \<times> env" where
  "Curl_bufq_read q e len =
     (case bufq_read_loop q e len of
        (bs, q, e) \<Rightarrow> (if length bs = 0 then Inl CURLE_AGAIN else Inr bs, q, e))"

definition Curl_bufq_cread :: "bufq \<Rightarrow> env \<Rightarrow> nat \<Rightarrow> CURLcode \<times> byte list \<times> bufq \<times> env" where
  "Curl_bufq_cread q e len =
     (case Curl_bufq_read q e len of
        (Inl err, q, e) \<Rightarrow> (err, [], q, e)
      | (Inr bs, q, e) \<Rightarrow> (CURLE_OK, bs, q, e))"

definition Curl_bufq_peek :: "bufq \<Rightarrow> env \<Rightarrow> byte list option \<times> bufq \<times> env" where
  "Curl_bufq_peek q e =
     (case (if chunks q \<noteq> [] \<and> chunk_is_empty (hd (chunks q)) then prune_head q e else (q, e)) of
        (q, e) \<Rightarrow>
          if chunks q \<noteq> [] \<and> \<not> chunk_is_empty (hd (chunks q))
          then (Some (chunk_peek (hd (chunks q))), q, e)
          else (None, q, e))"

fun peek_at_loop :: "buf_chunk list \<Rightarrow> nat \<Rightarrow> byte list option" where
  "peek_at_loop [] offset = None"
| "peek_at_loop (c # cs) offset =
     (let clen = chunk_len c
      in if clen = 0 then None
         else if offset \<ge> clen then peek_at_loop cs (offset - clen)
         else Some (chunk_peek_at c offset))"

definition Curl_bufq_peek_at :: "bufq \<Rightarrow> nat \<Rightarrow> byte list option" where
  "Curl_bufq_peek_at q offset = peek_at_loop (chunks q) offset"

function bufq_skip_loop :: "bufq \<Rightarrow> env \<Rightarrow> nat \<Rightarrow> bufq \<times> env" where
  "bufq_skip_loop q e amount =
     (if amount \<noteq> 0 \<and> chunks q \<noteq> [] then
        (case chunk_skip (hd (chunks q)) amount of
           (n, c) \<Rightarrow>
             (case prune_head (set_head c q) e of (q, e) \<Rightarrow> bufq_skip_loop q e (amount - n)))
      else (q, e))"
  by pat_completeness auto

termination bufq_skip_loop
proof (relation "measure (\<lambda>(q, _, len). len + length (chunks q))")
  fix q :: bufq and e :: env and amount n :: nat and c q' e'
  assume "amount \<noteq> 0 \<and> chunks q \<noteq> []" "(n, c) = chunk_skip (hd (chunks q)) amount"
    "(q', e') = prune_head (set_head c q) e"
  then have r: "chunk_skip (hd (chunks q)) amount = (n, c)" and p: "prune_head (set_head c q) e = (q', e')"
    and ne: "amount \<noteq> 0" "chunks q \<noteq> []" by auto
  note sh = prune_set_head [OF p ne(2)]
  show "((q', e', amount - n), (q, e, amount)) \<in> measure (\<lambda>(q, _, len). len + length (chunks q))"
  proof (cases "n = 0")
    case True
    with chunk_skip_nothing r ne(1) sh(2) show ?thesis by auto
  next
    case False
    with ne(1) sh(1) show ?thesis by auto
  qed
qed simp

declare bufq_skip_loop.simps [simp del]

definition Curl_bufq_skip :: "bufq \<Rightarrow> env \<Rightarrow> nat \<Rightarrow> bufq \<times> env" where
  "Curl_bufq_skip q e amount = bufq_skip_loop q e amount"

subsection \<open>Passing to a writer and slurping from a reader\<close>

text \<open>
  These loops depend on the callback: a writer could accept nothing for ever, a reader
  could deliver for ever into a queue without a hard limit. So they are partial.
\<close>

partial_function (option) bufq_pass_loop ::
  "'w writer \<Rightarrow> bufq \<Rightarrow> env \<Rightarrow> 'w \<Rightarrow> nat \<Rightarrow> ((CURLcode + nat) \<times> bufq \<times> env \<times> 'w) option" where
  "bufq_pass_loop wr q e ctx nwritten =
     (case Curl_bufq_peek q e of
        (None, q, e) \<Rightarrow> Some (Inr nwritten, q, e, ctx)
      | (Some buf, q, e) \<Rightarrow>
          (case wr ctx buf of
             (ctx, Inl err) \<Rightarrow>
               Some (if nwritten = 0 \<or> err \<noteq> CURLE_AGAIN then Inl err else Inr nwritten, q, e, ctx)
           | (ctx, Inr written) \<Rightarrow>
               if written = 0 then
                 Some (if nwritten = 0 then Inl CURLE_AGAIN else Inr nwritten, q, e, ctx)
               else
                 (case Curl_bufq_skip q e written of
                    (q, e) \<Rightarrow> bufq_pass_loop wr q e ctx (nwritten + written))))"

definition Curl_bufq_pass ::
  "'w writer \<Rightarrow> bufq \<Rightarrow> env \<Rightarrow> 'w \<Rightarrow> ((CURLcode + nat) \<times> bufq \<times> env \<times> 'w) option" where
  "Curl_bufq_pass wr q e ctx = bufq_pass_loop wr q e ctx 0"

partial_function (option) bufq_write_pass_loop ::
  "'w writer \<Rightarrow> bufq \<Rightarrow> env \<Rightarrow> 'w \<Rightarrow> byte list \<Rightarrow> nat \<Rightarrow>
     ((CURLcode + nat) \<times> byte list \<times> bufq \<times> env \<times> 'w) option" where
  "bufq_write_pass_loop wr q e ctx buf nwritten =
     (if buf = [] then Some (Inr nwritten, buf, q, e, ctx)
      else
        Option.bind
          (if Curl_bufq_is_full q then Curl_bufq_pass wr q e ctx else Some (Inr 0, q, e, ctx))
          (\<lambda>(r, q, e, ctx).
             case r of
               Inl err \<Rightarrow>
                 Some (if err \<noteq> CURLE_AGAIN then Inl err else Inr nwritten, buf, q, e, ctx)
             | Inr _ \<Rightarrow>
                 (case Curl_bufq_write q e buf of
                    (Inl err, q, e) \<Rightarrow>
                      Some (if err \<noteq> CURLE_AGAIN then Inl err else Inr nwritten, buf, q, e, ctx)
                  | (Inr n, q, e) \<Rightarrow>
                      if n = 0 then Some (Inr nwritten, buf, q, e, ctx)
                      else bufq_write_pass_loop wr q e ctx (drop n buf) (nwritten + n))))"

definition Curl_bufq_write_pass ::
  "'w writer \<Rightarrow> bufq \<Rightarrow> env \<Rightarrow> 'w \<Rightarrow> byte list \<Rightarrow> ((CURLcode + nat) \<times> bufq \<times> env \<times> 'w) option" where
  "Curl_bufq_write_pass wr q e ctx buf =
     (case bufq_write_pass_loop wr q e ctx buf 0 of
        None \<Rightarrow> None
      | Some (Inl err, _, q, e, ctx) \<Rightarrow> Some (Inl err, q, e, ctx)
      | Some (Inr n, rest, q, e, ctx) \<Rightarrow>
          Some (if n = 0 \<and> rest \<noteq> [] then Inl CURLE_AGAIN else Inr n, q, e, ctx))"

definition Curl_bufq_sipn ::
  "'r reader \<Rightarrow> bufq \<Rightarrow> env \<Rightarrow> 'r \<Rightarrow> nat \<Rightarrow> (CURLcode + nat) \<times> bufq \<times> env \<times> 'r" where
  "Curl_bufq_sipn rd q e ctx max_len =
     (case get_non_full_tail q e of
        (False, q, e) \<Rightarrow>
          (if chunk_count q < max_chunks q then Inl CURLE_OUT_OF_MEMORY else Inl CURLE_AGAIN, q, e, ctx)
      | (True, q, e) \<Rightarrow>
          (case chunk_slurpn (last (chunks q)) max_len rd ctx of
             (r, c, ctx) \<Rightarrow> (r, set_tail c q, e, ctx)))"

partial_function (option) bufq_slurp_loop ::
  "'r reader \<Rightarrow> bufq \<Rightarrow> env \<Rightarrow> 'r \<Rightarrow> nat \<Rightarrow> nat \<Rightarrow> ((CURLcode + nat) \<times> bufq \<times> env \<times> 'r) option" where
  "bufq_slurp_loop rd q e ctx max_len nread =
     (case Curl_bufq_sipn rd q e ctx max_len of
        (Inl err, q, e, ctx) \<Rightarrow>
          Some (if nread = 0 \<or> err \<noteq> CURLE_AGAIN then Inl err else Inr nread, q, e, ctx)
      | (Inr n, q, e, ctx) \<Rightarrow>
          if n = 0 then Some (Inr nread, q, e, ctx)
          else if max_len \<noteq> 0 \<and> max_len - n = 0 then Some (Inr (nread + n), q, e, ctx)
          else if chunks q \<noteq> [] \<and> \<not> chunk_is_full (last (chunks q)) then Some (Inr (nread + n), q, e, ctx)
          else bufq_slurp_loop rd q e ctx (max_len - n) (nread + n))"

definition bufq_slurpn ::
  "'r reader \<Rightarrow> bufq \<Rightarrow> env \<Rightarrow> 'r \<Rightarrow> nat \<Rightarrow> ((CURLcode + nat) \<times> bufq \<times> env \<times> 'r) option" where
  "bufq_slurpn rd q e ctx max_len = bufq_slurp_loop rd q e ctx max_len 0"

definition Curl_bufq_slurp ::
  "'r reader \<Rightarrow> bufq \<Rightarrow> env \<Rightarrow> 'r \<Rightarrow> ((CURLcode + nat) \<times> bufq \<times> env \<times> 'r) option" where
  "Curl_bufq_slurp rd q e ctx = bufq_slurpn rd q e ctx 0"

subsection \<open>Well-formed chunks\<close>

definition chunk_ok :: "nat \<Rightarrow> buf_chunk \<Rightarrow> bool" where
  "chunk_ok n c \<longleftrightarrow> dlen c = n \<and> length (data c) = n \<and> w_offset c \<le> n \<and>
     (r_offset c < w_offset c \<or> r_offset c = 0 \<and> w_offset c = 0)"

lemma chunk_ok_new [simp]: "chunk_ok n (new_chunk n)"
  by (simp add: chunk_ok_def new_chunk_def)

lemma chunk_ok_reset [simp]: "chunk_ok n c \<Longrightarrow> chunk_ok n (chunk_reset c)"
  by (simp add: chunk_ok_def chunk_reset_def)

lemma chunk_peek_new [simp]: "chunk_peek (new_chunk n) = []" "chunk_peek (chunk_reset c) = []"
  by (simp_all add: chunk_peek_def new_chunk_def chunk_reset_def)

lemma chunk_new_simps [simp]:
  "w_offset (new_chunk n) = 0" "dlen (new_chunk n) = n"
  "w_offset (chunk_reset c) = 0" "dlen (chunk_reset c) = dlen c"
  by (simp_all add: new_chunk_def chunk_reset_def)

lemma chunk_not_full_new [simp]:
  "0 < n \<Longrightarrow> \<not> chunk_is_full (new_chunk n)"
  "chunk_ok n c \<Longrightarrow> 0 < n \<Longrightarrow> \<not> chunk_is_full (chunk_reset c)"
  by (simp_all add: chunk_is_full_def new_chunk_def chunk_reset_def chunk_ok_def)

lemma chunk_empty_iff: "chunk_ok n c \<Longrightarrow> chunk_is_empty c \<longleftrightarrow> chunk_peek c = []"
  by (auto simp: chunk_ok_def chunk_is_empty_def chunk_peek_def)

lemma length_chunk_peek: "chunk_ok n c \<Longrightarrow> length (chunk_peek c) = chunk_len c"
  by (auto simp: chunk_ok_def chunk_len_def chunk_peek_def)

lemma chunk_full_not_empty: "chunk_ok n c \<Longrightarrow> 0 < n \<Longrightarrow> chunk_is_full c \<Longrightarrow> \<not> chunk_is_empty c"
  by (auto simp: chunk_ok_def chunk_is_full_def chunk_is_empty_def)

lemma chunk_append_spec:
  assumes "chunk_ok n c" "chunk_append c buf = (k, c')"
  shows "k = min (n - w_offset c) (length buf) \<and> chunk_ok n c' \<and>
    chunk_peek c' = chunk_peek c @ take k buf \<and> chunk_space c' = chunk_space c - k \<and> w_offset c' = w_offset c + k"
proof (cases "n = w_offset c")
  case True
  with assms show ?thesis by (auto simp: chunk_append_def chunk_ok_def chunk_space_def)
next
  case False
  have k: "k = min (n - w_offset c) (length buf)" and
    c': "c' = c\<lparr>data := mem_write (data c) (w_offset c) (take k buf), w_offset := w_offset c + k\<rparr>"
    using assms False by (auto simp: chunk_append_def chunk_ok_def Let_def)
  have "w_offset c + length (take k buf) \<le> length (data c)" and l: "length (take k buf) = k"
    using assms(1) by (auto simp: k chunk_ok_def)
  then have "take (w_offset c + k) (mem_write (data c) (w_offset c) (take k buf)) =
      take (w_offset c) (data c) @ take k buf"
    using take_mem_write_end [of "w_offset c" "take k buf" "data c"] by simp
  moreover have "r_offset c \<le> w_offset c" "r_offset c \<le> length (take (w_offset c) (data c))"
    using assms(1) by (auto simp: chunk_ok_def)
  ultimately have "chunk_peek c' = chunk_peek c @ take k buf"
    by (simp add: c' chunk_peek_def flip: drop_take)
  then show ?thesis
    using assms(1) False l \<open>w_offset c + length (take k buf) \<le> _\<close>
    by (auto simp: k c' chunk_ok_def chunk_space_def)
qed

lemma chunk_read_spec:
  assumes "chunk_ok n c" "chunk_read c len = (k, bs, c')"
  shows "bs = take len (chunk_peek c) \<and> k = length bs \<and> chunk_peek c' = drop len (chunk_peek c) \<and>
    chunk_ok n c' \<and> (chunk_peek c' \<noteq> [] \<longrightarrow> w_offset c' = w_offset c)"
  using assms
  by (auto simp: chunk_read_def chunk_ok_def chunk_peek_def Let_def min_def drop_take add.commute split: if_splits)

lemma chunk_skip_spec:
  assumes "chunk_ok n c" "chunk_skip c len = (k, c')"
  shows "k = min len (length (chunk_peek c)) \<and> chunk_peek c' = drop len (chunk_peek c) \<and>
    chunk_ok n c' \<and> (chunk_peek c' \<noteq> [] \<longrightarrow> w_offset c' = w_offset c)"
  using assms
  by (auto simp: chunk_skip_def chunk_ok_def chunk_peek_def Let_def min_def drop_take add.commute split: if_splits)

subsection \<open>Well-formed queues\<close>

definition chain_ok :: "buf_chunk list \<Rightarrow> bool" where
  "chain_ok cs \<longleftrightarrow> (\<forall>c \<in> set (butlast cs). chunk_is_full c \<and> \<not> chunk_is_empty c)"

definition pool_ok :: "nat \<Rightarrow> bufc_pool \<Rightarrow> bool" where
  "pool_ok n p \<longleftrightarrow> pchunk_size p = n \<and> spare_count p = length (pspare p) \<and>
     (\<forall>c \<in> set (pspare p). chunk_ok n c)"

abbreviation soft :: "bufq \<Rightarrow> bool" where
  "soft q \<equiv> opts q AND BUFQ_OPT_SOFT_LIMIT \<noteq> 0"

text \<open>All chunks have the size of the queue, all but the last are full, and they are counted.\<close>

definition chunks_ok :: "bufq \<Rightarrow> bufc_pool \<Rightarrow> bool" where
  "chunks_ok q p \<longleftrightarrow>
     0 < chunk_size q \<and> 0 < max_chunks q \<and>
     (\<forall>c \<in> set (chunks q) \<union> set (spare q). chunk_ok (chunk_size q) c) \<and>
     chunk_count q = length (chunks q) + length (spare q) \<and>
     (\<not> soft q \<longrightarrow> chunk_count q \<le> max_chunks q) \<and>
     (pooled q \<longrightarrow> pool_ok (chunk_size q) p)"

definition bufq_inv :: "bufq \<Rightarrow> env \<Rightarrow> bool" where
  "bufq_inv q e \<longleftrightarrow> chunks_ok q (pool e) \<and> chain_ok (chunks q)"

definition bufq_content :: "bufq \<Rightarrow> byte list" where
  "bufq_content q = concat (map chunk_peek (chunks q))"

text \<open>What no operation changes.\<close>

definition same_conf :: "bufq \<Rightarrow> bufq \<Rightarrow> bool" where
  "same_conf q q' \<longleftrightarrow> pooled q' = pooled q \<and> max_chunks q' = max_chunks q \<and>
     chunk_size q' = chunk_size q \<and> opts q' = opts q"

lemma same_conf_refl [simp]: "same_conf q q"
  by (simp add: same_conf_def)

lemma same_conf_trans: "same_conf q q' \<Longrightarrow> same_conf q' q'' \<Longrightarrow> same_conf q q''"
  by (simp add: same_conf_def)

lemma chain_ok_simps [simp]:
  "chain_ok []"
  "chain_ok [c]"
  "chain_ok (c # d # cs) \<longleftrightarrow> chunk_is_full c \<and> \<not> chunk_is_empty c \<and> chain_ok (d # cs)"
  by (auto simp: chain_ok_def)

lemma chain_ok_tl: "chain_ok (c # cs) \<Longrightarrow> chain_ok cs"
  by (cases cs) auto

lemma chain_ok_snoc:
  "chain_ok (cs @ [c]) \<longleftrightarrow> (\<forall>d \<in> set cs. chunk_is_full d \<and> \<not> chunk_is_empty d)"
  by (simp add: chain_ok_def)

lemma chain_ok_dropWhile: "chain_ok cs \<Longrightarrow> chain_ok (dropWhile P cs)"
  by (induction cs) (auto dest: chain_ok_tl)

lemma chain_ok_last: "chain_ok cs \<Longrightarrow> cs \<noteq> [] \<Longrightarrow> chunk_is_full (last cs) \<Longrightarrow> \<not> chunk_is_empty (last cs) \<Longrightarrow> chain_ok (cs @ [c])"
  by (cases cs rule: rev_cases) (auto simp: chain_ok_def butlast_append)

lemma bufq_inv_init2:
  "0 < n \<Longrightarrow> 0 < m \<Longrightarrow> bufq_inv (Curl_bufq_init2 n m os) e"
  by (simp add: bufq_inv_def chunks_ok_def Curl_bufq_init2_def bufq_init_def)

lemma bufq_content_init2 [simp]: "bufq_content (Curl_bufq_init2 n m os) = []"
  by (simp add: bufq_content_def Curl_bufq_init2_def bufq_init_def)

lemma bufq_len_content: "bufq_inv q e \<Longrightarrow> Curl_bufq_len q = length (bufq_content q)"
proof -
  assume "bufq_inv q e"
  then have "\<forall>c \<in> set (chunks q). chunk_ok (chunk_size q) c"
    by (simp add: bufq_inv_def chunks_ok_def)
  then have "\<forall>c \<in> set (chunks q). chunk_len c = length (chunk_peek c)"
    by (simp add: length_chunk_peek [of "chunk_size q"])
  then have "map chunk_len (chunks q) = map length (map chunk_peek (chunks q))" by simp
  then show ?thesis unfolding Curl_bufq_len_def bufq_content_def length_concat by (rule arg_cong)
qed

lemma bufq_empty_content: "bufq_inv q e \<Longrightarrow> Curl_bufq_is_empty q \<longleftrightarrow> bufq_content q = []"
proof -
  assume inv: "bufq_inv q e"
  show ?thesis
  proof (cases "chunks q")
    case (Cons c cs)
    with inv have "chunk_is_empty c \<longleftrightarrow> chunk_peek c = []"
      using chunk_empty_iff by (auto simp: bufq_inv_def chunks_ok_def)
    moreover have "chunk_is_empty c \<Longrightarrow> cs = []"
      using inv Cons by (cases cs) (auto simp: bufq_inv_def)
    ultimately show ?thesis using Cons by (auto simp: Curl_bufq_is_empty_def bufq_content_def)
  qed (simp add: Curl_bufq_is_empty_def bufq_content_def)
qed

lemma bufcp_put_ok: "pool_ok n p \<Longrightarrow> chunk_ok n c \<Longrightarrow> pool_ok n (bufcp_put p c)"
  by (auto simp: pool_ok_def bufcp_put_def)

lemma bufcp_take_ok:
  assumes "pool_ok n (pool e)" "bufcp_take e = (r, e')"
  shows "pool_ok n (pool e') \<and> (case r of Some c \<Rightarrow> chunk_ok n c \<and> chunk_peek c = [] \<and> w_offset c = 0
      | None \<Rightarrow> \<not> no_oom (script e)) \<and> (no_oom (script e) \<longrightarrow> no_oom (script e'))"
proof (cases "pspare (pool e)")
  case Nil
  obtain ok A where a: "alloc (script e) = (ok, A)" by (cases "alloc (script e)")
  with assms Nil have "r = (if ok then Some (new_chunk n) else None)" "e' = e\<lparr>script := A\<rparr>"
    by (auto simp: bufcp_take_def env_alloc_def pool_ok_def)
  with assms(1) alloc_no_oomD [OF _ a] show ?thesis by auto
next
  case (Cons c cs)
  with assms show ?thesis by (auto simp: bufcp_take_def pool_ok_def)
qed

lemma get_spare_ok:
  assumes "chunks_ok q (pool e)" "get_spare q e = (r, q', e')"
  shows "same_conf q q' \<and> chunks q' = chunks q \<and> (no_oom (script e) \<longrightarrow> no_oom (script e')) \<and>
    (case r of
       Some c \<Rightarrow> chunk_ok (chunk_size q) c \<and> chunk_peek c = [] \<and> w_offset c = 0 \<and>
         chunks_ok (q'\<lparr>chunks := chunks q' @ [c]\<rparr>) (pool e') \<and>
         (\<not> soft q \<longrightarrow> sum_list (map dlen (spare q)) + (max_chunks q - chunk_count q) * chunk_size q =
            chunk_size q + sum_list (map dlen (spare q')) + (max_chunks q' - chunk_count q') * chunk_size q')
     | None \<Rightarrow> q' = q \<and> chunks_ok q (pool e') \<and> spare q = [] \<and>
         (\<not> no_oom (script e) \<or> \<not> soft q \<and> chunk_count q \<ge> max_chunks q))"
proof (cases "spare q")
  case (Cons c cs)
  with assms have "r = Some (chunk_reset c)" "q' = q\<lparr>spare := cs\<rparr>" "e' = e"
    by (auto simp: get_spare_def)
  moreover have "chunk_ok (chunk_size q) c" "dlen c = chunk_size q"
    using assms(1) Cons by (auto simp: chunks_ok_def chunk_ok_def)
  ultimately show ?thesis
    using assms(1) Cons by (auto simp: chunks_ok_def same_conf_def)
next
  case Nil
  show ?thesis
  proof (cases "chunk_count q \<ge> max_chunks q \<and> \<not> soft q")
    case True
    with Nil assms show ?thesis by (auto simp: get_spare_def)
  next
    case room: False
    have sp: "\<not> soft q \<Longrightarrow> (max_chunks q - chunk_count q) * chunk_size q =
        chunk_size q + (max_chunks q - Suc (chunk_count q)) * chunk_size q"
      using room by (simp add: Suc_diff_Suc flip: mult_Suc)
    show ?thesis
    proof (cases "pooled q")
      case True
      obtain s e1 where t: "bufcp_take e = (s, e1)" by (cases "bufcp_take e")
      have p: "pool_ok (chunk_size q) (pool e)" using assms(1) True by (simp add: chunks_ok_def)
      note bt = bufcp_take_ok [OF p t]
      have "r = s" "q' = (case s of None \<Rightarrow> q | Some c \<Rightarrow> q\<lparr>chunk_count := chunk_count q + 1\<rparr>)" "e' = e1"
        using assms(2) Nil room True t by (auto simp: get_spare_def split: option.splits)
      with bt assms(1) Nil room sp show ?thesis
        by (auto simp: chunks_ok_def same_conf_def split: option.splits)
    next
      case False
      obtain ok A where a: "alloc (script e) = (ok, A)" by (cases "alloc (script e)")
      have "r = (if ok then Some (new_chunk (chunk_size q)) else None)"
        "q' = (if ok then q\<lparr>chunk_count := chunk_count q + 1\<rparr> else q)" "e' = e\<lparr>script := A\<rparr>"
        using assms(2) Nil room False a by (auto simp: get_spare_def env_alloc_def split: if_splits)
      with alloc_no_oomD [OF _ a] assms(1) Nil room False sp show ?thesis
        by (auto simp: chunks_ok_def same_conf_def)
    qed
  qed
qed

definition hard_space :: "bufq \<Rightarrow> nat" where
  "hard_space q = (if chunks q \<noteq> [] then chunk_space (last (chunks q)) else 0) +
     sum_list (map dlen (spare q)) + (max_chunks q - chunk_count q) * chunk_size q"

lemma bufq_space_hard: "Curl_bufq_space q = hard_space q"
  by (simp add: Curl_bufq_space_def hard_space_def)

lemma get_non_full_tail_ok:
  assumes "bufq_inv q e" "get_non_full_tail q e = (ok, q', e')"
  shows "bufq_inv q' e' \<and> same_conf q q' \<and> bufq_content q' = bufq_content q \<and>
    (no_oom (script e) \<longrightarrow> no_oom (script e')) \<and>
    (if ok then chunks q' \<noteq> [] \<and> \<not> chunk_is_full (last (chunks q')) \<and>
       (\<not> soft q \<longrightarrow> Curl_bufq_space q' = Curl_bufq_space q)
     else q' = q \<and> (\<not> no_oom (script e) \<or> \<not> soft q \<and> chunk_count q \<ge> max_chunks q \<and> Curl_bufq_space q = 0))"
proof (cases "chunks q \<noteq> [] \<and> \<not> chunk_is_full (last (chunks q))")
  case True
  with assms show ?thesis by (auto simp: get_non_full_tail_def)
next
  case full: False
  obtain r q1 e1 where g: "get_spare q e = (r, q1, e1)" by (cases "get_spare q e")
  have ck: "chunks_ok q (pool e)" using assms(1) by (simp add: bufq_inv_def)
  have n: "0 < chunk_size q" using ck by (simp add: chunks_ok_def)
  note gs = get_spare_ok [OF ck g]
  have sp: "(if chunks q \<noteq> [] then chunk_space (last (chunks q)) else 0) = 0"
    using full by (auto simp: chunk_is_full_def chunk_space_def)
  show ?thesis
  proof (cases r)
    case None
    with assms(2) full g gs have q: "ok = False" "q' = q" "e' = e1"
      by (auto simp: get_non_full_tail_def)
    have "\<not> no_oom (script e) \<or> \<not> soft q \<and> chunk_count q \<ge> max_chunks q \<and> Curl_bufq_space q = 0"
      using gs None sp by (auto simp: bufq_space_hard hard_space_def)
    with q gs None assms(1) show ?thesis by (auto simp: bufq_inv_def)
  next
    case (Some c)
    with assms(2) full g have q: "ok = True" "q' = q1\<lparr>chunks := chunks q1 @ [c]\<rparr>" "e' = e1"
      by (auto simp: get_non_full_tail_def)
    have c: "chunk_ok (chunk_size q) c" "chunk_peek c = []" "w_offset c = 0" "chunks q1 = chunks q"
      "same_conf q q1" "chunks_ok q' (pool e1)"
      using gs Some q(2) by auto
    have "\<forall>d \<in> set (chunks q). chunk_is_full d \<and> \<not> chunk_is_empty d"
    proof (cases "chunks q" rule: rev_cases)
      case (snoc ds d)
      have "chunk_ok (chunk_size q) d" using ck snoc by (simp add: chunks_ok_def)
      with full snoc n chunk_full_not_empty have "chunk_is_full d" "\<not> chunk_is_empty d" by auto
      with assms(1) snoc show ?thesis by (auto simp: bufq_inv_def chain_ok_snoc)
    qed simp
    then have "bufq_inv q' e'"
      using c(6) q(2,3) c(4) by (simp add: bufq_inv_def chain_ok_snoc)
    moreover have "\<not> chunk_is_full c" using c(1,3) n by (simp add: chunk_is_full_def chunk_ok_def)
    moreover have "\<not> soft q \<longrightarrow> Curl_bufq_space q' = Curl_bufq_space q"
      using gs Some q(2) sp c(1,3) by (auto simp: bufq_space_hard hard_space_def chunk_space_def chunk_ok_def)
    ultimately show ?thesis
      using q gs Some c by (auto simp: same_conf_def bufq_content_def)
  qed
qed

lemma set_tail_ok:
  assumes "bufq_inv q e" "chunks q \<noteq> []" "chunk_ok (chunk_size q) c"
  shows "bufq_inv (set_tail c q) e"
proof -
  obtain cs d where cs: "chunks q = cs @ [d]" using assms(2) by (cases "chunks q" rule: rev_cases) auto
  with assms show ?thesis
    by (auto simp: bufq_inv_def chunks_ok_def set_tail_def chain_ok_snoc)
qed

lemma chunk_full_empty_iff:
  "\<not> chunk_is_full c \<Longrightarrow> chunk_ok n c \<Longrightarrow> n - w_offset c \<noteq> 0"
  by (auto simp: chunk_is_full_def chunk_ok_def)

text \<open>The writing loop, without a failing allocation.\<close>

lemma write_loop_spec:
  "bufq_inv q e \<Longrightarrow> bufq_write_loop q e buf k = (r, rest, q', e') \<Longrightarrow>
   bufq_inv q' e' \<and> same_conf q q' \<and>
   (\<exists>m \<le> length buf. bufq_content q' = bufq_content q @ take m buf \<and> rest = drop m buf \<and>
     (\<forall>n. r = Inr n \<longrightarrow> n = k + m) \<and>
     (\<not> soft q \<and> (\<exists>n. r = Inr n) \<longrightarrow> m = min (length buf) (Curl_bufq_space q) \<and>
        Curl_bufq_space q' = Curl_bufq_space q - m) \<and>
     (soft q \<and> (\<exists>n. r = Inr n) \<longrightarrow> m = length buf)) \<and>
   (no_oom (script e) \<longrightarrow> (\<exists>n. r = Inr n) \<and> no_oom (script e')) \<and>
   (\<forall>err. r = Inl err \<longrightarrow> err = CURLE_OUT_OF_MEMORY)"
proof (induction q e buf k arbitrary: r rest q' e' rule: bufq_write_loop.induct)
  case (1 q e buf k)
  note inv = "1.prems"(1)
  show ?case
  proof (cases "buf = []")
    case True
    with "1.prems" show ?thesis by (auto simp: bufq_write_loop.simps [of q e])
  next
    case ne: False
    obtain ok q1 e1 where g: "get_non_full_tail q e = (ok, q1, e1)"
      by (cases "get_non_full_tail q e")
    note gt = get_non_full_tail_ok [OF inv g]
    show ?thesis
    proof (cases ok)
      case False
      with "1.prems"(2) g ne gt have res: "q' = q" "e' = e1" "rest = buf"
        "r = (if chunk_count q < max_chunks q \<or> soft q then Inl CURLE_OUT_OF_MEMORY else Inr k)"
        by (auto simp: bufq_write_loop.simps [of q e] split: if_splits)
      have hard: "\<not> soft q \<and> (\<exists>n. r = Inr n) \<longrightarrow> Curl_bufq_space q = 0"
      proof (intro impI)
        assume "\<not> soft q \<and> (\<exists>n. r = Inr n)"
        then have "chunk_count q \<ge> max_chunks q" using res(4) by (auto split: if_splits)
        moreover have "spare q = []" "chunks q = [] \<or> chunk_is_full (last (chunks q))"
          using g False by (auto simp: get_non_full_tail_def get_spare_def split: list.splits if_splits prod.splits option.splits)
        ultimately show "Curl_bufq_space q = 0"
          by (auto simp: bufq_space_hard hard_space_def chunk_space_def chunk_is_full_def)
      qed
      show ?thesis
        using gt False res hard by (intro conjI exI [of _ 0]) (auto split: if_splits)
    next
      case True
      obtain n t where a: "chunk_append (last (chunks q1)) buf = (n, t)"
        by (cases "chunk_append (last (chunks q1)) buf")
      let ?l = "last (chunks q1)"
      have q1: "bufq_inv q1 e1" "chunks q1 \<noteq> []" "\<not> chunk_is_full ?l" "same_conf q q1"
        using gt True by auto
      have l: "chunk_ok (chunk_size q1) ?l" using q1 by (simp add: bufq_inv_def chunks_ok_def)
      note ap = chunk_append_spec [OF l a]
      have "0 < n" using ap chunk_full_empty_iff [OF q1(3) l] ne by auto
      then have rec: "bufq_write_loop (set_tail t q1) e1 (drop n buf) (k + n) = (r, rest, q', e')"
        using "1.prems"(2) g True a ne by (simp add: bufq_write_loop.simps [of q e])
      have inv2: "bufq_inv (set_tail t q1) e1" using set_tail_ok [OF q1(1,2)] ap by simp
      have cont: "bufq_content (set_tail t q1) = bufq_content q @ take n buf"
      proof -
        obtain cs where cs: "chunks q1 = cs @ [?l]" using q1(2) by (metis append_butlast_last_id)
        then have "map chunk_peek (chunks q1) = map chunk_peek (cs @ [?l])" by (rule arg_cong)
        then have "bufq_content q1 = concat (map chunk_peek cs) @ chunk_peek ?l"
          unfolding bufq_content_def by simp
        moreover have "bufq_content (set_tail t q1) = concat (map chunk_peek cs) @ chunk_peek t"
          unfolding bufq_content_def set_tail_def by (subst cs) simp
        ultimately show ?thesis using ap gt by simp
      qed
      have sp: "Curl_bufq_space (set_tail t q1) = Curl_bufq_space q1 - n" "n \<le> Curl_bufq_space q1"
        using q1(2) ap l by (auto simp: bufq_space_hard hard_space_def set_tail_def chunk_space_def chunk_ok_def)
      have sc: "same_conf q (set_tail t q1)" using q1(4) by (simp add: same_conf_def set_tail_def)
      then have so: "soft (set_tail t q1) = soft q" by (simp add: same_conf_def)
      have IH: "bufq_inv q' e' \<and> same_conf (set_tail t q1) q' \<and>
         (\<exists>m \<le> length (drop n buf). bufq_content q' = bufq_content (set_tail t q1) @ take m (drop n buf) \<and>
           rest = drop m (drop n buf) \<and> (\<forall>j. r = Inr j \<longrightarrow> j = k + n + m) \<and>
           (\<not> soft (set_tail t q1) \<and> (\<exists>n. r = Inr n) \<longrightarrow>
              m = min (length (drop n buf)) (Curl_bufq_space (set_tail t q1)) \<and>
              Curl_bufq_space q' = Curl_bufq_space (set_tail t q1) - m) \<and>
           (soft (set_tail t q1) \<and> (\<exists>n. r = Inr n) \<longrightarrow> m = length (drop n buf))) \<and>
         (no_oom (script e1) \<longrightarrow> (\<exists>n. r = Inr n) \<and> no_oom (script e')) \<and>
         (\<forall>err. r = Inl err \<longrightarrow> err = CURLE_OUT_OF_MEMORY)"
        using "1.IH" [OF ne g [symmetric] _ refl a [symmetric]] True \<open>0 < n\<close> inv2 rec by auto
      then obtain m where m: "m \<le> length (drop n buf)"
        "bufq_content q' = bufq_content (set_tail t q1) @ take m (drop n buf)"
        "rest = drop m (drop n buf)" "\<forall>j. r = Inr j \<longrightarrow> j = k + n + m"
        "\<not> soft q \<and> (\<exists>n. r = Inr n) \<longrightarrow> m = min (length (drop n buf)) (Curl_bufq_space q1 - n) \<and>
           Curl_bufq_space q' = Curl_bufq_space q1 - n - m"
        "soft q \<and> (\<exists>n. r = Inr n) \<longrightarrow> m = length (drop n buf)"
        unfolding so sp(1) by blast
      have nl: "n \<le> length buf" using ap by simp
      have "\<exists>m \<le> length buf. bufq_content q' = bufq_content q @ take m buf \<and> rest = drop m buf \<and>
          (\<forall>j. r = Inr j \<longrightarrow> j = k + m) \<and>
          (\<not> soft q \<and> (\<exists>n. r = Inr n) \<longrightarrow> m = min (length buf) (Curl_bufq_space q) \<and>
             Curl_bufq_space q' = Curl_bufq_space q - m) \<and>
          (soft q \<and> (\<exists>n. r = Inr n) \<longrightarrow> m = length buf)"
      proof (intro exI [of _ "n + m"] conjI)
        have hd: "\<not> soft q \<Longrightarrow> Curl_bufq_space q1 = Curl_bufq_space q" using gt True by simp
        show "n + m \<le> length buf" using m(1) nl by simp
        show "bufq_content q' = bufq_content q @ take (n + m) buf"
          using m(2) cont by (simp add: take_add)
        show "rest = drop (n + m) buf" using m(3) by (simp add: add.commute)
        show "\<forall>j. r = Inr j \<longrightarrow> j = k + (n + m)" using m(4) by (simp add: add.assoc)
        show "\<not> soft q \<and> (\<exists>n. r = Inr n) \<longrightarrow> n + m = min (length buf) (Curl_bufq_space q) \<and>
             Curl_bufq_space q' = Curl_bufq_space q - (n + m)"
          using m(5) hd nl sp(2) by (auto simp: min_def)
        show "soft q \<and> (\<exists>n. r = Inr n) \<longrightarrow> n + m = length buf"
          using m(6) nl by auto
      qed
      moreover have "bufq_inv q' e'" "same_conf q q'"
        using IH same_conf_trans [OF sc] by simp_all
      moreover have "no_oom (script e) \<longrightarrow> (\<exists>n. r = Inr n) \<and> no_oom (script e')"
        using IH gt by simp
      moreover have "\<forall>err. r = Inl err \<longrightarrow> err = CURLE_OUT_OF_MEMORY" using IH by simp
      ultimately show ?thesis by (intro conjI)
    qed
  qed
qed

lemma write_spec:
  assumes "bufq_inv q e" "Curl_bufq_write q e buf = (r, q', e')"
  shows "bufq_inv q' e' \<and> same_conf q q' \<and>
    (\<forall>n. r = Inr n \<longrightarrow> bufq_content q' = bufq_content q @ take n buf \<and>
       n = (if soft q then length buf else min (length buf) (Curl_bufq_space q)) \<and>
       (\<not> soft q \<longrightarrow> Curl_bufq_space q' = Curl_bufq_space q - n)) \<and>
    (\<forall>err. r = Inl err \<longrightarrow> err = CURLE_OUT_OF_MEMORY \<or>
       err = CURLE_AGAIN \<and> \<not> soft q \<and> Curl_bufq_space q = 0 \<and> buf \<noteq> [] \<and> bufq_content q' = bufq_content q) \<and>
    (\<exists>m. bufq_content q' = bufq_content q @ take m buf) \<and>
    (no_oom (script e) \<longrightarrow> r \<noteq> Inl CURLE_OUT_OF_MEMORY \<and> no_oom (script e'))"
proof -
  obtain s rest q1 e1 where w: "bufq_write_loop q e buf 0 = (s, rest, q1, e1)"
    by (cases "bufq_write_loop q e buf 0")
  note sp = write_loop_spec [OF assms(1) w]
  then obtain m where m: "m \<le> length buf" "bufq_content q1 = bufq_content q @ take m buf" "rest = drop m buf"
    "\<forall>n. s = Inr n \<longrightarrow> n = 0 + m"
    "\<not> soft q \<and> (\<exists>n. s = Inr n) \<longrightarrow> m = min (length buf) (Curl_bufq_space q) \<and> Curl_bufq_space q1 = Curl_bufq_space q - m"
    "soft q \<and> (\<exists>n. s = Inr n) \<longrightarrow> m = length buf" by blast
  have q: "q' = q1" "e' = e1"
    and r: "r = (case s of Inl err \<Rightarrow> Inl err | Inr n \<Rightarrow> if n = 0 \<and> rest \<noteq> [] then Inl CURLE_AGAIN else Inr n)"
    using assms(2) w by (auto simp: Curl_bufq_write_def split: sum.splits)
  have ok: "bufq_inv q1 e1" "same_conf q q1"
    "no_oom (script e) \<longrightarrow> (\<exists>n. s = Inr n) \<and> no_oom (script e1)"
    "\<forall>err. s = Inl err \<longrightarrow> err = CURLE_OUT_OF_MEMORY"
    using sp by simp_all
  have ex: "\<exists>m. bufq_content q1 = bufq_content q @ take m buf" using m(2) by blast
  show ?thesis
  proof (cases s)
    case (Inl err)
    then have "r = Inl CURLE_OUT_OF_MEMORY" "\<not> no_oom (script e)" using ok(3,4) r by auto
    with ok(1,2) ex show ?thesis unfolding q by simp
  next
    case (Inr n)
    then have n: "n = m" using m(4) by simp
    show ?thesis
    proof (cases "n = 0 \<and> rest \<noteq> []")
      case True
      then have m0: "m = 0" "buf \<noteq> []" using m(3) n by auto
      have "\<not> soft q"
      proof
        assume "soft q"
        with m(6) Inr have "m = length buf" by blast
        with m0 show False by simp
      qed
      moreover from this have "Curl_bufq_space q = 0" using m(5) Inr m0 by (auto simp: min_def split: if_splits)
      moreover have "bufq_content q1 = bufq_content q" using m(2) m0 by simp
      moreover have "buf \<noteq> []" by (rule m0)
      moreover have "r = Inl CURLE_AGAIN" using True Inr r by simp
      ultimately show ?thesis using ok ex Inr unfolding q by simp
    next
      case False
      then have "r = Inr n" using r Inr by simp
      moreover have "n = (if soft q then length buf else min (length buf) (Curl_bufq_space q))"
        "\<not> soft q \<longrightarrow> Curl_bufq_space q1 = Curl_bufq_space q - n"
        using m(5,6) Inr n by auto
      ultimately show ?thesis using ok ex Inr m(2) n unfolding q by simp
    qed
  qed
qed

subsection \<open>Reading, skipping and peeking\<close>

lemma prune_loop_ok:
  "prune_loop cs q p = (q', p') \<Longrightarrow>
   \<forall>c \<in> set cs \<union> set (spare q). chunk_ok n c \<Longrightarrow> chunk_count q = length cs + length (spare q) \<Longrightarrow>
   (pooled q \<longrightarrow> pool_ok n p) \<Longrightarrow>
   same_conf q q' \<and> chunks q' = dropWhile chunk_is_empty cs \<and>
   (\<forall>c \<in> set (spare q'). chunk_ok n c) \<and> chunk_count q' = length (chunks q') + length (spare q') \<and>
   chunk_count q' \<le> chunk_count q \<and> (pooled q \<longrightarrow> pool_ok n p')"
proof (induction cs q p rule: prune_loop.induct)
  case (1 q p)
  then show ?case by (auto simp: same_conf_def)
next
  case (2 c cs q p)
  show ?case
  proof (cases "chunk_is_empty c")
    case False
    with 2 show ?thesis by (auto simp: same_conf_def)
  next
    case empty: True
    show ?thesis
    proof (cases "pooled q")
      case True
      have "same_conf (q\<lparr>chunk_count := chunk_count q - 1\<rparr>) q' \<and> chunks q' = dropWhile chunk_is_empty cs \<and>
          (\<forall>c \<in> set (spare q'). chunk_ok n c) \<and> chunk_count q' = length (chunks q') + length (spare q') \<and>
          chunk_count q' \<le> chunk_count q - 1 \<and> (pooled q \<longrightarrow> pool_ok n p')"
        using "2.IH"(1) [OF empty True] "2.prems" empty True bufcp_put_ok by auto
      moreover from this have "chunk_count q' \<le> chunk_count q" by (elim conjE) linarith
      ultimately show ?thesis using empty by (auto simp: same_conf_def)
    next
      case False
      show ?thesis
      proof (cases "chunk_count q > max_chunks q \<or> opts q AND BUFQ_OPT_NO_SPARES \<noteq> 0")
        case True
        have "same_conf (q\<lparr>chunk_count := chunk_count q - 1\<rparr>) q' \<and> chunks q' = dropWhile chunk_is_empty cs \<and>
            (\<forall>c \<in> set (spare q'). chunk_ok n c) \<and> chunk_count q' = length (chunks q') + length (spare q') \<and>
            chunk_count q' \<le> chunk_count q - 1"
          using "2.IH"(2) [OF empty False True] "2.prems" empty False True by auto
        moreover from this have "chunk_count q' \<le> chunk_count q" by (elim conjE) linarith
        ultimately show ?thesis using empty False by (auto simp: same_conf_def)
      next
        case keep: False
        have "same_conf (q\<lparr>spare := c # spare q\<rparr>) q' \<and> chunks q' = dropWhile chunk_is_empty cs \<and>
            (\<forall>c \<in> set (spare q'). chunk_ok n c) \<and> chunk_count q' = length (chunks q') + length (spare q') \<and>
            chunk_count q' \<le> chunk_count q"
          using "2.IH"(3) [OF empty False keep] "2.prems" empty False keep by auto
        with empty False show ?thesis by (auto simp: same_conf_def)
      qed
    qed
  qed
qed

lemma peek_dropWhile_empty:
  "\<forall>c \<in> set cs. chunk_ok n c \<Longrightarrow>
   concat (map chunk_peek (dropWhile chunk_is_empty cs)) = concat (map chunk_peek cs)"
  by (induction cs) (auto simp: chunk_empty_iff)

text \<open>The head is replaced by what is left of it and empty chunks are dropped.\<close>

lemma replace_head_ok:
  assumes "bufq_inv q e" "chunks q = d # ds" "chunk_ok (chunk_size q) c"
    "chunk_peek c \<noteq> [] \<longrightarrow> w_offset c = w_offset d" "prune_head (set_head c q) e = (q', e')"
  shows "bufq_inv q' e' \<and> same_conf q q' \<and>
    bufq_content q' = chunk_peek c @ concat (map chunk_peek ds) \<and>
    (chunks q' \<noteq> [] \<longrightarrow> \<not> chunk_is_empty (hd (chunks q'))) \<and>
    script e' = script e"
proof -
  let ?n = "chunk_size q"
  have ck: "chunks_ok q (pool e)" "chain_ok (d # ds)" using assms(1,2) by (simp_all add: bufq_inv_def)
  then have ok: "\<forall>c \<in> set (c # ds) \<union> set (spare q). chunk_ok ?n c" "chunk_ok ?n d"
    using assms(2,3) by (auto simp: chunks_ok_def)
  have cnt: "chunk_count q = length (c # ds) + length (spare q)" "pooled q \<longrightarrow> pool_ok ?n (pool e)"
    using ck assms(2) by (auto simp: chunks_ok_def)
  obtain p' where p: "prune_loop (c # ds) (set_head c q) (pool e) = (q', p')" "e' = e\<lparr>pool := p'\<rparr>"
    using assms(2,5) by (auto simp: prune_head_def set_head_def split: prod.splits)
  have sh: "spare (set_head c q) = spare q" "chunk_count (set_head c q) = chunk_count q"
    "pooled (set_head c q) = pooled q" "same_conf q (set_head c q)"
    by (simp_all add: set_head_def same_conf_def)
  have pl: "same_conf (set_head c q) q'" "chunks q' = dropWhile chunk_is_empty (c # ds)"
    "\<forall>c \<in> set (spare q'). chunk_ok ?n c" "chunk_count q' = length (chunks q') + length (spare q')"
    "chunk_count q' \<le> chunk_count q" "pooled q \<longrightarrow> pool_ok ?n p'"
    using prune_loop_ok [OF p(1), of ?n] ok(1) cnt unfolding sh by blast+
  have sc: "same_conf q q'" by (rule same_conf_trans [OF sh(4) pl(1)])
  have "chain_ok (dropWhile chunk_is_empty (c # ds))"
  proof (cases "chunk_is_empty c")
    case True
    then show ?thesis using chain_ok_dropWhile [OF chain_ok_tl [OF ck(2)]] by simp
  next
    case False
    then have "w_offset c = w_offset d" using assms(3,4) chunk_empty_iff by blast
    then have "chunk_is_full d \<longleftrightarrow> chunk_is_full c"
      using ok by (auto simp: chunk_is_full_def chunk_ok_def)
    then have "chain_ok (c # ds)" using ck(2) False by (cases ds) auto
    with False show ?thesis by simp
  qed
  moreover have "chunks_ok q' p'"
  proof -
    have "\<forall>c \<in> set (chunks q'). chunk_ok ?n c"
      using ok(1) unfolding pl(2) by (auto dest: set_dropWhileD)
    with pl sc ck(1) show ?thesis by (auto simp: chunks_ok_def same_conf_def)
  qed
  moreover have "bufq_content q' = chunk_peek c @ concat (map chunk_peek ds)"
    unfolding bufq_content_def pl(2) using peek_dropWhile_empty [of "c # ds" ?n] ok(1) by simp
  moreover have "chunks q' \<noteq> [] \<longrightarrow> \<not> chunk_is_empty (hd (chunks q'))"
    unfolding pl(2) using hd_dropWhile by blast
  ultimately show ?thesis using sc p(2) pl(2) by (simp add: bufq_inv_def)
qed

lemma prune_head_ok:
  assumes "bufq_inv q e" "prune_head q e = (q', e')"
  shows "bufq_inv q' e' \<and> same_conf q q' \<and> bufq_content q' = bufq_content q \<and>
    (chunks q' \<noteq> [] \<longrightarrow> \<not> chunk_is_empty (hd (chunks q'))) \<and> script e' = script e"
proof (cases "chunks q")
  case Nil
  with assms show ?thesis by (auto simp: prune_head_def same_conf_def bufq_inv_def chunks_ok_def bufq_content_def)
next
  case (Cons c cs)
  then have "set_head c q = q" by (simp add: set_head_def)
  moreover have "chunk_ok (chunk_size q) c" using assms(1) Cons by (simp add: bufq_inv_def chunks_ok_def)
  ultimately show ?thesis
    using replace_head_ok [OF assms(1) Cons, of c q' e'] assms(2) Cons by (simp add: bufq_content_def)
qed

lemma read_loop_spec:
  "bufq_inv q e \<Longrightarrow> bufq_read_loop q e len = (bs, q', e') \<Longrightarrow>
   bufq_inv q' e' \<and> same_conf q q' \<and> bs = take len (bufq_content q) \<and>
   bufq_content q' = drop len (bufq_content q) \<and> script e' = script e"
proof (induction q e len arbitrary: bs q' e' rule: bufq_read_loop.induct)
  case (1 q e len)
  show ?case
  proof (cases "len \<noteq> 0 \<and> chunks q \<noteq> []")
    case False
    with "1.prems" show ?thesis
      by (cases "len = 0") (auto simp: bufq_read_loop.simps [of q e] bufq_content_def)
  next
    case True
    then obtain d ds where d: "chunks q = d # ds" by (cases "chunks q") auto
    obtain n cs c where r: "chunk_read (hd (chunks q)) len = (n, cs, c)"
      by (cases "chunk_read (hd (chunks q)) len")
    obtain q1 e1 where p: "prune_head (set_head c q) e = (q1, e1)"
      by (cases "prune_head (set_head c q) e")
    obtain bs' where rec: "bufq_read_loop q1 e1 (len - n) = (bs', q', e')" "bs = cs @ bs'"
      using "1.prems"(2) True r p by (auto simp: bufq_read_loop.simps [of q e] split: prod.splits)
    have dok: "chunk_ok (chunk_size q) d" using "1.prems"(1) d by (simp add: bufq_inv_def chunks_ok_def)
    note cr = chunk_read_spec [OF dok r [unfolded d list.sel]]
    note rp = replace_head_ok [OF "1.prems"(1) d _ _ p]
    have q1: "bufq_inv q1 e1" "same_conf q q1" "bufq_content q1 = chunk_peek c @ concat (map chunk_peek ds)"
      "script e1 = script e" using rp cr by blast+
    note ih = "1.IH" [OF True r [symmetric] refl p [symmetric] q1(1) rec(1)]
    have cont: "bufq_content q = chunk_peek d @ concat (map chunk_peek ds)"
      by (simp add: bufq_content_def d)
    have "bs = take len (bufq_content q)" "drop (len - n) (bufq_content q1) = drop len (bufq_content q)"
      using ih cr rec(2) unfolding cont q1(3) by (auto simp: min_def)
    with ih q1 same_conf_trans show ?thesis by metis
  qed
qed

lemma skip_loop_spec:
  "bufq_inv q e \<Longrightarrow> bufq_skip_loop q e len = (q', e') \<Longrightarrow>
   bufq_inv q' e' \<and> same_conf q q' \<and> bufq_content q' = drop len (bufq_content q) \<and> script e' = script e"
proof (induction q e len arbitrary: q' e' rule: bufq_skip_loop.induct)
  case (1 q e len)
  show ?case
  proof (cases "len \<noteq> 0 \<and> chunks q \<noteq> []")
    case False
    with "1.prems" show ?thesis
      by (cases "len = 0") (auto simp: bufq_skip_loop.simps [of q e] bufq_content_def)
  next
    case True
    then obtain d ds where d: "chunks q = d # ds" by (cases "chunks q") auto
    obtain n c where r: "chunk_skip (hd (chunks q)) len = (n, c)"
      by (cases "chunk_skip (hd (chunks q)) len")
    obtain q1 e1 where p: "prune_head (set_head c q) e = (q1, e1)"
      by (cases "prune_head (set_head c q) e")
    have rec: "bufq_skip_loop q1 e1 (len - n) = (q', e')"
      using "1.prems"(2) True r p by (auto simp: bufq_skip_loop.simps [of q e] split: prod.splits)
    have dok: "chunk_ok (chunk_size q) d" using "1.prems"(1) d by (simp add: bufq_inv_def chunks_ok_def)
    note cr = chunk_skip_spec [OF dok r [unfolded d list.sel]]
    note rp = replace_head_ok [OF "1.prems"(1) d _ _ p]
    have q1: "bufq_inv q1 e1" "same_conf q q1" "bufq_content q1 = chunk_peek c @ concat (map chunk_peek ds)"
      "script e1 = script e" using rp cr by blast+
    note ih = "1.IH" [OF True r [symmetric] p [symmetric] q1(1) rec(1)]
    have cont: "bufq_content q = chunk_peek d @ concat (map chunk_peek ds)"
      by (simp add: bufq_content_def d)
    have "drop (len - n) (bufq_content q1) = drop len (bufq_content q)"
      using ih cr unfolding cont q1(3) by (auto simp: min_def)
    with ih q1 same_conf_trans show ?thesis by metis
  qed
qed

lemma read_spec:
  assumes "bufq_inv q e" "Curl_bufq_read q e len = (r, q', e')"
  shows "bufq_inv q' e' \<and> same_conf q q' \<and> script e' = script e \<and>
    bufq_content q' = drop len (bufq_content q) \<and>
    r = (if len = 0 \<or> bufq_content q = [] then Inl CURLE_AGAIN else Inr (take len (bufq_content q)))"
proof -
  obtain bs where b: "bufq_read_loop q e len = (bs, q', e')"
    "r = (if length bs = 0 then Inl CURLE_AGAIN else Inr bs)"
    using assms(2) by (auto simp: Curl_bufq_read_def split: prod.splits)
  from read_loop_spec [OF assms(1) b(1)] b(2) show ?thesis by (auto simp: min_def split: if_splits)
qed

lemma skip_spec:
  assumes "bufq_inv q e" "Curl_bufq_skip q e n = (q', e')"
  shows "bufq_inv q' e' \<and> same_conf q q' \<and> script e' = script e \<and>
    bufq_content q' = drop n (bufq_content q)"
  using skip_loop_spec [OF assms(1)] assms(2) by (auto simp: Curl_bufq_skip_def)

lemma peek_spec:
  assumes "bufq_inv q e" "Curl_bufq_peek q e = (r, q', e')"
  shows "bufq_inv q' e' \<and> same_conf q q' \<and> bufq_content q' = bufq_content q \<and> script e' = script e \<and>
    (case r of None \<Rightarrow> bufq_content q = []
     | Some bs \<Rightarrow> bs \<noteq> [] \<and> (\<exists>rest. bufq_content q = bs @ rest))"
proof -
  obtain q1 e1 where p: "(if chunks q \<noteq> [] \<and> chunk_is_empty (hd (chunks q)) then prune_head q e else (q, e)) = (q1, e1)"
    by fastforce
  have q1: "bufq_inv q1 e1 \<and> same_conf q q1 \<and> bufq_content q1 = bufq_content q \<and> script e1 = script e"
    using p prune_head_ok [OF assms(1)] assms(1) by (auto split: if_splits)
  have r: "q' = q1" "e' = e1"
    "r = (if chunks q1 \<noteq> [] \<and> \<not> chunk_is_empty (hd (chunks q1)) then Some (chunk_peek (hd (chunks q1))) else None)"
    using assms(2) p by (auto simp: Curl_bufq_peek_def split: if_splits)
  show ?thesis
  proof (cases "chunks q1 \<noteq> [] \<and> \<not> chunk_is_empty (hd (chunks q1))")
    case True
    then obtain c cs where c: "chunks q1 = c # cs" "\<not> chunk_is_empty c" by (cases "chunks q1") auto
    have "chunk_ok (chunk_size q1) c" using q1 c by (simp add: bufq_inv_def chunks_ok_def)
    then have "chunk_peek c \<noteq> []" using c(2) chunk_empty_iff by blast
    moreover have "bufq_content q1 = chunk_peek c @ concat (map chunk_peek cs)"
      by (simp add: bufq_content_def c)
    then have "\<exists>rest. bufq_content q = chunk_peek c @ rest" using q1 by auto
    ultimately show ?thesis using c q1 r True by simp
  next
    case False
    then have "Curl_bufq_is_empty q1" by (auto simp: Curl_bufq_is_empty_def)
    with False r q1 bufq_empty_content show ?thesis by auto
  qed
qed

lemma peek_at_loop_spec:
  "\<forall>c \<in> set cs. chunk_ok n c \<Longrightarrow> chain_ok cs \<Longrightarrow> i < length (concat (map chunk_peek cs)) \<Longrightarrow>
   \<exists>bs rest. peek_at_loop cs i = Some bs \<and> bs \<noteq> [] \<and> drop i (concat (map chunk_peek cs)) = bs @ rest"
proof (induction cs arbitrary: i)
  case (Cons c cs)
  have c: "chunk_ok n c" using Cons.prems(1) by simp
  then have len: "length (chunk_peek c) = chunk_len c" by (rule length_chunk_peek)
  have "chunk_len c \<noteq> 0"
  proof
    assume z: "chunk_len c = 0"
    then have "chunk_is_empty c" by (simp add: chunk_len_def chunk_is_empty_def)
    with Cons.prems(2) have "cs = []" by (cases cs) auto
    with Cons.prems(3) len z show False by simp
  qed
  show ?case
  proof (cases "i \<ge> chunk_len c")
    case True
    with Cons.IH [of "i - chunk_len c"] Cons.prems chain_ok_tl len \<open>chunk_len c \<noteq> 0\<close>
    show ?thesis by auto
  next
    case False
    have "chunk_peek_at c i = drop i (chunk_peek c)"
      using c by (auto simp: chunk_peek_at_def chunk_peek_def drop_take chunk_ok_def add.commute Let_def)
    with False len \<open>chunk_len c \<noteq> 0\<close> show ?thesis by (auto simp: Let_def)
  qed
qed simp

subsection \<open>The contract of a byte queue\<close>

text \<open>
  What the users of a queue rely on: what is accepted is a prefix of what is offered and
  goes to the end, what is delivered comes from the front.
\<close>

locale byte_queue =
  fixes inv :: "'s \<Rightarrow> bool"
    and content :: "'s \<Rightarrow> byte list"
    and put :: "'s \<Rightarrow> byte list \<Rightarrow> nat \<times> 's"
    and get :: "'s \<Rightarrow> nat \<Rightarrow> byte list \<times> 's"
  assumes put_spec: "inv s \<Longrightarrow> put s b = (n, s') \<Longrightarrow>
      inv s' \<and> n \<le> length b \<and> content s' = content s @ take n b"
    and get_spec: "inv s \<Longrightarrow> get s k = (b, s') \<Longrightarrow>
      inv s' \<and> b = take k (content s) \<and> content s' = drop k (content s)"
begin

text \<open>A session of writes (\<open>Inl\<close>) and reads (\<open>Inr\<close>): the bytes accepted, the bytes delivered.\<close>

fun session :: "'s \<Rightarrow> (byte list + nat) list \<Rightarrow> byte list \<times> byte list \<times> 's" where
  "session s [] = ([], [], s)"
| "session s (Inl b # ps) =
     (case put s b of (n, s') \<Rightarrow> (case session s' ps of (i, out, t) \<Rightarrow> (take n b @ i, out, t)))"
| "session s (Inr k # ps) =
     (case get s k of (b, s') \<Rightarrow> (case session s' ps of (i, out, t) \<Rightarrow> (i, b @ out, t)))"

lemma session_fifo:
  "inv s \<Longrightarrow> session s ps = (i, out, t) \<Longrightarrow> inv t \<and> content s @ i = out @ content t"
proof (induction s ps arbitrary: i out t rule: session.induct)
  case (2 s b ps)
  obtain n s' where p: "put s b = (n, s')" by (cases "put s b")
  obtain i' where r: "session s' ps = (i', out, t)" "i = take n b @ i'"
    using "2.prems"(2) p by (auto split: prod.splits)
  from put_spec [OF "2.prems"(1) p] "2.IH" [OF p [symmetric] _ r(1)] r(2) show ?case by auto
next
  case (3 s k ps)
  obtain b s' where p: "get s k = (b, s')" by (cases "get s k")
  obtain out' where r: "session s' ps = (i, out', t)" "out = b @ out'"
    using "3.prems"(2) p by (auto split: prod.splits)
  from get_spec [OF "3.prems"(1) p] "3.IH" [OF p [symmetric] _ r(1)] r(2) show ?case
    by (metis append.assoc append_take_drop_id)
qed auto

end

definition bufq_put :: "bufq \<times> env \<Rightarrow> byte list \<Rightarrow> nat \<times> bufq \<times> env" where
  "bufq_put s b = (case Curl_bufq_cwrite (fst s) (snd s) b of (_, n, s') \<Rightarrow> (n, s'))"

definition bufq_get :: "bufq \<times> env \<Rightarrow> nat \<Rightarrow> byte list \<times> bufq \<times> env" where
  "bufq_get s k = (case Curl_bufq_cread (fst s) (snd s) k of (_, b, s') \<Rightarrow> (b, s'))"

interpretation bq: byte_queue "\<lambda>s. bufq_inv (fst s) (snd s) \<and> no_oom (script (snd s))"
  "\<lambda>s. bufq_content (fst s)" bufq_put bufq_get
proof
  fix s b n s'
  assume inv: "bufq_inv (fst s) (snd s) \<and> no_oom (script (snd s))" and p: "bufq_put s b = (n, s')"
  obtain r q e where w: "Curl_bufq_write (fst s) (snd s) b = (r, q, e)"
    by (cases "Curl_bufq_write (fst s) (snd s) b")
  from inv have "bufq_inv (fst s) (snd s)" by simp
  note sp = write_spec [OF this w]
  have s': "s' = (q, e)" "n = (case r of Inl _ \<Rightarrow> 0 | Inr n \<Rightarrow> n)"
    using p w by (auto simp: bufq_put_def Curl_bufq_cwrite_def split: sum.splits)
  show "(bufq_inv (fst s') (snd s') \<and> no_oom (script (snd s'))) \<and> n \<le> length b \<and>
      bufq_content (fst s') = bufq_content (fst s) @ take n b"
  proof (cases r)
    case (Inl err)
    then show ?thesis using sp inv s' by auto
  next
    case (Inr m)
    then show ?thesis using sp inv s' by (auto split: if_splits)
  qed
next
  fix s k b s'
  assume inv: "bufq_inv (fst s) (snd s) \<and> no_oom (script (snd s))" and g: "bufq_get s k = (b, s')"
  obtain r q e where w: "Curl_bufq_read (fst s) (snd s) k = (r, q, e)"
    by (cases "Curl_bufq_read (fst s) (snd s) k")
  from inv have "bufq_inv (fst s) (snd s)" by simp
  note sp = read_spec [OF this w]
  have s': "s' = (q, e)" "b = (case r of Inl _ \<Rightarrow> [] | Inr bs \<Rightarrow> bs)"
    using g w by (auto simp: bufq_get_def Curl_bufq_cread_def split: sum.splits)
  show "(bufq_inv (fst s') (snd s') \<and> no_oom (script (snd s'))) \<and> b = take k (bufq_content (fst s)) \<and>
      bufq_content (fst s') = drop k (bufq_content (fst s))"
    using sp inv s' by (auto split: if_splits)
qed

subsection \<open>Properties\<close>

text \<open>
  C4. Chunks, spares, pools and limits do not show: in any session of writes and reads
  with no allocation failing, the bytes delivered followed by the bytes left are the bytes
  that were there followed by the bytes accepted, in order, and the invariant is kept.
\<close>

theorem bufq_fifo:
  assumes "bufq_inv q e" "no_oom (script e)"
  shows "case bq.session (q, e) ps of (accepted, delivered, q', e') \<Rightarrow>
    bufq_inv q' e' \<and> bufq_content q @ accepted = delivered @ bufq_content q'"
proof -
  obtain i out q' e' where s: "bq.session (q, e) ps = (i, out, q', e')" by (cases "bq.session (q, e) ps")
  with bq.session_fifo [of "(q, e)" ps i out "(q', e')"] assms show ?thesis by simp
qed

theorem bufq_fifo_witness:
  "case bq.session (Curl_bufq_init2 2 2 BUFQ_OPT_NONE, \<lparr>pool = Curl_bufcp_init 2 1, script = []\<rparr>)
      [Inl [1, 2, 3], Inr 2, Inl [4, 5, 6], Inr 9] of
    (accepted, delivered, q', e') \<Rightarrow>
      bufq_inv q' e' \<and> bufq_content (Curl_bufq_init2 2 2 BUFQ_OPT_NONE) @ accepted = delivered @ bufq_content q'"
  by (rule bufq_fifo) (simp_all add: bufq_inv_init2)

text \<open>
  How much a write accepts when no allocation fails: everything with the soft limit;
  otherwise exactly \<open>Curl_bufq_space\<close> bytes at most, the space shrinking by what was
  accepted, and \<open>CURLE_AGAIN\<close> only when there is something to write and no space.
\<close>

theorem bufq_write_accepts:
  assumes "bufq_inv q e" "no_oom (script e)"
  shows "case Curl_bufq_write q e buf of (r, q', e') \<Rightarrow>
    (let n = (if opts q AND BUFQ_OPT_SOFT_LIMIT \<noteq> 0 then length buf else min (length buf) (Curl_bufq_space q))
     in r = (if n = 0 \<and> buf \<noteq> [] then Inl CURLE_AGAIN else Inr n) \<and>
        bufq_content q' = bufq_content q @ take n buf \<and>
        (opts q AND BUFQ_OPT_SOFT_LIMIT = 0 \<longrightarrow> Curl_bufq_space q' = Curl_bufq_space q - n \<or> r = Inl CURLE_AGAIN))"
proof -
  obtain r q' e' where w: "Curl_bufq_write q e buf = (r, q', e')" by (cases "Curl_bufq_write q e buf")
  note sp = write_spec [OF assms(1) w]
  show ?thesis
  proof (cases r)
    case (Inl err)
    with sp assms(2) have "err = CURLE_AGAIN" "\<not> soft q" "Curl_bufq_space q = 0" "buf \<noteq> []"
      "bufq_content q' = bufq_content q" by auto
    with w Inl show ?thesis by (simp add: Let_def)
  next
    case (Inr n)
    with sp have n: "n = (if soft q then length buf else min (length buf) (Curl_bufq_space q))"
      "bufq_content q' = bufq_content q @ take n buf" "\<not> soft q \<longrightarrow> Curl_bufq_space q' = Curl_bufq_space q - n"
      by blast+
    have "\<not> (n = 0 \<and> buf \<noteq> [])"
    proof
      assume z: "n = 0 \<and> buf \<noteq> []"
      obtain s rest q1 e1 where l: "bufq_write_loop q e buf 0 = (s, rest, q1, e1)"
        by (cases "bufq_write_loop q e buf 0")
      from write_loop_spec [OF assms(1) l] assms(2) obtain k m
        where "s = Inr k" "k = 0 + m" "rest = drop m buf" by blast
      with w l Inr z show False by (auto simp: Curl_bufq_write_def split: if_splits)
    qed
    with w Inr n show ?thesis by (simp add: Let_def)
  qed
qed

theorem bufq_write_accepts_witness:
  "case Curl_bufq_write (Curl_bufq_init2 2 2 BUFQ_OPT_NONE) \<lparr>pool = Curl_bufcp_init 2 1, script = []\<rparr> [1, 2, 3, 4, 5, 6] of
     (r, q', e') \<Rightarrow>
    (let n = (if opts (Curl_bufq_init2 2 2 BUFQ_OPT_NONE) AND BUFQ_OPT_SOFT_LIMIT \<noteq> 0 then length [1, 2, 3, 4, 5, 6 :: byte]
              else min (length [1, 2, 3, 4, 5, 6 :: byte]) (Curl_bufq_space (Curl_bufq_init2 2 2 BUFQ_OPT_NONE)))
     in r = (if n = 0 \<and> [1, 2, 3, 4, 5, 6 :: byte] \<noteq> [] then Inl CURLE_AGAIN else Inr n) \<and>
        bufq_content q' = bufq_content (Curl_bufq_init2 2 2 BUFQ_OPT_NONE) @ take n [1, 2, 3, 4, 5, 6] \<and>
        (opts (Curl_bufq_init2 2 2 BUFQ_OPT_NONE) AND BUFQ_OPT_SOFT_LIMIT = 0 \<longrightarrow>
          Curl_bufq_space q' = Curl_bufq_space (Curl_bufq_init2 2 2 BUFQ_OPT_NONE) - n \<or> r = Inl CURLE_AGAIN))"
  by (rule bufq_write_accepts) (simp_all add: bufq_inv_init2)

text \<open>
  A writer that keeps its contract: it accepts a prefix of what it is given; \<open>written\<close> is
  what it has accepted so far.
\<close>

definition honest_writer :: "'w writer \<Rightarrow> ('w \<Rightarrow> byte list) \<Rightarrow> bool" where
  "honest_writer wr written \<longleftrightarrow>
     (\<forall>ctx buf ctx' r. wr ctx buf = (ctx', r) \<longrightarrow>
        (case r of
           Inl err \<Rightarrow> written ctx' = written ctx
         | Inr n \<Rightarrow> n \<le> length buf \<and> written ctx' = written ctx @ take n buf))"

lemma pass_loop_spec:
  assumes "honest_writer wr written"
  shows "bufq_inv q e \<Longrightarrow> \<exists>r q' e' ctx' k. bufq_pass_loop wr q e ctx n = Some (r, q', e', ctx') \<and>
    bufq_inv q' e' \<and> written ctx' = written ctx @ take k (bufq_content q) \<and>
    bufq_content q' = drop k (bufq_content q) \<and> k \<le> length (bufq_content q) \<and>
    (\<forall>m. r = Inr m \<longrightarrow> m = n + k) \<and> same_conf q q'"
proof (induction "length (bufq_content q)" arbitrary: q e ctx n rule: less_induct)
  case less
  obtain p q1 e1 where pk: "Curl_bufq_peek q e = (p, q1, e1)" by (cases "Curl_bufq_peek q e")
  note ps = peek_spec [OF less.prems pk]
  show ?case
  proof (cases p)
    case None
    with pk ps show ?thesis by (subst bufq_pass_loop.simps) (auto intro!: exI [of _ 0])
  next
    case (Some buf)
    with ps obtain rest where buf: "buf \<noteq> []" "bufq_content q = buf @ rest" by auto
    obtain ctx1 w where wr: "wr ctx buf = (ctx1, w)" by (cases "wr ctx buf")
    have hw: "case w of Inl err \<Rightarrow> written ctx1 = written ctx
        | Inr n \<Rightarrow> n \<le> length buf \<and> written ctx1 = written ctx @ take n buf"
      using assms wr unfolding honest_writer_def by blast
    show ?thesis
    proof (cases w)
      case (Inl err)
      with pk ps Some wr hw show ?thesis
        by (subst bufq_pass_loop.simps) (auto intro!: exI [of _ 0])
    next
      case (Inr j)
      show ?thesis
      proof (cases "j = 0")
        case True
        with pk ps Some wr hw Inr show ?thesis
          by (subst bufq_pass_loop.simps) (auto intro!: exI [of _ 0])
      next
        case False
        obtain q2 e2 where sk: "Curl_bufq_skip q1 e1 j = (q2, e2)" by (cases "Curl_bufq_skip q1 e1 j")
        have q1: "bufq_inv q1 e1" "bufq_content q1 = buf @ rest" "same_conf q q1" using ps buf by simp_all
        note ss = skip_spec [OF q1(1) sk]
        have j: "j \<le> length buf" "written ctx1 = written ctx @ take j buf" using hw Inr by simp_all
        have c2: "bufq_content q2 = drop j (bufq_content q)" using ss q1(2) buf(2) by simp
        have lt: "length (bufq_content q2) < length (bufq_content q)" using c2 False j buf by simp
        have "bufq_inv q2 e2" using ss by simp
        from less.hyps [OF lt this, of ctx1 "n + j"] obtain r q' e' ctx' k where
          r: "bufq_pass_loop wr q2 e2 ctx1 (n + j) = Some (r, q', e', ctx')" "bufq_inv q' e'"
          "written ctx' = written ctx1 @ take k (bufq_content q2)" "bufq_content q' = drop k (bufq_content q2)"
          "k \<le> length (bufq_content q2)" "\<forall>m. r = Inr m \<longrightarrow> m = n + j + k" "same_conf q2 q'" by blast
        have run: "bufq_pass_loop wr q e ctx n = Some (r, q', e', ctx')"
          using pk Some wr Inr False sk r(1) by (subst bufq_pass_loop.simps) simp
        have "take (j + k) (bufq_content q) = take j buf @ take k (bufq_content q2)"
          unfolding take_add c2 using j(1) buf(2) by simp
        then have "written ctx' = written ctx @ take (j + k) (bufq_content q)" using r(3) j(2) by simp
        moreover have "bufq_content q' = drop (j + k) (bufq_content q)"
          using r(4) c2 by (simp add: add.commute)
        moreover have "j + k \<le> length (bufq_content q)" using r(5) c2 j(1) buf(2) by simp
        moreover have "same_conf q q'" using q1(3) ss r(7) same_conf_trans by metis
        moreover have "\<forall>m. r = Inr m \<longrightarrow> m = n + (j + k)" using r(6) by (simp add: add.assoc)
        ultimately show ?thesis using run r(2) by blast
      qed
    qed
  qed
qed

text \<open>
  C21. Passing a queue on to a writer that keeps its contract ends, and no byte is lost,
  duplicated or reordered: what the writer received is a prefix of the content, the rest
  is still queued, and a result that is not an error is the number of bytes passed.
\<close>

theorem bufq_pass_exact:
  assumes "bufq_inv q e" "honest_writer wr written"
  shows "\<exists>r q' e' ctx' k. Curl_bufq_pass wr q e ctx = Some (r, q', e', ctx') \<and> bufq_inv q' e' \<and>
    written ctx' = written ctx @ take k (bufq_content q) \<and>
    bufq_content q' = drop k (bufq_content q) \<and> k \<le> length (bufq_content q) \<and> (\<forall>m. r = Inr m \<longrightarrow> m = k)"
  using pass_loop_spec [OF assms(2,1), of ctx 0] by (fastforce simp: Curl_bufq_pass_def)

text \<open>Three bytes are queued in two chunks; the writer takes one byte at a time.\<close>

theorem bufq_pass_exact_witness:
  "\<exists>q e r q' e' ctx' k.
    Curl_bufq_write (Curl_bufq_init2 2 2 BUFQ_OPT_NONE) \<lparr>pool = Curl_bufcp_init 2 1, script = []\<rparr> [1, 2, 3] = (Inr 3, q, e) \<and>
    bufq_content q = [1, 2, 3] \<and>
    Curl_bufq_pass (\<lambda>ctx buf. (ctx @ take 1 buf, Inr (length (take 1 buf)))) q e [] = Some (r, q', e', ctx') \<and>
    bufq_inv q' e' \<and> ctx' = take k [1, 2, 3] \<and> bufq_content q' = drop k [1, 2, 3] \<and> k \<le> 3 \<and> (\<forall>m. r = Inr m \<longrightarrow> m = k)"
proof -
  let ?q = "Curl_bufq_init2 2 2 BUFQ_OPT_NONE" and ?e = "\<lparr>pool = Curl_bufcp_init 2 1, script = []\<rparr>"
  let ?wr = "\<lambda>ctx buf. (ctx @ take 1 buf, Inr (length (take 1 buf)) :: CURLcode + nat)"
  obtain r0 q e where w: "Curl_bufq_write ?q ?e [1, 2, 3] = (r0, q, e)" by (cases "Curl_bufq_write ?q ?e [1, 2, 3]")
  have "case Curl_bufq_write ?q ?e [1, 2, 3] of (r0, q, e) \<Rightarrow> r0 = Inr 3 \<and> bufq_content q = [1, 2, 3]" by code_simp
  then have c: "r0 = Inr 3" "bufq_content q = [1, 2, 3]" using w by simp_all
  have i: "bufq_inv q e" using write_spec [OF bufq_inv_init2 w] by simp
  have "honest_writer ?wr (\<lambda>ctx. ctx)" by (auto simp: honest_writer_def min_def)
  from bufq_pass_exact [OF i this, of "[]"] obtain r q' e' ctx' k where
    "Curl_bufq_pass ?wr q e [] = Some (r, q', e', ctx')" "bufq_inv q' e'" "ctx' = [] @ take k (bufq_content q)"
    "bufq_content q' = drop k (bufq_content q)" "k \<le> length (bufq_content q)" "\<forall>m. r = Inr m \<longrightarrow> m = k" by blast
  then show ?thesis using w c by (intro exI [of _ q] exI [of _ e] exI [of _ r] exI [of _ q'] exI [of _ e'] exI [of _ ctx'] exI [of _ k]) simp
qed

subsection \<open>Slurping from a reader\<close>

text \<open>
  A reader that keeps its contract delivers at most as many bytes as were asked for;
  \<open>produced\<close> is what it has delivered so far.
\<close>

definition honest_reader :: "'r reader \<Rightarrow> ('r \<Rightarrow> byte list) \<Rightarrow> bool" where
  "honest_reader rd produced \<longleftrightarrow>
     (\<forall>ctx n ctx' r. rd ctx n = (ctx', r) \<longrightarrow>
        (case r of
           Inl err \<Rightarrow> produced ctx' = produced ctx
         | Inr bs \<Rightarrow> length bs \<le> n \<and> produced ctx' = produced ctx @ bs))"

lemma chunk_slurpn_spec:
  assumes "honest_reader rd produced" "chunk_ok n c" "chunk_slurpn c max_len rd ctx = (r, c', ctx')"
  shows "chunk_ok n c' \<and>
    (\<exists>bs. chunk_peek c' = chunk_peek c @ bs \<and> produced ctx' = produced ctx @ bs \<and>
      chunk_space c = chunk_space c' + length bs \<and>
      (\<forall>k. r = Inr k \<longrightarrow> k = length bs \<and> (max_len \<noteq> 0 \<longrightarrow> k \<le> max_len)) \<and>
      (\<forall>err. r = Inl err \<longrightarrow> bs = []))"
proof (cases "dlen c - w_offset c = 0")
  case True
  with assms show ?thesis by (auto simp: chunk_slurpn_def)
next
  case False
  define k where "k = (if max_len \<noteq> 0 \<and> dlen c - w_offset c > max_len then max_len else dlen c - w_offset c)"
  obtain ctx1 s where rd: "rd ctx k = (ctx1, s)" by (cases "rd ctx k")
  have h: "case s of Inl err \<Rightarrow> produced ctx1 = produced ctx
      | Inr bs \<Rightarrow> length bs \<le> k \<and> produced ctx1 = produced ctx @ bs"
    using assms(1) rd unfolding honest_reader_def by blast
  show ?thesis
  proof (cases s)
    case (Inl err)
    with assms(2,3) False rd h show ?thesis by (auto simp: chunk_slurpn_def Let_def k_def)
  next
    case (Inr bs)
    have r: "r = Inr (length bs)" "ctx' = ctx1"
      "c' = c\<lparr>data := mem_write (data c) (w_offset c) bs, w_offset := w_offset c + length bs\<rparr>"
      using assms(3) False rd Inr by (auto simp: chunk_slurpn_def Let_def k_def)
    have l: "w_offset c + length bs \<le> n" "max_len \<noteq> 0 \<longrightarrow> length bs \<le> max_len"
      "produced ctx1 = produced ctx @ bs"
      using h Inr assms(2) False by (auto simp: k_def chunk_ok_def split: if_splits)
    have "w_offset c + length bs \<le> length (data c)" using l assms(2) by (simp add: chunk_ok_def)
    then have "take (w_offset c + length bs) (mem_write (data c) (w_offset c) bs) = take (w_offset c) (data c) @ bs"
      "length (mem_write (data c) (w_offset c) bs) = length (data c)"
      by (simp_all add: mem_write_def)
    moreover have "r_offset c \<le> w_offset c" "r_offset c \<le> length (take (w_offset c) (data c))"
      using assms(2) by (auto simp: chunk_ok_def)
    ultimately have "chunk_peek c' = chunk_peek c @ bs" "chunk_ok n c'"
      using assms(2) l(1) r(3) by (auto simp: chunk_peek_def chunk_ok_def simp flip: drop_take)
    then show ?thesis using r l assms(2) by (auto simp: chunk_space_def chunk_ok_def)
  qed
qed

lemma sipn_spec:
  assumes "honest_reader rd produced" "bufq_inv q e"
    "Curl_bufq_sipn rd q e ctx max_len = (r, q', e', ctx')"
  shows "bufq_inv q' e' \<and> same_conf q q' \<and>
    (\<exists>bs. bufq_content q' = bufq_content q @ bs \<and> produced ctx' = produced ctx @ bs \<and>
      (\<not> soft q \<longrightarrow> Curl_bufq_space q = Curl_bufq_space q' + length bs) \<and>
      (\<forall>k. r = Inr k \<longrightarrow> k = length bs \<and> (max_len \<noteq> 0 \<longrightarrow> k \<le> max_len)) \<and>
      (\<forall>err. r = Inl err \<longrightarrow> bs = []))"
proof -
  obtain ok q1 e1 where t: "get_non_full_tail q e = (ok, q1, e1)" by (cases "get_non_full_tail q e")
  note ts = get_non_full_tail_ok [OF assms(2) t]
  show ?thesis
  proof (cases ok)
    case False
    then have "q' = q1" "e' = e1" "ctx' = ctx" "\<exists>err. r = Inl err"
      using assms(3) t by (auto simp: Curl_bufq_sipn_def split: if_splits)
    with ts False show ?thesis by auto
  next
    case True
    obtain s c' ctx1 where s: "chunk_slurpn (last (chunks q1)) max_len rd ctx = (s, c', ctx1)"
      by (cases "chunk_slurpn (last (chunks q1)) max_len rd ctx")
    have res: "r = s" "q' = set_tail c' q1" "e' = e1" "ctx' = ctx1"
      using assms(3) t True s by (auto simp: Curl_bufq_sipn_def)
    obtain cs d where cs: "chunks q1 = cs @ [d]"
      using ts True by (cases "chunks q1" rule: rev_cases) auto
    have inv1: "bufq_inv q1 e1" "same_conf q q1" "bufq_content q1 = bufq_content q"
      "\<not> soft q \<longrightarrow> Curl_bufq_space q1 = Curl_bufq_space q" using ts True by auto
    have "chunk_ok (chunk_size q1) (last (chunks q1))" using inv1(1) cs by (auto simp: bufq_inv_def chunks_ok_def)
    note cp = chunk_slurpn_spec [OF assms(1) this s]
    then obtain bs where bs: "chunk_peek c' = chunk_peek d @ bs" "produced ctx1 = produced ctx @ bs"
      "chunk_space d = chunk_space c' + length bs"
      "\<forall>k. s = Inr k \<longrightarrow> k = length bs \<and> (max_len \<noteq> 0 \<longrightarrow> k \<le> max_len)" "\<forall>err. s = Inl err \<longrightarrow> bs = []"
      using cs by auto
    have "bufq_inv q' e'" using set_tail_ok [OF inv1(1)] cs cp res by simp
    moreover have "same_conf q q'" using inv1(2) res by (simp add: same_conf_def set_tail_def)
    moreover have "bufq_content q' = bufq_content q @ bs"
      using inv1(3) bs(1) cs res by (simp add: bufq_content_def set_tail_def flip: inv1(3))
    moreover have "\<not> soft q \<longrightarrow> Curl_bufq_space q = Curl_bufq_space q' + length bs"
      using inv1(4) bs(3) cs res by (auto simp: bufq_space_hard hard_space_def set_tail_def)
    ultimately show ?thesis using bs(2,4,5) res by blast
  qed
qed

lemma slurp_loop_spec:
  assumes "honest_reader rd produced"
  shows "bufq_inv q e \<Longrightarrow> max_len \<noteq> 0 \<or> \<not> soft q \<Longrightarrow>
    \<exists>r q' e' ctx' bs. bufq_slurp_loop rd q e ctx max_len n = Some (r, q', e', ctx') \<and>
      bufq_inv q' e' \<and> same_conf q q' \<and> produced ctx' = produced ctx @ bs \<and> bufq_content q' = bufq_content q @ bs \<and>
      (\<forall>m. r = Inr m \<longrightarrow> m = n + length bs) \<and> (max_len \<noteq> 0 \<longrightarrow> length bs \<le> max_len)"
proof (induction "if max_len \<noteq> 0 then max_len else Curl_bufq_space q" arbitrary: q e ctx max_len n rule: less_induct)
  case less
  obtain s q1 e1 ctx1 where si: "Curl_bufq_sipn rd q e ctx max_len = (s, q1, e1, ctx1)"
    by (cases "Curl_bufq_sipn rd q e ctx max_len")
  from sipn_spec [OF assms less.prems(1) si] obtain bs where
    s: "bufq_inv q1 e1" "same_conf q q1" "bufq_content q1 = bufq_content q @ bs" "produced ctx1 = produced ctx @ bs"
      "\<not> soft q \<longrightarrow> Curl_bufq_space q = Curl_bufq_space q1 + length bs"
      "\<forall>k. s = Inr k \<longrightarrow> k = length bs \<and> (max_len \<noteq> 0 \<longrightarrow> k \<le> max_len)" "\<forall>err. s = Inl err \<longrightarrow> bs = []"
    by blast
  show ?case
  proof (cases s)
    case (Inl err)
    with si s show ?thesis by (subst bufq_slurp_loop.simps) auto
  next
    case (Inr k)
    with s(6) have k: "k = length bs" "max_len \<noteq> 0 \<longrightarrow> k \<le> max_len" by auto
    show ?thesis
    proof (cases "k = 0 \<or> max_len \<noteq> 0 \<and> max_len - k = 0 \<or> chunks q1 \<noteq> [] \<and> \<not> chunk_is_full (last (chunks q1))")
      case True
      then have "bufq_slurp_loop rd q e ctx max_len n = Some (Inr (n + k), q1, e1, ctx1)"
        using si Inr by (subst bufq_slurp_loop.simps) auto
      with s(1-4) k show ?thesis
        by (intro exI [of _ "Inr (n + k)"] exI [of _ q1] exI [of _ e1] exI [of _ ctx1] exI [of _ bs]) simp
    next
      case False
      have soft1: "soft q1 \<longleftrightarrow> soft q" using s(2) by (simp add: same_conf_def)
      have "(if max_len - k \<noteq> 0 then max_len - k else Curl_bufq_space q1) <
          (if max_len \<noteq> 0 then max_len else Curl_bufq_space q)"
        using False k less.prems(2) s(5) by auto
      moreover have "max_len - k \<noteq> 0 \<or> \<not> soft q1" using False less.prems(2) soft1 by auto
      ultimately have "\<exists>r q' e' ctx' bs. bufq_slurp_loop rd q1 e1 ctx1 (max_len - k) (n + k) = Some (r, q', e', ctx') \<and>
          bufq_inv q' e' \<and> same_conf q1 q' \<and> produced ctx' = produced ctx1 @ bs \<and> bufq_content q' = bufq_content q1 @ bs \<and>
          (\<forall>m. r = Inr m \<longrightarrow> m = n + k + length bs) \<and> (max_len - k \<noteq> 0 \<longrightarrow> length bs \<le> max_len - k)"
        by (rule less.hyps [OF _ s(1)])
      then obtain r q' e' ctx' cs where
        r: "bufq_slurp_loop rd q1 e1 ctx1 (max_len - k) (n + k) = Some (r, q', e', ctx')" "bufq_inv q' e'"
          "same_conf q1 q'" "produced ctx' = produced ctx1 @ cs" "bufq_content q' = bufq_content q1 @ cs"
          "\<forall>m. r = Inr m \<longrightarrow> m = n + k + length cs" "max_len - k \<noteq> 0 \<longrightarrow> length cs \<le> max_len - k"
        by blast
      have "bufq_slurp_loop rd q e ctx max_len n = Some (r, q', e', ctx')"
        using si Inr False r(1) by (subst bufq_slurp_loop.simps) auto
      moreover have "same_conf q q'" using s(2) r(3) by (rule same_conf_trans)
      moreover have "produced ctx' = produced ctx @ bs @ cs" "bufq_content q' = bufq_content q @ bs @ cs"
        using r(4,5) s(3,4) by simp_all
      moreover have "\<forall>m. r = Inr m \<longrightarrow> m = n + length (bs @ cs)"
      proof (intro allI impI)
        fix m
        assume "r = Inr m"
        with r(6) have "m = n + k + length cs" by blast
        then show "m = n + length (bs @ cs)" using k(1) by simp
      qed
      moreover have "max_len \<noteq> 0 \<longrightarrow> length (bs @ cs) \<le> max_len"
      proof
        assume "max_len \<noteq> 0"
        then have "k < max_len" using False k(2) by simp
        then show "length (bs @ cs) \<le> max_len" using r(7) k(1) by simp
      qed
      ultimately show ?thesis using r(2) by blast
    qed
  qed
qed

text \<open>
  C22. Slurping from a reader that keeps its contract ends whenever a length is given or
  the queue has a hard limit; the queue gained exactly the bytes the reader delivered, in
  order, at most as many as asked for, and a result that is not an error counts them.
\<close>

theorem bufq_slurp_exact:
  assumes "bufq_inv q e" "honest_reader rd produced" "max_len \<noteq> 0 \<or> opts q AND BUFQ_OPT_SOFT_LIMIT = 0"
  shows "\<exists>r q' e' ctx' bs. bufq_slurpn rd q e ctx max_len = Some (r, q', e', ctx') \<and> bufq_inv q' e' \<and>
    produced ctx' = produced ctx @ bs \<and> bufq_content q' = bufq_content q @ bs \<and>
    (\<forall>m. r = Inr m \<longrightarrow> m = length bs) \<and> (max_len \<noteq> 0 \<longrightarrow> length bs \<le> max_len)"
  using slurp_loop_spec [OF assms(2,1), of max_len ctx 0] assms(3) by (fastforce simp: bufq_slurpn_def)

theorem bufq_slurp_exact_witness:
  "\<exists>r q' e' ctx' bs. bufq_slurpn (\<lambda>ctx n. (ctx @ replicate n 7, Inr (replicate n 7)))
      (Curl_bufq_init2 2 2 BUFQ_OPT_NONE) \<lparr>pool = Curl_bufcp_init 2 1, script = []\<rparr> [] 3 = Some (r, q', e', ctx') \<and>
    bufq_inv q' e' \<and> ctx' = [] @ bs \<and>
    bufq_content q' = bufq_content (Curl_bufq_init2 2 2 BUFQ_OPT_NONE) @ bs \<and>
    (\<forall>m. r = Inr m \<longrightarrow> m = length bs) \<and> ((3 :: nat) \<noteq> 0 \<longrightarrow> length bs \<le> 3)"
  by (rule bufq_slurp_exact [where produced = "\<lambda>ctx. ctx"])
    (auto simp: bufq_inv_init2 honest_reader_def)

text \<open>
  A queue with the soft limit never blocks, so a failed allocation is always reported
  as out of memory by a write; reading from a reader into a soft queue that is past its
  limit reports the same failure as \<open>CURLE_AGAIN\<close>.
\<close>

lemma bufq_sipn_masks_out_of_memory:
  "let q = (Curl_bufq_init2 1 1 BUFQ_OPT_SOFT_LIMIT);
       e = \<lparr>pool = Curl_bufcp_init 1 1, script = [True, False]\<rparr>;
       (_, q1, e1) = Curl_bufq_write q e [1]
   in fst (Curl_bufq_write q1 e1 [2]) = Inl CURLE_OUT_OF_MEMORY \<and>
      fst (Curl_bufq_sipn (\<lambda>ctx n. (ctx, Inr [2])) q1 e1 () 0) = Inl CURLE_AGAIN"
  by code_simp

end
