(* ===== verification/Strtoofft.thy ===== *)
theory Strtoofft
  imports Ctype
begin

text \<open>
  The number parser of \<open>strtoofft.c\<close>: \<open>curlx_strtoofft\<close> on the library's own
  \<open>strtooff\<close>. The string is the list of its bytes before the terminating zero, so \<open>at s i\<close>
  is \<open>s[i]\<close>; \<open>*endp\<close> is given as the offset from the start. A \<open>curl_off_t\<close> is an integer
  and \<open>strtooff_digits_bounds\<close> shows that no step of the loop leaves its range.
\<close>

datatype CURLofft = CURL_OFFT_OK | CURL_OFFT_FLOW | CURL_OFFT_INVAL

definition CURL_OFF_T_MAX :: int where "CURL_OFF_T_MAX = 0x7FFFFFFFFFFFFFFF"
definition CURL_OFF_T_MIN :: int where "CURL_OFF_T_MIN = - CURL_OFF_T_MAX - 1"

definition get_char :: "byte \<Rightarrow> int \<Rightarrow> int" where
  "get_char c base =
     (let value =
        (if c \<le> 0x39 \<and> c \<ge> 0x30 then uint c - 0x30
         else if c \<le> 0x5A \<and> c \<ge> 0x41 then uint c - 0x41 + 10
         else if c \<le> 0x7A \<and> c \<ge> 0x61 then uint c - 0x61 + 10
         else - 1)
      in if value \<ge> base then - 1 else value)"

text \<open>The loop over the digits: whether it overflowed, the value, and where it stopped.\<close>

fun strtooff_digits :: "byte list \<Rightarrow> int \<Rightarrow> int \<Rightarrow> nat \<Rightarrow> bool \<times> int \<times> nat" where
  "strtooff_digits [] base value end = (False, value, end)"
| "strtooff_digits (c # cs) base value end =
     (let i = get_char c base
      in if i = - 1 then (False, value, end)
         else if value > (CURL_OFF_T_MAX - i) div base then (True, value, end)
         else strtooff_digits cs base (base * value + i) (end + 1))"

text \<open>The special beginnings \<open>0x\<close> and \<open>0\<close>: where the digits start, and the base then.\<close>

definition strtooff_prefix :: "byte list \<Rightarrow> nat \<Rightarrow> int \<Rightarrow> nat \<times> int" where
  "strtooff_prefix nptr end base =
     (if at nptr end = 0x30 \<and> at nptr (end + 1) = 0x78 then
        (if base = 16 \<or> base = 0 then (end + 2, 16) else (end, base))
      else if at nptr end = 0x30 then
        (if base = 8 \<or> base = 0 then (end + 1, 8) else (end, base))
      else (end, base))"

text \<open>
  The value, where the parser stopped, and whether it set \<open>errno\<close> to \<open>ERANGE\<close>.
\<close>

definition strtooff :: "byte list \<Rightarrow> int \<Rightarrow> int \<times> nat \<times> bool" where
  "strtooff nptr base =
     (let end = length (takeWhile ISBLANK nptr);
          is_negative = (at nptr end = 0x2D);
          signed = (is_negative \<or> at nptr end = 0x2B)
      in if \<not> signed \<and> end = length nptr then (0, end, False)
         else
           let end = (if signed then end + 1 else end);
               (end, base) = strtooff_prefix nptr end base;
               base = (if base = 0 then 10 else base);
               (overflow, value, end) = strtooff_digits (drop end nptr) base 0 end
           in (if \<not> overflow then (if is_negative then value * - 1 else value)
               else if is_negative then CURL_OFF_T_MIN else CURL_OFF_T_MAX,
               end, overflow))"

definition curlx_strtoofft :: "byte list \<Rightarrow> int \<Rightarrow> CURLofft \<times> nat \<times> int" where
  "curlx_strtoofft str base =
     (let skipped = length (takeWhile ISBLANK str);
          str = drop skipped str
      in if at str 0 = 0x2D \<or> ISSPACE (at str 0) then (CURL_OFFT_INVAL, skipped, 0)
         else
           let (number, end, erange) = strtooff str base
           in if erange then (CURL_OFFT_FLOW, skipped + end, 0)
              else if end = 0 then (CURL_OFFT_INVAL, skipped + end, 0)
              else (CURL_OFFT_OK, skipped + end, number))"

subsection \<open>The value of a digit string\<close>

definition is_digit :: "int \<Rightarrow> byte \<Rightarrow> bool" where
  "is_digit base c \<longleftrightarrow> get_char c base \<noteq> - 1"

definition digits_value :: "int \<Rightarrow> byte list \<Rightarrow> int" where
  "digits_value base ds = foldl (\<lambda>v c. base * v + get_char c base) 0 ds"

lemma digits_value_Nil [simp]: "digits_value base [] = 0"
  by (simp add: digits_value_def)

lemma digits_value_snoc [simp]:
  "digits_value base (ds @ [c]) = base * digits_value base ds + get_char c base"
  by (simp add: digits_value_def)

lemma get_char_range: "get_char c base = - 1 \<or> 0 \<le> get_char c base \<and> get_char c base < base"
  by (auto simp: get_char_def Let_def word_le_def)

lemma is_digit_range: "is_digit base c \<Longrightarrow> 0 \<le> get_char c base \<and> get_char c base < base"
  using get_char_range by (auto simp: is_digit_def)

lemma nul_not_digit [simp]: "\<not> is_digit base 0"
  by (simp add: is_digit_def get_char_def)

lemma digit_not_blank: "is_digit base c \<Longrightarrow> \<not> ISBLANK c \<and> \<not> ISSPACE c \<and> c \<noteq> 0x2D \<and> c \<noteq> 0x2B"
  by (auto simp: is_digit_def get_char_def ctype_defs word_le_nat_alt)

lemma digits_value_nonneg:
  "0 < base \<Longrightarrow> \<forall>c \<in> set ds. is_digit base c \<Longrightarrow> 0 \<le> digits_value base ds"
  by (induction ds rule: rev_induct) (auto dest: is_digit_range)

lemma digits_value_mono:
  assumes "0 < base" "\<forall>c \<in> set (ds @ es). is_digit base c"
  shows "digits_value base ds \<le> digits_value base (ds @ es)"
  using assms(2)
proof (induction es rule: rev_induct)
  case (snoc e es)
  then have "digits_value base ds \<le> digits_value base (ds @ es)" by simp
  moreover have "0 \<le> digits_value base (ds @ es)"
    using snoc.prems assms(1) by (intro digits_value_nonneg) auto
  moreover have "digits_value base (ds @ es) \<le> base * digits_value base (ds @ es)"
    using assms(1) calculation(2) by (simp add: mult_le_cancel_right1)
  moreover have "0 \<le> get_char e base" using snoc.prems is_digit_range by simp
  ultimately show ?case using digits_value_snoc [of base "ds @ es" e] by simp
qed simp

lemma overflow_iff:
  fixes v :: int
  assumes "0 < base"
  shows "v > (CURL_OFF_T_MAX - i) div base \<longleftrightarrow> base * v + i > CURL_OFF_T_MAX"
proof -
  let ?x = "CURL_OFF_T_MAX - i"
  have "v * base \<le> ?x" if "v \<le> ?x div base"
  proof -
    have "v * base \<le> (?x div base) * base" using that assms by simp
    also have "\<dots> = ?x - ?x mod base" by (rule minus_mod_eq_div_mult [symmetric])
    also have "\<dots> \<le> ?x" using pos_mod_sign [OF assms, of ?x] by linarith
    finally show ?thesis .
  qed
  moreover have "v \<le> ?x div base" if "v * base \<le> ?x"
    using zdiv_mono1 [OF that assms] assms by simp
  ultimately have "v \<le> ?x div base \<longleftrightarrow> v * base \<le> ?x" by blast
  then show ?thesis by (auto simp: mult.commute)
qed

text \<open>
  The loop reads the longest prefix of digits, or stops at the digit with which the value
  would leave the range.
\<close>

lemma strtooff_digits_spec:
  assumes "0 < base" "\<forall>c \<in> set ds. is_digit base c" "ds = es @ fs"
    "digits_value base es \<le> CURL_OFF_T_MAX" "rest = [] \<or> \<not> is_digit base (hd rest)"
  shows "if digits_value base ds \<le> CURL_OFF_T_MAX
    then strtooff_digits (fs @ rest) base (digits_value base es) n = (False, digits_value base ds, n + length fs)
    else fst (strtooff_digits (fs @ rest) base (digits_value base es) n)"
  using assms(3,4)
proof (induction fs arbitrary: es n)
  case Nil
  then show ?case using assms(5) by (cases rest) (auto simp: is_digit_def)
next
  case (Cons f fs)
  have f: "get_char f base \<noteq> - 1" using Cons.prems(1) assms(2) by (simp add: is_digit_def)
  show ?case
  proof (cases "digits_value base (es @ [f]) \<le> CURL_OFF_T_MAX")
    case True
    then show ?thesis
      using Cons.IH [of "es @ [f]" "n + 1"] Cons.prems f overflow_iff [OF assms(1)]
      by (auto simp: Let_def not_le not_less)
  next
    case False
    have "digits_value base (es @ [f]) \<le> digits_value base ds"
      using digits_value_mono [OF assms(1), of "es @ [f]" fs] assms(2) Cons.prems(1) by simp
    with False have "\<not> digits_value base ds \<le> CURL_OFF_T_MAX" by simp
    moreover have "fst (strtooff_digits ((f # fs) @ rest) base (digits_value base es) n)"
      using f False overflow_iff [OF assms(1)] by (simp add: Let_def)
    ultimately show ?thesis by simp
  qed
qed

text \<open>Whatever the input, every value the loop computes is in the range of \<open>curl_off_t\<close>.\<close>

lemma strtooff_digits_bounds:
  assumes "0 < base"
  shows "0 \<le> v \<Longrightarrow> v \<le> CURL_OFF_T_MAX \<Longrightarrow> strtooff_digits cs base v n = (ovf, v', m) \<Longrightarrow>
    0 \<le> v' \<and> v' \<le> CURL_OFF_T_MAX \<and> n \<le> m \<and> m \<le> n + length cs"
proof (induction cs arbitrary: v n)
  case (Cons c cs)
  show ?case
  proof (cases "get_char c base = - 1 \<or> base * v + get_char c base > CURL_OFF_T_MAX")
    case True
    with Cons.prems overflow_iff [OF assms] show ?thesis by (auto simp: Let_def split: if_splits)
  next
    case False
    have "strtooff_digits cs base (base * v + get_char c base) (n + 1) = (ovf, v', m)"
      using Cons.prems(3) False overflow_iff [OF assms, of "get_char c base" v] by (simp add: Let_def)
    moreover have "0 \<le> base * v + get_char c base"
      using False get_char_range [of c base] Cons.prems(1) assms by simp
    ultimately show ?thesis using Cons.IH [of "base * v + get_char c base" "n + 1"] False by auto
  qed
qed simp

lemma strtooff_range:
  assumes "base = 0 \<or> 2 \<le> base" "strtooff s base = (v, end, ovf)"
  shows "CURL_OFF_T_MIN \<le> v \<and> v \<le> CURL_OFF_T_MAX \<and> (at s (length (takeWhile ISBLANK s)) \<noteq> 0x2D \<longrightarrow> 0 \<le> v)"
proof -
  have D: "0 \<le> v \<and> v \<le> CURL_OFF_T_MAX" if "strtooff_digits cs b 0 n = (ovf, v, m)" "0 < b" for cs b n ovf v m
    using strtooff_digits_bounds [OF that(2) _ _ that(1)] by (simp add: CURL_OFF_T_MAX_def)
  show ?thesis
    using assms
    by (auto simp: strtooff_def strtooff_prefix_def Let_def CURL_OFF_T_MIN_def split: prod.splits if_splits dest!: D)
      (auto simp: CURL_OFF_T_MAX_def)
qed

lemma strtooff_number:
  assumes base: "2 \<le> base" and ds: "ds \<noteq> []" "\<forall>c \<in> set ds. is_digit base c"
    and rest: "rest = [] \<or> \<not> is_digit base (hd rest)"
    and no0x: "\<not> (base = 16 \<and> ds = [0x30] \<and> at rest 0 = 0x78)"
  shows "if digits_value base ds \<le> CURL_OFF_T_MAX
    then strtooff (ds @ rest) base = (digits_value base ds, length ds, False)
    else snd (snd (strtooff (ds @ rest) base))"
proof -
  obtain d es where d: "ds = d # es" using ds(1) by (cases ds) auto
  have nb: "\<not> ISBLANK d" "d \<noteq> 0x2D" "d \<noteq> 0x2B" using digit_not_blank [of base d] ds(2) d by auto
  have h: "takeWhile ISBLANK (ds @ rest) = []" "at (ds @ rest) 0 = d" using nb d by simp_all
  have nx: "\<not> (base = 16 \<and> at (ds @ rest) 0 = 0x30 \<and> at (ds @ rest) 1 = 0x78)"
  proof (cases es)
    case Nil
    with no0x d show ?thesis by auto
  next
    case (Cons e es')
    have "is_digit 16 e \<Longrightarrow> e \<noteq> 0x78" by (auto simp: is_digit_def get_char_def)
    with ds(2) d Cons show ?thesis by auto
  qed
  have pos: "0 < base" using base by simp
  define k :: nat where "k = (if at (ds @ rest) 0 = 0x30 \<and> at (ds @ rest) 1 \<noteq> 0x78 \<and> base = 8 then 1 else 0)"
  have run: "strtooff (ds @ rest) base =
      (case strtooff_digits (drop k (ds @ rest)) base 0 k of
         (overflow, value, end) \<Rightarrow> (if \<not> overflow then value else CURL_OFF_T_MAX, end, overflow))"
  proof -
    let ?s = "ds @ rest"
    have m: "at ?s 0 \<noteq> 0x2D" "at ?s 0 \<noteq> 0x2B" "ds \<noteq> []" "base \<noteq> 0" using h(2) nb base d by simp_all
    have p: "strtooff_prefix ?s 0 base = (k, base)"
      using nx m(4) by (auto simp: k_def strtooff_prefix_def)
    show ?thesis
      unfolding strtooff_def Let_def h(1) using m p by (simp del: drop_append split: prod.splits)
  qed
  have k: "digits_value base (take k ds) = 0" "k \<le> length ds"
    using d by (auto simp: k_def digits_value_def get_char_def)
  have "0 \<le> CURL_OFF_T_MAX" by (simp add: CURL_OFF_T_MAX_def)
  then have le: "digits_value base (take k ds) \<le> CURL_OFF_T_MAX" using k(1) by simp
  have "ds = take k ds @ drop k ds" by simp
  from strtooff_digits_spec [OF pos ds(2) this le rest, of k] k run show ?thesis
    by (auto split: prod.splits if_splits)
qed

lemma takeWhile_dropWhile: "takeWhile P (dropWhile P s) = []"
  by (induction s) auto

lemma drop_blanks:
  assumes "\<forall>c \<in> set bl. ISBLANK c" "s = [] \<or> \<not> ISBLANK (hd s)"
  shows "takeWhile ISBLANK (bl @ s) = bl"
  using assms by (cases s) (auto simp: takeWhile_append)

lemma curlx_strtoofft_number:
  assumes "2 \<le> base" "\<forall>c \<in> set bl. ISBLANK c" "ds \<noteq> []" "\<forall>c \<in> set ds. is_digit base c"
    "rest = [] \<or> \<not> is_digit base (hd rest)" "\<not> (base = 16 \<and> ds = [0x30] \<and> at rest 0 = 0x78)"
  shows "if digits_value base ds \<le> CURL_OFF_T_MAX
    then curlx_strtoofft (bl @ ds @ rest) base = (CURL_OFFT_OK, length bl + length ds, digits_value base ds)
    else \<exists>end. curlx_strtoofft (bl @ ds @ rest) base = (CURL_OFFT_FLOW, end, 0)"
proof -
  obtain d es where d: "ds = d # es" using assms(3) by (cases ds) auto
  have nb: "\<not> ISBLANK d" "\<not> ISSPACE d" "d \<noteq> 0x2D" using digit_not_blank [of base d] assms(4) d by auto
  have h: "takeWhile ISBLANK (bl @ ds @ rest) = bl"
    using assms(2) nb d by (intro drop_blanks) auto
  obtain v k e where r: "strtooff (ds @ rest) base = (v, k, e)" by (cases "strtooff (ds @ rest) base")
  have "at (ds @ rest) 0 = d" using d by simp
  with strtooff_number [OF assms(1,3-6)] h nb r d show ?thesis
    by (auto simp: curlx_strtoofft_def Let_def split: if_splits)
qed

lemma curlx_strtoofft_range:
  assumes "base = 0 \<or> 2 \<le> base" "curlx_strtoofft s base = (r, end, num)"
  shows "0 \<le> num \<and> num \<le> CURL_OFF_T_MAX \<and> (r = CURL_OFFT_OK \<or> num = 0)"
proof (cases "r = CURL_OFFT_OK")
  case True
  define t where "t = drop (length (takeWhile ISBLANK s)) s"
  obtain v k e where r: "strtooff t base = (v, k, e)" by (cases "strtooff t base")
  have v: "num = v" "at t 0 \<noteq> 0x2D"
    using assms(2) True r by (auto simp: curlx_strtoofft_def Let_def t_def split: if_splits)
  have "t = dropWhile ISBLANK s" unfolding t_def by (rule dropWhile_eq_drop [symmetric])
  then have "takeWhile ISBLANK t = []" by (simp add: takeWhile_dropWhile)
  with strtooff_range [OF assms(1) r] v True show ?thesis by simp
next
  case False
  with assms(2) have "num = 0"
    by (auto simp: curlx_strtoofft_def Let_def split: prod.splits if_splits)
  then show ?thesis by (simp add: CURL_OFF_T_MAX_def)
qed

text \<open>The parser does not run past the terminating zero.\<close>

lemma at_inside: "at s i \<noteq> 0 \<Longrightarrow> i < length s"
  by (rule ccontr) (simp add: at_def)

lemma strtooff_digits_end: "strtooff_digits cs base v n = (ovf, v', m) \<Longrightarrow> m \<le> n + length cs"
  by (induction cs arbitrary: v n) (force simp: Let_def split: if_splits)+

lemma strtooff_prefix_end:
  assumes "strtooff_prefix s n base = (k, b)" "n \<le> length s"
  shows "k \<le> length s"
  using assms at_inside [of s n] at_inside [of s "n + 1"] by (auto simp: strtooff_prefix_def split: if_splits)

lemma strtooff_end:
  assumes "strtooff s base = (v, e, ovf)"
  shows "e \<le> length s"
proof -
  define n where "n = length (takeWhile ISBLANK s)"
  define sg where "sg \<longleftrightarrow> at s n = 0x2D \<or> at s n = 0x2B"
  define n' where "n' = (if sg then n + 1 else n)"
  have "n \<le> length s" by (simp add: n_def length_takeWhile_le)
  moreover have "n < length s" if sg using that at_inside [of s n] by (auto simp: sg_def)
  ultimately have n': "n' \<le> length s" by (auto simp: n'_def)
  obtain k b where k: "strtooff_prefix s n' base = (k, b)" by (cases "strtooff_prefix s n' base")
  obtain ov v' m where d: "strtooff_digits (drop k s) (if b = 0 then 10 else b) 0 k = (ov, v', m)"
    by (cases "strtooff_digits (drop k s) (if b = 0 then 10 else b) 0 k")
  have "m \<le> length s" using strtooff_digits_end [OF d] strtooff_prefix_end [OF k n'] by simp
  moreover have "e = (if \<not> sg \<and> n = length s then n else m)"
    using assms k d unfolding strtooff_def Let_def n_def [symmetric] sg_def [symmetric] n'_def [symmetric]
    by (auto split: if_splits)
  ultimately show ?thesis by (auto split: if_splits)
qed

lemma curlx_strtoofft_end:
  assumes "curlx_strtoofft s base = (r, end, num)"
  shows "end \<le> length s"
proof -
  define n where "n = length (takeWhile ISBLANK s)"
  have n: "n \<le> length s" by (simp add: n_def length_takeWhile_le)
  obtain v e ovf where z: "strtooff (drop n s) base = (v, e, ovf)" by (cases "strtooff (drop n s) base")
  have "e \<le> length s - n" using strtooff_end [OF z] by simp
  then show ?thesis using n assms z unfolding curlx_strtoofft_def Let_def n_def [symmetric]
    by (auto split: if_splits)
qed

subsection \<open>Properties\<close>

text \<open>
  A run of digits after optional blanks, up to a character that is no digit, is read as
  its value when that fits in 63 bits, with \<open>*endp\<close> behind the last digit; otherwise the
  result is \<open>CURL_OFFT_FLOW\<close> and the number is cleared.
\<close>

theorem strtoofft_number:
  assumes "2 \<le> base" "\<forall>c \<in> set bl. ISBLANK c" "ds \<noteq> []" "\<forall>c \<in> set ds. is_digit base c"
    "rest = [] \<or> \<not> is_digit base (hd rest)" "\<not> (base = 16 \<and> ds = [0x30] \<and> at rest 0 = 0x78)"
  shows "if digits_value base ds \<le> CURL_OFF_T_MAX
    then curlx_strtoofft (bl @ ds @ rest) base = (CURL_OFFT_OK, length bl + length ds, digits_value base ds)
    else \<exists>end. curlx_strtoofft (bl @ ds @ rest) base = (CURL_OFFT_FLOW, end, 0)"
  using assms by (rule curlx_strtoofft_number)

theorem strtoofft_number_witness:
  "if digits_value 16 [0x66, 0x46] \<le> CURL_OFF_T_MAX
    then curlx_strtoofft ([0x20] @ [0x66, 0x46] @ [0x3B]) 16 =
      (CURL_OFFT_OK, length [0x20 :: byte] + length [0x66 :: byte, 0x46], digits_value 16 [0x66, 0x46])
    else \<exists>end. curlx_strtoofft ([0x20] @ [0x66, 0x46] @ [0x3B]) 16 = (CURL_OFFT_FLOW, end, 0)"
  by (rule strtoofft_number) (simp_all add: is_digit_def get_char_def ISBLANK_def)

text \<open>
  C23. Whatever the string, a parsed number is not negative and fits in \<open>curl_off_t\<close>, only
  \<open>CURL_OFFT_OK\<close> gives a number that is not zero, and \<open>*endp\<close> is inside the string or at its end.
\<close>

theorem strtoofft_range:
  assumes "base = 0 \<or> 2 \<le> base"
  shows "case curlx_strtoofft s base of (r, end, num) \<Rightarrow>
    0 \<le> num \<and> num \<le> CURL_OFF_T_MAX \<and> (r = CURL_OFFT_OK \<or> num = 0) \<and> end \<le> length s"
proof -
  obtain r e num where z: "curlx_strtoofft s base = (r, e, num)" by (cases "curlx_strtoofft s base")
  with curlx_strtoofft_range [OF assms z] curlx_strtoofft_end [OF z] show ?thesis by simp
qed

text \<open>A number of twenty digits overflows.\<close>

theorem strtoofft_range_witness:
  "case curlx_strtoofft (s2b '' 99999999999999999999'') 10 of (r, end, num) \<Rightarrow>
    0 \<le> num \<and> num \<le> CURL_OFF_T_MAX \<and> (r = CURL_OFFT_OK \<or> num = 0) \<and>
    end \<le> length (s2b '' 99999999999999999999'')"
  by (rule strtoofft_range) simp

text \<open>
  A sign alone counts as a number: the string \<open>+\<close> is parsed as zero by the library's own
  \<open>strtooff\<close>, where \<open>CURL_OFFT_INVAL\<close> stands for a string with nothing to parse.
\<close>

lemma strtoofft_lone_plus: "curlx_strtoofft [0x2B] 10 = (CURL_OFFT_OK, 1, 0)"
  by code_simp

end
