(* ===== verification/HttpChunks.thy ===== *)
theory HttpChunks
  imports Strtoofft Dynbuf Bufq
begin

text \<open>
  HTTP/1.1 chunked transfer encoding, \<open>http_chunks.c\<close>: the decoder state machine
  \<open>httpchunk_readwrite\<close> with the client writer around it, and the encoding reader.

  Each state of the decoder's \<open>switch\<close> is a function \<open>chunk_...\<close> from the chunker and the
  call's variables to those after one turn of the loop, with \<open>Some\<close> code where the C code
  returns. The writers the decoder passes its output to are function pointers in the C
  code; here they are functions on a state of their own.
\<close>

subsection \<open>The chunker\<close>

datatype ChunkyState =
    CHUNK_HEX
  | CHUNK_LF
  | CHUNK_DATA
  | CHUNK_POSTLF
  | CHUNK_STOP
  | CHUNK_TRAILER
  | CHUNK_TRAILER_CR
  | CHUNK_TRAILER_POSTCR
  | CHUNK_DONE
  | CHUNK_FAILED

datatype CHUNKcode =
    CHUNKE_OK
  | CHUNKE_TOO_LONG_HEX
  | CHUNKE_ILLEGAL_HEX
  | CHUNKE_BAD_CHUNK
  | CHUNKE_BAD_ENCODING
  | CHUNKE_OUT_OF_MEMORY
  | CHUNKE_PASSTHRU_ERROR

definition CHUNK_MAXNUM_LEN :: nat where "CHUNK_MAXNUM_LEN = 8 * 2"
definition DYN_H1_TRAILER :: nat where "DYN_H1_TRAILER = 4096"

definition CLIENTWRITE_BODY :: int where "CLIENTWRITE_BODY = push_bit 0 1"
definition CLIENTWRITE_HEADER :: int where "CLIENTWRITE_HEADER = push_bit 2 1"
definition CLIENTWRITE_TRAILER :: int where "CLIENTWRITE_TRAILER = push_bit 6 1"
definition CLIENTWRITE_EOS :: int where "CLIENTWRITE_EOS = push_bit 7 1"

record Curl_chunker =
  datasize :: "64 word"
  state :: ChunkyState
  last_code :: CHUNKcode
  trailer :: dynbuf
  hexindex :: nat
  hexbuffer :: "byte list"
  ignore_body :: bool

definition Curl_httpchunk_init :: "Curl_chunker \<Rightarrow> bool \<Rightarrow> Curl_chunker" where
  "Curl_httpchunk_init ck ignore =
     ck\<lparr>hexindex := 0, state := CHUNK_HEX, last_code := CHUNKE_OK,
       trailer := Curl_dyn_init DYN_H1_TRAILER, ignore_body := ignore\<rparr>"

definition Curl_httpchunk_reset :: "Curl_chunker \<Rightarrow> bool \<Rightarrow> Curl_chunker" where
  "Curl_httpchunk_reset ck ignore =
     ck\<lparr>hexindex := 0, state := CHUNK_HEX, last_code := CHUNKE_OK,
       trailer := Curl_dyn_reset (trailer ck), ignore_body := ignore\<rparr>"

definition Curl_httpchunk_free :: "Curl_chunker \<Rightarrow> Curl_chunker" where
  "Curl_httpchunk_free ck = ck\<lparr>trailer := Curl_dyn_free (trailer ck)\<rparr>"

definition Curl_httpchunk_is_done :: "Curl_chunker \<Rightarrow> bool" where
  "Curl_httpchunk_is_done ck \<longleftrightarrow> state ck = CHUNK_DONE"

text \<open>Failing: the state and the code that says why.\<close>

definition chunk_fail :: "CHUNKcode \<Rightarrow> Curl_chunker \<Rightarrow> Curl_chunker" where
  "chunk_fail code ck = ck\<lparr>state := CHUNK_FAILED, last_code := code\<rparr>"

subsection \<open>One turn of the decoding loop\<close>

text \<open>
  The variables of a call: the input from \<open>buf\<close> on (\<open>blen\<close> is its length), \<open>*pconsumed\<close>,
  the state of the writers and the script of allocations.
\<close>

record 'w call =
  inp :: "byte list"
  pconsumed :: nat
  sink :: 'w
  allocs :: alloc_script

type_synonym 'w cwriter = "'w \<Rightarrow> int \<Rightarrow> byte list \<Rightarrow> CURLcode \<times> 'w"
type_synonym 'w turn = "CURLcode option \<times> Curl_chunker \<times> 'w call"

definition advance :: "nat \<Rightarrow> 'w call \<Rightarrow> 'w call" where
  "advance n io = io\<lparr>inp := drop n (inp io), pconsumed := pconsumed io + n\<rparr>"

definition curlx_sotouz :: "64 word \<Rightarrow> nat" where
  "curlx_sotouz sonum = unat (sonum AND mask 64)"

definition chunk_hex :: "Curl_chunker \<Rightarrow> 'w call \<Rightarrow> 'w turn" where
  "chunk_hex ck io =
     (let b = hd (inp io)
      in if ISXDIGIT b then
           (if hexindex ck \<ge> CHUNK_MAXNUM_LEN then
              (Some CURLE_RECV_ERROR, chunk_fail CHUNKE_TOO_LONG_HEX ck, io)
            else
              (None, ck\<lparr>hexbuffer := (hexbuffer ck)[hexindex ck := b], hexindex := hexindex ck + 1\<rparr>,
               advance 1 io))
         else if hexindex ck = 0 then
           (Some CURLE_RECV_ERROR, chunk_fail CHUNKE_ILLEGAL_HEX ck, io)
         else
           let ck = ck\<lparr>hexbuffer := (hexbuffer ck)[hexindex ck := 0]\<rparr>;
               (r, _, num) = curlx_strtoofft (cstr (hexbuffer ck)) 16;
               ck = ck\<lparr>datasize := word_of_int num\<rparr>
           in if r \<noteq> CURL_OFFT_OK then
                (Some CURLE_RECV_ERROR, chunk_fail CHUNKE_ILLEGAL_HEX ck, io)
              else (None, ck\<lparr>state := CHUNK_LF\<rparr>, io))"

definition chunk_lf :: "Curl_chunker \<Rightarrow> 'w call \<Rightarrow> 'w turn" where
  "chunk_lf ck io =
     (None,
      if hd (inp io) = 0x0A then
        ck\<lparr>state := if datasize ck = 0 then CHUNK_TRAILER else CHUNK_DATA\<rparr>
      else ck,
      advance 1 io)"

text \<open>A piece of the data is passed on and counted.\<close>

definition data_piece :: "'w cwriter \<Rightarrow> bool \<Rightarrow> nat \<Rightarrow> Curl_chunker \<Rightarrow> 'w call \<Rightarrow> 'w turn" where
  "data_piece wr te_skip piece ck io =
     (let (r, w) = (if \<not> te_skip \<and> \<not> ignore_body ck
                    then wr (sink io) CLIENTWRITE_BODY (take piece (inp io)) else (CURLE_OK, sink io))
      in if r \<noteq> CURLE_OK then (Some r, chunk_fail CHUNKE_PASSTHRU_ERROR ck, io\<lparr>sink := w\<rparr>)
         else
           let ck = ck\<lparr>datasize := datasize ck - word_of_nat piece\<rparr>
           in (None, if datasize ck = 0 then ck\<lparr>state := CHUNK_POSTLF\<rparr> else ck,
               advance piece (io\<lparr>sink := w\<rparr>)))"

definition chunk_data :: "'w cwriter \<Rightarrow> bool \<Rightarrow> Curl_chunker \<Rightarrow> 'w call \<Rightarrow> 'w turn" where
  "chunk_data wr te_skip ck io =
     (let blen = length (inp io);
          piece = (if sint (datasize ck) < int blen then curlx_sotouz (datasize ck) else blen)
      in data_piece wr te_skip piece ck io)"

definition chunk_postlf :: "Curl_chunker \<Rightarrow> 'w call \<Rightarrow> 'w turn" where
  "chunk_postlf ck io =
     (if hd (inp io) = 0x0A then (None, Curl_httpchunk_reset ck (ignore_body ck), advance 1 io)
      else if hd (inp io) \<noteq> 0x0D then
        (Some CURLE_RECV_ERROR, chunk_fail CHUNKE_BAD_CHUNK ck, io)
      else (None, ck, advance 1 io))"

text \<open>The end of a trailer line: the CRLF is added and the line is passed on.\<close>

definition trailer_line :: "'w cwriter \<Rightarrow> bool \<Rightarrow> Curl_chunker \<Rightarrow> 'w call \<Rightarrow> 'w turn" where
  "trailer_line wr te_skip ck io =
     (case Curl_dyn_addn (trailer ck) [0x0D, 0x0A] (allocs io) of
        (r, t, A) \<Rightarrow>
          let ck = ck\<lparr>trailer := t\<rparr>; io = io\<lparr>allocs := A\<rparr>
          in if r \<noteq> CURLE_OK then (Some r, chunk_fail CHUNKE_OUT_OF_MEMORY ck, io)
             else
               let tr = take (Curl_dyn_len t) (the (Curl_dyn_ptr t));
                   (r, w) = (if \<not> te_skip then wr (sink io) (CLIENTWRITE_HEADER OR CLIENTWRITE_TRAILER) tr
                             else (CURLE_OK, sink io));
                   io = io\<lparr>sink := w\<rparr>
               in if r \<noteq> CURLE_OK then (Some r, chunk_fail CHUNKE_PASSTHRU_ERROR ck, io)
                  else
                    let ck = ck\<lparr>trailer := Curl_dyn_reset t, state := CHUNK_TRAILER_CR\<rparr>
                    in if hd (inp io) = 0x0A then (None, ck, io) else (None, ck, advance 1 io))"

definition chunk_trailer :: "'w cwriter \<Rightarrow> bool \<Rightarrow> Curl_chunker \<Rightarrow> 'w call \<Rightarrow> 'w turn" where
  "chunk_trailer wr te_skip ck io =
     (let b = hd (inp io)
      in if b = 0x0D \<or> b = 0x0A then
           (if Curl_dyn_ptr (trailer ck) \<noteq> None then trailer_line wr te_skip ck io
            else (None, ck\<lparr>state := CHUNK_TRAILER_POSTCR\<rparr>, io))
         else
           case Curl_dyn_addn (trailer ck) [b] (allocs io) of
             (r, t, A) \<Rightarrow>
               let ck = ck\<lparr>trailer := t\<rparr>; io = io\<lparr>allocs := A\<rparr>
               in if r \<noteq> CURLE_OK then (Some r, chunk_fail CHUNKE_OUT_OF_MEMORY ck, io)
                  else (None, ck, advance 1 io))"

definition chunk_trailer_cr :: "Curl_chunker \<Rightarrow> 'w call \<Rightarrow> 'w turn" where
  "chunk_trailer_cr ck io =
     (if hd (inp io) = 0x0A then (None, ck\<lparr>state := CHUNK_TRAILER_POSTCR\<rparr>, advance 1 io)
      else (Some CURLE_RECV_ERROR, chunk_fail CHUNKE_BAD_CHUNK ck, io))"

definition chunk_trailer_postcr :: "Curl_chunker \<Rightarrow> 'w call \<Rightarrow> 'w turn" where
  "chunk_trailer_postcr ck io =
     (let b = hd (inp io)
      in if b \<noteq> 0x0D \<and> b \<noteq> 0x0A then (None, ck\<lparr>state := CHUNK_TRAILER\<rparr>, io)
         else
           let io = (if b = 0x0D then advance 1 io else io)
           in (None, ck\<lparr>state := CHUNK_STOP\<rparr>, io))"

definition chunk_stop :: "Curl_chunker \<Rightarrow> 'w call \<Rightarrow> 'w turn" where
  "chunk_stop ck io =
     (if hd (inp io) = 0x0A then
        let io = advance 1 io
        in (Some CURLE_OK, ck\<lparr>datasize := word_of_nat (length (inp io)), state := CHUNK_DONE\<rparr>, io)
      else (Some CURLE_RECV_ERROR, chunk_fail CHUNKE_BAD_CHUNK ck, io))"

definition chunk_step :: "'w cwriter \<Rightarrow> bool \<Rightarrow> Curl_chunker \<Rightarrow> 'w call \<Rightarrow> 'w turn" where
  "chunk_step wr te_skip ck io =
     (case state ck of
        CHUNK_HEX \<Rightarrow> chunk_hex ck io
      | CHUNK_LF \<Rightarrow> chunk_lf ck io
      | CHUNK_DATA \<Rightarrow> chunk_data wr te_skip ck io
      | CHUNK_POSTLF \<Rightarrow> chunk_postlf ck io
      | CHUNK_TRAILER \<Rightarrow> chunk_trailer wr te_skip ck io
      | CHUNK_TRAILER_CR \<Rightarrow> chunk_trailer_cr ck io
      | CHUNK_TRAILER_POSTCR \<Rightarrow> chunk_trailer_postcr ck io
      | CHUNK_STOP \<Rightarrow> chunk_stop ck io
      | CHUNK_DONE \<Rightarrow> (Some CURLE_OK, ck, io)
      | CHUNK_FAILED \<Rightarrow> (Some CURLE_RECV_ERROR, ck, io))"

text \<open>
  Several turns do not consume input. \<open>turn_rank\<close> shows that they cannot go on for ever:
  it decreases in each of them.
\<close>

definition turn_rank :: "Curl_chunker \<Rightarrow> 'w call \<Rightarrow> nat" where
  "turn_rank ck io =
     (case state ck of
        CHUNK_HEX \<Rightarrow> 1
      | CHUNK_DATA \<Rightarrow> 1
      | CHUNK_TRAILER \<Rightarrow> (if hd (inp io) = 0x0D \<or> hd (inp io) = 0x0A then 4 else 0)
      | CHUNK_TRAILER_POSTCR \<Rightarrow> 2
      | _ \<Rightarrow> 0)"

lemma curlx_sotouz_unat [simp]: "curlx_sotouz w = unat w"
  by (simp add: curlx_sotouz_def flip: take_bit_eq_mask) (simp add: take_bit_word_eq_self)

lemma chunk_step_progress:
  assumes "chunk_step wr te_skip ck io = (None, ck', io')" "inp io \<noteq> []"
  shows "length (inp io') < length (inp io) \<or> inp io' = inp io \<and> turn_rank ck' io' < turn_rank ck io"
proof (cases "state ck")
  case CHUNK_DATA
  let ?piece = "if sint (datasize ck) < int (length (inp io)) then curlx_sotouz (datasize ck) else length (inp io)"
  show ?thesis
  proof (cases "?piece = 0")
    case True
    with assms(2) have "datasize ck = 0" by (auto split: if_splits simp: unat_eq_zero)
    with assms CHUNK_DATA show ?thesis
      by (auto simp: chunk_step_def chunk_data_def data_piece_def advance_def turn_rank_def split: prod.splits if_splits)
  next
    case False
    with assms CHUNK_DATA show ?thesis
      by (auto simp: chunk_step_def chunk_data_def data_piece_def advance_def Let_def split: prod.splits if_splits)
  qed
qed (use assms in \<open>auto simp: chunk_step_def chunk_hex_def chunk_lf_def chunk_postlf_def chunk_trailer_def
    trailer_line_def chunk_trailer_cr_def chunk_trailer_postcr_def chunk_stop_def advance_def turn_rank_def Let_def
    split: prod.splits if_splits\<close>)

function httpchunk_loop ::
  "'w cwriter \<Rightarrow> bool \<Rightarrow> Curl_chunker \<Rightarrow> 'w call \<Rightarrow> CURLcode \<times> Curl_chunker \<times> 'w call" where
  "httpchunk_loop wr te_skip ck io =
     (if inp io = [] then (CURLE_OK, ck, io)
      else case chunk_step wr te_skip ck io of
             (Some r, ck, io) \<Rightarrow> (r, ck, io)
           | (None, ck, io) \<Rightarrow> httpchunk_loop wr te_skip ck io)"
  by pat_completeness auto
termination
  by (relation "measures [\<lambda>(_, _, _, io). length (inp io), \<lambda>(_, _, ck, io). turn_rank ck io]")
    (auto dest!: chunk_step_progress [OF sym])

declare httpchunk_loop.simps [simp del]

subsection \<open>A call of the decoder, and the writer around it\<close>

text \<open>
  \<open>Curl_cwriter_write\<close> refuses when there is no next writer; the decoder itself falls back
  to \<open>Curl_client_write\<close>, the function \<open>client\<close>.
\<close>

definition Curl_cwriter_write :: "'w cwriter option \<Rightarrow> 'w cwriter" where
  "Curl_cwriter_write writer w type buf =
     (case writer of None \<Rightarrow> (CURLE_WRITE_ERROR, w) | Some f \<Rightarrow> f w type buf)"

definition chunk_writer :: "'w cwriter \<Rightarrow> 'w cwriter option \<Rightarrow> 'w cwriter" where
  "chunk_writer client cw_next = (case cw_next of None \<Rightarrow> client | Some _ \<Rightarrow> Curl_cwriter_write cw_next)"

definition httpchunk_readwrite ::
  "'w cwriter \<Rightarrow> bool \<Rightarrow> Curl_chunker \<Rightarrow> 'w cwriter option \<Rightarrow> byte list \<Rightarrow> 'w \<Rightarrow> alloc_script \<Rightarrow>
     CURLcode \<times> Curl_chunker \<times> 'w call" where
  "httpchunk_readwrite client te_skip ck cw_next buf w A =
     (let wr = chunk_writer client cw_next;
          io = \<lparr>inp = buf, pconsumed = 0, sink = w, allocs = A\<rparr>
      in if state ck = CHUNK_DONE then (CURLE_OK, ck, io)
         else if state ck = CHUNK_FAILED then (CURLE_RECV_ERROR, ck, io)
         else
           let (r, w) = (if te_skip \<and> \<not> ignore_body ck then wr w CLIENTWRITE_BODY buf else (CURLE_OK, w));
               io = io\<lparr>sink := w\<rparr>
           in if r \<noteq> CURLE_OK then (r, chunk_fail CHUNKE_PASSTHRU_ERROR ck, io)
              else httpchunk_loop wr te_skip ck io)"

definition Curl_httpchunk_read ::
  "'w cwriter \<Rightarrow> bool \<Rightarrow> Curl_chunker \<Rightarrow> byte list \<Rightarrow> 'w \<Rightarrow> alloc_script \<Rightarrow>
     CURLcode \<times> Curl_chunker \<times> 'w call" where
  "Curl_httpchunk_read client te_skip ck buf w A = httpchunk_readwrite client te_skip ck None buf w A"

definition Curl_chunked_strerror :: "CHUNKcode \<Rightarrow> string" where
  "Curl_chunked_strerror code =
     (case code of
        CHUNKE_TOO_LONG_HEX \<Rightarrow> ''Too long hexadecimal number''
      | CHUNKE_ILLEGAL_HEX \<Rightarrow> ''Illegal or missing hexadecimal sequence''
      | CHUNKE_BAD_CHUNK \<Rightarrow> ''Malformed encoding found''
      | CHUNKE_PASSTHRU_ERROR \<Rightarrow> ''Error writing data to client''
      | CHUNKE_BAD_ENCODING \<Rightarrow> ''Bad content-encoding found''
      | CHUNKE_OUT_OF_MEMORY \<Rightarrow> ''Out of memory''
      | _ \<Rightarrow> ''OK'')"

text \<open>The fields of the request that the client writer uses.\<close>

record single_request =
  req_chunk :: bool
  download_done :: bool
  no_body :: bool

definition cw_chunked_init :: "single_request \<Rightarrow> Curl_chunker \<Rightarrow> single_request \<times> Curl_chunker" where
  "cw_chunked_init req ck = (req\<lparr>req_chunk := True\<rparr>, Curl_httpchunk_init ck False)"

definition cw_chunked_close :: "Curl_chunker \<Rightarrow> Curl_chunker" where
  "cw_chunked_close ck = Curl_httpchunk_free ck"

definition cw_chunked_write ::
  "'w cwriter \<Rightarrow> bool \<Rightarrow> single_request \<Rightarrow> Curl_chunker \<Rightarrow> 'w cwriter option \<Rightarrow> int \<Rightarrow> byte list \<Rightarrow>
     'w \<Rightarrow> alloc_script \<Rightarrow> CURLcode \<times> single_request \<times> Curl_chunker \<times> 'w \<times> alloc_script" where
  "cw_chunked_write client te_skip req ck cw_next type buf w A =
     (if type AND CLIENTWRITE_BODY = 0 then
        (case Curl_cwriter_write cw_next w type buf of (r, w) \<Rightarrow> (r, req, ck, w, A))
      else
        case httpchunk_readwrite client te_skip ck cw_next buf w A of
          (r, ck, io) \<Rightarrow>
            if r \<noteq> CURLE_OK then (r, req, ck, sink io, allocs io)
            else if state ck = CHUNK_DONE then
              (CURLE_OK, req\<lparr>download_done := True\<rparr>, ck, sink io, allocs io)
            else if type AND CLIENTWRITE_EOS \<noteq> 0 \<and> \<not> no_body req then
              (CURLE_PARTIAL_FILE, req, ck, sink io, allocs io)
            else (CURLE_OK, req, ck, sink io, allocs io))"

subsection \<open>The encoding reader\<close>

definition CURL_CHUNKED_MINLEN :: nat where "CURL_CHUNKED_MINLEN = 1024"
definition CURL_CHUNKED_MAXLEN :: nat where "CURL_CHUNKED_MAXLEN = 64 * 1024"

record chunked_reader =
  chunkbuf :: bufq
  read_eos :: bool
  eos :: bool

text \<open>
  The next reader in the chain gives a code, the bytes read and whether it is at its end;
  the trailer callback gives whether it succeeded and the trailer lines.
\<close>

type_synonym 'r creader = "'r \<Rightarrow> nat \<Rightarrow> CURLcode \<times> byte list \<times> bool \<times> 'r"
type_synonym trailer_callback = "(bool \<times> byte list list) option"

definition Curl_creader_read :: "'r creader option \<Rightarrow> 'r creader" where
  "Curl_creader_read reader ctx blen =
     (case reader of None \<Rightarrow> (CURLE_READ_ERROR, [], False, ctx) | Some f \<Rightarrow> f ctx blen)"

definition cr_chunked_init :: "chunked_reader \<Rightarrow> chunked_reader" where
  "cr_chunked_init rd = rd\<lparr>chunkbuf := Curl_bufq_init2 CURL_CHUNKED_MAXLEN 2 BUFQ_OPT_SOFT_LIMIT\<rparr>"

definition cr_chunked_close :: "chunked_reader \<Rightarrow> chunked_reader" where
  "cr_chunked_close rd = rd\<lparr>chunkbuf := Curl_bufq_free (chunkbuf rd)\<rparr>"

definition CRLF :: "byte list" where "CRLF = [0x0D, 0x0A]"

text \<open>Only lines with a colon followed by a space are added.\<close>

fun add_trailers :: "byte list list \<Rightarrow> bufq \<Rightarrow> env \<Rightarrow> CURLcode \<times> bufq \<times> env" where
  "add_trailers [] q e = (CURLE_OK, q, e)"
| "add_trailers (tr # trs) q e =
     (let ptr = dropWhile (\<lambda>b. b \<noteq> 0x3A) tr
      in if ptr = [] \<or> at ptr 1 \<noteq> 0x20 then add_trailers trs q e
         else
           case Curl_bufq_cwrite q e tr of
             (r, _, q, e) \<Rightarrow>
               if r \<noteq> CURLE_OK then (r, q, e)
               else
                 case Curl_bufq_cwrite q e CRLF of
                   (r, _, q, e) \<Rightarrow> if r \<noteq> CURLE_OK then (r, q, e) else add_trailers trs q e)"

definition add_last_chunk :: "trailer_callback \<Rightarrow> bufq \<Rightarrow> env \<Rightarrow> CURLcode \<times> bufq \<times> env" where
  "add_last_chunk cb q e =
     (case cb of
        None \<Rightarrow> (case Curl_bufq_cwrite q e (0x30 # CRLF @ CRLF) of (r, _, q, e) \<Rightarrow> (r, q, e))
      | Some (ok, trailers) \<Rightarrow>
          (case Curl_bufq_cwrite q e (0x30 # CRLF) of
             (r, _, q, e) \<Rightarrow>
               if r \<noteq> CURLE_OK then (r, q, e)
               else if \<not> ok then (CURLE_ABORTED_BY_CALLBACK, q, e)
               else
                 case add_trailers trailers q e of
                   (r, q, e) \<Rightarrow>
                     if r \<noteq> CURLE_OK then (r, q, e)
                     else case Curl_bufq_cwrite q e CRLF of (r, _, q, e) \<Rightarrow> (r, q, e)))"

text \<open>What \<open>%zx\<close> prints, and the chunk header in its array of 11 bytes.\<close>

function hex_digits :: "nat \<Rightarrow> byte list" where
  "hex_digits n =
     (if n < 16 then [if n < 10 then 0x30 + word_of_nat n else 0x57 + word_of_nat n]
      else hex_digits (n div 16) @ [if n mod 16 < 10 then 0x30 + word_of_nat (n mod 16) else 0x57 + word_of_nat (n mod 16)])"
  by pat_completeness auto
termination by (relation "measure id") auto

declare hex_digits.simps [simp del]

definition chunk_hd :: "nat \<Rightarrow> byte list" where
  "chunk_hd nread = take 10 (hex_digits nread @ CRLF)"

text \<open>The bytes that were read, wrapped into a chunk.\<close>

definition wrap_chunk :: "bufq \<Rightarrow> env \<Rightarrow> byte list \<Rightarrow> CURLcode \<times> bufq \<times> env" where
  "wrap_chunk q e bytes =
     (if bytes = [] then (CURLE_OK, q, e)
      else
        case Curl_bufq_cwrite q e (chunk_hd (length bytes)) of
          (r, _, q, e) \<Rightarrow>
            if r \<noteq> CURLE_OK then (r, q, e)
            else
              case Curl_bufq_cwrite q e bytes of
                (r, _, q, e) \<Rightarrow>
                  if r \<noteq> CURLE_OK then (r, q, e)
                  else case Curl_bufq_cwrite q e CRLF of (r, _, q, e) \<Rightarrow> (r, q, e))"

definition add_chunk ::
  "'r creader option \<Rightarrow> trailer_callback \<Rightarrow> chunked_reader \<Rightarrow> env \<Rightarrow> 'r \<Rightarrow> nat \<Rightarrow>
     CURLcode \<times> chunked_reader \<times> env \<times> 'r" where
  "add_chunk next cb rd e ctx blen =
     (let blen = min blen CURL_CHUNKED_MAXLEN;
          blen = (if blen < CURL_CHUNKED_MINLEN then CURL_CHUNKED_MINLEN else blen - (8 + 2 + 2))
      in case Curl_creader_read next ctx blen of
           (r, bytes, at_end, ctx) \<Rightarrow>
             if r \<noteq> CURLE_OK then (r, rd, e, ctx)
             else
               let rd = (if at_end then rd\<lparr>read_eos := True\<rparr> else rd);
                   (r, q, e) = wrap_chunk (chunkbuf rd) e bytes;
                   rd = rd\<lparr>chunkbuf := q\<rparr>
               in if r \<noteq> CURLE_OK then (r, rd, e, ctx)
                  else if read_eos rd then
                    (case add_last_chunk cb (chunkbuf rd) e of (r, q, e) \<Rightarrow> (r, rd\<lparr>chunkbuf := q\<rparr>, e, ctx))
                  else (CURLE_OK, rd, e, ctx))"

definition cr_chunked_read ::
  "'r creader option \<Rightarrow> trailer_callback \<Rightarrow> chunked_reader \<Rightarrow> env \<Rightarrow> 'r \<Rightarrow> nat \<Rightarrow>
     CURLcode \<times> byte list \<times> bool \<times> chunked_reader \<times> env \<times> 'r" where
  "cr_chunked_read next cb rd e ctx blen =
     (if eos rd then (CURLE_OK, [], True, rd, e, ctx)
      else
        let (r, rd, e, ctx) =
              (if \<not> read_eos rd \<and> Curl_bufq_is_empty (chunkbuf rd)
               then add_chunk next cb rd e ctx blen else (CURLE_OK, rd, e, ctx))
        in if r \<noteq> CURLE_OK then (r, [], False, rd, e, ctx)
           else if \<not> Curl_bufq_is_empty (chunkbuf rd) then
             (case Curl_bufq_cread (chunkbuf rd) e blen of
                (r, out, q, e) \<Rightarrow>
                  let rd = rd\<lparr>chunkbuf := q\<rparr>
                  in if r = CURLE_OK \<and> read_eos rd \<and> Curl_bufq_is_empty q
                     then (r, out, True, rd\<lparr>eos := True\<rparr>, e, ctx)
                     else (r, out, False, rd, e, ctx))
           else (CURLE_OK, [], False, rd, e, ctx))"

definition cr_chunked_total_length :: "chunked_reader \<Rightarrow> int" where
  "cr_chunked_total_length rd = - 1"

subsection \<open>The invariant of the chunker\<close>

definition chunker_inv :: "Curl_chunker \<Rightarrow> bool" where
  "chunker_inv ck \<longleftrightarrow> length (hexbuffer ck) = CHUNK_MAXNUM_LEN + 1 \<and> hexindex ck \<le> CHUNK_MAXNUM_LEN \<and>
     (\<forall>b \<in> set (take (hexindex ck) (hexbuffer ck)). ISXDIGIT b) \<and>
     dyn_inv (trailer ck) \<and> toobig (trailer ck) = DYN_H1_TRAILER \<and>
     (state ck = CHUNK_LF \<longrightarrow> 0 \<le> sint (datasize ck)) \<and>
     (state ck = CHUNK_DATA \<longrightarrow> 0 < sint (datasize ck))"

lemma chunker_inv_reset [inv_intros]: "chunker_inv ck \<Longrightarrow> chunker_inv (Curl_httpchunk_reset ck b)"
  by (simp add: chunker_inv_def Curl_httpchunk_reset_def inv_intros)

lemma chunker_inv_init [inv_intros]:
  "length (hexbuffer ck) = CHUNK_MAXNUM_LEN + 1 \<Longrightarrow> chunker_inv (Curl_httpchunk_init ck b)"
  by (simp add: chunker_inv_def Curl_httpchunk_init_def inv_intros DYN_H1_TRAILER_def)

lemma chunker_inv_fail [inv_intros]: "chunker_inv ck \<Longrightarrow> chunker_inv (chunk_fail c ck)"
  by (simp add: chunker_inv_def chunk_fail_def)

lemma state_chunk_fail [simp]: "state (chunk_fail c ck) = CHUNK_FAILED"
  by (simp add: chunk_fail_def)

lemma xdigit_is_digit: "ISXDIGIT b \<Longrightarrow> is_digit 16 b"
  unfolding is_digit_def get_char_def ctype_defs by (auto simp: Let_def word_le_def)

lemma sint_of_offt: "0 \<le> n \<Longrightarrow> n \<le> CURL_OFF_T_MAX \<Longrightarrow> sint (word_of_int n :: 64 word) = n"
  by (simp add: sint_sbintrunc' signed_take_bit_int_eq_self CURL_OFF_T_MAX_def)

lemma sint_nonneg_unat:
  assumes "0 \<le> sint (w :: 64 word)"
  shows "int (unat w) = sint w"
proof -
  have s: "sint w = signed_take_bit 63 (uint w)" by (simp add: sint_uint)
  with assms have b: "\<not> bit (uint w) 63" by simp
  then have "sint w = take_bit 63 (uint w)" using s by (simp add: signed_take_bit_eq_if_positive)
  also have "\<dots> = take_bit (Suc 63) (uint w)" using b by (simp only: take_bit_Suc_from_most) simp
  also have "\<dots> = uint w" using uint_lt2p [of w] by (simp add: take_bit_int_eq_self)
  finally show ?thesis by simp
qed

lemma sint_minus_nat:
  assumes "0 \<le> sint (w :: 64 word)" "int n \<le> sint w"
  shows "sint (w - word_of_nat n) = sint w - int n"
proof -
  have "sint w < 2 ^ 63" using sint_less [of w] by simp
  then have r: "0 \<le> sint w - int n" "sint w - int n \<le> CURL_OFF_T_MAX"
    using assms by (simp_all add: CURL_OFF_T_MAX_def)
  have "w - word_of_nat n = word_of_int (sint w - int n)" by simp
  then show ?thesis using sint_of_offt [OF r] by simp
qed

text \<open>
  What a turn of the loop does to the variables: input is consumed from the front and
  counted, and an error leaves the chunker failed.
\<close>

definition consumes :: "'w call \<Rightarrow> 'w call \<Rightarrow> bool" where
  "consumes io io' \<longleftrightarrow> (\<exists>k \<le> length (inp io). inp io' = drop k (inp io) \<and> pconsumed io' = pconsumed io + k)"

lemma consumes_refl [simp]: "consumes io io"
  by (auto simp: consumes_def intro!: exI [of _ 0])

lemma consumes_trans: "consumes io io' \<Longrightarrow> consumes io' io'' \<Longrightarrow> consumes io io''"
  unfolding consumes_def by (fastforce intro: exI [of _ "_ + _"] simp: add.commute)

lemma consumes_advance: "k \<le> length (inp io) \<Longrightarrow> consumes io (advance k io)"
  by (auto simp: consumes_def advance_def)

lemma consumes_update [simp]:
  "consumes io (io'\<lparr>sink := w\<rparr>) \<longleftrightarrow> consumes io io'" "consumes io (io'\<lparr>allocs := A\<rparr>) \<longleftrightarrow> consumes io io'"
  "consumes (io\<lparr>sink := w\<rparr>) io' \<longleftrightarrow> consumes io io'" "consumes (io\<lparr>allocs := A\<rparr>) io' \<longleftrightarrow> consumes io io'"
  by (simp_all add: consumes_def)

definition turn_ok :: "Curl_chunker \<Rightarrow> 'w call \<Rightarrow> 'w turn \<Rightarrow> bool" where
  "turn_ok ck io t \<longleftrightarrow>
     (case t of (r, ck', io') \<Rightarrow>
        chunker_inv ck' \<and> consumes io io' \<and>
        (\<forall>c. r = Some c \<and> c \<noteq> CURLE_OK \<longrightarrow> state ck' = CHUNK_FAILED) \<and>
        (r = Some CURLE_OK \<longrightarrow> state ck' = CHUNK_DONE) \<and>
        (r = None \<longrightarrow> state ck' \<noteq> CHUNK_DONE \<and> state ck' \<noteq> CHUNK_FAILED))"

lemma chunk_hex_ok:
  assumes "chunker_inv ck" "inp io \<noteq> []" "state ck = CHUNK_HEX"
  shows "turn_ok ck io (chunk_hex ck io)"
proof (cases "ISXDIGIT (hd (inp io))")
  case True
  have "take (Suc (hexindex ck)) ((hexbuffer ck)[hexindex ck := hd (inp io)]) =
      take (hexindex ck) (hexbuffer ck) @ [hd (inp io)]" if "hexindex ck < length (hexbuffer ck)"
    using that by (simp add: take_Suc_conv_app_nth)
  with assms True show ?thesis
    by (auto simp: chunk_hex_def turn_ok_def chunker_inv_def chunk_fail_def Suc_le_eq not_le
        intro!: consumes_advance)
next
  case False
  obtain r k num where p: "curlx_strtoofft (cstr ((hexbuffer ck)[hexindex ck := 0])) 16 = (r, k, num)"
    by (cases "curlx_strtoofft (cstr ((hexbuffer ck)[hexindex ck := 0])) 16")
  have "0 \<le> sint (word_of_int num :: 64 word)"
    using curlx_strtoofft_range [OF _ p] by (simp add: sint_of_offt)
  with assms False p show ?thesis
    by (auto simp: chunk_hex_def turn_ok_def chunker_inv_def chunk_fail_def Let_def)
qed

lemma chunk_data_ok:
  assumes "chunker_inv ck" "inp io \<noteq> []" "state ck = CHUNK_DATA"
  shows "turn_ok ck io (chunk_data wr te_skip ck io)"
proof -
  let ?n = "if sint (datasize ck) < int (length (inp io)) then curlx_sotouz (datasize ck) else length (inp io)"
  obtain r w where w: "(if \<not> te_skip \<and> \<not> ignore_body ck
      then wr (sink io) CLIENTWRITE_BODY (take ?n (inp io)) else (CURLE_OK, sink io)) = (r, w)"
    by fastforce
  have d: "0 < sint (datasize ck)" using assms(1,3) by (simp add: chunker_inv_def)
  then have unat_eq_nat_sint: "unat (datasize ck) = nat (sint (datasize ck))"
    using sint_nonneg_unat [of "datasize ck"] by linarith
  show ?thesis
  proof (cases "r = CURLE_OK")
    case False
    with w assms show ?thesis
      by (simp add: chunk_data_def data_piece_def turn_ok_def Let_def chunker_inv_fail)
  next
    case True
    have n: "?n \<le> length (inp io)" "int ?n \<le> sint (datasize ck)"
      using d by (auto simp: unat_eq_nat_sint)
    then have m: "sint (datasize ck - word_of_nat ?n) = sint (datasize ck) - int ?n"
      using d by (intro sint_minus_nat) simp_all
    define z where "z = datasize ck - word_of_nat ?n"
    have "z \<noteq> 0 \<Longrightarrow> 0 < sint z" using m n(2) unfolding z_def by (metis diff_ge_0_iff_ge order_less_le signed_eq_0_iff)
    moreover have "chunk_data wr te_skip ck io =
        (None, if z = 0 then ck\<lparr>datasize := z, state := CHUNK_POSTLF\<rparr> else ck\<lparr>datasize := z\<rparr>,
         advance ?n (io\<lparr>sink := w\<rparr>))"
      unfolding chunk_data_def data_piece_def Let_def w z_def using True by simp
    moreover have "consumes io (advance ?n (io\<lparr>sink := w\<rparr>))"
      using consumes_advance [of ?n "io\<lparr>sink := w\<rparr>"] n(1) by simp
    ultimately show ?thesis using assms by (auto simp: turn_ok_def chunker_inv_def)
  qed
qed

lemma turn_ok_fail:
  "chunker_inv ck' \<Longrightarrow> c \<noteq> CURLE_OK \<Longrightarrow> consumes io io' \<Longrightarrow> turn_ok ck io (Some c, chunk_fail code ck', io')"
  by (simp add: turn_ok_def chunker_inv_fail)

lemma turn_ok_go:
  "chunker_inv ck' \<Longrightarrow> state ck' \<noteq> CHUNK_DONE \<Longrightarrow> state ck' \<noteq> CHUNK_FAILED \<Longrightarrow> consumes io io' \<Longrightarrow>
   turn_ok ck io (None, ck', io')"
  by (simp add: turn_ok_def)

lemma trailer_line_ok:
  assumes "chunker_inv ck" "inp io \<noteq> []" "state ck = CHUNK_TRAILER"
  shows "turn_ok ck io (trailer_line wr te_skip ck io)"
proof -
  obtain r t A where a: "Curl_dyn_addn (trailer ck) [0x0D, 0x0A] (allocs io) = (r, t, A)"
    by (cases "Curl_dyn_addn (trailer ck) [0x0D, 0x0A] (allocs io)")
  have t: "dyn_inv t" "toobig t = DYN_H1_TRAILER"
    using a assms(1) by (auto simp: chunker_inv_def Curl_dyn_addn_def dest: dyn_nappend_inv elim: dyn_nappend_cases)
  obtain s w where w: "(if \<not> te_skip then wr (sink io) (CLIENTWRITE_HEADER OR CLIENTWRITE_TRAILER)
      (take (Curl_dyn_len t) (the (Curl_dyn_ptr t))) else (CURLE_OK, sink io)) = (s, w)" by fastforce
  have inv: "chunker_inv (ck\<lparr>trailer := t\<rparr>)" "chunker_inv (ck\<lparr>trailer := Curl_dyn_reset t, state := CHUNK_TRAILER_CR\<rparr>)"
    using assms(1) t by (auto simp: chunker_inv_def inv_intros)
  have adv: "consumes io (advance (Suc 0) (io\<lparr>allocs := A, sink := w\<rparr>))"
    using consumes_advance [of "Suc 0" "io\<lparr>allocs := A, sink := w\<rparr>"] assms(2)
    by (simp add: Suc_le_eq)
  show ?thesis
    using a w inv adv by (auto simp: trailer_line_def Let_def intro!: turn_ok_fail turn_ok_go)
qed

lemma chunk_trailer_ok:
  assumes "chunker_inv ck" "inp io \<noteq> []" "state ck = CHUNK_TRAILER"
  shows "turn_ok ck io (chunk_trailer wr te_skip ck io)"
proof (cases "hd (inp io) = 0x0D \<or> hd (inp io) = 0x0A")
  case True
  with assms trailer_line_ok [OF assms] show ?thesis
    by (auto simp: chunk_trailer_def Let_def chunker_inv_def intro!: turn_ok_go)
next
  case False
  obtain r t A where a: "Curl_dyn_addn (trailer ck) [hd (inp io)] (allocs io) = (r, t, A)"
    by (cases "Curl_dyn_addn (trailer ck) [hd (inp io)] (allocs io)")
  have t: "dyn_inv t" "toobig t = DYN_H1_TRAILER"
    using a assms(1) by (auto simp: chunker_inv_def Curl_dyn_addn_def dest: dyn_nappend_inv elim: dyn_nappend_cases)
  have inv: "chunker_inv (ck\<lparr>trailer := t\<rparr>)" using assms(1) t by (simp add: chunker_inv_def)
  have adv: "consumes io (advance (Suc 0) (io\<lparr>allocs := A\<rparr>))"
    using consumes_advance [of "Suc 0" "io\<lparr>allocs := A\<rparr>"] assms(2) by (simp add: Suc_le_eq)
  show ?thesis
    using a inv adv False assms(3) by (auto simp: chunk_trailer_def Let_def intro!: turn_ok_fail turn_ok_go)
qed

lemma chunk_step_ok:
  assumes "chunker_inv ck" "inp io \<noteq> []" "state ck \<noteq> CHUNK_DONE" "state ck \<noteq> CHUNK_FAILED"
  shows "turn_ok ck io (chunk_step wr te_skip ck io)"
proof -
  have one: "consumes io (advance (Suc 0) io)" using assms(2) by (simp add: consumes_advance Suc_le_eq)
  show ?thesis
  proof (cases "state ck")
    case CHUNK_LF
    then show ?thesis using assms one
      by (auto simp: chunk_step_def chunk_lf_def chunker_inv_def less_le signed_eq_0_iff intro!: turn_ok_go)
  next
    case CHUNK_POSTLF
    then show ?thesis using assms one
      by (auto simp: chunk_step_def chunk_postlf_def inv_intros intro!: turn_ok_go turn_ok_fail)
        (auto simp: Curl_httpchunk_reset_def)
  next
    case CHUNK_STOP
    then show ?thesis using assms one
      by (auto simp: chunk_step_def chunk_stop_def Let_def intro!: turn_ok_fail)
        (auto simp: turn_ok_def chunker_inv_def)
  next
    case CHUNK_TRAILER_CR
    then show ?thesis using assms one
      by (auto simp: chunk_step_def chunk_trailer_cr_def intro!: turn_ok_go turn_ok_fail)
        (auto simp: chunker_inv_def)
  next
    case CHUNK_TRAILER_POSTCR
    then show ?thesis using assms one
      by (auto simp: chunk_step_def chunk_trailer_postcr_def Let_def chunker_inv_def intro!: turn_ok_go)
  qed (use assms in \<open>auto simp: chunk_step_def chunk_hex_ok chunk_data_ok chunk_trailer_ok\<close>)
qed

lemma httpchunk_loop_ok:
  "chunker_inv ck \<Longrightarrow> state ck \<noteq> CHUNK_DONE \<Longrightarrow> state ck \<noteq> CHUNK_FAILED \<Longrightarrow>
   httpchunk_loop wr te_skip ck io = (r, ck', io') \<Longrightarrow>
   chunker_inv ck' \<and> consumes io io' \<and> (r \<noteq> CURLE_OK \<longleftrightarrow> state ck' = CHUNK_FAILED) \<and>
   (r = CURLE_OK \<and> state ck' \<noteq> CHUNK_DONE \<longrightarrow> inp io' = [])"
proof (induction wr te_skip ck io arbitrary: r ck' io' rule: httpchunk_loop.induct)
  case (1 wr te_skip ck io)
  show ?case
  proof (cases "inp io = []")
    case True
    with "1.prems" show ?thesis by (simp add: httpchunk_loop.simps [of wr te_skip ck io])
  next
    case False
    obtain s ck1 io1 where st: "chunk_step wr te_skip ck io = (s, ck1, io1)"
      by (cases "chunk_step wr te_skip ck io")
    have ok: "turn_ok ck io (s, ck1, io1)" using chunk_step_ok [of ck io wr te_skip] False "1.prems" st by simp
    show ?thesis
    proof (cases s)
      case None
      have run: "httpchunk_loop wr te_skip ck1 io1 = (r, ck', io')"
        using "1.prems"(4) False st None by (simp add: httpchunk_loop.simps [of wr te_skip ck io])
      have t: "chunker_inv ck1" "consumes io io1" "state ck1 \<noteq> CHUNK_DONE" "state ck1 \<noteq> CHUNK_FAILED"
        using ok None by (simp_all add: turn_ok_def)
      note ih = "1.IH" [OF False st [symmetric] None refl t(1,3,4) run]
      have "consumes io io'" by (rule consumes_trans [OF t(2) ih [THEN conjunct2, THEN conjunct1]])
      with ih show ?thesis by blast
    next
      case (Some c)
      with "1.prems"(4) False st have "r = c" "ck' = ck1" "io' = io1"
        by (simp_all add: httpchunk_loop.simps [of wr te_skip ck io])
      with ok Some show ?thesis by (cases "c = CURLE_OK") (auto simp: turn_ok_def)
    qed
  qed
qed

subsection \<open>Input in pieces\<close>

text \<open>
  A writer for which it makes no difference whether bytes come in one call or in two.
\<close>

definition additive :: "'w cwriter \<Rightarrow> bool" where
  "additive wr \<longleftrightarrow> (\<forall>w type xs ys. wr w type (xs @ ys) =
     (case wr w type xs of (r, w') \<Rightarrow> if r = CURLE_OK then wr w' type ys else (r, w')))"

text \<open>The same result, up to the fields that mean nothing after the end.\<close>

definition same_run ::
  "CURLcode \<times> Curl_chunker \<times> 'w call \<Rightarrow> CURLcode \<times> Curl_chunker \<times> 'w call \<Rightarrow> bool" where
  "same_run x y \<longleftrightarrow>
     (case (x, y) of
        ((r, c, i), (s, d, j)) \<Rightarrow>
          r = s \<and> sink i = sink j \<and> allocs i = allocs j \<and> state c = state d \<and> last_code c = last_code d \<and>
          (r = CURLE_OK \<longrightarrow> inp i = inp j \<and> pconsumed i = pconsumed j) \<and>
          (r = CURLE_OK \<and> state c \<noteq> CHUNK_DONE \<longrightarrow> c = d))"

lemma same_run_refl [simp]: "same_run x x"
  by (simp add: same_run_def split: prod.splits)

abbreviation on :: "'w call \<Rightarrow> byte list \<Rightarrow> 'w call" where
  "on io ys \<equiv> io\<lparr>inp := inp io @ ys\<rparr>"

lemma advance_more: "k \<le> length (inp io) \<Longrightarrow> advance k (on io ys) = on (advance k io) ys"
  by (simp add: advance_def)

lemma trailer_line_more:
  assumes "inp io \<noteq> []"
  shows "trailer_line wr te_skip ck (on io ys) =
    (case trailer_line wr te_skip ck io of (r, c, i) \<Rightarrow> (r, c, on i ys))"
proof -
  obtain r t A where a: "Curl_dyn_addn (trailer ck) [0x0D, 0x0A] (allocs io) = (r, t, A)"
    by (cases "Curl_dyn_addn (trailer ck) [0x0D, 0x0A] (allocs io)")
  obtain s w where w: "(if \<not> te_skip then wr (sink io) (CLIENTWRITE_HEADER OR CLIENTWRITE_TRAILER)
      (take (Curl_dyn_len t) (the (Curl_dyn_ptr t))) else (CURLE_OK, sink io)) = (s, w)" by fastforce
  obtain b bs where "inp io = b # bs" using assms by (cases "inp io") auto
  with a w show ?thesis
    by (cases io) (auto simp: trailer_line_def Let_def advance_def)
qed

lemma chunk_trailer_more:
  assumes "inp io \<noteq> []"
  shows "chunk_trailer wr te_skip ck (on io ys) =
    (case chunk_trailer wr te_skip ck io of (r, c, i) \<Rightarrow> (r, c, on i ys))"
proof -
  obtain r t A where a: "Curl_dyn_addn (trailer ck) [hd (inp io)] (allocs io) = (r, t, A)"
    by (cases "Curl_dyn_addn (trailer ck) [hd (inp io)] (allocs io)")
  obtain b bs where "inp io = b # bs" using assms by (cases "inp io") auto
  with a trailer_line_more [OF assms, of wr te_skip ck ys] show ?thesis
    by (cases io) (auto simp: chunk_trailer_def Let_def advance_def)
qed

lemma chunk_step_more:
  assumes "inp io \<noteq> []" "state ck \<noteq> CHUNK_DATA" "state ck \<noteq> CHUNK_STOP"
  shows "chunk_step wr te_skip ck (on io ys) =
    (case chunk_step wr te_skip ck io of (r, c, i) \<Rightarrow> (r, c, on i ys))"
proof -
  obtain b bs where b: "inp io = b # bs" using assms(1) by (cases "inp io") auto
  show ?thesis
  proof (cases "state ck")
    case CHUNK_TRAILER
    with chunk_trailer_more [OF assms(1)] show ?thesis by (simp add: chunk_step_def)
  qed (use assms b in \<open>cases io; auto simp: chunk_step_def chunk_hex_def chunk_lf_def chunk_postlf_def
      chunk_trailer_cr_def chunk_trailer_postcr_def advance_def Let_def split: prod.splits\<close>)+
qed

text \<open>The data state, when the chunk ends in the first piece and when it does not.\<close>

lemma data_piece_more:
  assumes "n \<le> length (inp io)"
  shows "data_piece wr te_skip n ck (on io ys) =
    (case data_piece wr te_skip n ck io of (r, c, i) \<Rightarrow> (r, c, on i ys))"
  using assms by (cases io) (auto simp: data_piece_def advance_def Let_def split: prod.splits)

lemma chunk_data_more:
  assumes "sint (datasize ck) \<le> int (length (inp io))" "0 < sint (datasize ck)"
  shows "chunk_data wr te_skip ck (on io ys) =
    (case chunk_data wr te_skip ck io of (r, c, i) \<Rightarrow> (r, c, on i ys))"
proof -
  define n where "n = unat (datasize ck)"
  have n: "int n = sint (datasize ck)" using assms(2) by (simp only: n_def sint_nonneg_unat less_imp_le)
  then have p: "(if sint (datasize ck) < int (length zs) then curlx_sotouz (datasize ck) else length zs) = n"
    if "n \<le> length zs" for zs :: "byte list" using that by (auto simp: n [symmetric] simp flip: n_def)
  have le: "n \<le> length (inp io)" "n \<le> length (inp io @ ys)" using n assms(1) by simp_all
  have i: "inp (on io ys) = inp io @ ys" by simp
  have "chunk_data wr te_skip ck io = data_piece wr te_skip n ck io"
    "chunk_data wr te_skip ck (on io ys) = data_piece wr te_skip n ck (on io ys)"
    unfolding chunk_data_def Let_def i using p [OF le(1)] p [OF le(2)] by simp_all
  with data_piece_more [OF le(1)] show ?thesis by simp
qed

lemma data_piece_eq:
  assumes "(if \<not> te_skip \<and> \<not> ignore_body ck
      then wr (sink io) CLIENTWRITE_BODY (take n (inp io)) else (CURLE_OK, sink io)) = (r, w)"
  shows "data_piece wr te_skip n ck io =
    (if r \<noteq> CURLE_OK then (Some r, chunk_fail CHUNKE_PASSTHRU_ERROR ck, io\<lparr>sink := w\<rparr>)
     else let z = datasize ck - word_of_nat n; c = ck\<lparr>datasize := z\<rparr>
          in (None, if z = 0 then c\<lparr>state := CHUNK_POSTLF\<rparr> else c, advance n (io\<lparr>sink := w\<rparr>)))"
  unfolding data_piece_def Let_def assms by simp

text \<open>
  When the chunk does not end in the first piece, the piece and what follows it are one
  write when they come together and two when they do not.
\<close>

lemma data_piece_plus:
  assumes "additive wr" "int m + int n \<le> sint (datasize ck)" "m = length (inp io)" "n \<le> length ys"
    "int m < sint (datasize ck)"
  shows "case data_piece wr te_skip m ck io of
      (None, c, i) \<Rightarrow> inp i = [] \<and> c = ck\<lparr>datasize := datasize ck - word_of_nat m\<rparr> \<and>
        (case data_piece wr te_skip n c (i\<lparr>inp := ys\<rparr>) of
           (None, c', i') \<Rightarrow> data_piece wr te_skip (m + n) ck (on io ys) = (None, c', i')
         | (Some e, c', i') \<Rightarrow> \<exists>c'' i''. data_piece wr te_skip (m + n) ck (on io ys) = (Some e, c'', i'') \<and>
             e \<noteq> CURLE_OK \<and> same_run (e, c', i') (e, c'', i''))
    | (Some e, c, i) \<Rightarrow> \<exists>c' i'. data_piece wr te_skip (m + n) ck (on io ys) = (Some e, c', i') \<and>
        e \<noteq> CURLE_OK \<and> same_run (e, c, i) (e, c', i')"
proof -
  have nz: "datasize ck - word_of_nat m \<noteq> 0"
    using sint_minus_nat [of "datasize ck" m] assms(5) by auto
  have add: "wr w t (inp io @ take n ys) =
      (case wr w t (inp io) of (r, w') \<Rightarrow> if r = CURLE_OK then wr w' t (take n ys) else (r, w'))" for w t
    using assms(1) unfolding additive_def by blast
  obtain r w where w: "(if \<not> te_skip \<and> \<not> ignore_body ck
      then wr (sink io) CLIENTWRITE_BODY (inp io) else (CURLE_OK, sink io)) = (r, w)" by fastforce
  obtain r2 w2 where w2: "(if \<not> te_skip \<and> \<not> ignore_body ck
      then wr w CLIENTWRITE_BODY (take n ys) else (CURLE_OK, w)) = (r2, w2)" by fastforce
  have both: "(if \<not> te_skip \<and> \<not> ignore_body ck
      then wr (sink io) CLIENTWRITE_BODY (inp io @ take n ys) else (CURLE_OK, sink io)) =
      (if r = CURLE_OK then (r2, w2) else (r, w))"
    using w w2 add by (auto split: prod.splits if_splits)
  have one: "data_piece wr te_skip m ck io =
      (if r \<noteq> CURLE_OK then (Some r, chunk_fail CHUNKE_PASSTHRU_ERROR ck, io\<lparr>sink := w\<rparr>)
       else (None, ck\<lparr>datasize := datasize ck - word_of_nat m\<rparr>, advance m (io\<lparr>sink := w\<rparr>)))"
  proof -
    have "(if \<not> te_skip \<and> \<not> ignore_body ck
        then wr (sink io) CLIENTWRITE_BODY (take m (inp io)) else (CURLE_OK, sink io)) = (r, w)"
      using w unfolding assms(3) by (simp only: take_all order_refl)
    from data_piece_eq [of te_skip ck wr io m r w, OF this] nz show ?thesis by (simp add: Let_def)
  qed
  have sum: "data_piece wr te_skip (m + n) ck (on io ys) =
      (if (if r = CURLE_OK then r2 else r) \<noteq> CURLE_OK  
       then (Some (if r = CURLE_OK then r2 else r), chunk_fail CHUNKE_PASSTHRU_ERROR ck,
             (on io ys)\<lparr>sink := if r = CURLE_OK then w2 else w\<rparr>)
       else let z = datasize ck - word_of_nat m - word_of_nat n;
                c = ck\<lparr>datasize := z\<rparr>
            in (None, if z = 0 then c\<lparr>state := CHUNK_POSTLF\<rparr> else c, advance (m + n) ((on io ys)\<lparr>sink := w2\<rparr>)))"
  proof -
    have tk: "take (m + n) (inp (on io ys)) = inp io @ take n ys" using assms(3) by simp
    have pre: "(if \<not> te_skip \<and> \<not> ignore_body ck
        then wr (sink (on io ys)) CLIENTWRITE_BODY (take (m + n) (inp (on io ys))) else (CURLE_OK, sink (on io ys))) =
        (if r = CURLE_OK then r2 else r, if r = CURLE_OK then w2 else w)"
      unfolding tk using both by (auto split: if_splits)
    from data_piece_eq [of te_skip ck wr "on io ys" "m + n", OF pre] show ?thesis
      by (cases "r = CURLE_OK") (simp_all add: Let_def diff_diff_eq)
  qed
  show ?thesis
  proof (cases "r = CURLE_OK")
    case False
    with one sum show ?thesis by (simp add: same_run_def chunk_fail_def)
  next
    case True
    have "data_piece wr te_skip n (ck\<lparr>datasize := datasize ck - word_of_nat m\<rparr>) ((advance m (io\<lparr>sink := w\<rparr>))\<lparr>inp := ys\<rparr>) =
      (if r2 \<noteq> CURLE_OK
       then (Some r2, chunk_fail CHUNKE_PASSTHRU_ERROR (ck\<lparr>datasize := datasize ck - word_of_nat m\<rparr>),
             (advance m (io\<lparr>sink := w\<rparr>))\<lparr>inp := ys, sink := w2\<rparr>)
       else let z = datasize ck - word_of_nat m - word_of_nat n;
                c = ck\<lparr>datasize := z\<rparr>
            in (None, if z = 0 then c\<lparr>state := CHUNK_POSTLF\<rparr> else c,
               advance n ((advance m (io\<lparr>sink := w\<rparr>))\<lparr>inp := ys, sink := w2\<rparr>)))"
    proof -
      let ?c = "ck\<lparr>datasize := datasize ck - word_of_nat m\<rparr>" and ?i = "(advance m (io\<lparr>sink := w\<rparr>))\<lparr>inp := ys\<rparr>"
      have "(if \<not> te_skip \<and> \<not> ignore_body ?c
          then wr (sink ?i) CLIENTWRITE_BODY (take n (inp ?i)) else (CURLE_OK, sink ?i)) = (r2, w2)"
        using w2 by (auto simp: advance_def split: if_splits)
      from data_piece_eq [of te_skip ?c wr ?i n, OF this] show ?thesis by (simp add: Let_def)
    qed
    with one sum True assms(3) show ?thesis
      by (cases io) (auto simp: same_run_def chunk_fail_def Let_def advance_def)
  qed
qed

text \<open>What the rest of the input makes of the result of the first piece.\<close>

definition continues ::
  "'w cwriter \<Rightarrow> bool \<Rightarrow> CURLcode \<times> Curl_chunker \<times> 'w call \<Rightarrow> byte list \<Rightarrow> CURLcode \<times> Curl_chunker \<times> 'w call" where
  "continues wr te_skip x ys =
     (case x of (r, c, i) \<Rightarrow>
        if r \<noteq> CURLE_OK then (r, c, i)
        else if state c = CHUNK_DONE then (r, c, on i ys)
        else httpchunk_loop wr te_skip c (i\<lparr>inp := ys\<rparr>))"

lemma chunk_data_split:
  assumes "int (length (inp io)) < sint (datasize ck)" "inp io \<noteq> []" "state ck = CHUNK_DATA" "additive wr"
  shows "same_run (continues wr te_skip (httpchunk_loop wr te_skip ck io) ys) (httpchunk_loop wr te_skip ck (on io ys))"
proof (cases "ys = []")
  case True
  define m where "m = length (inp io)"
  have st: "chunk_step wr te_skip ck io = data_piece wr te_skip m ck io"
    using assms by (simp add: chunk_step_def chunk_data_def m_def)
  obtain s c i where d: "data_piece wr te_skip m ck io = (s, c, i)" by (cases "data_piece wr te_skip m ck io")
  have run: "httpchunk_loop wr te_skip ck io = (case s of Some r \<Rightarrow> (r, c, i) | None \<Rightarrow> httpchunk_loop wr te_skip c i)"
    using assms(2) st d by (subst httpchunk_loop.simps) (simp split: option.splits)
  have c: "case s of None \<Rightarrow> inp i = [] \<and> state c = CHUNK_DATA | Some e \<Rightarrow> e \<noteq> CURLE_OK"
    using data_piece_plus [OF assms(4), of m 0 ck io "[]" te_skip] assms(1,3) d
    by (auto simp: m_def split: option.splits)
  have io: "on io ys = io" using True by simp
  show ?thesis
  proof (cases s)
    case None
    with c have l: "httpchunk_loop wr te_skip c i = (CURLE_OK, c, i)" by (simp add: httpchunk_loop.simps)
    have "i\<lparr>inp := ys\<rparr> = i" using c None True by (cases i) simp
    with None c run l io show ?thesis by (simp add: continues_def)
  next
    case (Some e)
    with c run io show ?thesis by (simp add: continues_def)
  qed
next
  case False
  define m where "m = length (inp io)"
  define D where "D = unat (datasize ck)"
  have D: "sint (datasize ck) = int D" "unat (datasize ck) = D"
    unfolding D_def using sint_nonneg_unat [of "datasize ck"] assms(1) by (simp_all only: less_imp_le)
  define n where "n = (if D < m + length ys then D - m else length ys)"
  have mn: "int m + int n \<le> sint (datasize ck)" "n \<le> length ys" "int m < sint (datasize ck)"
    using assms(1) D by (auto simp: n_def m_def)
  have "(if sint (datasize ck) < int (length (inp (on io ys))) then curlx_sotouz (datasize ck)
      else length (inp (on io ys))) = m + n"
    using mn(3) D by (auto simp: n_def m_def)
  then have whole: "chunk_step wr te_skip ck (on io ys) = data_piece wr te_skip (m + n) ck (on io ys)"
    using assms(3) unfolding chunk_step_def chunk_data_def Let_def by simp
  have first: "chunk_step wr te_skip ck io = data_piece wr te_skip m ck io"
    using assms by (simp add: chunk_step_def chunk_data_def m_def)
  obtain s c i where d: "data_piece wr te_skip m ck io = (s, c, i)" by (cases "data_piece wr te_skip m ck io")
  have run: "httpchunk_loop wr te_skip ck io = (case s of Some r \<Rightarrow> (r, c, i) | None \<Rightarrow> httpchunk_loop wr te_skip c i)"
    using assms(2) first d by (subst httpchunk_loop.simps) (simp split: option.splits)
  have runs: "httpchunk_loop wr te_skip ck (on io ys) =
      (case data_piece wr te_skip (m + n) ck (on io ys) of
         (Some r, c, i) \<Rightarrow> (r, c, i) | (None, c, i) \<Rightarrow> httpchunk_loop wr te_skip c i)"
    using assms(2) whole by (subst httpchunk_loop.simps) simp
  note plus = data_piece_plus [OF assms(4) mn(1) m_def mn(2,3), of te_skip]
  show ?thesis
  proof (cases s)
    case (Some e)
    with plus d obtain c' i' where "data_piece wr te_skip (m + n) ck (on io ys) = (Some e, c', i')" "e \<noteq> CURLE_OK"
      "same_run (e, c, i) (e, c', i')" by auto
    with run runs Some show ?thesis by (simp add: continues_def)
  next
    case None
    with plus d have c: "inp i = []" "c = ck\<lparr>datasize := datasize ck - word_of_nat m\<rparr>" by auto
    then have l: "continues wr te_skip (httpchunk_loop wr te_skip ck io) ys = httpchunk_loop wr te_skip c (i\<lparr>inp := ys\<rparr>)"
      using run None assms(3) by (simp add: continues_def httpchunk_loop.simps)
    have "sint (datasize c) = int (D - m)"
      using c(2) mn(3) D sint_minus_nat [of "datasize ck" m] by simp
    then have "sint (datasize c) = int (D - m)" "unat (datasize c) = D - m"
      using sint_nonneg_unat [of "datasize c"] by linarith+
    then have "(if sint (datasize c) < int (length ys) then curlx_sotouz (datasize c) else length ys) = n"
      using mn(3) D by (auto simp: n_def)
    then have "chunk_step wr te_skip c (i\<lparr>inp := ys\<rparr>) = data_piece wr te_skip n c (i\<lparr>inp := ys\<rparr>)"
      using c(2) assms(3) unfolding chunk_step_def chunk_data_def Let_def by auto
    then have r2: "httpchunk_loop wr te_skip c (i\<lparr>inp := ys\<rparr>) =
      (case data_piece wr te_skip n c (i\<lparr>inp := ys\<rparr>) of
         (Some r, c, i) \<Rightarrow> (r, c, i) | (None, c, i) \<Rightarrow> httpchunk_loop wr te_skip c i)"
      using False by (subst httpchunk_loop.simps) simp
    obtain s' c' i' where d': "data_piece wr te_skip n c (i\<lparr>inp := ys\<rparr>) = (s', c', i')"
      by (cases "data_piece wr te_skip n c (i\<lparr>inp := ys\<rparr>)")
    show ?thesis
    proof (cases s')
      case None': None
      with plus d None d' have "data_piece wr te_skip (m + n) ck (on io ys) = (None, c', i')" by auto
      with runs r2 d' None' l show ?thesis by simp
    next
      case (Some e)
      with plus d None d' obtain c'' i'' where "data_piece wr te_skip (m + n) ck (on io ys) = (Some e, c'', i'')"
        "same_run (e, c', i') (e, c'', i'')" by auto
      with runs r2 d' Some l show ?thesis by simp
    qed
  qed
qed

text \<open>The whole loop.\<close>

lemma httpchunk_loop_split:
  "chunker_inv ck \<Longrightarrow> state ck \<noteq> CHUNK_DONE \<Longrightarrow> state ck \<noteq> CHUNK_FAILED \<Longrightarrow> additive wr \<Longrightarrow>
   same_run (continues wr te_skip (httpchunk_loop wr te_skip ck io) ys) (httpchunk_loop wr te_skip ck (on io ys))"
proof (induction wr te_skip ck io rule: httpchunk_loop.induct)
  case (1 wr te_skip ck io)
  show ?case
  proof (cases "inp io = []")
    case True
    then have "on io ys = io\<lparr>inp := ys\<rparr>" by simp
    with True "1.prems" show ?thesis
      by (simp add: httpchunk_loop.simps [of wr te_skip ck io] continues_def)
  next
    case False
    note unf = httpchunk_loop.simps [of wr te_skip ck io] httpchunk_loop.simps [of wr te_skip ck "on io ys"]
    consider (stop) "state ck = CHUNK_STOP" | (part) "state ck = CHUNK_DATA" "int (length (inp io)) < sint (datasize ck)"
      | (turn) "state ck \<noteq> CHUNK_STOP" "state ck = CHUNK_DATA \<longrightarrow> sint (datasize ck) \<le> int (length (inp io))" by linarith
    then show ?thesis
    proof cases
      case stop
      obtain b bs where "inp io = b # bs" using False by (cases "inp io") auto
      with stop unf show ?thesis
        by (cases io) (auto simp: chunk_step_def chunk_stop_def Let_def continues_def same_run_def chunk_fail_def advance_def)
    next
      case part
      with chunk_data_split False "1.prems"(4) show ?thesis by blast
    next
      case turn
      obtain s c i where st: "chunk_step wr te_skip ck io = (s, c, i)" by (cases "chunk_step wr te_skip ck io")
      have step: "chunk_step wr te_skip ck (on io ys) = (s, c, on i ys)"
      proof (cases "state ck = CHUNK_DATA")
        case True
        with turn "1.prems"(1) chunk_data_more [of ck io wr te_skip ys] st show ?thesis
          by (simp add: chunk_step_def chunker_inv_def)
      next
        case False': False
        with turn(1) chunk_step_more [OF False, of ck wr te_skip ys] st show ?thesis by simp
      qed
      have ok: "turn_ok ck io (s, c, i)" using chunk_step_ok [of ck io wr te_skip] False "1.prems" st by simp
      show ?thesis
      proof (cases s)
        case None
        with "1.IH" [OF False st [symmetric] None refl] ok "1.prems"(4)
        have "same_run (continues wr te_skip (httpchunk_loop wr te_skip c i) ys) (httpchunk_loop wr te_skip c (on i ys))"
          by (simp add: turn_ok_def)
        with unf st step None False show ?thesis by simp
      next
        case (Some r)
        with unf st step False ok show ?thesis by (auto simp: continues_def turn_ok_def same_run_def)
      qed
    qed
  qed
qed

subsection \<open>Calls one after the other\<close>

abbreviation later :: "nat \<Rightarrow> 'w call \<Rightarrow> 'w call" where
  "later k io \<equiv> io\<lparr>pconsumed := pconsumed io + k\<rparr>"

lemma trailer_line_later:
  "trailer_line wr te_skip ck (later k io) = (case trailer_line wr te_skip ck io of (r, c, i) \<Rightarrow> (r, c, later k i))"
  by (cases io) (auto simp: trailer_line_def Let_def advance_def split: prod.splits)

lemma chunk_trailer_later:
  "chunk_trailer wr te_skip ck (later k io) = (case chunk_trailer wr te_skip ck io of (r, c, i) \<Rightarrow> (r, c, later k i))"
  using trailer_line_later [of wr te_skip ck io k]
  by (cases io) (auto simp: chunk_trailer_def Let_def advance_def split: prod.splits)

lemma data_piece_later:
  "data_piece wr te_skip n ck (later k io) = (case data_piece wr te_skip n ck io of (r, c, i) \<Rightarrow> (r, c, later k i))"
  by (cases io) (auto simp: data_piece_def Let_def advance_def split: prod.splits)

lemma chunk_step_later:
  "chunk_step wr te_skip ck (later k io) = (case chunk_step wr te_skip ck io of (r, c, i) \<Rightarrow> (r, c, later k i))"
proof (cases "state ck")
  case CHUNK_TRAILER
  then show ?thesis by (simp add: chunk_step_def chunk_trailer_later)
next
  case CHUNK_DATA
  then show ?thesis by (simp add: chunk_step_def chunk_data_def Let_def data_piece_later)
qed (cases io; auto simp: chunk_step_def chunk_hex_def chunk_lf_def chunk_postlf_def chunk_stop_def
      chunk_trailer_cr_def chunk_trailer_postcr_def advance_def Let_def split: prod.splits)+

lemma httpchunk_loop_later:
  "httpchunk_loop wr te_skip ck (later k io) = (case httpchunk_loop wr te_skip ck io of (r, c, i) \<Rightarrow> (r, c, later k i))"
proof (induction wr te_skip ck io rule: httpchunk_loop.induct)
  case (1 wr te_skip ck io)
  note unf = httpchunk_loop.simps [of wr te_skip ck io] httpchunk_loop.simps [of wr te_skip ck "later k io"]
  show ?case
  proof (cases "inp io = []")
    case False
    obtain s c i where st: "chunk_step wr te_skip ck io = (s, c, i)" by (cases "chunk_step wr te_skip ck io")
    show ?thesis
    proof (cases s)
      case None
      with unf st False chunk_step_later [of wr te_skip ck io k] "1.IH" [OF False st [symmetric] None refl]
      show ?thesis by simp
    next
      case (Some r)
      with unf st False chunk_step_later [of wr te_skip ck io k] show ?thesis by simp
    qed
  qed (simp add: unf)
qed

lemma ignore_body_simps [simp]:
  "ignore_body (chunk_fail e ck) = ignore_body ck" "ignore_body (Curl_httpchunk_reset ck b) = b"
  by (simp_all add: chunk_fail_def Curl_httpchunk_reset_def)

lemma trailer_line_ignore_body:
  "trailer_line wr te_skip ck io = (r, c, i) \<Longrightarrow> ignore_body c = ignore_body ck"
  by (auto simp: trailer_line_def Let_def split: prod.splits if_splits)

lemma chunk_step_ignore_body:
  assumes "chunk_step wr te_skip ck io = (r, c, i)"
  shows "ignore_body c = ignore_body ck"
proof (cases "state ck")
  case CHUNK_TRAILER
  with assms have "chunk_trailer wr te_skip ck io = (r, c, i)" by (simp add: chunk_step_def)
  then show ?thesis
    by (auto simp: chunk_trailer_def Let_def dest: trailer_line_ignore_body split: prod.splits if_splits)
next
  case CHUNK_HEX
  with assms have "chunk_hex ck io = (r, c, i)" by (simp add: chunk_step_def)
  then show ?thesis by (auto simp: chunk_hex_def Let_def split: prod.splits if_splits)
next
  case CHUNK_DATA
  with assms have "\<exists>n. data_piece wr te_skip n ck io = (r, c, i)" by (auto simp: chunk_step_def chunk_data_def Let_def)
  then obtain n where n: "data_piece wr te_skip n ck io = (r, c, i)" ..
  then show ?thesis
    by (cases "wr (sink io) CLIENTWRITE_BODY (take n (inp io))") (auto simp: data_piece_def Let_def split: if_splits)
qed (use assms in \<open>auto simp: chunk_step_def chunk_lf_def chunk_postlf_def
    chunk_trailer_cr_def chunk_trailer_postcr_def chunk_stop_def Let_def split: if_splits\<close>)

lemma httpchunk_loop_ignore_body:
  "httpchunk_loop wr te_skip ck io = (r, c, i) \<Longrightarrow> ignore_body c = ignore_body ck"
proof (induction wr te_skip ck io arbitrary: r c i rule: httpchunk_loop.induct)
  case (1 wr te_skip ck io)
  show ?case
  proof (cases "inp io = []")
    case False
    obtain s d j where st: "chunk_step wr te_skip ck io = (s, d, j)" by (cases "chunk_step wr te_skip ck io")
    have d: "ignore_body d = ignore_body ck" by (rule chunk_step_ignore_body [OF st])
    have run: "(r, c, i) = (case s of Some r \<Rightarrow> (r, d, j) | None \<Rightarrow> httpchunk_loop wr te_skip d j)"
      using "1.prems" False st by (simp add: httpchunk_loop.simps [of wr te_skip ck io] split: option.splits)
    show ?thesis
    proof (cases s)
      case None
      with run have "httpchunk_loop wr te_skip d j = (r, c, i)" by simp
      with "1.IH" [OF False st [symmetric] None refl] d show ?thesis by simp
    next
      case (Some e)
      with run d show ?thesis by simp
    qed
  qed (use "1.prems" in \<open>simp add: httpchunk_loop.simps [of wr te_skip ck io]\<close>)
qed

text \<open>The calls of a connection that receives its data in segments, up to the first error.\<close>

fun chunk_feed ::
  "'w cwriter \<Rightarrow> bool \<Rightarrow> Curl_chunker \<Rightarrow> byte list list \<Rightarrow> 'w \<Rightarrow> alloc_script \<Rightarrow> CURLcode \<times> Curl_chunker \<times> 'w call" where
  "chunk_feed client te_skip ck [] w A = (CURLE_OK, ck, \<lparr>inp = [], pconsumed = 0, sink = w, allocs = A\<rparr>)"
| "chunk_feed client te_skip ck (s # ss) w A =
     (case Curl_httpchunk_read client te_skip ck s w A of
        (r, ck, io) \<Rightarrow>
          if r \<noteq> CURLE_OK then (r, ck, io)
          else
            case chunk_feed client te_skip ck ss (sink io) (allocs io) of
              (r, ck, io') \<Rightarrow> (r, ck, later (pconsumed io) io'))"

lemma httpchunk_read_loop:
  assumes "state ck \<noteq> CHUNK_DONE" "state ck \<noteq> CHUNK_FAILED" "\<not> te_skip \<or> ignore_body ck"
  shows "Curl_httpchunk_read client te_skip ck buf w A =
    httpchunk_loop client te_skip ck \<lparr>inp = buf, pconsumed = 0, sink = w, allocs = A\<rparr>"
  using assms by (auto simp: Curl_httpchunk_read_def httpchunk_readwrite_def chunk_writer_def)

text \<open>What can be compared when the input came in segments: the unread input of the last call cannot.\<close>

definition same_outcome ::
  "CURLcode \<times> Curl_chunker \<times> 'w call \<Rightarrow> CURLcode \<times> Curl_chunker \<times> 'w call \<Rightarrow> bool" where
  "same_outcome x y \<longleftrightarrow>
     (case (x, y) of
        ((r, c, i), (s, d, j)) \<Rightarrow>
          r = s \<and> sink i = sink j \<and> allocs i = allocs j \<and> state c = state d \<and> last_code c = last_code d \<and>
          (r = CURLE_OK \<longrightarrow> pconsumed i = pconsumed j) \<and>
          (r = CURLE_OK \<and> state c \<noteq> CHUNK_DONE \<longrightarrow> c = d))"

lemma same_outcome_trans: "same_outcome x y \<Longrightarrow> same_outcome y z \<Longrightarrow> same_outcome x z"
  by (auto simp: same_outcome_def)

lemma same_outcome_later: "same_outcome (r, c, i) (s, d, j) \<Longrightarrow> same_outcome (r, c, later k i) (s, d, later k j)"
  unfolding same_outcome_def prod.case by (elim conjE, intro conjI impI) simp_all

lemma same_run_outcome: "same_run x y \<Longrightarrow> same_outcome x y"
  by (auto simp: same_run_def same_outcome_def)

lemma chunk_feed_done:
  assumes "state ck = CHUNK_DONE"
  shows "same_outcome (chunk_feed client te_skip ck segs w A)
     (CURLE_OK, ck, \<lparr>inp = xs, pconsumed = 0, sink = w, allocs = A\<rparr>)"
proof (induction segs)
  case (Cons s ss)
  have "Curl_httpchunk_read client te_skip ck s w A = (CURLE_OK, ck, \<lparr>inp = s, pconsumed = 0, sink = w, allocs = A\<rparr>)"
    using assms by (simp add: Curl_httpchunk_read_def httpchunk_readwrite_def)
  with Cons show ?case by (simp add: same_outcome_def split: prod.splits)
qed (simp add: same_outcome_def)

lemma chunk_feed_concat:
  "chunker_inv ck \<Longrightarrow> state ck \<noteq> CHUNK_FAILED \<Longrightarrow> additive client \<Longrightarrow> \<not> te_skip \<or> ignore_body ck \<Longrightarrow>
   same_outcome (chunk_feed client te_skip ck segs w A) (Curl_httpchunk_read client te_skip ck (concat segs) w A)"
proof (induction segs arbitrary: ck w A)
  case Nil
  then show ?case
    by (cases "state ck = CHUNK_DONE")
      (auto simp: httpchunk_read_loop httpchunk_loop.simps same_outcome_def Curl_httpchunk_read_def httpchunk_readwrite_def)
next
  case (Cons s ss)
  show ?case
  proof (cases "state ck = CHUNK_DONE")
    case True
    then have "Curl_httpchunk_read client te_skip ck (concat (s # ss)) w A =
        (CURLE_OK, ck, \<lparr>inp = concat (s # ss), pconsumed = 0, sink = w, allocs = A\<rparr>)"
      by (simp add: Curl_httpchunk_read_def httpchunk_readwrite_def)
    then show ?thesis using chunk_feed_done [OF True, of client te_skip "s # ss" w A] by simp
  next
    case False
    let ?io = "\<lparr>inp = s, pconsumed = 0, sink = w, allocs = A\<rparr>"
    obtain r c i where l: "httpchunk_loop client te_skip ck ?io = (r, c, i)"
      by (cases "httpchunk_loop client te_skip ck ?io")
    note rd = httpchunk_read_loop [OF False Cons.prems(2,4), of client]
    note ok = httpchunk_loop_ok [OF Cons.prems(1) False Cons.prems(2) l]
    have split: "same_outcome (continues client te_skip (r, c, i) (concat ss))
        (Curl_httpchunk_read client te_skip ck (concat (s # ss)) w A)"
      using httpchunk_loop_split [OF Cons.prems(1) False Cons.prems(2,3), of te_skip ?io "concat ss"] l rd
      by (simp add: same_run_outcome)
    show ?thesis
    proof (cases "r = CURLE_OK")
      case False
      with l rd split show ?thesis by (simp add: continues_def)
    next
      case True
      obtain r' c' i' where f: "chunk_feed client te_skip c ss (sink i) (allocs i) = (r', c', i')"
        by (cases "chunk_feed client te_skip c ss (sink i) (allocs i)")
      have feed: "chunk_feed client te_skip ck (s # ss) w A = (r', c', later (pconsumed i) i')"
        using l rd True f by simp
      have sb: "\<not> te_skip \<or> ignore_body c" using Cons.prems(4) httpchunk_loop_ignore_body [OF l] by simp
      have "same_outcome (chunk_feed client te_skip ck (s # ss) w A) (continues client te_skip (r, c, i) (concat ss))"
      proof (cases "state c = CHUNK_DONE")
        case fin: True
        with chunk_feed_done [OF fin, of client te_skip ss "sink i" "allocs i" "[]"] f feed True show ?thesis
          by (auto simp: continues_def same_outcome_def)
      next
        case False
        have nf: "state c \<noteq> CHUNK_FAILED" using ok True by simp
        have "same_outcome (r', c', i') (httpchunk_loop client te_skip c \<lparr>inp = concat ss, pconsumed = 0, sink = sink i, allocs = allocs i\<rparr>)"
          using Cons.IH [of c "sink i" "allocs i"] ok nf sb Cons.prems(3) f
          by (simp add: httpchunk_read_loop [OF False nf sb])
        moreover define j where "j = \<lparr>inp = concat ss, pconsumed = 0, sink = sink i, allocs = allocs i\<rparr>"
        moreover obtain r2 c2 i2 where z: "httpchunk_loop client te_skip c j = (r2, c2, i2)"
          by (cases "httpchunk_loop client te_skip c j")
        ultimately have so: "same_outcome (r', c', i') (r2, c2, i2)" by simp
        have e: "i\<lparr>inp := concat ss\<rparr> = later (pconsumed i) j"
          unfolding j_def by (cases i) simp
        have "httpchunk_loop client te_skip c (i\<lparr>inp := concat ss\<rparr>) = (r2, c2, later (pconsumed i) i2)"
          unfolding e using httpchunk_loop_later [of client te_skip c j "pconsumed i"] z by simp
        then have k: "continues client te_skip (r, c, i) (concat ss) = (r2, c2, later (pconsumed i) i2)"
          using True False by (simp add: continues_def)
        show ?thesis unfolding feed k using so by (rule same_outcome_later)
      qed
      with split show ?thesis by (blast intro: same_outcome_trans)
    qed
  qed
qed

subsection \<open>Decoding a well-formed body\<close>

text \<open>
  The grammar: a chunk is its size in hexadecimal, an extension up to the line end, the
  data and a CRLF; after a chunk of size zero come the trailer lines and an empty line.
\<close>

type_synonym chunk = "byte list \<times> byte list \<times> byte list"

definition size_line :: "byte list \<Rightarrow> byte list \<Rightarrow> byte list" where
  "size_line hs ext = hs @ ext @ [0x0A]"

definition size_wf :: "byte list \<Rightarrow> byte list \<Rightarrow> int \<Rightarrow> bool" where
  "size_wf hs ext n \<longleftrightarrow> hs \<noteq> [] \<and> (\<forall>b \<in> set hs. ISXDIGIT b) \<and> length hs \<le> CHUNK_MAXNUM_LEN \<and>
     digits_value 16 hs = n \<and> n \<le> CURL_OFF_T_MAX \<and> 0x0A \<notin> set ext \<and> (ext = [] \<or> \<not> ISXDIGIT (hd ext))"

fun enc_chunk :: "chunk \<Rightarrow> byte list" where
  "enc_chunk (hs, ext, d) = size_line hs ext @ d @ CRLF"

fun chunk_wf :: "chunk \<Rightarrow> bool" where
  "chunk_wf (hs, ext, d) \<longleftrightarrow> size_wf hs ext (int (length d)) \<and> d \<noteq> []"

definition trailer_wf :: "byte list \<Rightarrow> bool" where
  "trailer_wf t \<longleftrightarrow> t \<noteq> [] \<and> 0x0D \<notin> set t \<and> 0x0A \<notin> set t \<and> length t + 2 < DYN_H1_TRAILER"

definition enc_body :: "chunk list \<Rightarrow> byte list \<Rightarrow> byte list \<Rightarrow> byte list list \<Rightarrow> byte list" where
  "enc_body cs hs ext ts =
     concat (map enc_chunk cs) @ size_line hs ext @ concat (map (\<lambda>t. t @ CRLF) ts) @ CRLF"

text \<open>A writer that records every byte with the type it came with.\<close>

definition tagged :: "(int \<times> byte) list cwriter" where
  "tagged w type xs = (CURLE_OK, w @ map (Pair type) xs)"

lemma additive_tagged: "additive tagged"
  by (simp add: additive_def tagged_def)

text \<open>Taking turns: \<open>ck, io\<close> leads to \<open>ck', io'\<close>.\<close>

definition leads :: "Curl_chunker \<Rightarrow> (int \<times> byte) list call \<Rightarrow> Curl_chunker \<Rightarrow> (int \<times> byte) list call \<Rightarrow> bool" where
  "leads ck io ck' io' \<longleftrightarrow> httpchunk_loop tagged False ck io = httpchunk_loop tagged False ck' io'"

lemma leads_refl [simp]: "leads ck io ck io"
  by (simp add: leads_def)

lemma leads_trans: "leads ck io ck' io' \<Longrightarrow> leads ck' io' ck'' io'' \<Longrightarrow> leads ck io ck'' io''"
  by (simp add: leads_def)

lemma leads_step:
  "inp io \<noteq> [] \<Longrightarrow> chunk_step tagged False ck io = (None, ck', io') \<Longrightarrow> leads ck io ck' io'"
  by (simp add: leads_def httpchunk_loop.simps [of tagged False ck io])

lemma leads_step_trans:
  "inp io \<noteq> [] \<Longrightarrow> chunk_step tagged False ck io = (None, ck', io') \<Longrightarrow> leads ck' io' ck'' io'' \<Longrightarrow> leads ck io ck'' io''"
  by (rule leads_trans [OF leads_step])

text \<open>The variables after reading \<open>n\<close> bytes, with \<open>r\<close> left.\<close>

abbreviation past :: "'w call \<Rightarrow> nat \<Rightarrow> byte list \<Rightarrow> 'w call" where
  "past io n r \<equiv> io\<lparr>inp := r, pconsumed := pconsumed io + n\<rparr>"

lemma advance_1: "inp io = b # r \<Longrightarrow> advance (Suc 0) io = past io 1 r"
  by (cases io) (simp add: advance_def)

lemma leads_hex_digits:
  "state ck = CHUNK_HEX \<Longrightarrow> length (hexbuffer ck) = CHUNK_MAXNUM_LEN + 1 \<Longrightarrow>
   hexindex ck + length hs \<le> CHUNK_MAXNUM_LEN \<Longrightarrow> \<forall>b \<in> set hs. ISXDIGIT b \<Longrightarrow> inp io = hs @ r \<Longrightarrow>
   \<exists>hb. length hb = CHUNK_MAXNUM_LEN + 1 \<and>
     take (hexindex ck + length hs) hb = take (hexindex ck) (hexbuffer ck) @ hs \<and>
     leads ck io (ck\<lparr>hexbuffer := hb, hexindex := hexindex ck + length hs\<rparr>) (past io (length hs) r)"
proof (induction hs arbitrary: ck io)
  case Nil
  then show ?case by (intro exI [of _ "hexbuffer ck"]) (cases ck; cases io; simp)
next
  case (Cons h hs)
  let ?ck = "ck\<lparr>hexbuffer := (hexbuffer ck)[hexindex ck := h], hexindex := hexindex ck + 1\<rparr>"
  have step: "chunk_step tagged False ck io = (None, ?ck, past io 1 (hs @ r))"
    using Cons.prems advance_1 [of io h "hs @ r"] by (simp add: chunk_step_def chunk_hex_def Let_def)
  have "hexindex ck < length (hexbuffer ck)" using Cons.prems(2,3) by simp
  then have tk: "take (Suc (hexindex ck)) ((hexbuffer ck)[hexindex ck := h]) = take (hexindex ck) (hexbuffer ck) @ [h]"
    by (simp add: take_Suc_conv_app_nth)
  obtain hb where hb: "length hb = CHUNK_MAXNUM_LEN + 1"
    "take (Suc (hexindex ck) + length hs) hb = take (Suc (hexindex ck)) ((hexbuffer ck)[hexindex ck := h]) @ hs"
    "leads ?ck (past io 1 (hs @ r)) (?ck\<lparr>hexbuffer := hb, hexindex := Suc (hexindex ck) + length hs\<rparr>)
       (past (past io 1 (hs @ r)) (length hs) r)"
    using Cons.IH [of ?ck "past io 1 (hs @ r)"] Cons.prems by auto
  have "leads ck io (ck\<lparr>hexbuffer := hb, hexindex := hexindex ck + length (h # hs)\<rparr>) (past io (length (h # hs)) r)"
    using leads_step_trans [OF _ step hb(3)] Cons.prems(5) by (cases io) simp
  with hb(1,2) tk show ?case by auto
qed

lemma xdigit_not_nul: "ISXDIGIT b \<Longrightarrow> b \<noteq> 0"
  using nul_not_class(4) by metis

lemma leads_ext:
  "state ck = CHUNK_LF \<Longrightarrow> 0x0A \<notin> set ext \<Longrightarrow> inp io = ext @ r \<Longrightarrow> leads ck io ck (past io (length ext) r)"
proof (induction ext arbitrary: io)
  case Nil
  then show ?case by (cases io) simp
next
  case (Cons b ext)
  have step: "chunk_step tagged False ck io = (None, ck, past io 1 (ext @ r))"
    using Cons.prems advance_1 [of io b "ext @ r"] by (simp add: chunk_step_def chunk_lf_def)
  have "leads ck (past io 1 (ext @ r)) ck (past (past io 1 (ext @ r)) (length ext) r)"
    using Cons.IH [of "past io 1 (ext @ r)"] Cons.prems by simp
  from leads_step_trans [OF _ step this] Cons.prems show ?case by (cases io) simp
qed

lemma leads_size_line:
  assumes "state ck = CHUNK_HEX" "hexindex ck = 0" "length (hexbuffer ck) = CHUNK_MAXNUM_LEN + 1"
    "size_wf hs ext n" "inp io = size_line hs ext @ r"
  shows "\<exists>hb k. length hb = CHUNK_MAXNUM_LEN + 1 \<and> k \<le> CHUNK_MAXNUM_LEN \<and>
    (\<forall>b \<in> set (take k hb). ISXDIGIT b) \<and> 
    leads ck io (ck\<lparr>hexbuffer := hb, hexindex := k, datasize := word_of_int n,
        state := if n = 0 then CHUNK_TRAILER else CHUNK_DATA\<rparr>)
      (past io (length (size_line hs ext)) r)"
proof -
  have wf: "hs \<noteq> []" "\<forall>b \<in> set hs. ISXDIGIT b" "length hs \<le> CHUNK_MAXNUM_LEN" "digits_value 16 hs = n"
    "n \<le> CURL_OFF_T_MAX" "0x0A \<notin> set ext" "ext = [] \<or> \<not> ISXDIGIT (hd ext)"
    using assms(4) by (auto simp: size_wf_def)
  obtain hb where hb: "length hb = CHUNK_MAXNUM_LEN + 1" "take (length hs) hb = hs"
    and l1: "leads ck io (ck\<lparr>hexbuffer := hb, hexindex := length hs\<rparr>) (past io (length hs) (ext @ 0x0A # r))"
    using leads_hex_digits [OF assms(1,3) _ wf(2), of io "ext @ 0x0A # r"] assms(2,5) wf(3)
    by (auto simp: size_line_def)
  define hb2 where "hb2 = hb[length hs := 0]"
  have "length hs < length hb" using hb(1) wf(3) by simp
  then have hb2: "length hb2 = CHUNK_MAXNUM_LEN + 1" "take (length hs) hb2 = hs" "hb2 = hs @ 0 # drop (Suc (length hs)) hb"
    using hb by (simp_all add: hb2_def upd_conv_take_nth_drop)
  have "cstr hb2 = hs"
    unfolding hb2(3) using wf(2) xdigit_not_nul by (intro cstr_append_nul) blast
  then have num: "curlx_strtoofft (cstr hb2) 16 = (CURL_OFFT_OK, length hs, n)"
    using curlx_strtoofft_number [of 16 "[]" hs "[]"] wf xdigit_is_digit by simp
  define ck2 where "ck2 = ck\<lparr>hexbuffer := hb2, hexindex := length hs, datasize := word_of_int n, state := CHUNK_LF\<rparr>"
  have nx: "\<not> ISXDIGIT (hd (ext @ 0x0A # r))"
    using wf(7) by (cases ext) (auto simp: ctype_defs)
  have s2: "chunk_step tagged False (ck\<lparr>hexbuffer := hb, hexindex := length hs\<rparr>) (past io (length hs) (ext @ 0x0A # r)) =
      (None, ck2, past io (length hs) (ext @ 0x0A # r))"
    using nx wf(1) num assms(1) by (simp add: chunk_step_def chunk_hex_def Let_def ck2_def flip: hb2_def)
  have l2: "leads ck io ck2 (past io (length hs) (ext @ 0x0A # r))"
    by (rule leads_trans [OF l1 leads_step [OF _ s2]]) simp
  have l3: "leads ck2 (past io (length hs) (ext @ 0x0A # r)) ck2 (past (past io (length hs) (ext @ 0x0A # r)) (length ext) (0x0A # r))"
    using leads_ext [of ck2 ext "past io (length hs) (ext @ 0x0A # r)" "0x0A # r"] wf(6) by (simp add: ck2_def)
  have n: "(word_of_int n :: 64 word) = 0 \<longleftrightarrow> n = 0"
    using sint_of_offt [of n] digits_value_nonneg [of 16 hs] wf xdigit_is_digit by (metis signed_0 zero_less_numeral of_int_0)
  have s4: "chunk_step tagged False ck2 (past (past io (length hs) (ext @ 0x0A # r)) (length ext) (0x0A # r)) =
      (None, ck2\<lparr>state := if n = 0 then CHUNK_TRAILER else CHUNK_DATA\<rparr>, past io (length hs + length ext + 1) r)"
    using n by (cases io) (simp add: chunk_step_def chunk_lf_def ck2_def advance_def)
  have "leads ck io (ck2\<lparr>state := if n = 0 then CHUNK_TRAILER else CHUNK_DATA\<rparr>) (past io (length hs + length ext + 1) r)"
    by (rule leads_trans [OF leads_trans [OF l2 l3] leads_step [OF _ s4]]) simp
  then show ?thesis
    using hb2 wf(2,3) by (intro exI [of _ hb2] exI [of _ "length hs"]) (simp add: ck2_def size_line_def add.assoc)
qed

text \<open>
  A chunker at the start of a chunk with an empty trailer buffer, and one that has not seen a
  trailer, where the buffer has no memory yet. What it hands on of the data.
\<close>

definition ready :: "Curl_chunker \<Rightarrow> bool" where
  "ready ck \<longleftrightarrow> state ck = CHUNK_HEX \<and> hexindex ck = 0 \<and> length (hexbuffer ck) = CHUNK_MAXNUM_LEN + 1 \<and>
     dyn_inv (trailer ck) \<and> toobig (trailer ck) = DYN_H1_TRAILER \<and> leng (trailer ck) = 0"

definition fresh :: "Curl_chunker \<Rightarrow> bool" where
  "fresh ck \<longleftrightarrow> state ck = CHUNK_HEX \<and> hexindex ck = 0 \<and> length (hexbuffer ck) = CHUNK_MAXNUM_LEN + 1 \<and>
     dyn_inv (trailer ck) \<and> toobig (trailer ck) = DYN_H1_TRAILER \<and> bufr (trailer ck) = None \<and> \<not> ignore_body ck"

lemma fresh_ready: "fresh ck \<longleftrightarrow> ready ck \<and> bufr (trailer ck) = None \<and> \<not> ignore_body ck"
  by (auto simp: fresh_def ready_def dyn_inv_def)

definition passed_data :: "bool \<Rightarrow> byte list \<Rightarrow> (int \<times> byte) list" where
  "passed_data ignore d = (if ignore then [] else map (Pair CLIENTWRITE_BODY) d)"

lemma passed_data_simps [simp]:
  "passed_data False d = map (Pair CLIENTWRITE_BODY) d" "passed_data b [] = []"
  "passed_data b (d @ e) = passed_data b d @ passed_data b e"
  by (simp_all add: passed_data_def)

lemma leads_data:
  assumes "state ck = CHUNK_DATA" "datasize ck = word_of_int (int (length d))" "int (length d) \<le> CURL_OFF_T_MAX"
    "d \<noteq> []" "inp io = d @ b # r"
  shows "leads ck io (ck\<lparr>datasize := 0, state := CHUNK_POSTLF\<rparr>)
    ((past io (length d) (b # r))\<lparr>sink := sink io @ passed_data (ignore_body ck) d\<rparr>)"
proof -
  have s: "sint (datasize ck) = int (length d)" using assms(2,3) sint_of_offt [of "int (length d)"] by simp
  then have u: "unat (datasize ck) = length d" using sint_nonneg_unat [of "datasize ck"] by linarith
  have "chunk_data tagged False ck io = data_piece tagged False (length d) ck io"
    unfolding chunk_data_def Let_def s using assms(5) u by simp
  moreover have "data_piece tagged False (length d) ck io = (None, ck\<lparr>datasize := 0, state := CHUNK_POSTLF\<rparr>,
      (past io (length d) (b # r))\<lparr>sink := sink io @ passed_data (ignore_body ck) d\<rparr>)"
    using assms by (cases io) (simp add: data_piece_def Let_def tagged_def advance_def passed_data_def)
  ultimately show ?thesis
    using assms(1,5) by (intro leads_step) (simp_all add: chunk_step_def)
qed

lemma leads_postlf:
  assumes "state ck = CHUNK_POSTLF" "inp io = CRLF @ r"
  shows "leads ck io (Curl_httpchunk_reset ck (ignore_body ck)) (past io 2 r)"
proof -
  have s1: "chunk_step tagged False ck io = (None, ck, past io 1 (0x0A # r))"
    using assms advance_1 [of io "0x0D" "0x0A # r"] by (simp add: chunk_step_def chunk_postlf_def CRLF_def)
  have s2: "chunk_step tagged False ck (past io 1 (0x0A # r)) = (None, Curl_httpchunk_reset ck (ignore_body ck), past io 2 r)"
    using assms(1) by (cases io) (simp add: chunk_step_def chunk_postlf_def advance_def)
  show ?thesis
    using leads_step_trans [OF _ s1 leads_step [OF _ s2]] assms(2) by (simp add: CRLF_def)
qed

lemma leads_chunk:
  assumes "ready ck" "chunk_wf c" "inp io = enc_chunk c @ r"
  shows "\<exists>ck'. ready ck' \<and> trailer ck' = trailer ck \<and> ignore_body ck' = ignore_body ck \<and> leads ck io ck'
    ((past io (length (enc_chunk c)) r)\<lparr>sink := sink io @ passed_data (ignore_body ck) (snd (snd c))\<rparr>)"
proof -
  obtain hs ext d where c: "c = (hs, ext, d)" by (cases c)
  have wf: "size_wf hs ext (int (length d))" "d \<noteq> []" using assms(2) c by simp_all
  have f: "state ck = CHUNK_HEX" "hexindex ck = 0" "length (hexbuffer ck) = CHUNK_MAXNUM_LEN + 1"
    "dyn_inv (trailer ck)" "toobig (trailer ck) = DYN_H1_TRAILER" "leng (trailer ck) = 0"
    using assms(1) by (simp_all add: ready_def)
  have i: "inp io = size_line hs ext @ d @ CRLF @ r" using assms(3) c by simp
  obtain hb k where hb: "length hb = CHUNK_MAXNUM_LEN + 1"
    and l1: "leads ck io (ck\<lparr>hexbuffer := hb, hexindex := k, datasize := word_of_int (int (length d)), state := CHUNK_DATA\<rparr>)
      (past io (length (size_line hs ext)) (d @ CRLF @ r))"
    using leads_size_line [OF f(1-3) wf(1) i] wf(2) by auto
  let ?ck1 = "ck\<lparr>hexbuffer := hb, hexindex := k, datasize := word_of_int (int (length d)), state := CHUNK_DATA\<rparr>"
  let ?io1 = "past io (length (size_line hs ext)) (d @ CRLF @ r)"
  let ?ck2 = "?ck1\<lparr>datasize := 0, state := CHUNK_POSTLF\<rparr>"
  let ?io2 = "(past ?io1 (length d) (CRLF @ r))\<lparr>sink := sink ?io1 @ passed_data (ignore_body ck) d\<rparr>"
  have l2: "leads ?ck1 ?io1 ?ck2 ?io2"
    using leads_data [of ?ck1 d ?io1 "0x0D" "0x0A # r"] wf by (simp add: size_wf_def CRLF_def)
  have l3: "leads ?ck2 ?io2 (Curl_httpchunk_reset ?ck2 (ignore_body ?ck2)) (past ?io2 2 r)"
    by (rule leads_postlf) simp_all
  have "Curl_dyn_reset (trailer ck) = trailer ck" using f(6) by (simp add: Curl_dyn_reset_def)
  then have "ready (Curl_httpchunk_reset ?ck2 (ignore_body ?ck2))" "trailer (Curl_httpchunk_reset ?ck2 (ignore_body ?ck2)) = trailer ck"
    using f hb by (simp_all add: ready_def Curl_httpchunk_reset_def)
  moreover have "past ?io2 2 r =
      (past io (length (enc_chunk c)) r)\<lparr>sink := sink io @ passed_data (ignore_body ck) (snd (snd c))\<rparr>"
    using c by (cases io) (simp add: CRLF_def)
  ultimately show ?thesis using leads_trans [OF leads_trans [OF l1 l2] l3]
    by (intro exI conjI) (simp_all add: Curl_httpchunk_reset_def)
qed

lemma leads_chunks:
  "ready ck \<Longrightarrow> \<forall>c \<in> set cs. chunk_wf c \<Longrightarrow> inp io = concat (map enc_chunk cs) @ r \<Longrightarrow>
   \<exists>ck'. ready ck' \<and> trailer ck' = trailer ck \<and> ignore_body ck' = ignore_body ck \<and>
     leads ck io ck' ((past io (length (concat (map enc_chunk cs))) r)
       \<lparr>sink := sink io @ passed_data (ignore_body ck) (concat (map (\<lambda>c. snd (snd c)) cs))\<rparr>)"
proof (induction cs arbitrary: ck io)
  case Nil
  then show ?case by (intro exI [of _ ck]) (cases io; simp)
next
  case (Cons c cs)
  let ?io1 = "(past io (length (enc_chunk c)) (concat (map enc_chunk cs) @ r))
      \<lparr>sink := sink io @ passed_data (ignore_body ck) (snd (snd c))\<rparr>"
  obtain ck1 where ck1: "ready ck1" "trailer ck1 = trailer ck" "ignore_body ck1 = ignore_body ck" "leads ck io ck1 ?io1"
    using leads_chunk [OF Cons.prems(1), of c io "concat (map enc_chunk cs) @ r"] Cons.prems(2,3) by auto
  obtain ck2 where ck2: "ready ck2" "trailer ck2 = trailer ck" "ignore_body ck2 = ignore_body ck"
    "leads ck1 ?io1 ck2 ((past ?io1 (length (concat (map enc_chunk cs))) r)
       \<lparr>sink := sink ?io1 @ passed_data (ignore_body ck) (concat (map (\<lambda>c. snd (snd c)) cs))\<rparr>)"
    using Cons.IH [OF ck1(1), of ?io1] Cons.prems(2) ck1(2,3) by auto
  have "leads ck io ck2 ((past io (length (concat (map enc_chunk (c # cs)))) r)
     \<lparr>sink := sink io @ passed_data (ignore_body ck) (concat (map (\<lambda>c. snd (snd c)) (c # cs)))\<rparr>)"
    using leads_trans [OF ck1(4) ck2(4)] by (cases io) (simp add: add.assoc)
  with ck2(1-3) show ?case by blast
qed

text \<open>The chunks and the size line of the last one.\<close>

lemma leads_body:
  assumes "ready ck" "\<forall>c \<in> set cs. chunk_wf c" "size_wf hs ext 0"
    "inp io = concat (map enc_chunk cs) @ size_line hs ext @ r"
  shows "\<exists>ck'. state ck' = CHUNK_TRAILER \<and> trailer ck' = trailer ck \<and> leads ck io ck'
    ((past io (length (concat (map enc_chunk cs) @ size_line hs ext)) r)
       \<lparr>sink := sink io @ passed_data (ignore_body ck) (concat (map (\<lambda>c. snd (snd c)) cs))\<rparr>)"
proof -
  let ?C = "concat (map enc_chunk cs)"
  let ?io1 = "(past io (length ?C) (size_line hs ext @ r))
      \<lparr>sink := sink io @ passed_data (ignore_body ck) (concat (map (\<lambda>c. snd (snd c)) cs))\<rparr>"
  obtain ck1 where ck1: "ready ck1" "trailer ck1 = trailer ck" "leads ck io ck1 ?io1"
    using leads_chunks [OF assms(1,2,4)] by auto
  have f: "state ck1 = CHUNK_HEX" "hexindex ck1 = 0" "length (hexbuffer ck1) = CHUNK_MAXNUM_LEN + 1"
    using ck1(1) by (simp_all add: ready_def)
  obtain hb k where l2: "leads ck1 ?io1 (ck1\<lparr>hexbuffer := hb, hexindex := k, datasize := word_of_int 0, state := CHUNK_TRAILER\<rparr>)
      (past ?io1 (length (size_line hs ext)) r)"
    using leads_size_line [OF f assms(3), of ?io1 r] by auto
  let ?ck2 = "ck1\<lparr>hexbuffer := hb, hexindex := k, datasize := word_of_int 0, state := CHUNK_TRAILER\<rparr>"
  have "leads ck io ?ck2 ((past io (length (?C @ size_line hs ext)) r)
       \<lparr>sink := sink io @ passed_data (ignore_body ck) (concat (map (\<lambda>c. snd (snd c)) cs))\<rparr>)"
    using leads_trans [OF ck1(3) l2] by (cases io) (simp add: add.assoc)
  moreover have "state ?ck2 = CHUNK_TRAILER \<and> trailer ?ck2 = trailer ck" using ck1(2) by simp
  ultimately show ?thesis by blast
qed

subsection \<open>The trailer\<close>

text \<open>A chunker where a trailer line may begin: the first time, and after another line.\<close>

definition at_line :: "Curl_chunker \<Rightarrow> bool" where
  "at_line ck \<longleftrightarrow> dyn_inv (trailer ck) \<and> toobig (trailer ck) = DYN_H1_TRAILER \<and> dyn_content (trailer ck) = [] \<and>
     (state ck = CHUNK_TRAILER \<and> bufr (trailer ck) = None \<or> state ck = CHUNK_TRAILER_POSTCR)"

lemma leads_line_bytes:
  "state ck = CHUNK_TRAILER \<Longrightarrow> dyn_inv (trailer ck) \<Longrightarrow> toobig (trailer ck) = DYN_H1_TRAILER \<Longrightarrow> no_oom (allocs io) \<Longrightarrow>
   0x0D \<notin> set t \<Longrightarrow> 0x0A \<notin> set t \<Longrightarrow> length (dyn_content (trailer ck)) + length t < DYN_H1_TRAILER \<Longrightarrow> inp io = t @ r \<Longrightarrow>
   \<exists>d A. dyn_inv d \<and> toobig d = DYN_H1_TRAILER \<and> dyn_content d = dyn_content (trailer ck) @ t \<and> no_oom A \<and>
     leads ck io (ck\<lparr>trailer := d\<rparr>) ((past io (length t) r)\<lparr>allocs := A\<rparr>)"
proof (induction t arbitrary: ck io)
  case Nil
  then show ?case by (intro exI [of _ "trailer ck"] exI [of _ "allocs io"]) (cases io; cases ck; simp)
next
  case (Cons b t)
  have "leng (trailer ck) + length [b] < toobig (trailer ck)"
    using Cons.prems(2,3,7) dyn_len_content [of "trailer ck"] by (simp add: Curl_dyn_len_def)
  from dyn_nappend_no_oom [OF Cons.prems(2,4) this] obtain d1 A1 where
    d1: "dyn_nappend (trailer ck) [b] (allocs io) = (CURLE_OK, d1, A1)" "dyn_inv d1" "no_oom A1"
      "dyn_content d1 = dyn_content (trailer ck) @ [b]" "toobig d1 = toobig (trailer ck)" "bufr d1 \<noteq> None" by blast
  let ?ck1 = "ck\<lparr>trailer := d1\<rparr>" and ?io1 = "(past io 1 (t @ r))\<lparr>allocs := A1\<rparr>"
  have step: "chunk_step tagged False ck io = (None, ?ck1, ?io1)"
    using Cons.prems(1,5,6,8) d1(1) by (cases io) (auto simp: chunk_step_def chunk_trailer_def Curl_dyn_addn_def Let_def advance_def)
  from Cons.IH [of ?ck1 ?io1] Cons.prems d1 obtain d A where
    d: "dyn_inv d" "toobig d = DYN_H1_TRAILER" "dyn_content d = dyn_content d1 @ t" "no_oom A"
      "leads ?ck1 ?io1 (?ck1\<lparr>trailer := d\<rparr>) ((past ?io1 (length t) r)\<lparr>allocs := A\<rparr>)" by auto
  have "leads ck io (ck\<lparr>trailer := d\<rparr>) ((past io (length (b # t)) r)\<lparr>allocs := A\<rparr>)"
    using leads_step_trans [OF _ step d(5)] Cons.prems(8) by (cases io) simp
  then show ?case using d(1-4) d1(4) by auto
qed

lemma dyn_content_ptr: "dyn_inv d \<Longrightarrow> dyn_content d \<noteq> [] \<Longrightarrow>
  take (Curl_dyn_len d) (the (Curl_dyn_ptr d)) = dyn_content d \<and> Curl_dyn_ptr d \<noteq> None"
  by (auto simp: dyn_content_def Curl_dyn_ptr_def Curl_dyn_len_def split: option.splits)

text \<open>The line end after a trailer line passes the line on.\<close>

lemma leads_line_end:
  assumes "state ck = CHUNK_TRAILER" "dyn_inv (trailer ck)" "toobig (trailer ck) = DYN_H1_TRAILER" "no_oom (allocs io)"
    "dyn_content (trailer ck) = t" "bufr (trailer ck) \<noteq> None" "length t + 2 < DYN_H1_TRAILER" "inp io = CRLF @ r"
  shows "\<exists>ck' A. at_line ck' \<and> state ck' = CHUNK_TRAILER_POSTCR \<and> bufr (trailer ck') \<noteq> None \<and> no_oom A \<and> leads ck io ck'
    ((past io 2 r)\<lparr>sink := sink io @ map (Pair (CLIENTWRITE_HEADER OR CLIENTWRITE_TRAILER)) (t @ CRLF), allocs := A\<rparr>)"
proof -
  have "leng (trailer ck) + length [0x0D, 0x0A :: byte] < toobig (trailer ck)"
    using assms(2,3,5,7) dyn_len_content [of "trailer ck"] by (simp add: Curl_dyn_len_def)
  from dyn_nappend_no_oom [OF assms(2,4) this] obtain d A where
    d0: "dyn_nappend (trailer ck) [0x0D, 0x0A] (allocs io) = (CURLE_OK, d, A)" "dyn_inv d" "no_oom A"
      "dyn_content d = dyn_content (trailer ck) @ [0x0D, 0x0A]" "toobig d = toobig (trailer ck)" "bufr d \<noteq> None" by blast
  have d: "dyn_nappend (trailer ck) [0x0D, 0x0A] (allocs io) = (CURLE_OK, d, A)" "dyn_inv d" "no_oom A"
      "dyn_content d = t @ CRLF" "toobig d = DYN_H1_TRAILER" "bufr d \<noteq> None" using d0 assms(3,5) by (simp_all add: CRLF_def)
  have p: "take (Curl_dyn_len d) (the (Curl_dyn_ptr d)) = t @ CRLF"
    using dyn_content_ptr [OF d(2)] d(4) by (simp add: CRLF_def)
  have np: "Curl_dyn_ptr (trailer ck) \<noteq> None" using assms(6) by (simp add: Curl_dyn_ptr_def)
  let ?ck1 = "ck\<lparr>trailer := Curl_dyn_reset d, state := CHUNK_TRAILER_CR\<rparr>"
  let ?io1 = "(past io 1 (0x0A # r))\<lparr>allocs := A,
      sink := sink io @ map (Pair (CLIENTWRITE_HEADER OR CLIENTWRITE_TRAILER)) (t @ CRLF)\<rparr>"
  have "trailer_line tagged False ck io = (None, ?ck1, ?io1)"
    using d(1) p assms(8)
    by (cases io) (simp add: trailer_line_def Curl_dyn_addn_def tagged_def Let_def advance_def CRLF_def)
  then have s1: "chunk_step tagged False ck io = (None, ?ck1, ?io1)"
    using assms(1,8) np by (simp add: chunk_step_def chunk_trailer_def CRLF_def)
  have s2: "chunk_step tagged False ?ck1 ?io1 = (None, ?ck1\<lparr>state := CHUNK_TRAILER_POSTCR\<rparr>,
      (past io 2 r)\<lparr>sink := sink io @ map (Pair (CLIENTWRITE_HEADER OR CLIENTWRITE_TRAILER)) (t @ CRLF), allocs := A\<rparr>)"
    by (cases io) (simp add: chunk_step_def chunk_trailer_cr_def advance_def)
  have "at_line (?ck1\<lparr>state := CHUNK_TRAILER_POSTCR\<rparr>)"
    using d(2,5) by (simp add: at_line_def inv_intros)
  moreover have "bufr (Curl_dyn_reset d) \<noteq> None" using d(6) by (simp add: Curl_dyn_reset_def Let_def)
  ultimately show ?thesis
    using leads_step_trans [OF _ s1 leads_step [OF _ s2]] assms(8) d(3)
    by (intro exI conjI) (simp_all add: CRLF_def del: not_None_eq)
qed

lemma leads_line:
  assumes "at_line ck" "trailer_wf t" "no_oom (allocs io)" "inp io = t @ CRLF @ r"
  shows "\<exists>ck' A. at_line ck' \<and> bufr (trailer ck') \<noteq> None \<and> no_oom A \<and> leads ck io ck'
    ((past io (length t + 2) r)\<lparr>sink := sink io @ map (Pair (CLIENTWRITE_HEADER OR CLIENTWRITE_TRAILER)) (t @ CRLF), allocs := A\<rparr>)"
proof -
  have t: "t \<noteq> []" "0x0D \<notin> set t" "0x0A \<notin> set t" "length t + 2 < DYN_H1_TRAILER"
    using assms(2) by (auto simp: trailer_wf_def)
  have a: "dyn_inv (trailer ck)" "toobig (trailer ck) = DYN_H1_TRAILER" "dyn_content (trailer ck) = []"
    using assms(1) by (auto simp: at_line_def)
  define ck0 where "ck0 = ck\<lparr>state := CHUNK_TRAILER\<rparr>"
  have l0: "leads ck io ck0 io"
  proof (cases "state ck = CHUNK_TRAILER")
    case True
    then have "ck0 = ck" unfolding ck0_def by (cases ck) simp
    then show ?thesis by simp
  next
    case False
    then have "state ck = CHUNK_TRAILER_POSTCR" using assms(1) by (auto simp: at_line_def)
    with t assms(4) have "chunk_step tagged False ck io = (None, ck0, io)"
      by (cases t) (auto simp: chunk_step_def chunk_trailer_postcr_def ck0_def Let_def)
    then show ?thesis using leads_step t(1) assms(4) by simp
  qed
  obtain d A where d: "dyn_inv d" "toobig d = DYN_H1_TRAILER" "dyn_content d = t" "no_oom A"
    "leads ck0 io (ck0\<lparr>trailer := d\<rparr>) ((past io (length t) (CRLF @ r))\<lparr>allocs := A\<rparr>)"
    using leads_line_bytes [of ck0 io t "CRLF @ r"] a t assms(3,4) by (auto simp: ck0_def)
  have "bufr d \<noteq> None" using d(3) t(1) by (cases "bufr d") (auto simp: dyn_content_def)
  then obtain ck' B where e: "at_line ck'" "no_oom B" "bufr (trailer ck') \<noteq> None" "leads (ck0\<lparr>trailer := d\<rparr>) ((past io (length t) (CRLF @ r))\<lparr>allocs := A\<rparr>) ck'
    ((past ((past io (length t) (CRLF @ r))\<lparr>allocs := A\<rparr>) 2 r)
      \<lparr>sink := sink io @ map (Pair (CLIENTWRITE_HEADER OR CLIENTWRITE_TRAILER)) (t @ CRLF), allocs := B\<rparr>)"
    using leads_line_end [of "ck0\<lparr>trailer := d\<rparr>" "(past io (length t) (CRLF @ r))\<lparr>allocs := A\<rparr>" t r] d t
    by (auto simp: ck0_def simp del: not_None_eq)
  have "leads ck io ck' ((past io (length t + 2) r)
      \<lparr>sink := sink io @ map (Pair (CLIENTWRITE_HEADER OR CLIENTWRITE_TRAILER)) (t @ CRLF), allocs := B\<rparr>)"
    using leads_trans [OF leads_trans [OF l0 d(5)] e(4)] by (cases io) (simp add: add.assoc)
  with e(1-3) show ?thesis by blast
qed

lemma leads_lines:
  "at_line ck \<Longrightarrow> \<forall>t \<in> set ts. trailer_wf t \<Longrightarrow> no_oom (allocs io) \<Longrightarrow> inp io = concat (map (\<lambda>t. t @ CRLF) ts) @ r \<Longrightarrow>
   \<exists>ck' A. at_line ck' \<and> (ts \<noteq> [] \<or> bufr (trailer ck) \<noteq> None \<longrightarrow> bufr (trailer ck') \<noteq> None) \<and> no_oom A \<and>
     leads ck io ck' ((past io (length (concat (map (\<lambda>t. t @ CRLF) ts))) r)
     \<lparr>sink := sink io @ map (Pair (CLIENTWRITE_HEADER OR CLIENTWRITE_TRAILER)) (concat (map (\<lambda>t. t @ CRLF) ts)), allocs := A\<rparr>)"
proof (induction ts arbitrary: ck io)
  case Nil
  then show ?case by (intro exI [of _ ck] exI [of _ "allocs io"]) (cases io; simp)
next
  case (Cons t ts)
  let ?rest = "concat (map (\<lambda>t. t @ CRLF) ts)"
  obtain ck1 A1 where ck1: "at_line ck1" "no_oom A1" "bufr (trailer ck1) \<noteq> None" "leads ck io ck1 ((past io (length t + 2) (?rest @ r))
      \<lparr>sink := sink io @ map (Pair (CLIENTWRITE_HEADER OR CLIENTWRITE_TRAILER)) (t @ CRLF), allocs := A1\<rparr>)"
    using leads_line [OF Cons.prems(1), of t io "?rest @ r"] Cons.prems(2-4) by (auto simp del: not_None_eq)
  let ?io1 = "(past io (length t + 2) (?rest @ r))
      \<lparr>sink := sink io @ map (Pair (CLIENTWRITE_HEADER OR CLIENTWRITE_TRAILER)) (t @ CRLF), allocs := A1\<rparr>"
  obtain ck2 A2 where ck2: "at_line ck2" "no_oom A2" "bufr (trailer ck2) \<noteq> None" "leads ck1 ?io1 ck2 ((past ?io1 (length ?rest) r)
     \<lparr>sink := sink ?io1 @ map (Pair (CLIENTWRITE_HEADER OR CLIENTWRITE_TRAILER)) ?rest, allocs := A2\<rparr>)"
    using Cons.IH [OF ck1(1), of ?io1] Cons.prems(2) ck1(2,3) by (auto simp del: not_None_eq)
  have "leads ck io ck2 ((past io (length (concat (map (\<lambda>t. t @ CRLF) (t # ts)))) r)
     \<lparr>sink := sink io @ map (Pair (CLIENTWRITE_HEADER OR CLIENTWRITE_TRAILER)) (concat (map (\<lambda>t. t @ CRLF) (t # ts))), allocs := A2\<rparr>)"
    using leads_trans [OF ck1(4) ck2(4)] by (cases io) (simp add: add.assoc CRLF_def)
  with ck2(1-3) show ?case by blast
qed

text \<open>The empty line at the end.\<close>

lemma body_end:
  assumes "at_line ck" "inp io = CRLF @ r"
  shows "\<exists>ck'. state ck' = CHUNK_DONE \<and> trailer ck' = trailer ck \<and>
    httpchunk_loop tagged False ck io = (CURLE_OK, ck', past io 2 r)"
proof -
  define ck1 where "ck1 = ck\<lparr>state := CHUNK_TRAILER_POSTCR\<rparr>"
  have l1: "leads ck io ck1 io"
  proof (cases "state ck = CHUNK_TRAILER_POSTCR")
    case True
    then have "ck1 = ck" unfolding ck1_def by (cases ck) simp
    then show ?thesis by simp
  next
    case False
    then have "state ck = CHUNK_TRAILER" "bufr (trailer ck) = None" using assms(1) by (auto simp: at_line_def)
    with assms(2) have "chunk_step tagged False ck io = (None, ck1, io)"
      by (simp add: chunk_step_def chunk_trailer_def ck1_def Curl_dyn_ptr_def CRLF_def)
    then show ?thesis using leads_step assms(2) by (simp add: CRLF_def)
  qed
  let ?ck2 = "ck\<lparr>state := CHUNK_STOP\<rparr>" and ?io2 = "past io 1 (0x0A # r)"
  have s2: "chunk_step tagged False ck1 io = (None, ?ck2, ?io2)"
    using assms(2) by (cases io) (simp add: chunk_step_def chunk_trailer_postcr_def ck1_def advance_def CRLF_def)
  have s3: "chunk_step tagged False ?ck2 ?io2 =
      (Some CURLE_OK, ck\<lparr>datasize := word_of_nat (length r), state := CHUNK_DONE\<rparr>, past io 2 r)"
    by (cases io) (simp add: chunk_step_def chunk_stop_def advance_def)
  have "leads ck io ?ck2 ?io2"
    using leads_trans [OF l1 leads_step [OF _ s2]] assms(2) by (simp add: CRLF_def)
  moreover have "httpchunk_loop tagged False ?ck2 ?io2 =
      (CURLE_OK, ck\<lparr>datasize := word_of_nat (length r), state := CHUNK_DONE\<rparr>, past io 2 r)"
    using s3 by (subst httpchunk_loop.simps) simp
  ultimately show ?thesis by (simp add: leads_def)
qed

lemma decode_ready:
  assumes "ready ck" "bufr (trailer ck) = None" "\<forall>c \<in> set cs. chunk_wf c" "size_wf hs ext 0" "\<forall>t \<in> set ts. trailer_wf t"
    "no_oom (allocs io)" "inp io = enc_body cs hs ext ts @ r"
  shows "\<exists>ck' A. state ck' = CHUNK_DONE \<and> (ts \<noteq> [] \<longrightarrow> bufr (trailer ck') \<noteq> None) \<and> no_oom A \<and>
    httpchunk_loop tagged False ck io =
    (CURLE_OK, ck', (past io (length (enc_body cs hs ext ts)) r)
      \<lparr>sink := sink io @ passed_data (ignore_body ck) (concat (map (\<lambda>c. snd (snd c)) cs)) @
         map (Pair (CLIENTWRITE_HEADER OR CLIENTWRITE_TRAILER)) (concat (map (\<lambda>t. t @ CRLF) ts)), allocs := A\<rparr>)"
proof -
  let ?T = "concat (map (\<lambda>t. t @ CRLF) ts)" and ?C = "concat (map enc_chunk cs) @ size_line hs ext"
  let ?io2 = "(past io (length ?C) (?T @ CRLF @ r))
      \<lparr>sink := sink io @ passed_data (ignore_body ck) (concat (map (\<lambda>c. snd (snd c)) cs))\<rparr>"
  obtain ck2 where ck2: "state ck2 = CHUNK_TRAILER" "trailer ck2 = trailer ck" "leads ck io ck2 ?io2"
    using leads_body [OF assms(1,3,4), of io "?T @ CRLF @ r"] assms(7) by (auto simp: enc_body_def)
  have a2: "at_line ck2" using assms(1,2) ck2 by (simp add: at_line_def ready_def dyn_content_def)
  obtain ck3 A where ck3: "at_line ck3" "no_oom A" "ts \<noteq> [] \<longrightarrow> bufr (trailer ck3) \<noteq> None"
    "leads ck2 ?io2 ck3 ((past ?io2 (length ?T) (CRLF @ r))
       \<lparr>sink := sink ?io2 @ map (Pair (CLIENTWRITE_HEADER OR CLIENTWRITE_TRAILER)) ?T, allocs := A\<rparr>)"
    using leads_lines [OF a2 assms(5), of ?io2 "CRLF @ r"] assms(6) by (auto simp del: not_None_eq)
  obtain ck4 where ck4: "state ck4 = CHUNK_DONE" "trailer ck4 = trailer ck3"
    "httpchunk_loop tagged False ck3 ((past ?io2 (length ?T) (CRLF @ r))
     \<lparr>sink := sink ?io2 @ map (Pair (CLIENTWRITE_HEADER OR CLIENTWRITE_TRAILER)) ?T, allocs := A\<rparr>) =
     (CURLE_OK, ck4, past ((past ?io2 (length ?T) (CRLF @ r))
     \<lparr>sink := sink ?io2 @ map (Pair (CLIENTWRITE_HEADER OR CLIENTWRITE_TRAILER)) ?T, allocs := A\<rparr>) 2 r)"
    using body_end [OF ck3(1), of "(past ?io2 (length ?T) (CRLF @ r))
     \<lparr>sink := sink ?io2 @ map (Pair (CLIENTWRITE_HEADER OR CLIENTWRITE_TRAILER)) ?T, allocs := A\<rparr>" r] by auto
  have "httpchunk_loop tagged False ck io = (CURLE_OK, ck4, (past io (length (enc_body cs hs ext ts)) r)
      \<lparr>sink := sink io @ passed_data (ignore_body ck) (concat (map (\<lambda>c. snd (snd c)) cs)) @
         map (Pair (CLIENTWRITE_HEADER OR CLIENTWRITE_TRAILER)) ?T, allocs := A\<rparr>)"
    using leads_trans [OF ck2(3) ck3(4)] ck4(3)
    unfolding leads_def by (cases io) (simp add: enc_body_def add.assoc CRLF_def)
  with ck4(1,2) ck3(2,3) show ?thesis by metis
qed

lemma decode_body:
  assumes "fresh ck" "\<forall>c \<in> set cs. chunk_wf c" "size_wf hs ext 0" "\<forall>t \<in> set ts. trailer_wf t" "no_oom (allocs io)"
    "inp io = enc_body cs hs ext ts @ r"
  shows "\<exists>ck' A. state ck' = CHUNK_DONE \<and> no_oom A \<and> httpchunk_loop tagged False ck io =
    (CURLE_OK, ck', (past io (length (enc_body cs hs ext ts)) r)
      \<lparr>sink := sink io @ map (Pair CLIENTWRITE_BODY) (concat (map (\<lambda>c. snd (snd c)) cs)) @
         map (Pair (CLIENTWRITE_HEADER OR CLIENTWRITE_TRAILER)) (concat (map (\<lambda>t. t @ CRLF) ts)), allocs := A\<rparr>)"
  using decode_ready [of ck cs hs ext ts io r] assms by (auto simp: fresh_ready)

text \<open>
  A body without trailers for a chunker that has a trailer buffer already: its last empty line
  is taken for a trailer line, and the end is not seen.
\<close>

lemma decode_stale:
  assumes "ready ck" "bufr (trailer ck) \<noteq> None" "\<forall>c \<in> set cs. chunk_wf c" "size_wf hs ext 0"
    "no_oom (allocs io)" "inp io = enc_body cs hs ext []"
  shows "\<exists>ck' A. state ck' = CHUNK_TRAILER_POSTCR \<and> httpchunk_loop tagged False ck io =
    (CURLE_OK, ck', (past io (length (enc_body cs hs ext [])) [])
      \<lparr>sink := sink io @ passed_data (ignore_body ck) (concat (map (\<lambda>c. snd (snd c)) cs)) @
         map (Pair (CLIENTWRITE_HEADER OR CLIENTWRITE_TRAILER)) CRLF, allocs := A\<rparr>)"
proof -
  let ?C = "concat (map enc_chunk cs) @ size_line hs ext"
  let ?io2 = "(past io (length ?C) CRLF)
      \<lparr>sink := sink io @ passed_data (ignore_body ck) (concat (map (\<lambda>c. snd (snd c)) cs))\<rparr>"
  obtain ck2 where ck2: "state ck2 = CHUNK_TRAILER" "trailer ck2 = trailer ck" "leads ck io ck2 ?io2"
    using leads_body [OF assms(1,3,4), of io CRLF] assms(6) by (auto simp: enc_body_def)
  have t: "dyn_inv (trailer ck2)" "toobig (trailer ck2) = DYN_H1_TRAILER" "dyn_content (trailer ck2) = []"
    "bufr (trailer ck2) \<noteq> None" "length ([] :: byte list) + 2 < DYN_H1_TRAILER"
    using assms(1,2) ck2(2) by (simp_all add: ready_def dyn_content_def DYN_H1_TRAILER_def del: not_None_eq split: option.split)
  obtain ck3 A where ck3: "state ck3 = CHUNK_TRAILER_POSTCR" "leads ck2 ?io2 ck3
    ((past ?io2 2 [])\<lparr>sink := sink ?io2 @ map (Pair (CLIENTWRITE_HEADER OR CLIENTWRITE_TRAILER)) ([] @ CRLF), allocs := A\<rparr>)"
    using leads_line_end [OF ck2(1) t(1,2) _ t(3-5), of ?io2 "[]"] assms(5) by auto
  have "httpchunk_loop tagged False ck3
      ((past ?io2 2 [])\<lparr>sink := sink ?io2 @ map (Pair (CLIENTWRITE_HEADER OR CLIENTWRITE_TRAILER)) ([] @ CRLF), allocs := A\<rparr>) =
    (CURLE_OK, ck3, (past ?io2 2 [])\<lparr>sink := sink ?io2 @ map (Pair (CLIENTWRITE_HEADER OR CLIENTWRITE_TRAILER)) ([] @ CRLF), allocs := A\<rparr>)"
    by (subst httpchunk_loop.simps) simp
  with leads_trans [OF ck2(3) ck3(2)]
  have "httpchunk_loop tagged False ck io = (CURLE_OK, ck3, (past io (length (enc_body cs hs ext [])) [])
      \<lparr>sink := sink io @ passed_data (ignore_body ck) (concat (map (\<lambda>c. snd (snd c)) cs)) @
         map (Pair (CLIENTWRITE_HEADER OR CLIENTWRITE_TRAILER)) CRLF, allocs := A\<rparr>)"
    unfolding leads_def by (cases io) (simp add: enc_body_def add.assoc CRLF_def)
  with ck3(1) show ?thesis by blast
qed

subsection \<open>What the encoder puts into its queue\<close>

text \<open>A queue that takes everything: the soft limit, and no allocation fails.\<close>

definition queue_ok :: "bufq \<Rightarrow> env \<Rightarrow> bool" where
  "queue_ok q e \<longleftrightarrow> bufq_inv q e \<and> soft q \<and> no_oom (script e)"

lemma cwrite_ok:
  assumes "queue_ok q e"
  shows "\<exists>n q' e'. Curl_bufq_cwrite q e b = (CURLE_OK, n, q', e') \<and> queue_ok q' e' \<and>
    bufq_content q' = bufq_content q @ b"
proof -
  obtain r q' e' where w: "Curl_bufq_write q e b = (r, q', e')" by (cases "Curl_bufq_write q e b")
  have q: "bufq_inv q e" "soft q" "no_oom (script e)" using assms by (simp_all add: queue_ok_def)
  note sp = write_spec [OF q(1) w]
  have "\<exists>n. r = Inr n"
  proof (cases r)
    case (Inl err)
    with sp q(2,3) show ?thesis by auto
  qed simp
  then obtain n where r: "r = Inr n" ..
  have "queue_ok q' e'" using sp q by (simp add: queue_ok_def same_conf_def)
  moreover have "bufq_content q' = bufq_content q @ b" using sp r q(2) by simp
  ultimately show ?thesis using w r by (simp add: Curl_bufq_cwrite_def)
qed

lemma hex_digits_spec:
  "hex_digits n \<noteq> [] \<and> (\<forall>b \<in> set (hex_digits n). ISXDIGIT b) \<and> digits_value 16 (hex_digits n) = int n"
proof (induction n rule: hex_digits.induct)
  case (1 n)
  have digit: "ISXDIGIT b \<and> get_char b 16 = int k"
    if "k < 16" "b = (if k < 10 then 0x30 + word_of_nat k else 0x57 + word_of_nat k)" for b :: byte and k
  proof -
    have "list_all (\<lambda>k. let b = (if k < 10 then 0x30 + word_of_nat k else 0x57 + word_of_nat k) :: byte
        in ISXDIGIT b \<and> get_char b 16 = int k) [0..<16]"
      unfolding get_char_def ctype_defs by code_simp
    with that show ?thesis by (simp add: list_all_iff Let_def)
  qed
  show ?case
  proof (cases "n < 16")
    case True
    then show ?thesis using digit [OF True refl] by (simp add: hex_digits.simps [of n] digits_value_def)
  next
    case False
    then have "n mod 16 < 16" by simp
    note d = digit [OF this refl]
    have "16 * int (n div 16) + int (n mod 16) = int n"
      by (metis mult_div_mod_eq of_nat_add of_nat_mult of_nat_numeral)
    then show ?thesis using d "1.IH" [OF False] False by (subst (1 2 3) hex_digits.simps) auto
  qed
qed

lemma length_hex_digits: "n < 16 ^ k \<Longrightarrow> 0 < k \<Longrightarrow> length (hex_digits n) \<le> k"
proof (induction k arbitrary: n)
  case (Suc k)
  show ?case
  proof (cases "n < 16")
    case True
    then show ?thesis by (subst hex_digits.simps) simp
  next
    case False
    with Suc.prems(1) have "0 < k" by (cases k) auto
    moreover have "n div 16 < 16 ^ k" using Suc.prems(1) by (simp add: less_mult_imp_div_less mult.commute)
    ultimately have "length (hex_digits (n div 16)) \<le> k" by (intro Suc.IH)
    with False show ?thesis by (subst hex_digits.simps) simp
  qed
qed simp

lemma enc_of_add:
  assumes "d \<noteq> []" "length d \<le> CURL_CHUNKED_MAXLEN"
  shows "chunk_wf (hex_digits (length d), [0x0D], d) \<and>
    enc_chunk (hex_digits (length d), [0x0D], d) = chunk_hd (length d) @ d @ CRLF"
proof -
  have "length (hex_digits (length d)) \<le> 8"
    using assms(2) length_hex_digits [of "length d" 8] by (simp add: CURL_CHUNKED_MAXLEN_def)
  moreover have "int (length d) \<le> CURL_OFF_T_MAX"
    using assms(2) by (simp add: CURL_CHUNKED_MAXLEN_def CURL_OFF_T_MAX_def)
  ultimately show ?thesis
    using assms(1) hex_digits_spec [of "length d"]
    by (auto simp: size_wf_def size_line_def chunk_hd_def CRLF_def CHUNK_MAXNUM_LEN_def ctype_defs)
qed

text \<open>The trailer lines that are sent.\<close>

definition sent_trailers :: "trailer_callback \<Rightarrow> byte list list" where
  "sent_trailers cb = (case cb of None \<Rightarrow> [] | Some (_, ts) \<Rightarrow>
     filter (\<lambda>t. let p = dropWhile (\<lambda>b. b \<noteq> 0x3A) t in p \<noteq> [] \<and> at p 1 = 0x20) ts)"

definition end_bytes :: "trailer_callback \<Rightarrow> byte list" where
  "end_bytes cb = size_line [0x30] [0x0D] @ concat (map (\<lambda>t. t @ CRLF) (sent_trailers cb)) @ CRLF"

definition callback_ok :: "trailer_callback \<Rightarrow> bool" where
  "callback_ok cb \<longleftrightarrow> (\<forall>ok ts. cb = Some (ok, ts) \<longrightarrow> ok) \<and> (\<forall>t \<in> set (sent_trailers cb). trailer_wf t)"

lemma add_trailers_ok:
  "queue_ok q e \<Longrightarrow> \<exists>q' e'. add_trailers ts q e = (CURLE_OK, q', e') \<and> queue_ok q' e' \<and>
     bufq_content q' = bufq_content q @ concat (map (\<lambda>t. t @ CRLF) (sent_trailers (Some (True, ts))))"
proof (induction ts arbitrary: q e)
  case Nil
  then show ?case by (simp add: sent_trailers_def)
next
  case (Cons t ts)
  obtain n1 q1 e1 where 1: "Curl_bufq_cwrite q e t = (CURLE_OK, n1, q1, e1)" "queue_ok q1 e1"
    "bufq_content q1 = bufq_content q @ t" using cwrite_ok [OF Cons.prems] by blast
  obtain n2 q2 e2 where 2: "Curl_bufq_cwrite q1 e1 CRLF = (CURLE_OK, n2, q2, e2)" "queue_ok q2 e2"
    "bufq_content q2 = bufq_content q1 @ CRLF" using cwrite_ok [OF 1(2)] by blast
  show ?case
    using Cons.IH [OF Cons.prems] Cons.IH [OF 2(2)] 1 2 by (auto simp: Let_def sent_trailers_def)
qed

lemma add_last_chunk_ok:
  assumes "queue_ok q e" "callback_ok cb"
  shows "\<exists>q' e'. add_last_chunk cb q e = (CURLE_OK, q', e') \<and> queue_ok q' e' \<and>
    bufq_content q' = bufq_content q @ end_bytes cb"
proof (cases cb)
  case None
  with cwrite_ok [OF assms(1), of "0x30 # CRLF @ CRLF"] show ?thesis
    by (auto simp: add_last_chunk_def end_bytes_def sent_trailers_def size_line_def CRLF_def)
next
  case (Some p)
  then obtain ts where cb: "cb = Some (True, ts)" using assms(2) by (cases p) (auto simp: callback_ok_def)
  obtain n1 q1 e1 where 1: "Curl_bufq_cwrite q e (0x30 # CRLF) = (CURLE_OK, n1, q1, e1)" "queue_ok q1 e1"
    "bufq_content q1 = bufq_content q @ 0x30 # CRLF" using cwrite_ok [OF assms(1)] by blast
  obtain q2 e2 where 2: "add_trailers ts q1 e1 = (CURLE_OK, q2, e2)" "queue_ok q2 e2"
    "bufq_content q2 = bufq_content q1 @ concat (map (\<lambda>t. t @ CRLF) (sent_trailers (Some (True, ts))))"
    using add_trailers_ok [OF 1(2)] by blast
  obtain n3 q3 e3 where 3: "Curl_bufq_cwrite q2 e2 CRLF = (CURLE_OK, n3, q3, e3)" "queue_ok q3 e3"
    "bufq_content q3 = bufq_content q2 @ CRLF" using cwrite_ok [OF 2(2)] by blast
  show ?thesis
    using 1 2 3 cb by (simp add: add_last_chunk_def end_bytes_def size_line_def CRLF_def)
qed

text \<open>A next reader that keeps its contract; \<open>produced\<close> is what it has delivered so far.\<close>

definition honest_creader :: "'r creader \<Rightarrow> ('r \<Rightarrow> byte list) \<Rightarrow> bool" where
  "honest_creader rd produced \<longleftrightarrow>
     (\<forall>ctx n r bytes at_end ctx'. rd ctx n = (r, bytes, at_end, ctx') \<longrightarrow>
        length bytes \<le> n \<and> produced ctx' = (if r = CURLE_OK then produced ctx @ bytes else produced ctx))"

text \<open>
  What has been encoded: some chunks whose data is what was read, and the end when the
  next reader was at its end.
\<close>

definition encodes :: "trailer_callback \<Rightarrow> bool \<Rightarrow> byte list \<Rightarrow> byte list \<Rightarrow> bool" where
  "encodes cb ended body bytes \<longleftrightarrow>
     (\<exists>cs. (\<forall>c \<in> set cs. chunk_wf c) \<and> concat (map (\<lambda>c. snd (snd c)) cs) = body \<and>
        bytes = concat (map enc_chunk cs) @ (if ended then end_bytes cb else []))"

lemma encodes_chunk:
  assumes "encodes cb False body bytes" "d \<noteq> []" "length d \<le> CURL_CHUNKED_MAXLEN"
  shows "encodes cb False (body @ d) (bytes @ chunk_hd (length d) @ d @ CRLF)"
proof -
  obtain cs where "\<forall>c \<in> set cs. chunk_wf c" "concat (map (\<lambda>c. snd (snd c)) cs) = body" "bytes = concat (map enc_chunk cs)"
    using assms(1) by (auto simp: encodes_def)
  with enc_of_add [OF assms(2,3)] show ?thesis
    unfolding encodes_def by (intro exI [of _ "cs @ [(hex_digits (length d), [0x0D], d)]"]) (simp del: enc_chunk.simps chunk_wf.simps)
qed

lemma encodes_end: "encodes cb False body bytes \<Longrightarrow> encodes cb True body (bytes @ end_bytes cb)"
  by (auto simp: encodes_def)

lemma add_chunk_ok:
  assumes "queue_ok (chunkbuf rd) e" "\<not> read_eos rd" "honest_creader next produced" "callback_ok cb"
    "encodes cb False (produced ctx) (sent @ bufq_content (chunkbuf rd))"
    "add_chunk (Some next) cb rd e ctx blen = (r, rd', e', ctx')"
  shows "queue_ok (chunkbuf rd') e' \<and> eos rd' = eos rd \<and>
    encodes cb (read_eos rd') (produced ctx') (sent @ bufq_content (chunkbuf rd')) \<and>
    (r = CURLE_OK \<and> read_eos rd' \<longrightarrow> bufq_content (chunkbuf rd') \<noteq> [])"
proof -
  define n where "n = (let b = min blen CURL_CHUNKED_MAXLEN in
      if b < CURL_CHUNKED_MINLEN then CURL_CHUNKED_MINLEN else b - (8 + 2 + 2))"
  obtain s bytes at_end ctx1 where nx: "next ctx n = (s, bytes, at_end, ctx1)" by (cases "next ctx n")
  have h: "length bytes \<le> n" "produced ctx1 = (if s = CURLE_OK then produced ctx @ bytes else produced ctx)"
    using assms(3) nx unfolding honest_creader_def by blast+
  have n: "n \<le> CURL_CHUNKED_MAXLEN" by (auto simp: n_def Let_def CURL_CHUNKED_MINLEN_def CURL_CHUNKED_MAXLEN_def)
  define rd1 where "rd1 = (if at_end then rd\<lparr>read_eos := True\<rparr> else rd)"
  have rd1: "chunkbuf rd1 = chunkbuf rd" "eos rd1 = eos rd" "read_eos rd1 = at_end"
    using assms(2) by (simp_all add: rd1_def)
  show ?thesis
  proof (cases "s = CURLE_OK")
    case False
    with assms nx h show ?thesis by (auto simp: add_chunk_def Curl_creader_read_def Let_def n_def)
  next
    case True
    have "\<exists>q1 e1. wrap_chunk (chunkbuf rd) e bytes = (CURLE_OK, q1, e1) \<and> queue_ok q1 e1 \<and>
       encodes cb False (produced ctx1) (sent @ bufq_content q1)"
    proof (cases "bytes = []")
      case True': True
      with assms(1,5) h True show ?thesis by (simp add: wrap_chunk_def)
    next
      case False
      obtain n1 q1 e1 where 1: "Curl_bufq_cwrite (chunkbuf rd) e (chunk_hd (length bytes)) = (CURLE_OK, n1, q1, e1)"
        "queue_ok q1 e1" "bufq_content q1 = bufq_content (chunkbuf rd) @ chunk_hd (length bytes)"
        using cwrite_ok [OF assms(1)] by metis
      obtain n2 q2 e2 where 2: "Curl_bufq_cwrite q1 e1 bytes = (CURLE_OK, n2, q2, e2)" "queue_ok q2 e2"
        "bufq_content q2 = bufq_content q1 @ bytes" using cwrite_ok [OF 1(2)] by blast
      obtain n3 q3 e3 where 3: "Curl_bufq_cwrite q2 e2 CRLF = (CURLE_OK, n3, q3, e3)" "queue_ok q3 e3"
        "bufq_content q3 = bufq_content q2 @ CRLF" using cwrite_ok [OF 2(2)] by blast
      have "encodes cb False (produced ctx1) (sent @ bufq_content q3)"
        using encodes_chunk [OF assms(5) False] h n True 1(3) 2(3) 3(3) by simp
      with 1 2 3 False show ?thesis by (simp add: wrap_chunk_def)
    qed
    then obtain q1 e1 where w: "wrap_chunk (chunkbuf rd1) e bytes = (CURLE_OK, q1, e1)"
      and q1: "queue_ok q1 e1" "encodes cb False (produced ctx1) (sent @ bufq_content q1)" unfolding rd1(1) by blast
    have nx': "Curl_creader_read (Some next) ctx n = (CURLE_OK, bytes, at_end, ctx1)"
      using nx True by (simp add: Curl_creader_read_def)
    have run: "add_chunk (Some next) cb rd e ctx blen =
        (if at_end then case add_last_chunk cb q1 e1 of (r, q, e) \<Rightarrow> (r, rd1\<lparr>chunkbuf := q\<rparr>, e, ctx1)
         else (CURLE_OK, rd1\<lparr>chunkbuf := q1\<rparr>, e1, ctx1))"
      unfolding add_chunk_def Let_def n_def [unfolded Let_def, symmetric] nx' using w rd1(3)
      unfolding rd1_def by (cases at_end) simp_all
    show ?thesis
    proof (cases at_end)
      case True': True
      obtain q2 e2 where l: "add_last_chunk cb q1 e1 = (CURLE_OK, q2, e2)" "queue_ok q2 e2"
        "bufq_content q2 = bufq_content q1 @ end_bytes cb" using add_last_chunk_ok [OF q1(1) assms(4)] by blast
      have "encodes cb True (produced ctx1) (sent @ bufq_content q2)"
        using encodes_end [OF q1(2)] l(3) by simp
      moreover have "bufq_content q2 \<noteq> []" using l(3) by (simp add: end_bytes_def size_line_def)
      moreover have "r = CURLE_OK" "rd' = rd1\<lparr>chunkbuf := q2\<rparr>" "e' = e2" "ctx' = ctx1"
        using run assms(6) l(1) True' by simp_all
      ultimately show ?thesis using l(2) rd1 True' by simp
    next
      case False
      then have "r = CURLE_OK" "rd' = rd1\<lparr>chunkbuf := q1\<rparr>" "e' = e1" "ctx' = ctx1"
        using run assms(6) by simp_all
      with False q1 rd1 show ?thesis by simp
    qed
  qed
qed

lemma cread_ok:
  assumes "queue_ok q e" "Curl_bufq_cread q e n = (r, out, q', e')"
  shows "queue_ok q' e' \<and> out = take n (bufq_content q) \<and> bufq_content q' = drop n (bufq_content q)"
proof -
  have q: "bufq_inv q e" "soft q" "no_oom (script e)" using assms(1) by (simp_all add: queue_ok_def)
  obtain s q1 e1 where w: "Curl_bufq_read q e n = (s, q1, e1)" by (cases "Curl_bufq_read q e n")
  have "q' = q1" "e' = e1" "out = (case s of Inl _ \<Rightarrow> [] | Inr bs \<Rightarrow> bs)"
    using assms(2) w by (auto simp: Curl_bufq_cread_def split: sum.splits)
  with read_spec [OF q(1) w] q show ?thesis by (auto simp: queue_ok_def same_conf_def split: if_splits)
qed

text \<open>The state of the encoder, with \<open>sent\<close> the bytes it has delivered.\<close>

definition encoder_inv :: "trailer_callback \<Rightarrow> chunked_reader \<Rightarrow> env \<Rightarrow> byte list \<Rightarrow> byte list \<Rightarrow> bool" where
  "encoder_inv cb rd e body sent \<longleftrightarrow> queue_ok (chunkbuf rd) e \<and>
     encodes cb (read_eos rd) body (sent @ bufq_content (chunkbuf rd)) \<and>
     (eos rd \<longrightarrow> read_eos rd \<and> bufq_content (chunkbuf rd) = [])"

lemma cr_chunked_read_ok:
  assumes "encoder_inv cb rd e (produced ctx) sent" "honest_creader next produced" "callback_ok cb"
    "cr_chunked_read (Some next) cb rd e ctx blen = (r, out, fin, rd', e', ctx')"
  shows "encoder_inv cb rd' e' (produced ctx') (sent @ out) \<and> (fin \<longrightarrow> eos rd')"
proof (cases "eos rd")
  case True
  with assms show ?thesis by (auto simp: cr_chunked_read_def)
next
  case False
  have inv: "queue_ok (chunkbuf rd) e" "encodes cb (read_eos rd) (produced ctx) (sent @ bufq_content (chunkbuf rd))"
    using assms(1) by (simp_all add: encoder_inv_def)
  obtain s rd1 e1 ctx1 where a: "(if \<not> read_eos rd \<and> Curl_bufq_is_empty (chunkbuf rd)
      then add_chunk (Some next) cb rd e ctx blen else (CURLE_OK, rd, e, ctx)) = (s, rd1, e1, ctx1)"
    by (cases "if \<not> read_eos rd \<and> Curl_bufq_is_empty (chunkbuf rd)
      then add_chunk (Some next) cb rd e ctx blen else (CURLE_OK, rd, e, ctx)")
  have one: "queue_ok (chunkbuf rd1) e1" "eos rd1 = eos rd"
    "encodes cb (read_eos rd1) (produced ctx1) (sent @ bufq_content (chunkbuf rd1))"
    using a inv add_chunk_ok [OF inv(1) _ assms(2,3), of ctx sent blen s rd1 e1 ctx1] by (auto split: if_splits)
  have empty: "Curl_bufq_is_empty (chunkbuf rd1) \<longleftrightarrow> bufq_content (chunkbuf rd1) = []"
    using one(1) bufq_empty_content [of "chunkbuf rd1" e1] by (simp add: queue_ok_def)
  show ?thesis
  proof (cases "s \<noteq> CURLE_OK \<or> Curl_bufq_is_empty (chunkbuf rd1)")
    case True
    then have "out = []" "fin = False" "rd' = rd1" "e' = e1" "ctx' = ctx1"
      using assms(4) False a by (auto simp: cr_chunked_read_def split: if_splits)
    with one False show ?thesis by (simp add: encoder_inv_def)
  next
    case go: False
    obtain s2 out2 q2 e2 where c: "Curl_bufq_cread (chunkbuf rd1) e1 blen = (s2, out2, q2, e2)"
      by (cases "Curl_bufq_cread (chunkbuf rd1) e1 blen")
    note cs = cread_ok [OF one(1) c]
    have em: "Curl_bufq_is_empty q2 \<longleftrightarrow> bufq_content q2 = []"
      using cs bufq_empty_content [of q2 e2] by (simp add: queue_ok_def)
    define stop where "stop = (s2 = CURLE_OK \<and> read_eos rd1 \<and> Curl_bufq_is_empty q2)"
    have res: "out = out2" "fin = stop" "e' = e2" "ctx' = ctx1"
      "rd' = (if stop then rd1\<lparr>chunkbuf := q2, eos := True\<rparr> else rd1\<lparr>chunkbuf := q2\<rparr>)"
      using assms(4) False a go c by (auto simp: cr_chunked_read_def stop_def Let_def split: if_splits)
    have "out2 @ bufq_content q2 = bufq_content (chunkbuf rd1)" using cs by simp
    then have "encodes cb (read_eos rd1) (produced ctx1) ((sent @ out2) @ bufq_content q2)"
      using one(3) by simp
    then show ?thesis
      using res cs em one(2) False by (auto simp: encoder_inv_def stop_def)
  qed
qed

text \<open>Calls with the given buffer sizes, one after the other, and the bytes they deliver.\<close>

fun encoder_run ::
  "'r creader \<Rightarrow> trailer_callback \<Rightarrow> chunked_reader \<Rightarrow> env \<Rightarrow> 'r \<Rightarrow> nat list \<Rightarrow> byte list \<times> chunked_reader \<times> env \<times> 'r" where
  "encoder_run next cb rd e ctx [] = ([], rd, e, ctx)"
| "encoder_run next cb rd e ctx (n # ns) =
     (case cr_chunked_read (Some next) cb rd e ctx n of
        (_, out, _, rd, e, ctx) \<Rightarrow>
          (case encoder_run next cb rd e ctx ns of (outs, rest) \<Rightarrow> (out @ outs, rest)))"

lemma encoder_run_ok:
  "encoder_inv cb rd e (produced ctx) sent \<Longrightarrow> honest_creader next produced \<Longrightarrow> callback_ok cb \<Longrightarrow>
   encoder_run next cb rd e ctx ns = (outs, rd', e', ctx') \<Longrightarrow>
   encoder_inv cb rd' e' (produced ctx') (sent @ outs)"
proof (induction ns arbitrary: rd e ctx sent outs)
  case (Cons n ns)
  obtain r out fin rd1 e1 ctx1 where c: "cr_chunked_read (Some next) cb rd e ctx n = (r, out, fin, rd1, e1, ctx1)"
    by (cases "cr_chunked_read (Some next) cb rd e ctx n")
  obtain outs1 where o: "encoder_run next cb rd1 e1 ctx1 ns = (outs1, rd', e', ctx')" "outs = out @ outs1"
    using Cons.prems(4) c by (auto split: prod.splits)
  have "encoder_inv cb rd1 e1 (produced ctx1) (sent @ out)"
    using cr_chunked_read_ok [OF Cons.prems(1-3) c] by simp
  from Cons.IH [OF this Cons.prems(2,3) o(1)] o(2) show ?case by simp
qed simp

lemma encoder_inv_init:
  assumes "no_oom (script e)" "\<not> read_eos rd" "\<not> eos rd" "produced ctx = []"
  shows "encoder_inv cb (cr_chunked_init rd) e (produced ctx) []"
proof -
  have "encodes cb False [] []" unfolding encodes_def by (intro exI [of _ "[]"]) simp
  with assms show ?thesis
    by (simp add: encoder_inv_def cr_chunked_init_def queue_ok_def bufq_inv_init2 CURL_CHUNKED_MAXLEN_def)
      (simp add: Curl_bufq_init2_def bufq_init_def BUFQ_OPT_SOFT_LIMIT_def)
qed

lemma encodes_body:
  assumes "encodes cb True body bytes"
  shows "\<exists>cs. (\<forall>c \<in> set cs. chunk_wf c) \<and> concat (map (\<lambda>c. snd (snd c)) cs) = body \<and>
    bytes = enc_body cs [0x30] [0x0D] (sent_trailers cb)"
  using assms by (auto simp: encodes_def end_bytes_def enc_body_def)

lemma size_wf_last: "size_wf [0x30] [0x0D] 0"
  by (simp add: size_wf_def digits_value_def get_char_def ctype_defs CHUNK_MAXNUM_LEN_def CURL_OFF_T_MAX_def)

subsection \<open>Properties\<close>

text \<open>A chunker in memory that \<open>calloc\<close> has cleared, initialised.\<close>

definition new_chunker :: "bool \<Rightarrow> Curl_chunker" where
  "new_chunker ignore = Curl_httpchunk_init
     \<lparr>datasize = 0, state = CHUNK_HEX, last_code = CHUNKE_OK, trailer = Curl_dyn_init 1, hexindex = 0,
      hexbuffer = replicate (CHUNK_MAXNUM_LEN + 1) 0, ignore_body = False\<rparr> ignore"

lemma new_chunker_inv [simp]: "chunker_inv (new_chunker b)"
  unfolding new_chunker_def by (rule chunker_inv_init) simp

lemma new_chunker_fresh [simp]: "fresh (new_chunker False)"
  using dyn_inv_init [of DYN_H1_TRAILER]
  by (simp add: fresh_def new_chunker_def Curl_httpchunk_init_def DYN_H1_TRAILER_def) (simp add: Curl_dyn_init_def)

lemma new_chunker_simps [simp]: "state (new_chunker b) = CHUNK_HEX" "ignore_body (new_chunker b) = b"
  by (simp_all add: new_chunker_def Curl_httpchunk_init_def)

lemma fresh_inv: "fresh ck \<Longrightarrow> chunker_inv ck \<and> state ck = CHUNK_HEX \<and> \<not> ignore_body ck"
  by (simp add: fresh_def chunker_inv_def)

text \<open>
  C1. The chunked encoding is undone however the sender's bytes are cut: whatever sequence
  of buffer sizes the encoder is read with, once it reports its end, feeding the bytes it
  delivered to the decoder in any segments, followed by anything, ends in \<open>CHUNK_DONE\<close>,
  consumes exactly the encoded bytes, and hands on exactly the bytes the encoder's source
  produced, then the trailer lines.
\<close>

theorem chunked_roundtrip:
  assumes "honest_creader next produced" "callback_ok cb" "no_oom (script e)" "produced ctx = []"
    "\<not> read_eos rd" "\<not> eos rd"
    "encoder_run next cb (cr_chunked_init rd) e ctx ns = (sent, rd', e', ctx')" "eos rd'"
    "fresh ck" "no_oom A" "concat segs = sent @ extra"
  shows "\<exists>ck' io'. chunk_feed tagged False ck segs [] A = (CURLE_OK, ck', io') \<and> Curl_httpchunk_is_done ck' \<and>
    pconsumed io' = length sent \<and>
    sink io' = map (Pair CLIENTWRITE_BODY) (produced ctx') @
      map (Pair (CLIENTWRITE_HEADER OR CLIENTWRITE_TRAILER)) (concat (map (\<lambda>t. t @ CRLF) (sent_trailers cb)))"
proof -
  have "encoder_inv cb rd' e' (produced ctx') ([] @ sent)"
    using encoder_run_ok [OF _ assms(1,2,7), of "[]"] encoder_inv_init [of e rd produced ctx cb] assms(3-6) by simp
  then have "encodes cb True (produced ctx') sent" using assms(8) by (auto simp: encoder_inv_def)
  from encodes_body [OF this] obtain cs where
    cs: "\<forall>c \<in> set cs. chunk_wf c" "concat (map (\<lambda>c. snd (snd c)) cs) = produced ctx'"
      "sent = enc_body cs [0x30] [0x0D] (sent_trailers cb)" by blast
  have ts: "\<forall>t \<in> set (sent_trailers cb). trailer_wf t" using assms(2) by (simp add: callback_ok_def)
  let ?io = "\<lparr>inp = sent @ extra, pconsumed = 0, sink = [], allocs = A\<rparr>"
  obtain ck1 A1 where d: "state ck1 = CHUNK_DONE" "httpchunk_loop tagged False ck ?io =
      (CURLE_OK, ck1, (past ?io (length sent) extra)
        \<lparr>sink := map (Pair CLIENTWRITE_BODY) (produced ctx') @
           map (Pair (CLIENTWRITE_HEADER OR CLIENTWRITE_TRAILER)) (concat (map (\<lambda>t. t @ CRLF) (sent_trailers cb))), allocs := A1\<rparr>)"
    using decode_body [OF assms(9) cs(1) size_wf_last ts, of ?io extra] assms(10) cs(2,3) by auto
  obtain r ck' io' where f: "chunk_feed tagged False ck segs [] A = (r, ck', io')"
    by (cases "chunk_feed tagged False ck segs [] A")
  have "same_outcome (r, ck', io') (httpchunk_loop tagged False ck ?io)"
    using chunk_feed_concat [of ck tagged False segs "[]" A] fresh_inv [OF assms(9)] additive_tagged f assms(11)
    by (simp add: httpchunk_read_loop)
  with d f show ?thesis by (auto simp: same_outcome_def Curl_httpchunk_is_done_def)
qed

text \<open>A source for the witness: what it has delivered and what it has left.\<close>

definition list_source :: "(byte list \<times> byte list) creader" where
  "list_source ctx n =
     (CURLE_OK, take n (snd ctx), length (snd ctx) \<le> n, (fst ctx @ take n (snd ctx), drop n (snd ctx)))"

lemma honest_list_source: "honest_creader list_source fst"
  by (auto simp: honest_creader_def list_source_def)

lemmas encoder_run_simps = list_source_def cr_chunked_read_def cr_chunked_init_def add_chunk_def Curl_creader_read_def
  Curl_bufq_is_empty_def Curl_bufq_init2_def bufq_init_def CURL_CHUNKED_MAXLEN_def CURL_CHUNKED_MINLEN_def
  wrap_chunk_def chunk_hd_def CRLF_def hex_digits.simps Curl_bufq_cwrite_def Curl_bufq_write_def
  bufq_write_loop.simps get_non_full_tail_def get_spare_def BUFQ_OPT_SOFT_LIMIT_def env_alloc_def
  new_chunk_def Let_def chunk_append_def mem_write_def set_tail_def chunk_is_full_def chunk_is_empty_def
  add_last_chunk_def Curl_bufq_cread_def Curl_bufq_read_def bufq_read_loop.simps chunk_read_def set_head_def
  prune_head_def chunk_reset_def

theorem chunked_roundtrip_witness:
  "\<exists>sent rd' e' ctx' ck' io'. encoder_run list_source None
       (cr_chunked_init \<lparr>chunkbuf = Curl_bufq_init 1 1, read_eos = False, eos = False\<rparr>)
       \<lparr>pool = Curl_bufcp_init 2 1, script = []\<rparr> ([], [7, 8, 9]) [100] = (sent, rd', e', ctx') \<and> eos rd' \<and>
     chunk_feed tagged False (new_chunker False) [take 4 sent, drop 4 sent @ [1, 2]] [] [] = (CURLE_OK, ck', io') \<and>
     Curl_httpchunk_is_done ck' \<and> pconsumed io' = length sent \<and>
     sink io' = map (Pair CLIENTWRITE_BODY) (fst ctx') @
       map (Pair (CLIENTWRITE_HEADER OR CLIENTWRITE_TRAILER)) (concat (map (\<lambda>t. t @ CRLF) (sent_trailers None)))"
proof -
  have "\<exists>sent rd' e' ctx'. encoder_run list_source None
       (cr_chunked_init \<lparr>chunkbuf = Curl_bufq_init 1 1, read_eos = False, eos = False\<rparr>)
       \<lparr>pool = Curl_bufcp_init 2 1, script = []\<rparr> ([], [7, 8, 9]) [100] = (sent, rd', e', ctx') \<and> eos rd'"
    by (simp add: encoder_run_simps)
  then obtain sent rd' e' ctx' where run: "encoder_run list_source None
       (cr_chunked_init \<lparr>chunkbuf = Curl_bufq_init 1 1, read_eos = False, eos = False\<rparr>)
       \<lparr>pool = Curl_bufcp_init 2 1, script = []\<rparr> ([], [7, 8, 9]) [100] = (sent, rd', e', ctx')" "eos rd'" by blast
  have "callback_ok None" by (simp add: callback_ok_def sent_trailers_def)
  then have "\<exists>ck' io'. chunk_feed tagged False (new_chunker False) [take 4 sent, drop 4 sent @ [1, 2]] [] [] = (CURLE_OK, ck', io') \<and>
     Curl_httpchunk_is_done ck' \<and> pconsumed io' = length sent \<and>
     sink io' = map (Pair CLIENTWRITE_BODY) (fst ctx') @
       map (Pair (CLIENTWRITE_HEADER OR CLIENTWRITE_TRAILER)) (concat (map (\<lambda>t. t @ CRLF) (sent_trailers None)))"
    by (rule chunked_roundtrip [OF honest_list_source _ _ _ _ _ run, where extra = "[1, 2]"]) (simp_all flip: append_assoc)
  with run show ?thesis by blast
qed

text \<open>
  C2. How the network cuts the response makes no difference to the decoder: feeding it the
  segments one by one and feeding it their concatenation give the same code, state, output
  and number of bytes consumed, for every writer that does not depend on how its input is
  cut, malformed input and failing writers included.
\<close>

theorem httpchunk_segments:
  assumes "chunker_inv ck" "state ck \<noteq> CHUNK_FAILED" "additive client" "\<not> te_skip \<or> ignore_body ck"
  shows "case (chunk_feed client te_skip ck segs w A, Curl_httpchunk_read client te_skip ck (concat segs) w A) of
    ((r, c, i), (s, d, j)) \<Rightarrow>
      r = s \<and> sink i = sink j \<and> allocs i = allocs j \<and> state c = state d \<and> last_code c = last_code d \<and>
      (r = CURLE_OK \<longrightarrow> pconsumed i = pconsumed j) \<and> (r = CURLE_OK \<and> state c \<noteq> CHUNK_DONE \<longrightarrow> c = d)"
  using chunk_feed_concat [OF assms, of segs w A] by (simp only: same_outcome_def)

theorem httpchunk_segments_witness:
  "case (chunk_feed tagged False (new_chunker False) [[0x35], [0x0D, 0x0A, 0x61], [0x62]] [] [],
         Curl_httpchunk_read tagged False (new_chunker False) (concat [[0x35], [0x0D, 0x0A, 0x61], [0x62]]) [] []) of
    ((r, c, i), (s, d, j)) \<Rightarrow>
      r = s \<and> sink i = sink j \<and> allocs i = allocs j \<and> state c = state d \<and> last_code c = last_code d \<and>
      (r = CURLE_OK \<longrightarrow> pconsumed i = pconsumed j) \<and> (r = CURLE_OK \<and> state c \<noteq> CHUNK_DONE \<longrightarrow> c = d)"
  by (rule httpchunk_segments) (simp_all add: additive_tagged)

text \<open>
  C18. The decoder accepts every body of the grammar, chunk extensions and trailers
  included, and hands on exactly the data of the chunks and the trailer lines.
\<close>

theorem httpchunk_decodes:
  assumes "fresh ck" "\<forall>c \<in> set cs. chunk_wf c" "size_wf hs ext 0" "\<forall>t \<in> set ts. trailer_wf t" "no_oom A"
  shows "\<exists>ck' A'. Curl_httpchunk_read tagged False ck (enc_body cs hs ext ts @ extra) w A =
    (CURLE_OK, ck',
     \<lparr>inp = extra, pconsumed = length (enc_body cs hs ext ts),
      sink = w @ map (Pair CLIENTWRITE_BODY) (concat (map (\<lambda>c. snd (snd c)) cs)) @
        map (Pair (CLIENTWRITE_HEADER OR CLIENTWRITE_TRAILER)) (concat (map (\<lambda>t. t @ CRLF) ts)),
      allocs = A'\<rparr>) \<and> Curl_httpchunk_is_done ck'"
  using decode_body [OF assms(1-4), of "\<lparr>inp = enc_body cs hs ext ts @ extra, pconsumed = 0, sink = w, allocs = A\<rparr>" extra]
    assms(5) fresh_inv [OF assms(1)]
  by (auto simp: httpchunk_read_loop Curl_httpchunk_is_done_def)

theorem httpchunk_decodes_witness:
  "\<exists>ck' A'. Curl_httpchunk_read tagged False (new_chunker False)
      (enc_body [([0x32], [0x3B, 0x61], [7, 8])] [0x30] [] [[0x61, 0x3A, 0x62]] @ [9]) [] [] =
    (CURLE_OK, ck',
     \<lparr>inp = [9], pconsumed = length (enc_body [([0x32], [0x3B, 0x61], [7, 8])] [0x30] [] [[0x61, 0x3A, 0x62]]),
      sink = [] @ map (Pair CLIENTWRITE_BODY) (concat (map (\<lambda>c. snd (snd c)) [([0x32 :: byte], [0x3B :: byte, 0x61], [7, 8])])) @
        map (Pair (CLIENTWRITE_HEADER OR CLIENTWRITE_TRAILER)) (concat (map (\<lambda>t. t @ CRLF) [[0x61, 0x3A, 0x62]])),
      allocs = A'\<rparr>) \<and> Curl_httpchunk_is_done ck'"
  by (rule httpchunk_decodes)
    (simp_all add: size_wf_def digits_value_def get_char_def ctype_defs CHUNK_MAXNUM_LEN_def CURL_OFF_T_MAX_def
      trailer_wf_def DYN_H1_TRAILER_def)

text \<open>
  C5. Whatever the input, the writer and the allocations do, a call keeps the chunker's
  invariant, consumes a prefix of the input, fails exactly when the chunker is then in
  \<open>CHUNK_FAILED\<close>, and stops early without an error only in \<open>CHUNK_DONE\<close>.
\<close>

theorem httpchunk_invariant:
  assumes "chunker_inv ck" "Curl_httpchunk_read client te_skip ck buf w A = (r, ck', io')"
  shows "chunker_inv ck' \<and> pconsumed io' \<le> length buf \<and> inp io' = drop (pconsumed io') buf \<and>
    (r \<noteq> CURLE_OK \<longleftrightarrow> state ck' = CHUNK_FAILED) \<and>
    (r = CURLE_OK \<and> state ck' \<noteq> CHUNK_DONE \<longrightarrow> pconsumed io' = length buf)"
proof (cases "state ck = CHUNK_DONE \<or> state ck = CHUNK_FAILED")
  case True
  with assms show ?thesis by (auto simp: Curl_httpchunk_read_def httpchunk_readwrite_def)
next
  case False
  define x where "x = (if te_skip \<and> \<not> ignore_body ck then chunk_writer client None w CLIENTWRITE_BODY buf else (CURLE_OK, w))"
  obtain s w1 where w: "x = (s, w1)" by (cases x)
  have run: "(r, ck', io') = (if s \<noteq> CURLE_OK then (s, chunk_fail CHUNKE_PASSTHRU_ERROR ck, \<lparr>inp = buf, pconsumed = 0, sink = w1, allocs = A\<rparr>)
      else httpchunk_loop (chunk_writer client None) te_skip ck \<lparr>inp = buf, pconsumed = 0, sink = w1, allocs = A\<rparr>)"
    using assms(2) False unfolding Curl_httpchunk_read_def httpchunk_readwrite_def Let_def x_def [symmetric] w by auto
  show ?thesis
  proof (cases "s = CURLE_OK")
    case True
    then have "httpchunk_loop (chunk_writer client None) te_skip ck \<lparr>inp = buf, pconsumed = 0, sink = w1, allocs = A\<rparr> = (r, ck', io')"
      using run by simp
    from httpchunk_loop_ok [OF assms(1) _ _ this] False show ?thesis by (auto simp: consumes_def)
  next
    case err: False
    then have "r = s" "ck' = chunk_fail CHUNKE_PASSTHRU_ERROR ck" "io' = \<lparr>inp = buf, pconsumed = 0, sink = w1, allocs = A\<rparr>"
      using run by simp_all
    with err assms(1) show ?thesis by (simp add: chunker_inv_fail)
  qed
qed

theorem httpchunk_invariant_witness:
  "case Curl_httpchunk_read tagged False (new_chunker False) [0x31, 0x0A, 0x78, 0x79] [] [] of (r, ck', io') \<Rightarrow>
    chunker_inv ck' \<and> pconsumed io' \<le> length [0x31, 0x0A, 0x78, 0x79 :: byte] \<and>
    inp io' = drop (pconsumed io') [0x31, 0x0A, 0x78, 0x79] \<and>
    (r \<noteq> CURLE_OK \<longleftrightarrow> state ck' = CHUNK_FAILED) \<and>
    (r = CURLE_OK \<and> state ck' \<noteq> CHUNK_DONE \<longrightarrow> pconsumed io' = length [0x31, 0x0A, 0x78, 0x79 :: byte])"
proof -
  obtain r ck' io' where r: "Curl_httpchunk_read tagged False (new_chunker False) [0x31, 0x0A, 0x78, 0x79] [] [] = (r, ck', io')"
    by (cases "Curl_httpchunk_read tagged False (new_chunker False) [0x31, 0x0A, 0x78, 0x79] [] []")
  show ?thesis unfolding r prod.case by (rule httpchunk_invariant [OF new_chunker_inv r])
qed

text \<open>
  C19. The end of the transfer is accepted only at the end of the body: a last write to the
  decoding writer that succeeds leaves the chunker in \<open>CHUNK_DONE\<close> and the download done,
  unless no body was asked for.
\<close>

theorem cw_chunked_complete:
  assumes "type AND CLIENTWRITE_BODY \<noteq> 0" "type AND CLIENTWRITE_EOS \<noteq> 0" "\<not> no_body req"
    "cw_chunked_write client te_skip req ck cw_next type buf w A = (CURLE_OK, req', ck', w', A')"
  shows "state ck' = CHUNK_DONE \<and> download_done req'"
  using assms by (auto simp: cw_chunked_write_def split: prod.splits if_splits)

theorem cw_chunked_complete_witness:
  "\<exists>req' ck' w' A'. cw_chunked_write tagged False \<lparr>req_chunk = True, download_done = False, no_body = False\<rparr>
      (new_chunker False) (Some tagged) (CLIENTWRITE_BODY OR CLIENTWRITE_EOS) [0x30, 0x0A, 0x0A] [] [] =
      (CURLE_OK, req', ck', w', A') \<and> state ck' = CHUNK_DONE \<and> download_done req'"
proof -
  have "fst (cw_chunked_write tagged False \<lparr>req_chunk = True, download_done = False, no_body = False\<rparr>
      (new_chunker False) (Some tagged) (CLIENTWRITE_BODY OR CLIENTWRITE_EOS) [0x30, 0x0A, 0x0A] [] []) = CURLE_OK"
    by code_simp
  then obtain req' ck' w' A' where c: "cw_chunked_write tagged False \<lparr>req_chunk = True, download_done = False, no_body = False\<rparr>
      (new_chunker False) (Some tagged) (CLIENTWRITE_BODY OR CLIENTWRITE_EOS) [0x30, 0x0A, 0x0A] [] [] =
      (CURLE_OK, req', ck', w', A')" by (metis prod.collapse)
  have "(CLIENTWRITE_BODY OR CLIENTWRITE_EOS) AND CLIENTWRITE_BODY \<noteq> 0"
    "(CLIENTWRITE_BODY OR CLIENTWRITE_EOS) AND CLIENTWRITE_EOS \<noteq> 0" by code_simp+
  from cw_chunked_complete [OF this _ c] c show ?thesis by auto
qed

lemma new_chunker_ready [simp]: "ready (new_chunker b) \<and> bufr (trailer (new_chunker b)) = None"
  using dyn_inv_init [of DYN_H1_TRAILER]
  by (simp add: ready_def new_chunker_def Curl_httpchunk_init_def DYN_H1_TRAILER_def) (simp add: Curl_dyn_init_def)

lemma reset_ready:
  assumes "chunker_inv ck" "bufr (trailer ck) \<noteq> None"
  shows "ready (Curl_httpchunk_reset ck b) \<and> bufr (trailer (Curl_httpchunk_reset ck b)) \<noteq> None \<and>
    ignore_body (Curl_httpchunk_reset ck b) = b"
proof -
  have "bufr (Curl_dyn_reset (trailer ck)) \<noteq> None" using assms(2) by (simp add: Curl_dyn_reset_def Let_def)
  then show ?thesis using assms(1)
    by (simp add: ready_def Curl_httpchunk_reset_def chunker_inv_def inv_intros del: not_None_eq)
qed

text \<open>
  C20. A chunker that is reset after a response with trailers keeps the trailer buffer
  allocated, and so does not recognise the end of the next response: of any two well-formed
  bodies read one after the other with a reset in between, the first with trailers and the
  second without, the first ends in \<open>CHUNK_DONE\<close>, but the second, read to its last byte,
  does not; the data of its chunks is handed on (unless the body is ignored), and then an
  empty trailer line that was not sent. A new chunker recognises its end.
\<close>

theorem httpchunk_reset_misses_end:
  assumes "\<forall>c \<in> set cs1. chunk_wf c" "size_wf hs1 ext1 0" "ts \<noteq> []" "\<forall>t \<in> set ts. trailer_wf t"
    "\<forall>c \<in> set cs2. chunk_wf c" "size_wf hs2 ext2 0" "no_oom A1" "no_oom A2"
  shows "\<exists>ck1 io1 ck2 B ck3 io3.
    Curl_httpchunk_read tagged False (new_chunker b) (enc_body cs1 hs1 ext1 ts) w1 A1 = (CURLE_OK, ck1, io1) \<and>
    Curl_httpchunk_is_done ck1 \<and>
    Curl_httpchunk_read tagged False (Curl_httpchunk_reset ck1 b) (enc_body cs2 hs2 ext2 []) w2 A2 =
      (CURLE_OK, ck2,
       \<lparr>inp = [], pconsumed = length (enc_body cs2 hs2 ext2 []),
        sink = w2 @ passed_data b (concat (map (\<lambda>c. snd (snd c)) cs2)) @
          map (Pair (CLIENTWRITE_HEADER OR CLIENTWRITE_TRAILER)) CRLF, allocs = B\<rparr>) \<and>
    \<not> Curl_httpchunk_is_done ck2 \<and>
    Curl_httpchunk_read tagged False (new_chunker b) (enc_body cs2 hs2 ext2 []) w2 A2 = (CURLE_OK, ck3, io3) \<and>
    Curl_httpchunk_is_done ck3"
proof -
  let ?io = "\<lambda>buf w A. \<lparr>inp = buf, pconsumed = 0, sink = w, allocs = A\<rparr>"
  have new: "Curl_httpchunk_read tagged False (new_chunker b) buf w A = httpchunk_loop tagged False (new_chunker b) (?io buf w A)"
    for buf w A by (rule httpchunk_read_loop) simp_all
  note ready = new_chunker_ready [of b, THEN conjunct1] new_chunker_ready [of b, THEN conjunct2]
  obtain ck1 io1 where r1: "httpchunk_loop tagged False (new_chunker b) (?io (enc_body cs1 hs1 ext1 ts) w1 A1) = (CURLE_OK, ck1, io1)"
    "state ck1 = CHUNK_DONE" "bufr (trailer ck1) \<noteq> None"
    using decode_ready [OF ready assms(1,2,4), of "?io (enc_body cs1 hs1 ext1 ts) w1 A1" "[]"] assms(3,7)
    by (auto simp del: not_None_eq)
  have "chunker_inv ck1" using httpchunk_loop_ok [OF _ _ _ r1(1)] by simp
  from reset_ready [OF this r1(3), of b]
  have s: "ready (Curl_httpchunk_reset ck1 b)" "bufr (trailer (Curl_httpchunk_reset ck1 b)) \<noteq> None"
    "ignore_body (Curl_httpchunk_reset ck1 b) = b" by blast+
  then have st: "state (Curl_httpchunk_reset ck1 b) = CHUNK_HEX" by (simp add: ready_def)
  obtain ck2 B where r2: "state ck2 = CHUNK_TRAILER_POSTCR"
    "httpchunk_loop tagged False (Curl_httpchunk_reset ck1 b) (?io (enc_body cs2 hs2 ext2 []) w2 A2) =
      (CURLE_OK, ck2, ?io [] (w2 @ passed_data b (concat (map (\<lambda>c. snd (snd c)) cs2)) @
          map (Pair (CLIENTWRITE_HEADER OR CLIENTWRITE_TRAILER)) CRLF) B\<lparr>pconsumed := length (enc_body cs2 hs2 ext2 [])\<rparr>)"
    using decode_stale [OF s(1,2) assms(5,6), of "?io (enc_body cs2 hs2 ext2 []) w2 A2"] assms(8) s(3) by auto
  obtain ck3 io3 where r3: "httpchunk_loop tagged False (new_chunker b) (?io (enc_body cs2 hs2 ext2 []) w2 A2) = (CURLE_OK, ck3, io3)"
    "state ck3 = CHUNK_DONE"
    using decode_ready [OF ready assms(5,6), of "[]" "?io (enc_body cs2 hs2 ext2 []) w2 A2" "[]"] assms(8) by auto
  have "Curl_httpchunk_read tagged False (Curl_httpchunk_reset ck1 b) (enc_body cs2 hs2 ext2 []) w2 A2 =
      httpchunk_loop tagged False (Curl_httpchunk_reset ck1 b) (?io (enc_body cs2 hs2 ext2 []) w2 A2)"
    by (rule httpchunk_read_loop) (simp_all add: st)
  with r1(1,2) r2 r3 show ?thesis unfolding new Curl_httpchunk_is_done_def by auto
qed

theorem httpchunk_reset_misses_end_witness:
  "\<exists>ck1 io1 ck2 B ck3 io3.
    Curl_httpchunk_read tagged False (new_chunker True) (enc_body [] [0x30] [0x0D] [[0x61, 0x3A, 0x62]]) [] [] = (CURLE_OK, ck1, io1) \<and>
    Curl_httpchunk_is_done ck1 \<and>
    Curl_httpchunk_read tagged False (Curl_httpchunk_reset ck1 True) (enc_body [([0x32], [], [7, 8])] [0x30] [0x0D] []) [] [] =
      (CURLE_OK, ck2,
       \<lparr>inp = [], pconsumed = length (enc_body [([0x32], [], [7, 8])] [0x30] [0x0D] []),
        sink = [] @ passed_data True (concat (map (\<lambda>c. snd (snd c)) [([0x32 :: byte], [] :: byte list, [7, 8])])) @
          map (Pair (CLIENTWRITE_HEADER OR CLIENTWRITE_TRAILER)) CRLF, allocs = B\<rparr>) \<and>
    \<not> Curl_httpchunk_is_done ck2 \<and>
    Curl_httpchunk_read tagged False (new_chunker True) (enc_body [([0x32], [], [7, 8])] [0x30] [0x0D] []) [] [] = (CURLE_OK, ck3, io3) \<and>
    Curl_httpchunk_is_done ck3"
  by (rule httpchunk_reset_misses_end)
    (simp_all add: size_wf_def digits_value_def get_char_def ctype_defs CHUNK_MAXNUM_LEN_def CURL_OFF_T_MAX_def
      trailer_wf_def DYN_H1_TRAILER_def)

end
