(* ===== verification/Parsedate.thy ===== *)
theory Parsedate
  imports Strtoofft
begin

text \<open>
  The date parser of \<open>parsedate.c\<close>, as compiled with a signed 64-bit \<open>time_t\<close>. The string
  is split into the part already read, \<open>seen\<close>, and the rest, \<open>date\<close>; the pointer of the
  C code stands between them, so \<open>date[-1]\<close> is the last byte of \<open>seen\<close>. The local
  variables of \<open>parsedate\<close> are the record \<open>parts\<close>. They are C \<open>int\<close>s; \<open>parts_ok\<close> bounds
  every value they take.
\<close>

definition wkday :: "byte list list" where
  "wkday = map s2b [''Mon'', ''Tue'', ''Wed'', ''Thu'', ''Fri'', ''Sat'', ''Sun'']"

definition month :: "byte list list" where
  "month = map s2b [''Jan'', ''Feb'', ''Mar'', ''Apr'', ''May'', ''Jun'',
     ''Jul'', ''Aug'', ''Sep'', ''Oct'', ''Nov'', ''Dec'']"

definition weekday :: "byte list list" where
  "weekday = map s2b [''Monday'', ''Tuesday'', ''Wednesday'', ''Thursday'', ''Friday'', ''Saturday'', ''Sunday'']"

definition tz :: "(byte list \<times> int) list" where
  "tz =
    [(s2b ''GMT'', 0), (s2b ''UT'', 0), (s2b ''UTC'', 0), (s2b ''WET'', 0),
     (s2b ''BST'', 0 - 60), (s2b ''WAT'', 60), (s2b ''AST'', 240), (s2b ''ADT'', 240 - 60),
     (s2b ''EST'', 300), (s2b ''EDT'', 300 - 60), (s2b ''CST'', 360), (s2b ''CDT'', 360 - 60),
     (s2b ''MST'', 420), (s2b ''MDT'', 420 - 60), (s2b ''PST'', 480), (s2b ''PDT'', 480 - 60),
     (s2b ''YST'', 540), (s2b ''YDT'', 540 - 60), (s2b ''HST'', 600), (s2b ''HDT'', 600 - 60),
     (s2b ''CAT'', 600), (s2b ''AHST'', 600), (s2b ''NT'', 660), (s2b ''IDLW'', 720),
     (s2b ''CET'', - 60), (s2b ''MET'', - 60), (s2b ''MEWT'', - 60), (s2b ''MEST'', - 60 - 60),
     (s2b ''CEST'', - 60 - 60), (s2b ''MESZ'', - 60 - 60), (s2b ''FWT'', - 60), (s2b ''FST'', - 60 - 60),
     (s2b ''EET'', - 120), (s2b ''WAST'', - 420), (s2b ''WADT'', - 420 - 60), (s2b ''CCT'', - 480),
     (s2b ''JST'', - 540), (s2b ''EAST'', - 600), (s2b ''EADT'', - 600 - 60), (s2b ''GST'', - 600),
     (s2b ''NZT'', - 720), (s2b ''NZST'', - 720), (s2b ''NZDT'', - 720 - 60), (s2b ''IDLE'', - 720),
     (s2b ''A'', 1 * 60), (s2b ''B'', 2 * 60), (s2b ''C'', 3 * 60), (s2b ''D'', 4 * 60),
     (s2b ''E'', 5 * 60), (s2b ''F'', 6 * 60), (s2b ''G'', 7 * 60), (s2b ''H'', 8 * 60),
     (s2b ''I'', 9 * 60), (s2b ''K'', 10 * 60), (s2b ''L'', 11 * 60), (s2b ''M'', 12 * 60),
     (s2b ''N'', - 1 * 60), (s2b ''O'', - 2 * 60), (s2b ''P'', - 3 * 60), (s2b ''Q'', - 4 * 60),
     (s2b ''R'', - 5 * 60), (s2b ''S'', - 6 * 60), (s2b ''T'', - 7 * 60), (s2b ''U'', - 8 * 60),
     (s2b ''V'', - 9 * 60), (s2b ''W'', - 10 * 60), (s2b ''X'', - 11 * 60), (s2b ''Y'', - 12 * 60),
     (s2b ''Z'', 0)]"

text \<open>The loops over the tables: the index of the first name that matches, or -1.\<close>

fun name_index :: "byte list \<Rightarrow> byte list list \<Rightarrow> int \<Rightarrow> int" where
  "name_index check [] i = - 1"
| "name_index check (what # ws) i =
     (if length what = length check \<and> ncasecompare check what (length check) then i
      else name_index check ws (i + 1))"

definition checkday :: "byte list \<Rightarrow> int" where
  "checkday check =
     (if length check > 3 then name_index check weekday 0
      else if length check = 3 then name_index check wkday 0
      else - 1)"

definition checkmonth :: "byte list \<Rightarrow> int" where
  "checkmonth check = (if length check \<noteq> 3 then - 1 else name_index check month 0)"

fun tz_offset :: "byte list \<Rightarrow> (byte list \<times> int) list \<Rightarrow> int" where
  "tz_offset check [] = - 1"
| "tz_offset check ((name, offset) # ts) =
     (if length name = length check \<and> ncasecompare check name (length check) then offset * 60
      else tz_offset check ts)"

definition checktz :: "byte list \<Rightarrow> int" where
  "checktz check = (if length check > 4 then - 1 else tz_offset check tz)"

definition skip :: "byte list \<Rightarrow> byte list \<times> byte list" where
  "skip date = (takeWhile (\<lambda>b. \<not> ISALNUM b) date, dropWhile (\<lambda>b. \<not> ISALNUM b) date)"

datatype assume_next = DATE_MDAY | DATE_YEAR | DATE_TIME

definition month_days_cumulative :: "int list" where
  "month_days_cumulative = [0, 31, 59, 90, 120, 151, 181, 212, 243, 273, 304, 334]"

text \<open>The division of C rounds towards zero: \<open>sdiv\<close>.\<close>

definition time2epoch :: "int \<Rightarrow> int \<Rightarrow> int \<Rightarrow> int \<Rightarrow> int \<Rightarrow> int \<Rightarrow> int" where
  "time2epoch sec minute hour mday mon year =
     (let leap_days = year - (if mon \<le> 1 then 1 else 0);
          leap_days = leap_days sdiv 4 - leap_days sdiv 100 + leap_days sdiv 400
            - 1969 sdiv 4 + 1969 sdiv 100 - 1969 sdiv 400
      in ((((year - 1970) * 365 + leap_days + month_days_cumulative ! nat mon + mday - 1) * 24
           + hour) * 60 + minute) * 60 + sec)"

text \<open>Called at a digit: the number, and the rest of the string.\<close>

definition oneortwodigit :: "byte list \<Rightarrow> int \<times> byte list" where
  "oneortwodigit date =
     (let num = uint (at date 0) - 0x30
      in if ISDIGIT (at date 1) then (num * 10 + (uint (at date 1) - 0x30), drop 2 date)
         else (num, drop 1 date))"

definition match_time :: "byte list \<Rightarrow> (int \<times> int \<times> int \<times> byte list) option" where
  "match_time date =
     (let (hh, p) = oneortwodigit date
      in if hh < 24 \<and> at p 0 = 0x3A \<and> ISDIGIT (at p 1) then
           (let (mm, p) = oneortwodigit (drop 1 p)
            in if mm < 60 then
                 (if at p 0 = 0x3A \<and> ISDIGIT (at p 1) then
                    (let (ss, p) = oneortwodigit (drop 1 p)
                     in if ss \<le> 60 then Some (hh, mm, ss, p) else None)
                  else Some (hh, mm, 0, p))
               else None)
         else None)"

subsection \<open>The parts of a date\<close>

record parts =
  wdaynum :: int
  monnum :: int
  mdaynum :: int
  hournum :: int
  minnum :: int
  secnum :: int
  yearnum :: int
  tzoff :: int
  dignext :: assume_next

definition no_parts :: parts where
  "no_parts = \<lparr>wdaynum = - 1, monnum = - 1, mdaynum = - 1, hournum = - 1, minnum = - 1, secnum = - 1,
     yearnum = - 1, tzoff = - 1, dignext = DATE_MDAY\<rparr>"

definition NAME_LEN :: nat where "NAME_LEN = 12"
definition LONG_MAX :: int where "LONG_MAX = 2 ^ 63 - 1"
definition TIME_T_MAX :: int where "TIME_T_MAX = 2 ^ 63 - 1"

text \<open>
  A name: a weekday, a month or a time zone, each only once, tried in this order.
  \<open>None\<close> is a bad string.
\<close>

definition date_name :: "byte list \<Rightarrow> parts \<Rightarrow> parts option" where
  "date_name name p =
     (if length name = NAME_LEN then None
      else if wdaynum p = - 1 \<and> checkday name \<noteq> - 1 then Some (p\<lparr>wdaynum := checkday name\<rparr>)
      else if monnum p = - 1 \<and> checkmonth name \<noteq> - 1 then Some (p\<lparr>monnum := checkmonth name\<rparr>)
      else if tzoff p = - 1 \<and> checktz name \<noteq> - 1 then Some (p\<lparr>tzoff := checktz name\<rparr>)
      else None)"

text \<open>
  A number that is no time: the tests in their order, \<open>found\<close> as in the code. \<open>sign\<close> is
  \<open>date[-1]\<close>, when there is one.
\<close>

definition number_zone :: "byte option \<Rightarrow> nat \<Rightarrow> int \<Rightarrow> parts \<Rightarrow> bool \<times> parts" where
  "number_zone sign len val p =
     (if tzoff p = - 1 \<and> len = 4 \<and> val \<le> 1400 \<and> (sign = Some 0x2B \<or> sign = Some 0x2D) then
        (let off = (val div 100 * 60 + val mod 100) * 60
         in (True, p\<lparr>tzoff := if sign = Some 0x2B then - off else off\<rparr>))
      else (False, p))"

definition number_compact :: "nat \<Rightarrow> int \<Rightarrow> bool \<times> parts \<Rightarrow> bool \<times> parts" where
  "number_compact len val fp =
     (let (found, p) = fp
      in if len = 8 \<and> yearnum p = - 1 \<and> monnum p = - 1 \<and> mdaynum p = - 1 then
           (True, p\<lparr>yearnum := val div 10000, monnum := val mod 10000 div 100 - 1, mdaynum := val mod 100\<rparr>)
         else (found, p))"

definition number_mday :: "int \<Rightarrow> bool \<times> parts \<Rightarrow> bool \<times> parts" where
  "number_mday val fp =
     (let (found, p) = fp
      in if \<not> found \<and> dignext p = DATE_MDAY \<and> mdaynum p = - 1 then
           (if val > 0 \<and> val < 32 then (True, p\<lparr>mdaynum := val, dignext := DATE_YEAR\<rparr>)
            else (False, p\<lparr>dignext := DATE_YEAR\<rparr>))
         else (found, p))"

definition number_year :: "int \<Rightarrow> bool \<times> parts \<Rightarrow> bool \<times> parts" where
  "number_year val fp =
     (let (found, p) = fp
      in if \<not> found \<and> dignext p = DATE_YEAR \<and> yearnum p = - 1 then
           (let year = (if val < 100 then (if val > 70 then val + 1900 else val + 2000) else val);
                p = p\<lparr>yearnum := year\<rparr>
            in (True, if mdaynum p = - 1 then p\<lparr>dignext := DATE_MDAY\<rparr> else p))
         else (found, p))"

definition date_number :: "byte option \<Rightarrow> byte list \<Rightarrow> parts \<Rightarrow> parts option" where
  "date_number sign digits p =
     (let val = digits_value 10 digits; len = length digits
      in if val > LONG_MAX then None
         else if val > INT_MAX then None
         else
           let (found, p) = number_year val (number_mday val (number_compact len val (number_zone sign len val p)))
           in if found then Some p else None)"

text \<open>
  One turn of the loop: what precedes the pointer, what follows it, and the parts. When
  only separators are left the turn ends at the end of the string.
\<close>

definition date_part :: "byte list \<Rightarrow> byte list \<Rightarrow> parts \<Rightarrow> (byte list \<times> byte list \<times> parts) option" where
  "date_part seen date p =
     (let (sep, date) = skip date; seen = seen @ sep
      in if ISALPHA (at date 0) then
           (let name = take NAME_LEN (takeWhile ISALPHA date)
            in case date_name name p of
                 None \<Rightarrow> None
               | Some p \<Rightarrow> Some (seen @ name, drop (length name) date, p))
         else if ISDIGIT (at date 0) then
           (case (if secnum p = - 1 then match_time date else None) of
              Some (h, m, s, end) \<Rightarrow>
                Some (seen @ take (length date - length end) date, end,
                  p\<lparr>hournum := h, minnum := m, secnum := s\<rparr>)
            | None \<Rightarrow>
                let digits = takeWhile ISDIGIT date;
                    sign = (if seen = [] then None else Some (last seen))
                in case date_number sign digits p of
                     None \<Rightarrow> None
                   | Some p \<Rightarrow> Some (seen @ digits, drop (length digits) date, p))
         else Some (seen, date, p))"

fun date_parts :: "nat \<Rightarrow> byte list \<Rightarrow> byte list \<Rightarrow> parts \<Rightarrow> parts option" where
  "date_parts 0 seen date p = Some p"
| "date_parts (Suc n) seen date p =
     (if date = [] then Some p
      else
        case date_part seen date p of
          None \<Rightarrow> None
        | Some (seen, date, p) \<Rightarrow> date_parts n seen date p)"

datatype parsedate_rc = PARSEDATE_OK | PARSEDATE_FAIL | PARSEDATE_LATER | PARSEDATE_SOONER

text \<open>After the loop: the checks, and the time when there is one.\<close>

definition date_finish :: "parts \<Rightarrow> int \<Rightarrow> parsedate_rc \<times> int" where
  "date_finish p output =
     (let p = (if secnum p = - 1 then p\<lparr>secnum := 0, minnum := 0, hournum := 0\<rparr> else p)
      in if mdaynum p = - 1 \<or> monnum p = - 1 \<or> yearnum p = - 1 then (PARSEDATE_FAIL, output)
         else if yearnum p < 1583 then (PARSEDATE_FAIL, output)
         else if mdaynum p > 31 \<or> monnum p > 11 \<or> hournum p > 23 \<or> minnum p > 59 \<or> secnum p > 60 then
           (PARSEDATE_FAIL, output)
         else
           let t = time2epoch (secnum p) (minnum p) (hournum p) (mdaynum p) (monnum p) (yearnum p);
               off = (if tzoff p = - 1 then 0 else tzoff p)
           in if off > 0 \<and> t > TIME_T_MAX - off then (PARSEDATE_LATER, TIME_T_MAX)
              else (PARSEDATE_OK, t + off))"

definition parsedate :: "byte list \<Rightarrow> int \<Rightarrow> parsedate_rc \<times> int" where
  "parsedate date output =
     (case date_parts 6 [] date no_parts of
        None \<Rightarrow> (PARSEDATE_FAIL, output)
      | Some p \<Rightarrow> date_finish p output)"

definition curl_getdate :: "byte list \<Rightarrow> int" where
  "curl_getdate p =
     (case parsedate p (- 1) of
        (rc, parsed) \<Rightarrow>
          if rc = PARSEDATE_OK then (if parsed = - 1 then parsed + 1 else parsed) else - 1)"

definition Curl_getdate_capped :: "byte list \<Rightarrow> int" where
  "Curl_getdate_capped p =
     (case parsedate p (- 1) of
        (PARSEDATE_OK, parsed) \<Rightarrow> (if parsed = - 1 then parsed + 1 else parsed)
      | (PARSEDATE_LATER, parsed) \<Rightarrow> parsed
      | _ \<Rightarrow> - 1)"

subsection \<open>The calendar\<close>

definition leap :: "int \<Rightarrow> bool" where
  "leap y \<longleftrightarrow> 4 dvd y \<and> (\<not> 100 dvd y \<or> 400 dvd y)"

definition year_days :: "int \<Rightarrow> int" where
  "year_days y = (if leap y then 366 else 365)"

definition month_days :: "int \<Rightarrow> nat \<Rightarrow> int" where
  "month_days y m = (if m = 1 then (if leap y then 29 else 28) else if m \<in> {3, 5, 8, 10} then 30 else 31)"

text \<open>Days from the first of January 1970 to a date, counted year by year and month by month.\<close>

definition calendar_days :: "int \<Rightarrow> nat \<Rightarrow> int \<Rightarrow> int" where
  "calendar_days y m d =
     (if y \<ge> 1970 then sum year_days {1970..<y} else - sum year_days {y..<1970}) +
     sum (month_days y) {..<m} + d - 1"

lemma div_step:
  assumes "0 < (k :: int)"
  shows "y div k = (y - 1) div k + (if k dvd y then 1 else 0)"
proof (cases "k dvd y")
  case True
  then obtain q where "y = k * q" by blast
  moreover have "(k * q - 1) div k = q - 1"
    using assms by (intro int_div_pos_eq [of _ _ _ "k - 1"]) (auto simp: algebra_simps)
  ultimately show ?thesis using True assms by simp
next
  case False
  then have "y mod k \<noteq> 0" by (simp add: dvd_eq_mod_eq_0)
  then have r: "0 \<le> y mod k - 1" "y mod k - 1 < k" using pos_mod_bound [OF assms, of y] pos_mod_sign [OF assms, of y] by simp_all
  have "(y - 1) div k = y div k"
    using r by (intro int_div_pos_eq [of _ _ _ "y mod k - 1"]) simp_all
  with False show ?thesis by simp
qed

definition new_year :: "int \<Rightarrow> int" where
  "new_year y = (y - 1970) * 365 + (y - 1) div 4 - (y - 1) div 100 + (y - 1) div 400 - 477"

lemma leap_of_bool: "y div 4 - y div 100 + y div 400 = (y - 1) div 4 - (y - 1) div 100 + (y - 1) div 400 + (if leap y then 1 else 0)"
proof -
  have "(100 :: int) dvd 400" "(4 :: int) dvd 100" by simp_all
  then have d: "400 dvd y \<longrightarrow> 100 dvd y" "100 dvd y \<longrightarrow> 4 dvd y" using dvd_trans by blast+
  define a b c where "a = (y - 1) div 4" and "b = (y - 1) div 100" and "c = (y - 1) div 400"
  have s: "y div 4 = a + (if 4 dvd y then 1 else 0)" "y div 100 = b + (if 100 dvd y then 1 else 0)"
    "y div 400 = c + (if 400 dvd y then 1 else 0)"
    unfolding a_def b_def c_def by (rule div_step; simp only: zero_less_numeral)+
  have aux: "(a + (if P then 1 else 0)) - (b + (if Q then 1 else 0)) + (c + (if R then 1 else 0)) =
      a - b + c + (if P \<and> (\<not> Q \<or> R) then 1 else 0)" if "R \<longrightarrow> Q" "Q \<longrightarrow> P" for P Q R
    using that by (cases P; cases Q; cases R) simp_all
  show ?thesis unfolding s a_def [symmetric] b_def [symmetric] c_def [symmetric] leap_def by (rule aux [OF d])
qed

lemma new_year_Suc: "new_year (y + 1) = new_year y + year_days y"
proof -
  have d: "year_days y = 365 + (if leap y then 1 else 0)" by (simp add: year_days_def)
  have lin: "(y + 1 - 1970) * 365 + a - b + c - 477 = (y - 1970) * 365 + a' - b' + c' - 477 + (365 + t)"
    if "a - b + c = a' - b' + c' + t" for a b c a' b' c' t :: int
  proof -
    have "a = a' - b' + c' + t + b - c" using that by simp
    then show ?thesis by (simp add: algebra_simps)
  qed
  show ?thesis unfolding new_year_def add_diff_cancel_right' d by (rule lin [OF leap_of_bool])
qed

lemma new_year_sum: "new_year y = (if y \<ge> 1970 then sum year_days {1970..<y} else - sum year_days {y..<1970})"
proof (cases "y \<ge> 1970")
  case True
  then have "new_year y = sum year_days {1970..<y}"
  proof (induction y rule: int_ge_induct)
    case base
    show ?case by (simp add: new_year_def)
  next
    case (step i)
    then have "{1970..<i + 1} = insert i {1970..<i}" by auto
    with step new_year_Suc [of i] show ?case by simp
  qed
  with True show ?thesis by simp
next
  case False
  then have "y \<le> 1970" by simp
  then have "new_year y = - sum year_days {y..<1970}"
  proof (induction y rule: int_le_induct)
    case base
    show ?case by (simp add: new_year_def)
  next
    case (step i)
    then have "{i - 1..<1970} = insert (i - 1) {i..<1970}" by auto
    with step new_year_Suc [of "i - 1"] show ?case by simp
  qed
  with False show ?thesis by simp
qed

lemma month_start:
  assumes "m < 12"
  shows "sum (month_days y) {..<m} = month_days_cumulative ! m + (if m \<ge> 2 \<and> leap y then 1 else 0)"
proof -
  have "m = 0 \<or> m = 1 \<or> m = 2 \<or> m = 3 \<or> m = 4 \<or> m = 5 \<or> m = 6 \<or> m = 7 \<or> m = 8 \<or> m = 9 \<or> m = 10 \<or> m = 11"
    using assms by presburger
  then show ?thesis
    by (elim disjE) (simp_all add: month_days_cumulative_def month_days_def lessThan_nat_numeral lessThan_Suc)
qed

text \<open>From year 1 on nothing negative is divided.\<close>

lemma time2epoch_floor:
  assumes "1 \<le> y"
  shows "time2epoch sec minute hour d m y =
    (let L = y - (if m \<le> 1 then 1 else 0)
     in ((((y - 1970) * 365 + (L div 4 - L div 100 + L div 400 - 1969 div 4 + 1969 div 100 - 1969 div 400) +
           month_days_cumulative ! nat m + d - 1) * 24 + hour) * 60 + minute) * 60 + sec)"
proof -
  have "0 \<le> y - (if m \<le> 1 then 1 else 0)" using assms by simp
  then show ?thesis unfolding time2epoch_def Let_def by (simp add: sdiv_pos)
qed

lemma time2epoch_calendar_days:
  assumes "m < 12" "1 \<le> y"
  shows "time2epoch sec minute hour d (int m) y = ((calendar_days y m d * 24 + hour) * 60 + minute) * 60 + sec"
proof -
  define L where "L = y - (if int m \<le> 1 then 1 else 0)"
  have lin: "q - 477 + k = k + a - b + c - 477 + t" if "q = a - b + c + t" for q k a b c t :: int
    using that by simp
  have "L div 4 - L div 100 + L div 400 =
      (y - 1) div 4 - (y - 1) div 100 + (y - 1) div 400 + (if m \<ge> 2 \<and> leap y then 1 else 0)"
  proof (cases "m \<ge> 2")
    case True
    then have "L = y" by (simp add: L_def)
    with True show ?thesis using leap_of_bool [of y] by (simp only: simp_thms)
  next
    case False
    then have "L = y - 1" by (simp add: L_def)
    with False show ?thesis by (simp only: simp_thms if_False add_0_right)
  qed
  then have "L div 4 - L div 100 + L div 400 - 477 + (y - 1970) * 365 = new_year y + (if m \<ge> 2 \<and> leap y then 1 else 0)"
    unfolding new_year_def by (rule lin)
  then have "(y - 1970) * 365 + (L div 4 - L div 100 + L div 400 - 1969 div 4 + 1969 div 100 - 1969 div 400) +
      month_days_cumulative ! m + d - 1 = calendar_days y m d"
    using month_start [OF assms(1), of y] new_year_sum [of y] by (simp add: calendar_days_def)
  then show ?thesis by (simp only: time2epoch_floor [OF assms(2)] Let_def L_def nat_int)
qed

subsection \<open>Reading the parts\<close>

text \<open>What is between the parts, and where a part ends.\<close>

definition ends :: "(byte \<Rightarrow> bool) \<Rightarrow> byte list \<Rightarrow> bool" where
  "ends P rest \<longleftrightarrow> rest = [] \<or> \<not> P (hd rest)"

lemma takeWhile_ends:
  "\<forall>b \<in> set xs. P b \<Longrightarrow> ends P rest \<Longrightarrow> takeWhile P (xs @ rest) = xs \<and> dropWhile P (xs @ rest) = rest"
  by (induction xs) (cases rest; auto simp: ends_def)+

lemma skip_sep:
  assumes "\<forall>b \<in> set sep. \<not> ISALNUM b" "ISALNUM (hd rest)" "rest \<noteq> []"
  shows "skip (sep @ rest) = (sep, rest)"
  using takeWhile_ends [of sep "\<lambda>b. \<not> ISALNUM b" rest] assms by (simp add: skip_def ends_def)

lemma date_part_name:
  assumes "\<forall>b \<in> set sep. \<not> ISALNUM b" "\<forall>b \<in> set name. ISALPHA b" "name \<noteq> []" "length name < NAME_LEN"
    "ends ISALPHA rest" "date_name name p = Some p'"
  shows "date_part seen (sep @ name @ rest) p = Some (seen @ sep @ name, rest, p')"
proof -
  obtain c cs where n: "name = c # cs" using assms(3) by (cases name) auto
  have "skip (sep @ name @ rest) = (sep, name @ rest)"
    using skip_sep [of sep "name @ rest"] assms(1,2) n ISALPHA_ISALNUM by simp
  moreover have "takeWhile ISALPHA (name @ rest) = name" using takeWhile_ends [OF assms(2,5)] by simp
  ultimately show ?thesis using assms(2,4,6) n by (simp add: date_part_def Let_def)
qed

lemma date_part_number:
  assumes "\<forall>b \<in> set sep. \<not> ISALNUM b" "\<forall>b \<in> set ds. ISDIGIT b" "ds \<noteq> []" "ends ISDIGIT rest"
    "match_time (ds @ rest) = None" "sep \<noteq> []" "date_number (Some (last sep)) ds p = Some p'"
  shows "date_part seen (sep @ ds @ rest) p = Some (seen @ sep @ ds, rest, p')"
proof -
  obtain c cs where n: "ds = c # cs" using assms(3) by (cases ds) auto
  have "skip (sep @ ds @ rest) = (sep, ds @ rest)"
    using skip_sep [of sep "ds @ rest"] assms(1,2) n ISDIGIT_ISALNUM by simp
  moreover have "takeWhile ISDIGIT (ds @ rest) = ds" using takeWhile_ends [OF assms(2,4)] by simp
  moreover have "ISDIGIT c" "\<not> ISALPHA c" using assms(2) n ISDIGIT_not_ISALPHA by auto
  ultimately show ?thesis using assms(5-7) n by (simp add: date_part_def Let_def)
qed

lemma date_part_time:
  assumes "\<forall>b \<in> set sep. \<not> ISALNUM b" "ISDIGIT (hd t)" "t \<noteq> []" "secnum p = - 1"
    "match_time (t @ rest) = Some (h, m, s, rest)"
  shows "date_part seen (sep @ t @ rest) p =
    Some (seen @ sep @ t, rest, p\<lparr>hournum := h, minnum := m, secnum := s\<rparr>)"
proof -
  obtain c cs where n: "t = c # cs" using assms(3) by (cases t) auto
  have "skip (sep @ t @ rest) = (sep, t @ rest)"
    using skip_sep [of sep "t @ rest"] assms(1,2) n ISDIGIT_ISALNUM by simp
  moreover have "ISDIGIT c" "\<not> ISALPHA c" using assms(2) n ISDIGIT_not_ISALPHA by auto
  ultimately show ?thesis using assms(4,5) n by (simp add: date_part_def Let_def)
qed

subsection \<open>The format of RFC 1123\<close>

definition two_digits :: "nat \<Rightarrow> byte list" where
  "two_digits n = [0x30 + word_of_nat (n div 10), 0x30 + word_of_nat (n mod 10)]"

definition four_digits :: "nat \<Rightarrow> byte list" where
  "four_digits n = two_digits (n div 100) @ two_digits (n mod 100)"

definition rfc1123_time :: "nat \<Rightarrow> nat \<Rightarrow> nat \<Rightarrow> byte list" where
  "rfc1123_time h m s = two_digits h @ [0x3A] @ two_digits m @ [0x3A] @ two_digits s"

definition rfc1123 :: "nat \<Rightarrow> nat \<Rightarrow> nat \<Rightarrow> nat \<Rightarrow> nat \<Rightarrow> nat \<Rightarrow> nat \<Rightarrow> byte list" where
  "rfc1123 wd d m y hh mm ss =
     wkday ! wd @ [0x2C, 0x20] @ two_digits d @ [0x20] @ month ! m @ [0x20] @ four_digits y @
     [0x20] @ rfc1123_time hh mm ss @ [0x20] @ s2b ''GMT''"

lemma two_digits_spec:
  assumes "n < 100"
  shows "(\<forall>b \<in> set (two_digits n). ISDIGIT b) \<and> digits_value 10 (two_digits n) = int n \<and>
    (uint (two_digits n ! 0) - 0x30) * 10 + (uint (two_digits n ! 1) - 0x30) = int n"
proof -
  have "list_all (\<lambda>n. (\<forall>b \<in> set (two_digits n). ISDIGIT b) \<and> digits_value 10 (two_digits n) = int n \<and>
      (uint (two_digits n ! 0) - 0x30) * 10 + (uint (two_digits n ! 1) - 0x30) = int n) [0..<100]"
    unfolding two_digits_def ISDIGIT_def digits_value_def get_char_def by code_simp
  with assms show ?thesis by (simp add: list_all_iff)
qed

lemma two_digits_shape: "two_digits n \<noteq> []" "length (two_digits n) = 2"
  by (simp_all add: two_digits_def)

lemma four_digits_spec:
  assumes "n < 10000"
  shows "(\<forall>b \<in> set (four_digits n). ISDIGIT b) \<and> digits_value 10 (four_digits n) = int n \<and> length (four_digits n) = 4"
proof -
  have "n div 100 < 100" "n mod 100 < 100" using assms by simp_all
  note a = two_digits_spec [OF this(1)] and b = two_digits_spec [OF this(2)]
  have "digits_value 10 (four_digits n) = 100 * digits_value 10 (two_digits (n div 100)) + digits_value 10 (two_digits (n mod 100))"
    by (simp add: four_digits_def two_digits_def digits_value_def)
  moreover have "100 * int (n div 100) + int (n mod 100) = int n"
    by (metis mult_div_mod_eq of_nat_add of_nat_mult of_nat_numeral)
  ultimately show ?thesis using a b by (auto simp: four_digits_def two_digits_shape)
qed

lemma oneortwodigit_two: "n < 100 \<Longrightarrow> oneortwodigit (two_digits n @ rest) = (int n, rest)"
  using two_digits_spec [of n] by (auto simp: oneortwodigit_def two_digits_def Let_def)

lemma match_time_rfc1123:
  assumes "hh < 24" "mm < 60" "ss \<le> 60"
  shows "match_time (rfc1123_time hh mm ss @ rest) = Some (int hh, int mm, int ss, rest)"
proof -
  have d: "ISDIGIT (at (two_digits mm @ zs) 0)" "ISDIGIT (at (two_digits ss @ zs) 0)" for zs
    using two_digits_spec [of mm] two_digits_spec [of ss] assms by (auto simp: two_digits_def)
  have s: "at (0x3A # xs) 1 = at xs 0" for xs :: "byte list" by (simp add: at_def)
  show ?thesis
    using assms d by (simp add: match_time_def rfc1123_time_def oneortwodigit_two s)
qed

lemma match_time_two: "n < 100 \<Longrightarrow> at rest 0 \<noteq> 0x3A \<Longrightarrow> match_time (two_digits n @ rest) = None"
  by (simp add: match_time_def oneortwodigit_two)

lemma ends_simps [simp]: "ends P [] = True" "ends P (b # bs) = (\<not> P b)"
  by (simp_all add: ends_def)

lemma weekday_names:
  assumes "wd < 7"
  shows "(\<forall>b \<in> set (wkday ! wd). ISALPHA b) \<and> length (wkday ! wd) = 3 \<and> checkday (wkday ! wd) = int wd"
proof -
  have "list_all (\<lambda>wd. (\<forall>b \<in> set (wkday ! wd). ISALPHA b) \<and> length (wkday ! wd) = 3 \<and> checkday (wkday ! wd) = int wd) [0..<7]"
    unfolding ctype_defs by code_simp
  with assms show ?thesis by (simp add: list_all_iff)
qed

lemma month_names:
  assumes "m < 12"
  shows "(\<forall>b \<in> set (month ! m). ISALPHA b) \<and> length (month ! m) = 3 \<and> checkmonth (month ! m) = int m"
proof -
  have "list_all (\<lambda>m. (\<forall>b \<in> set (month ! m). ISALPHA b) \<and> length (month ! m) = 3 \<and> checkmonth (month ! m) = int m) [0..<12]"
    by code_simp
  with assms show ?thesis by (simp add: list_all_iff)
qed

lemma gmt_name: "(\<forall>b \<in> set (s2b ''GMT''). ISALPHA b) \<and> checkday (s2b ''GMT'') = - 1 \<and>
    checkmonth (s2b ''GMT'') = - 1 \<and> checktz (s2b ''GMT'') = 0"
  unfolding ctype_defs by code_simp

lemma not_sep [simp]: "\<not> ISALNUM 0x2C" "\<not> ISALNUM 0x20" "\<not> ISALPHA 0x2C" "\<not> ISALPHA 0x20" "\<not> ISDIGIT 0x20"
  by (simp_all add: ctype_defs)

text \<open>The date with all its parts, read from the format of RFC 1123.\<close>

lemma rfc1123_parts:
  assumes "wd < 7" "1 \<le> d" "d \<le> 31" "m < 12" "1583 \<le> y" "y < 10000" "hh < 24" "mm < 60" "ss \<le> 60"
  shows "date_parts 6 [] (rfc1123 wd d m y hh mm ss) no_parts =
    Some \<lparr>wdaynum = int wd, monnum = int m, mdaynum = int d, hournum = int hh, minnum = int mm,
      secnum = int ss, yearnum = int y, tzoff = 0, dignext = DATE_YEAR\<rparr>"
proof -
  note W = weekday_names [OF assms(1)] and M = month_names [OF assms(4)]
  have d: "d < 100" using assms(3) by simp
  note D = two_digits_spec [OF d] and Y = four_digits_spec [OF assms(6)]
  let ?T = "[0x20] @ s2b ''GMT''"
  let ?R4 = "[0x20] @ rfc1123_time hh mm ss @ ?T"
  let ?R3 = "[0x20] @ four_digits y @ ?R4"
  let ?R2 = "[0x20] @ month ! m @ ?R3"
  let ?R1 = "[0x2C, 0x20] @ two_digits d @ ?R2"
  let ?p1 = "no_parts\<lparr>wdaynum := int wd\<rparr>"
  let ?p2 = "?p1\<lparr>mdaynum := int d, dignext := DATE_YEAR\<rparr>"
  let ?p3 = "?p2\<lparr>monnum := int m\<rparr>"
  let ?p4 = "?p3\<lparr>yearnum := int y\<rparr>"
  let ?p5 = "?p4\<lparr>hournum := int hh, minnum := int mm, secnum := int ss\<rparr>"
  have ne: "wkday ! wd \<noteq> []" "month ! m \<noteq> []" "four_digits y \<noteq> []" using W M Y by auto
  have n1: "date_name (wkday ! wd) no_parts = Some ?p1"
    using W by (simp add: date_name_def NAME_LEN_def no_parts_def)
  have s1: "date_part seen ([] @ wkday ! wd @ ?R1) no_parts = Some (seen @ [] @ wkday ! wd, ?R1, ?p1)" for seen
    by (rule date_part_name) (use W ne n1 in \<open>simp_all add: NAME_LEN_def\<close>)
  have n2: "date_number (Some (last [0x2C, 0x20])) (two_digits d) ?p1 = Some ?p2"
    using D assms(2,3)
    by (simp add: date_number_def number_zone_def number_compact_def number_mday_def number_year_def no_parts_def
        two_digits_shape LONG_MAX_def INT_MAX_def Let_def)
  have s2: "date_part seen ([0x2C, 0x20] @ two_digits d @ ?R2) ?p1 = Some (seen @ [0x2C, 0x20] @ two_digits d, ?R2, ?p2)" for seen
    by (rule date_part_number) (use D n2 match_time_two [OF d] in \<open>simp_all add: two_digits_shape\<close>)
  have n3: "date_name (month ! m) ?p2 = Some ?p3"
    using M by (simp add: date_name_def NAME_LEN_def no_parts_def)
  have s3: "date_part seen ([0x20] @ month ! m @ ?R3) ?p2 = Some (seen @ [0x20] @ month ! m, ?R3, ?p3)" for seen
    by (rule date_part_name) (use M ne n3 in \<open>simp_all add: NAME_LEN_def\<close>)
  have n4: "date_number (Some (last [0x20])) (four_digits y) ?p3 = Some ?p4"
    using Y assms(2,5,6)
    by (simp add: date_number_def number_zone_def number_compact_def number_mday_def number_year_def no_parts_def
        LONG_MAX_def INT_MAX_def Let_def)
  have "match_time (two_digits (y div 100) @ two_digits (y mod 100) @ ?R4) = None"
  proof (rule match_time_two)
    show "y div 100 < 100" using assms(6) by simp
    have "ISDIGIT (at (two_digits (y mod 100) @ ?R4) 0)"
      using two_digits_spec [of "y mod 100"] by (simp add: two_digits_def)
    then show "at (two_digits (y mod 100) @ ?R4) 0 \<noteq> 0x3A" by (auto simp: ctype_defs)
  qed
  then have m4: "match_time (four_digits y @ ?R4) = None" by (simp add: four_digits_def)
  have s4: "date_part seen ([0x20] @ four_digits y @ ?R4) ?p3 = Some (seen @ [0x20] @ four_digits y, ?R4, ?p4)" for seen
    by (rule date_part_number) (use Y ne n4 m4 in simp_all)
  have hd5: "ISDIGIT (hd (rfc1123_time hh mm ss))" "rfc1123_time hh mm ss \<noteq> []"
    using two_digits_spec [of hh] assms(7) by (auto simp: rfc1123_time_def two_digits_def)
  have s5: "date_part seen ([0x20] @ rfc1123_time hh mm ss @ ?T) ?p4 = Some (seen @ [0x20] @ rfc1123_time hh mm ss, ?T, ?p5)" for seen
    by (rule date_part_time) (use hd5 match_time_rfc1123 [OF assms(7-9)] in \<open>simp_all add: no_parts_def\<close>)
  have n6: "date_name (s2b ''GMT'') ?p5 = Some (?p5\<lparr>tzoff := 0\<rparr>)"
    using gmt_name by (simp add: date_name_def NAME_LEN_def no_parts_def)
  have s6: "date_part seen ([0x20] @ s2b ''GMT'' @ []) ?p5 = Some (seen @ [0x20] @ s2b ''GMT'', [], ?p5\<lparr>tzoff := 0\<rparr>)" for seen
    by (rule date_part_name) (use gmt_name n6 in \<open>simp_all add: NAME_LEN_def\<close>)
  have six: "6 = Suc (Suc (Suc (Suc (Suc (Suc 0)))))" by simp
  have nz: "zs @ ws = [] \<longleftrightarrow> zs = [] \<and> ws = []" for zs ws :: "byte list" by simp
  have "date_parts 6 [] (wkday ! wd @ ?R1) no_parts = Some (?p5\<lparr>tzoff := 0\<rparr>)"
    unfolding six date_parts.simps
    using s1 s2 s3 s4 s5 s6 ne by (simp only: nz append_Nil append_Nil2 option.case prod.case if_False list.distinct not_Cons_self2 simp_thms)
  then show ?thesis by (simp add: rfc1123_def no_parts_def)
qed


lemma getdate_of_parts:
  assumes "date_parts 6 [] s no_parts = Some p" "date_finish p (- 1) = (PARSEDATE_OK, t)"
  shows "curl_getdate s = (if t = - 1 then 0 else t)"
  using assms by (simp add: curl_getdate_def parsedate_def)

lemma calendar_days_lower:
  assumes "1583 \<le> y" "1 \<le> d"
  shows "calendar_days y m d \<ge> - 142000"
proof -
  have md: "0 \<le> sum (month_days y) {..<m}" by (rule sum_nonneg) (simp add: month_days_def)
  show ?thesis
  proof (cases "y \<ge> 1970")
    case True
    moreover have "0 \<le> sum year_days {1970..<y}" by (rule sum_nonneg) (simp add: year_days_def)
    ultimately show ?thesis using md assms(2) by (simp add: calendar_days_def)
  next
    case False
    have "sum year_days {y..<1970} \<le> of_nat (card {y..<1970}) * 366"
      by (rule sum_bounded_above) (simp add: year_days_def)
    also have "\<dots> \<le> 387 * 366" using assms(1) by simp
    finally show ?thesis using md assms(2) False by (simp add: calendar_days_def)
  qed
qed

lemma getdate_rfc1123_aux:
  assumes "wd < 7" "1 \<le> d" "d \<le> 31" "m < 12" "1583 \<le> y" "y < 10000" "hh < 24" "mm < 60" "ss \<le> 60"
  shows "curl_getdate (rfc1123 wd d m y hh mm ss) =
    (let t = ((calendar_days (int y) m (int d) * 24 + int hh) * 60 + int mm) * 60 + int ss
     in if t = - 1 then 0 else t)"
  unfolding Let_def
  by (rule getdate_of_parts [OF rfc1123_parts [OF assms]])
    (use assms in \<open>simp add: date_finish_def time2epoch_calendar_days\<close>)

subsection \<open>Bounds of the parts\<close>

text \<open>The values the local variables can have.\<close>

definition parts_ok :: "parts \<Rightarrow> bool" where
  "parts_ok p \<longleftrightarrow>
     wdaynum p \<in> {- 1..6} \<and> monnum p \<in> {- 1..98} \<and> mdaynum p \<in> {- 1..99} \<and>
     hournum p \<in> {- 1..23} \<and> minnum p \<in> {- 1..59} \<and> secnum p \<in> {- 1..60} \<and>
     (secnum p = - 1 \<or> 0 \<le> hournum p \<and> 0 \<le> minnum p) \<and>
     yearnum p \<in> {- 1..INT_MAX} \<and> tzoff p \<in> {- 86400..86400}"

lemma parts_ok_no_parts: "parts_ok no_parts"
  by (simp add: parts_ok_def no_parts_def INT_MAX_def)

lemma name_index_range: "name_index check ws i \<in> {- 1} \<union> {i..<i + int (length ws)}"
proof (induction ws arbitrary: i)
  case (Cons w ws)
  show ?case using Cons [of "i + 1"] by auto
qed simp

lemma checkday_range: "checkday name \<in> {- 1..6}"
proof -
  have "length weekday = 7" "length wkday = 7" by (simp_all add: weekday_def wkday_def)
  then show ?thesis using name_index_range [of name weekday 0] name_index_range [of name wkday 0]
    by (auto simp: checkday_def)
qed

lemma checkmonth_range: "checkmonth name \<in> {- 1..11}"
proof -
  have "length month = 12" by (simp add: month_def)
  then show ?thesis using name_index_range [of name month 0] by (auto simp: checkmonth_def)
qed

lemma tz_offset_range:
  "list_all (\<lambda>(n, off). - 1440 \<le> off \<and> off \<le> 1440) ts \<Longrightarrow> tz_offset name ts \<in> {- 86400..86400}"
  by (induction name ts rule: tz_offset.induct) (auto split: if_splits)

lemma tz_bounds: "list_all (\<lambda>(n, off). - 1440 \<le> off \<and> off \<le> 1440) tz"
  by (simp add: tz_def)

lemma checktz_range: "checktz name \<in> {- 86400..86400}"
  using tz_offset_range [OF tz_bounds, of name] by (simp add: checktz_def)

lemma date_name_ok:
  assumes "parts_ok p" "date_name name p = Some p'"
  shows "parts_ok p'"
proof -
  have "p' \<in> {p\<lparr>wdaynum := checkday name\<rparr>, p\<lparr>monnum := checkmonth name\<rparr>, p\<lparr>tzoff := checktz name\<rparr>}"
    using assms(2) unfolding date_name_def by (simp split: if_splits)
  then show ?thesis
    using assms(1) checkday_range [of name] checkmonth_range [of name] checktz_range [of name]
    by (elim insertE) (simp_all add: parts_ok_def)
qed

lemma digit_ISDIGIT: "ISDIGIT c \<Longrightarrow> is_digit 10 c"
  unfolding ISDIGIT_def is_digit_def get_char_def by (simp add: Let_def word_le_def)

lemma digits_value_pos: "0 \<le> digits_value 10 (takeWhile ISDIGIT ds)"
proof (rule digits_value_nonneg)
  show "\<forall>c \<in> set (takeWhile ISDIGIT ds). is_digit 10 c"
    using digit_ISDIGIT by (auto dest!: set_takeWhileD)
qed simp

lemma number_zone_ok:
  assumes "parts_ok p" "0 \<le> val"
  shows "parts_ok (snd (number_zone sign len val p))"
proof (cases "fst (number_zone sign len val p)")
  case True
  then have v: "val \<le> 1400" by (simp add: number_zone_def Let_def split: if_splits)
  have q: "0 \<le> val div 100" "val div 100 \<le> 14" using v assms(2) zdiv_mono1 [OF v, of 100] by simp_all
  have r: "0 \<le> val mod 100" "val mod 100 < 100" by simp_all
  define a b where "a = val div 100" and "b = val mod 100"
  have "- 86400 \<le> (a * 60 + b) * 60" "(a * 60 + b) * 60 \<le> 86400" using q r unfolding a_def [symmetric] b_def [symmetric] by simp_all
  with assms(1) True show ?thesis
    unfolding number_zone_def Let_def a_def [symmetric] b_def [symmetric] by (auto simp: parts_ok_def split: if_splits)
next
  case False
  then have "snd (number_zone sign len val p) = p" by (auto simp: number_zone_def Let_def split: if_splits)
  with assms(1) show ?thesis by simp
qed

lemma number_compact_ok:
  assumes "parts_ok (snd fp)" "0 \<le> val" "val \<le> INT_MAX"
  shows "parts_ok (snd (number_compact len val fp))"
proof -
  define a b c where "a = val div 10000" and "b = val mod 10000 div 100" and "c = val mod 100"
  have "0 \<le> a" "a \<le> INT_MAX" using assms(2,3) unfolding a_def by (simp_all add: int_div_le_self order_trans [OF _ assms(3)])
  moreover have "val mod 10000 \<le> 9999" using pos_mod_bound [of 10000 val] by simp
  then have "0 \<le> b" "b \<le> 99" using zdiv_mono1 [of "val mod 10000" 9999 100] unfolding b_def by simp_all
  moreover have "0 \<le> c" "c \<le> 99" using pos_mod_bound [of 100 val] unfolding c_def by simp_all
  ultimately have "parts_ok ((snd fp)\<lparr>yearnum := a, monnum := b - 1, mdaynum := c\<rparr>)" using assms(1) by (simp add: parts_ok_def)
  moreover have "snd (number_compact len val fp) \<in> {(snd fp)\<lparr>yearnum := a, monnum := b - 1, mdaynum := c\<rparr>, snd fp}"
    unfolding number_compact_def a_def b_def c_def by (simp split: prod.splits)
  ultimately show ?thesis using assms(1) by auto
qed

lemma number_mday_ok:
  assumes "parts_ok (snd fp)"
  shows "parts_ok (snd (number_mday val fp))"
proof -
  have "snd (number_mday val fp) = snd fp \<or> snd (number_mday val fp) = (snd fp)\<lparr>dignext := DATE_YEAR\<rparr> \<or>
      0 < val \<and> val < 32 \<and> snd (number_mday val fp) = (snd fp)\<lparr>mdaynum := val, dignext := DATE_YEAR\<rparr>"
    unfolding number_mday_def by (simp split: prod.splits)
  then show ?thesis using assms by (elim disjE) (simp_all add: parts_ok_def)
qed

lemma number_year_ok:
  assumes "parts_ok (snd fp)" "0 \<le> val" "val \<le> INT_MAX"
  shows "parts_ok (snd (number_year val fp))"
proof -
  define year where "year = (if val < 100 then (if val > 70 then val + 1900 else val + 2000) else val)"
  have "year \<in> {- 1..INT_MAX}" using assms(2,3) by (auto simp: year_def INT_MAX_def)
  then have "parts_ok ((snd fp)\<lparr>yearnum := year\<rparr>)" "parts_ok ((snd fp)\<lparr>yearnum := year, dignext := DATE_MDAY\<rparr>)"
    using assms(1) by (simp_all add: parts_ok_def)
  moreover have "snd (number_year val fp) \<in> {snd fp, (snd fp)\<lparr>yearnum := year\<rparr>, (snd fp)\<lparr>yearnum := year, dignext := DATE_MDAY\<rparr>}"
    unfolding number_year_def year_def by (simp add: Let_def split: prod.splits)
  ultimately show ?thesis using assms(1) by auto
qed

lemma date_number_ok:
  assumes "parts_ok p" "date_number sign (takeWhile ISDIGIT ds) p = Some p'"
  shows "parts_ok p'"
proof -
  define val where "val = digits_value 10 (takeWhile ISDIGIT ds)"
  define fp where "fp = number_year val (number_mday val (number_compact (length (takeWhile ISDIGIT ds)) val
    (number_zone sign (length (takeWhile ISDIGIT ds)) val p)))"
  have v: "val \<le> INT_MAX" "fst fp" "p' = snd fp"
    using assms(2) unfolding date_number_def val_def [symmetric] Let_def fp_def [symmetric]
    by (auto split: if_splits prod.splits)
  have n: "0 \<le> val" using digits_value_pos unfolding val_def .
  show ?thesis
    unfolding v(3) fp_def using assms(1) n v(1)
    by (intro number_year_ok number_mday_ok number_compact_ok number_zone_ok)
qed

lemma oneortwodigit_nonneg: "ISDIGIT (at date 0) \<Longrightarrow> 0 \<le> fst (oneortwodigit date)"
  by (auto simp: oneortwodigit_def Let_def ctype_defs word_le_def)

lemma match_time_range:
  assumes "match_time date = Some (h, m, s, rest)" "ISDIGIT (at date 0)"
  shows "h \<in> {0..23} \<and> m \<in> {0..59} \<and> s \<in> {0..60}"
proof -
  obtain hh p where o1: "oneortwodigit date = (hh, p)" by fastforce
  have h: "0 \<le> hh" using oneortwodigit_nonneg [OF assms(2)] o1 by simp
  have g1: "hh < 24" "ISDIGIT (at p 1)" using assms(1) by (auto simp: match_time_def o1 split: if_splits)
  obtain mm q where o2: "oneortwodigit (drop 1 p) = (mm, q)" by fastforce
  have dr: "at (drop 1 r) 0 = at r 1" for r :: "byte list" by (cases r; cases "tl r") (simp_all add: at_def)
  then have "ISDIGIT (at (drop 1 p) 0)" using g1(2) by simp
  then have m: "0 \<le> mm" using oneortwodigit_nonneg [of "drop 1 p"] o2 by simp
  obtain ss r where o3: "oneortwodigit (drop 1 q) = (ss, r)" by fastforce
  have s: "ISDIGIT (at q 1) \<Longrightarrow> 0 \<le> ss" using oneortwodigit_nonneg [of "drop 1 q"] o3 dr by simp
  show ?thesis using assms(1) g1 h m s by (auto simp: match_time_def o1 o2 o3 simp del: One_nat_def split: if_splits)
qed

lemma date_part_ok:
  assumes "parts_ok p" "date_part seen date p = Some (seen', date', p')"
  shows "parts_ok p'"
proof -
  define d where "d = snd (skip date)"
  define sep where "sep = fst (skip date)"
  have st: "skip date = (sep, d)" by (simp add: d_def sep_def)
  have D: "(if ISALPHA (at d 0) then
      case date_name (take NAME_LEN (takeWhile ISALPHA d)) p of None \<Rightarrow> None
      | Some p \<Rightarrow> Some ((seen @ sep) @ take NAME_LEN (takeWhile ISALPHA d), drop (length (take NAME_LEN (takeWhile ISALPHA d))) d, p)
    else if ISDIGIT (at d 0) then
      case (if secnum p = - 1 then match_time d else None) of
        Some (h, m, s, end) \<Rightarrow> Some ((seen @ sep) @ take (length d - length end) d, end, p\<lparr>hournum := h, minnum := m, secnum := s\<rparr>)
      | None \<Rightarrow>
          case date_number (if seen @ sep = [] then None else Some (last (seen @ sep))) (takeWhile ISDIGIT d) p of None \<Rightarrow> None
          | Some p \<Rightarrow> Some ((seen @ sep) @ takeWhile ISDIGIT d, drop (length (takeWhile ISDIGIT d)) d, p)
    else Some (seen @ sep, d, p)) = Some (seen', date', p')"
    using assms(2) unfolding date_part_def st prod.case Let_def .
  show ?thesis
  proof (cases "ISALPHA (at d 0)")
    case True
    with D date_name_ok [OF assms(1)] show ?thesis by (auto split: option.splits)
  next
    case alpha: False
    show ?thesis
    proof (cases "ISDIGIT (at d 0)")
      case True
      show ?thesis
      proof (cases "if secnum p = - 1 then match_time d else None")
        case None
        with D alpha True date_number_ok [OF assms(1)] show ?thesis by (auto split: option.splits)
      next
        case (Some r)
        obtain h m s rest where r: "r = (h, m, s, rest)" by (cases r)
        with Some have "match_time d = Some (h, m, s, rest)" by (simp split: if_splits)
        with match_time_range True have "h \<in> {0..23} \<and> m \<in> {0..59} \<and> s \<in> {0..60}" by blast
        moreover have "p' = p\<lparr>hournum := h, minnum := m, secnum := s\<rparr>" using D alpha True Some r by simp
        ultimately show ?thesis using assms(1) by (simp add: parts_ok_def)
      qed
    next
      case False
      with D alpha assms(1) show ?thesis by simp
    qed
  qed
qed

lemma date_parts_ok: "parts_ok p \<Longrightarrow> pred_option parts_ok (date_parts n seen date p)"
proof (induction n arbitrary: seen date p)
  case (Suc n)
  show ?case
  proof (cases "date_part seen date p")
    case None
    then show ?thesis using Suc.prems by simp
  next
    case (Some r)
    obtain a b c where r: "r = (a, b, c)" by (cases r)
    have "parts_ok c" using date_part_ok [OF Suc.prems] Some r by simp
    with Suc.IH Suc.prems show ?thesis by (simp add: Some r)
  qed
qed simp

text \<open>The time of a date with parts in these bounds.\<close>

lemma cumulative_bound: "0 \<le> m \<Longrightarrow> m \<le> 11 \<Longrightarrow> 0 \<le> month_days_cumulative ! nat m \<and> month_days_cumulative ! nat m \<le> 334"
proof -
  assume "0 \<le> m" "m \<le> 11"
  moreover have "list_all (\<lambda>i. 0 \<le> month_days_cumulative ! i \<and> month_days_cumulative ! i \<le> 334) [0..<12]"
    unfolding month_days_cumulative_def by code_simp
  moreover have "nat m < 12" using \<open>m \<le> 11\<close> by linarith
  ultimately show ?thesis by (simp add: list_all_iff)
qed

lemma time2epoch_bounds:
  assumes "s \<in> {0..60}" "mi \<in> {0..59}" "h \<in> {0..23}" "d \<in> {0..31}" "m \<in> {0..11}" "y \<in> {1583..INT_MAX}"
  shows "time2epoch s mi h d m y \<in> {- (2 ^ 34)..2 ^ 57}"
proof -
  define L where "L = y - (if m \<le> 1 then 1 else 0)"
  define q4 q100 q400 where "q4 = L div 4" and "q100 = L div 100" and "q400 = L div 400"
  have L: "0 \<le> L" "L \<le> INT_MAX" using assms(6) by (auto simp: L_def INT_MAX_def)
  have q: "0 \<le> q4" "q4 \<le> L" "0 \<le> q100" "q100 \<le> q4" "0 \<le> q400" "q400 \<le> L"
    using L unfolding q4_def q100_def q400_def by (simp_all add: int_div_le_self zdiv_mono2)
  have c: "0 \<le> month_days_cumulative ! nat m" "month_days_cumulative ! nat m \<le> 334"
    using cumulative_bound [of m] assms(5) by auto
  define days where "days = (y - 1970) * 365 + (q4 - q100 + q400 - 477) + month_days_cumulative ! nat m + d - 1"
  have t: "time2epoch s mi h d m y = ((days * 24 + h) * 60 + mi) * 60 + s"
    using assms(6) by (simp add: time2epoch_floor Let_def days_def L_def q4_def q100_def q400_def)
  have "- 141734 \<le> days" using q c assms(4,6) by (simp add: days_def)
  moreover have "days \<le> 367 * 2 ^ 31 * 2" using q c assms(4,6) L by (simp add: days_def INT_MAX_def)
  ultimately show ?thesis using assms(1-3) unfolding t by simp
qed

lemma date_finish_cases:
  assumes "parts_ok p"
  obtains (ok) t where "date_finish p out = (PARSEDATE_OK, t)" "t \<in> {- (2 ^ 35)..2 ^ 58}"
    | (fail) "date_finish p out = (PARSEDATE_FAIL, out)"
proof -
  define p' where "p' = (if secnum p = - 1 then p\<lparr>secnum := 0, minnum := 0, hournum := 0\<rparr> else p)"
  define bad where "bad \<longleftrightarrow> (mdaynum p' = - 1 \<or> monnum p' = - 1 \<or> yearnum p' = - 1) \<or> yearnum p' < 1583 \<or>
    (mdaynum p' > 31 \<or> monnum p' > 11 \<or> hournum p' > 23 \<or> minnum p' > 59 \<or> secnum p' > 60)"
  define t where "t = time2epoch (secnum p') (minnum p') (hournum p') (mdaynum p') (monnum p') (yearnum p')"
  define off where "off = (if tzoff p' = - 1 then 0 else tzoff p')"
  have f: "date_finish p out = (if bad then (PARSEDATE_FAIL, out)
      else if off > 0 \<and> t > TIME_T_MAX - off then (PARSEDATE_LATER, TIME_T_MAX) else (PARSEDATE_OK, t + off))"
    unfolding date_finish_def Let_def p'_def [symmetric] t_def [symmetric] off_def [symmetric] bad_def by simp
  show ?thesis
  proof (cases bad)
    case True
    with fail f show ?thesis by simp
  next
    case False
    have k: "parts_ok p'" "secnum p' \<noteq> - 1" using assms by (auto simp: p'_def parts_ok_def)
    have "t \<in> {- (2 ^ 34)..2 ^ 57}"
      unfolding t_def by (rule time2epoch_bounds) (use k False in \<open>auto simp: parts_ok_def bad_def\<close>)
    moreover have "off \<in> {- 86400..86400}" using k by (simp add: off_def parts_ok_def)
    ultimately have "\<not> (off > 0 \<and> t > TIME_T_MAX - off)" "t + off \<in> {- (2 ^ 35)..2 ^ 58}"
      by (simp_all add: TIME_T_MAX_def)
    with ok f False show ?thesis by (simp split: if_splits)
  qed
qed

lemma parsedate_cases:
  obtains (ok) t where "parsedate s out = (PARSEDATE_OK, t)" "t \<in> {- (2 ^ 35)..2 ^ 58}"
    | (fail) "parsedate s out = (PARSEDATE_FAIL, out)"
proof (cases "date_parts 6 [] s no_parts")
  case None
  with fail show ?thesis by (simp add: parsedate_def)
next
  case (Some p)
  then have "parts_ok p" using date_parts_ok [OF parts_ok_no_parts, of 6 "[]" s] by simp
  then show ?thesis by (rule date_finish_cases [of p out]) (use ok fail Some in \<open>simp_all add: parsedate_def\<close>)
qed

subsection \<open>Properties\<close>

text \<open>
  C39. A date in the format of RFC 1123, which HTTP servers send ("Sun, 06 Nov 1994 08:49:37
  GMT"), is read exactly: \<open>curl_getdate\<close> gives the seconds since the start of 1970, the days
  counted on the calendar, for every weekday name, every day up to 31, month, year from
  1583 to 9999 and time of day, a leap second included. Only the second before 1970 is
  moved, since -1 is the answer for a bad date.
\<close>

theorem getdate_rfc1123:
  assumes "wd < 7" "1 \<le> d" "d \<le> 31" "m < 12" "1583 \<le> y" "y < 10000" "hh < 24" "mm < 60" "ss \<le> 60"
  shows "curl_getdate (rfc1123 wd d m y hh mm ss) =
    (let t = ((calendar_days (int y) m (int d) * 24 + int hh) * 60 + int mm) * 60 + int ss
     in if t = - 1 then 0 else t)"
  using assms by (rule getdate_rfc1123_aux)

lemma days_of_1994_11_06: "calendar_days 1994 10 6 = 9075"
  using time2epoch_calendar_days [of 10 1994 0 0 0 6] by (simp add: time2epoch_floor month_days_cumulative_def)

theorem getdate_rfc1123_witness:
  "curl_getdate (rfc1123 6 6 10 1994 8 49 37) = 784111777"
  using getdate_rfc1123 [of 6 6 10 1994 8 49 37] by (simp add: days_of_1994_11_06)

text \<open>
  C40. \<open>time2epoch\<close>, whose leap days come from three divisions and whose months from a table,
  is the count of days year by year and month by month on the Gregorian calendar, from the
  year 1 on; \<open>parsedate\<close> calls it with years from 1583 on. Earlier, where the divisions round
  the other way, it is not: January of the year 0 is a day late (\<open>time2epoch_year_zero\<close>).
\<close>

theorem time2epoch_calendar:
  assumes "m < 12" "1 \<le> y"
  shows "time2epoch sec minute hour d (int m) y = ((calendar_days y m d * 24 + hour) * 60 + minute) * 60 + sec"
  using assms by (rule time2epoch_calendar_days)

theorem time2epoch_calendar_witness:
  "time2epoch 0 0 0 29 (int 1) 1604 = ((calendar_days 1604 1 29 * 24 + 0) * 60 + 0) * 60 + 0"
  by (rule time2epoch_calendar) simp_all

lemma time2epoch_year_zero:
  "time2epoch 0 0 0 1 0 0 = 24 * 60 * 60 * (calendar_days 0 0 1 + 1)"
proof -
  have "calendar_days 0 0 1 = new_year 0" using new_year_sum [of 0] by (simp add: calendar_days_def)
  then show ?thesis
    by (simp add: new_year_def time2epoch_def month_days_cumulative_def signed_divide_int_def)
qed

text \<open>
  Whatever bytes are read as a date, the parts stay within their bounds, so that the
  table of months is never read out of range and the sums of \<open>time2epoch\<close> fit 64 bits with
  much to spare; the outcome is a time within those bounds, or failure with the output
  untouched. \<open>PARSEDATE_LATER\<close> and \<open>PARSEDATE_SOONER\<close> do not occur.
\<close>

theorem parsedate_in_bounds:
  "pred_option parts_ok (date_parts n [] s no_parts) \<and>
   (case parsedate s out of (rc, t) \<Rightarrow>
      rc = PARSEDATE_OK \<and> t \<in> {- (2 ^ 35)..2 ^ 58} \<or> rc = PARSEDATE_FAIL \<and> t = out)"
  by (rule parsedate_cases [of s out]) (use date_parts_ok [OF parts_ok_no_parts] in simp_all)

text \<open>
  \<open>Curl_getdate_capped\<close> and \<open>curl_getdate\<close> are the same function where \<open>time_t\<close> has 64
  bits, and -1 is their answer exactly for a string that is no date.
\<close>

theorem getdate_capped_same:
  "Curl_getdate_capped s = curl_getdate s \<and> (curl_getdate s = - 1 \<longleftrightarrow> fst (parsedate s (- 1)) = PARSEDATE_FAIL)"
  by (rule parsedate_cases [of s "- 1"]) (simp_all add: Curl_getdate_capped_def curl_getdate_def)

text \<open>
  A date of eight digits is not held to days from 1 on: day 00 is the day before the
  first. The two-digit year 70 is 2070, and a lone "A" is an hour behind Greenwich.
\<close>

lemma compact_day_zero: "curl_getdate (s2b ''20240100'') = curl_getdate (s2b ''20231231'')"
  unfolding ctype_defs by code_simp

end
