(* ===== verification/Timers.thy ===== *)
theory Timers
  imports Llist Splay Strtoofft
begin

text \<open>
  The timers of the transfers, \<open>multi.c\<close> and \<open>timeval.c\<close>. A transfer (easy handle) keeps one
  time per purpose in the list \<open>timeoutlist\<close>; its earliest one is the key of its node in the
  splay tree \<open>timetree\<close> of the multi handle, and \<open>expiretime\<close> repeats that key, zero when the
  node is not in the tree. The list elements are members of the array \<open>expires\<close> of the
  handle, so the address of an element is its index, the purpose; a handle is named by the
  address of its tree node.

  \<open>Curl_now\<close> reads the clock: its answers are arguments. \<open>timers_ok\<close> is the invariant that
  ties lists, tree and expiry times together.
\<close>

subsection \<open>Differences of times\<close>

definition TIMEDIFF_T_MAX :: int where "TIMEDIFF_T_MAX = CURL_OFF_T_MAX"
definition TIMEDIFF_T_MIN :: int where "TIMEDIFF_T_MIN = CURL_OFF_T_MIN"

definition Curl_timediff :: "curltime \<Rightarrow> curltime \<Rightarrow> int" where
  "Curl_timediff newer older =
     (let diff = tv_sec newer - tv_sec older
      in if diff \<ge> TIMEDIFF_T_MAX sdiv 1000 then TIMEDIFF_T_MAX
         else if diff \<le> TIMEDIFF_T_MIN sdiv 1000 then TIMEDIFF_T_MIN
         else diff * 1000 + (tv_usec newer - tv_usec older) sdiv 1000)"

definition Curl_timediff_ceil :: "curltime \<Rightarrow> curltime \<Rightarrow> int" where
  "Curl_timediff_ceil newer older =
     (let diff = tv_sec newer - tv_sec older
      in if diff \<ge> TIMEDIFF_T_MAX sdiv 1000 then TIMEDIFF_T_MAX
         else if diff \<le> TIMEDIFF_T_MIN sdiv 1000 then TIMEDIFF_T_MIN
         else diff * 1000 + (tv_usec newer - tv_usec older + 999) sdiv 1000)"

definition Curl_timediff_us :: "curltime \<Rightarrow> curltime \<Rightarrow> int" where
  "Curl_timediff_us newer older =
     (let diff = tv_sec newer - tv_sec older
      in if diff \<ge> TIMEDIFF_T_MAX sdiv 1000000 then TIMEDIFF_T_MAX
         else if diff \<le> TIMEDIFF_T_MIN sdiv 1000000 then TIMEDIFF_T_MIN
         else diff * 1000000 + tv_usec newer - tv_usec older)"

subsection \<open>The timers of a handle and of a multi handle\<close>

text \<open>The purposes are numbered: \<open>enum expire_id\<close>.\<close>

type_synonym expire_id = nat

definition EXPIRE_RUN_NOW :: expire_id where "EXPIRE_RUN_NOW = 8"
definition EXPIRE_TIMEOUT :: expire_id where "EXPIRE_TIMEOUT = 10"
definition EXPIRE_LAST :: expire_id where "EXPIRE_LAST = 15"

text \<open>
  The members of \<open>expires\<close>: list element, time and purpose. \<open>pending\<close> says that the state of
  the transfer is \<open>MSTATE_PENDING\<close>.
\<close>

record easy_timers =
  in_multi :: bool
  pending :: bool
  expiretime :: curltime
  timeoutlist :: Curl_llist
  elems :: "expire_id nodes"
  node_time :: "expire_id \<Rightarrow> curltime"
  node_eid :: "expire_id \<Rightarrow> expire_id"

record multi_timers =
  timetree :: tree
  tree_nodes :: store
  easy :: "node \<Rightarrow> easy_timers"
  dead :: bool
  has_timer_cb :: bool
  timer_lastcall :: curltime

definition set_easy :: "node \<Rightarrow> easy_timers \<Rightarrow> multi_timers \<Rightarrow> multi_timers" where
  "set_easy x d m = m\<lparr>easy := (easy m)(x := d)\<rparr>"

subsection \<open>The list of a handle\<close>

partial_function (option) deltimeout_loop ::
  "easy_timers \<Rightarrow> expire_id \<Rightarrow> addr option \<Rightarrow> easy_timers option" where
  "deltimeout_loop d eid e =
     (case e of
        None \<Rightarrow> Some d
      | Some a \<Rightarrow>
          if node_eid d (the (ptr (elems d a))) = eid then
            (case Curl_llist_remove (timeoutlist d) (Some a) (elems d) of
               (l, h, _) \<Rightarrow> Some (d\<lparr>timeoutlist := l, elems := h\<rparr>))
          else deltimeout_loop d eid (next (elems d a)))"

definition multi_deltimeout :: "easy_timers \<Rightarrow> expire_id \<Rightarrow> easy_timers option" where
  "multi_deltimeout d eid = deltimeout_loop d eid (head (timeoutlist d))"

text \<open>The element to insert behind.\<close>

partial_function (option) addtimeout_loop ::
  "easy_timers \<Rightarrow> curltime \<Rightarrow> addr option \<Rightarrow> addr option \<Rightarrow> addr option option" where
  "addtimeout_loop d t e bef =
     (case e of
        None \<Rightarrow> Some bef
      | Some a \<Rightarrow>
          if Curl_timediff (node_time d (the (ptr (elems d a)))) t > 0 then Some bef
          else addtimeout_loop d t (next (elems d a)) (Some a))"

definition multi_addtimeout :: "easy_timers \<Rightarrow> curltime \<Rightarrow> expire_id \<Rightarrow> easy_timers option" where
  "multi_addtimeout d stamp eid =
     (let d = d\<lparr>node_time := (node_time d)(eid := stamp), node_eid := (node_eid d)(eid := eid)\<rparr>
      in case (if Curl_llist_count (timeoutlist d) \<noteq> 0
               then addtimeout_loop d stamp (head (timeoutlist d)) None else Some None) of
           None \<Rightarrow> None
         | Some bef \<Rightarrow>
             (case Curl_llist_insert_next (timeoutlist d) bef eid eid (elems d) of
                (l, h) \<Rightarrow> Some (d\<lparr>timeoutlist := l, elems := h\<rparr>)))"

subsection \<open>Setting and clearing timers\<close>

text \<open>
  \<open>Curl_splayremove\<close> stores the new root only when it returns zero. Otherwise the pointer
  still is to the old root, wherever that is in the tree now.
\<close>

definition unlink_node :: "node \<Rightarrow> multi_timers \<Rightarrow> multi_timers" where
  "unlink_node x m =
     (case Curl_splayremove (timetree m) (Some x) (tree_nodes m) of
        (rc, t, st) \<Rightarrow>
          m\<lparr>timetree := (if rc = 0 \<or> timetree m = Tip then t else subtree_at (root (timetree m)) t),
             tree_nodes := st\<rparr>)"

definition link_node :: "curltime \<Rightarrow> node \<Rightarrow> multi_timers \<Rightarrow> multi_timers" where
  "link_node k x m =
     (case Curl_splayinsert k (timetree m) (Some x) (tree_nodes m) of
        (t, st) \<Rightarrow> m\<lparr>timetree := t, tree_nodes := st\<rparr>)"

definition expire_set :: "curltime \<Rightarrow> int \<Rightarrow> curltime" where
  "expire_set now milli =
     (let sec = tv_sec now + milli sdiv 1000;
          usec = tv_usec now + milli smod 1000 * 1000
      in if usec \<ge> 1000000 then Curltime (sec + 1) (usec - 1000000) else Curltime sec usec)"

definition Curl_expire :: "curltime \<Rightarrow> multi_timers \<Rightarrow> node \<Rightarrow> int \<Rightarrow> expire_id \<Rightarrow> multi_timers option" where
  "Curl_expire now m x milli eid =
     (if \<not> in_multi (easy m x) then Some m
      else
        let set = expire_set now milli
        in case multi_deltimeout (easy m x) eid of
             None \<Rightarrow> None
           | Some d \<Rightarrow>
               (case multi_addtimeout d set eid of
                  None \<Rightarrow> None
                | Some d \<Rightarrow>
                    let m = set_easy x d m; nowp = expiretime d
                    in if tv_sec nowp \<noteq> 0 \<or> tv_usec nowp \<noteq> 0 then
                         if Curl_timediff set nowp > 0 then Some m
                         else Some (link_node set x (set_easy x (d\<lparr>expiretime := set\<rparr>) (unlink_node x m)))
                       else Some (link_node set x (set_easy x (d\<lparr>expiretime := set\<rparr>) m))))"

definition Curl_expire_done :: "multi_timers \<Rightarrow> node \<Rightarrow> expire_id \<Rightarrow> multi_timers option" where
  "Curl_expire_done m x eid =
     (case multi_deltimeout (easy m x) eid of None \<Rightarrow> None | Some d \<Rightarrow> Some (set_easy x d m))"

partial_function (option) flush_loop :: "easy_timers \<Rightarrow> easy_timers option" where
  "flush_loop d =
     (if lsize (timeoutlist d) > 0 then
        (case Curl_llist_remove (timeoutlist d) (tail (timeoutlist d)) (elems d) of
           (l, h, _) \<Rightarrow> flush_loop (d\<lparr>timeoutlist := l, elems := h\<rparr>))
      else Some d)"

definition Curl_expire_clear :: "multi_timers \<Rightarrow> node \<Rightarrow> multi_timers option" where
  "Curl_expire_clear m x =
     (let d = easy m x; nowp = expiretime d
      in if \<not> in_multi d then Some m
         else if tv_sec nowp \<noteq> 0 \<or> tv_usec nowp \<noteq> 0 then
           (let m = unlink_node x m
            in case flush_loop d of
                 None \<Rightarrow> None
               | Some d \<Rightarrow> Some (set_easy x (d\<lparr>expiretime := Curltime 0 0\<rparr>) m))
         else Some m)"

subsection \<open>Expiring\<close>

text \<open>
  The loop of \<open>add_next_timeout\<close> removes what has passed; besides the handle it leaves the
  last \<open>node\<close> it looked at.
\<close>

partial_function (option) next_timeout_loop ::
  "curltime \<Rightarrow> easy_timers \<Rightarrow> addr option \<Rightarrow> expire_id option \<Rightarrow> (easy_timers \<times> expire_id option) option" where
  "next_timeout_loop now d e node =
     (case e of
        None \<Rightarrow> Some (d, node)
      | Some a \<Rightarrow>
          let n = next (elems d a);
              node = ptr (elems d a);
              diff = Curl_timediff_us (node_time d (the node)) now
          in if diff \<le> 0 then
               (case Curl_llist_remove (timeoutlist d) (Some a) (elems d) of
                  (l, h, _) \<Rightarrow> next_timeout_loop now (d\<lparr>timeoutlist := l, elems := h\<rparr>) n node)
             else Some (d, node))"

definition add_next_timeout :: "curltime \<Rightarrow> multi_timers \<Rightarrow> node \<Rightarrow> multi_timers option" where
  "add_next_timeout now m x =
     (case next_timeout_loop now (easy m x) (head (timeoutlist (easy m x))) None of
        None \<Rightarrow> None
      | Some (d, node) \<Rightarrow>
          (case head (timeoutlist d) of
             None \<Rightarrow> Some (set_easy x (d\<lparr>expiretime := Curltime 0 0\<rparr>) m)
           | Some _ \<Rightarrow>
               let tv = node_time d (the node)
               in Some (link_node tv x (set_easy x (d\<lparr>expiretime := tv\<rparr>) m))))"

text \<open>
  A transfer that waits for a connection is moved back to the transfers that run when its
  time is up; of that, this is what concerns the timers. \<open>later\<close> is the time then.
\<close>

definition move_pending_to_connect :: "curltime \<Rightarrow> multi_timers \<Rightarrow> node \<Rightarrow> multi_timers option" where
  "move_pending_to_connect later m x =
     Curl_expire later (set_easy x ((easy m x)\<lparr>pending := False\<rparr>) m) x 0 EXPIRE_RUN_NOW"

text \<open>
  The loop of \<open>curl_multi_perform\<close> over the expired timers; \<open>expire_one\<close> is what it does with
  a transfer it has taken out of the tree. Whether the transfer is over its time,
  \<open>multi_handle_timeout\<close>, is \<open>timed_out\<close>; \<open>later\<close> is the clock while it is looked at. The
  result lists the handles in the order they were taken.
\<close>

definition expire_one :: "bool \<Rightarrow> curltime \<Rightarrow> curltime \<Rightarrow> multi_timers \<Rightarrow> node \<Rightarrow> multi_timers option" where
  "expire_one timed_out later now m x =
     Option.bind (if pending (easy m x) \<and> timed_out then move_pending_to_connect later m x else Some m)
       (\<lambda>m. add_next_timeout now m x)"

partial_function (option) expire_loop ::
  "(node \<Rightarrow> bool) \<Rightarrow> (node \<Rightarrow> curltime) \<Rightarrow> curltime \<Rightarrow> multi_timers \<Rightarrow> (node list \<times> multi_timers) option" where
  "expire_loop timed_out later now m =
     (case Curl_splaygetbest now (timetree m) (tree_nodes m) of
        (t, rm, st) \<Rightarrow>
          let m = m\<lparr>timetree := t, tree_nodes := st\<rparr>
          in case rm of
               None \<Rightarrow> Some ([], m)
             | Some x \<Rightarrow>
                 Option.bind (expire_one (timed_out x) (later x) now m x)
                   (\<lambda>m. Option.bind (expire_loop timed_out later now m)
                     (\<lambda>(xs, m). Some (x # xs, m))))"

declare deltimeout_loop.simps [code] addtimeout_loop.simps [code] flush_loop.simps [code]
  next_timeout_loop.simps [code] expire_loop.simps [code]

subsection \<open>Telling the application\<close>

text \<open>
  The cast to \<open>long\<close> keeps the low bits: 32 on Windows and on 32-bit systems, 64 elsewhere.
  The width \<open>w\<close> is an argument.
\<close>

definition to_long :: "nat \<Rightarrow> int \<Rightarrow> int" where
  "to_long w v = signed_take_bit (w - 1) v"

text \<open>The timeout, and the multi handle with its tree splayed.\<close>

definition multi_timeout :: "nat \<Rightarrow> curltime \<Rightarrow> multi_timers \<Rightarrow> int \<times> multi_timers" where
  "multi_timeout w now m =
     (if dead m then (0, m)
      else
        case Curl_splay (keys (tree_nodes m)) tv_zero (timetree m) of
          Tip \<Rightarrow> (- 1, m)
        | Node l r g \<Rightarrow>
            ((if Curl_splaycomparekeys (keys (tree_nodes m) r) now > 0
              then to_long w (Curl_timediff_ceil (keys (tree_nodes m) r) now) else 0),
             m\<lparr>timetree := Node l r g\<rparr>))"

datatype CURLMcode =
  CURLM_CALL_MULTI_PERFORM | CURLM_OK | CURLM_BAD_HANDLE | CURLM_BAD_EASY_HANDLE | CURLM_OUT_OF_MEMORY
  | CURLM_INTERNAL_ERROR | CURLM_BAD_SOCKET | CURLM_UNKNOWN_OPTION | CURLM_ADDED_ALREADY
  | CURLM_RECURSIVE_API_CALL | CURLM_WAKEUP_FAILURE | CURLM_BAD_FUNCTION_ARGUMENT
  | CURLM_ABORTED_BY_CALLBACK | CURLM_UNRECOVERABLE_POLL

text \<open>The callback gets the timeout and gives back its state and its answer.\<close>

definition Curl_update_timer ::
  "('u \<Rightarrow> int \<Rightarrow> 'u \<times> int) \<Rightarrow> nat \<Rightarrow> curltime \<Rightarrow> multi_timers \<Rightarrow> 'u \<Rightarrow> CURLMcode \<times> multi_timers \<times> 'u" where
  "Curl_update_timer timer_cb w now m u =
     (if \<not> has_timer_cb m \<or> dead m then (CURLM_OK, m, u)
      else
        case multi_timeout w now m of
          (timeout_ms, m) \<Rightarrow>
            let told = (\<lambda>m ms. case timer_cb u ms of
                  (u, rc) \<Rightarrow> if rc = - 1 then (CURLM_ABORTED_BY_CALLBACK, m\<lparr>dead := True\<rparr>, u) else (CURLM_OK, m, u))
            in if timeout_ms < 0 then
                 if Curl_splaycomparekeys (Curltime 0 0) (timer_lastcall m) \<noteq> 0 then
                   told (m\<lparr>timer_lastcall := Curltime 0 0\<rparr>) (- 1)
                 else (CURLM_OK, m, u)
               else
                 let k = keys (tree_nodes m) (root (timetree m))
                 in if Curl_splaycomparekeys k (timer_lastcall m) = 0 then (CURLM_OK, m, u)
                    else told (m\<lparr>timer_lastcall := k\<rparr>) timeout_ms)"

subsection \<open>What the differences say\<close>

text \<open>Times as the clock gives them, after the start of the clock.\<close>

definition time_ok :: "curltime \<Rightarrow> bool" where
  "time_ok t \<longleftrightarrow> 0 < tv_sec t \<and> 0 \<le> tv_usec t \<and> tv_usec t < 1000000"

lemma sdiv_nonpos: "0 < (k :: int) \<Longrightarrow> a < k \<Longrightarrow> a sdiv k \<le> 0"
  by (cases "0 \<le> a") (simp_all add: sdiv_pos sdiv_neg pos_imp_zdiv_nonneg_iff)

lemma sdiv_bound: "0 < (k :: int) \<Longrightarrow> \<bar>a\<bar> < k * c \<Longrightarrow> 0 < c \<Longrightarrow> \<bar>a sdiv k\<bar> < c"
proof -
  assume k: "0 < k" "\<bar>a\<bar> < k * c" "0 < c"
  have "k * (\<bar>a\<bar> div k) \<le> \<bar>a\<bar>" using k(1) pos_mod_sign [of k "\<bar>a\<bar>"] mult_div_mod_eq [of k "\<bar>a\<bar>"] by linarith
  then have "k * (\<bar>a\<bar> div k) < k * c" using k(2) by linarith
  then have "\<bar>a\<bar> div k < c" using k(1) by simp
  then show ?thesis using k by (cases "0 \<le> a") (simp_all add: sdiv_pos sdiv_neg pos_imp_zdiv_nonneg_iff)
qed

lemma timediff_limits:
  "TIMEDIFF_T_MAX sdiv 1000 = 9223372036854775" "TIMEDIFF_T_MIN sdiv 1000 = - 9223372036854775"
  "TIMEDIFF_T_MAX sdiv 1000000 = 9223372036854" "TIMEDIFF_T_MIN sdiv 1000000 = - 9223372036854"
  "TIMEDIFF_T_MAX = 9223372036854775807" "TIMEDIFF_T_MIN = - 9223372036854775808"
  by (simp_all add: TIMEDIFF_T_MAX_def TIMEDIFF_T_MIN_def CURL_OFF_T_MAX_def CURL_OFF_T_MIN_def signed_divide_int_def)

text \<open>A difference is positive from the next second on, or a millisecond later in the same one.\<close>

lemma timediff_pos:
  assumes "time_ok a" "time_ok b"
  shows "Curl_timediff a b > 0 \<longleftrightarrow> tv_sec b < tv_sec a \<or> tv_sec a = tv_sec b \<and> tv_usec b + 1000 \<le> tv_usec a"
proof -
  define d u where "d = tv_sec a - tv_sec b" and "u = tv_usec a - tv_usec b"
  have u: "\<bar>u\<bar> < 1000 * 1000" using assms by (auto simp: time_ok_def u_def abs_less_iff)
  then have q: "\<bar>u sdiv 1000\<bar> < 1000" by (intro sdiv_bound) simp_all
  have z: "u sdiv 1000 > 0 \<longleftrightarrow> u \<ge> 1000"
    by (cases "0 \<le> u") (auto simp: sdiv_pos sdiv_neg pos_imp_zdiv_pos_iff pos_imp_zdiv_nonneg_iff not_less)
  have "Curl_timediff a b > 0 \<longleftrightarrow> d > 0 \<or> d = 0 \<and> u sdiv 1000 > 0"
    using q unfolding Curl_timediff_def Let_def d_def [symmetric] u_def [symmetric] timediff_limits
    by (cases "d = 0"; cases "d > 0") auto
  then show ?thesis using z by (auto simp: d_def u_def)
qed

lemma timediff_us_nonpos:
  assumes "time_ok a" "time_ok b"
  shows "Curl_timediff_us a b \<le> 0 \<longleftrightarrow> a \<le> b"
proof -
  define d u where "d = tv_sec a - tv_sec b" and "u = tv_usec a - tv_usec b"
  have u: "\<bar>u\<bar> < 1000000" using assms by (auto simp: time_ok_def u_def abs_less_iff)
  have "d * 1000000 + tv_usec a - tv_usec b = d * 1000000 + u" by (simp add: u_def)
  then have "Curl_timediff_us a b \<le> 0 \<longleftrightarrow> d < 0 \<or> d = 0 \<and> u \<le> 0"
    using u unfolding Curl_timediff_us_def Let_def d_def [symmetric] timediff_limits
    by (cases "d = 0"; cases "d > 0") auto
  then show ?thesis by (auto simp: d_def u_def less_eq_curltime_def)
qed

lemma time_ok_bounds: "time_ok t \<Longrightarrow> tv_zero < t \<and> t \<noteq> tv_zero \<and> t \<noteq> KEY_NOTUSED"
  by (auto simp: time_ok_def tv_zero_def KEY_NOTUSED_def less_curltime_def)

lemma expire_set_ok:
  assumes "time_ok now" "0 \<le> milli"
  shows "time_ok (expire_set now milli)" "now \<le> expire_set now milli"
proof -
  have s: "milli sdiv 1000 = milli div 1000" "milli smod 1000 = milli mod 1000"
    using assms(2) by (simp_all add: signed_divide_int_def signed_modulo_int_def sgn_if)
  have "0 \<le> milli div 1000" "0 \<le> milli mod 1000" "milli mod 1000 \<le> 999"
    using assms(2) pos_mod_bound [of 1000 milli] by (simp_all add: pos_imp_zdiv_nonneg_iff)
  then show "time_ok (expire_set now milli)" "now \<le> expire_set now milli"
    using assms(1) unfolding expire_set_def Let_def s by (auto simp: time_ok_def less_eq_curltime_def)
qed

subsection \<open>The list of a handle\<close>

fun walk :: "nat \<Rightarrow> 'p nodes \<Rightarrow> addr option \<Rightarrow> addr list" where
  "walk 0 h p = []"
| "walk (Suc n) h p = (case p of None \<Rightarrow> [] | Some a \<Rightarrow> a # walk n h (next (h a)))"

definition timer_list :: "easy_timers \<Rightarrow> expire_id list" where
  "timer_list d = walk (lsize (timeoutlist d)) (elems d) (head (timeoutlist d))"

lemma walk_segment: "segment h b p as None \<Longrightarrow> walk (length as) h p = as"
  by (induction as arbitrary: b p) auto

definition list_ok :: "easy_timers \<Rightarrow> expire_id list \<Rightarrow> bool" where
  "list_ok d as \<longleftrightarrow> linked (timeoutlist d) (elems d) as \<and> contents (elems d) as = as \<and> (\<forall>a \<in> set as. node_eid d a = a)"

lemma list_ok_timer_list: "list_ok d as \<Longrightarrow> timer_list d = as"
  using walk_segment by (auto simp: list_ok_def timer_list_def linked_def)

lemma list_ok_ptr:
  assumes "list_ok d as" "a \<in> set as"
  shows "ptr (elems d a) = Some a"
proof -
  have "map (\<lambda>a. the (ptr (elems d a))) as = as" using assms(1) by (simp add: list_ok_def contents_def)
  with assms(2) have "the (ptr (elems d a)) = a" by (metis map_eq_conv map_ident)
  moreover have "ptr (elems d a) \<noteq> None" using assms segment_ptr by (auto simp: list_ok_def linked_def)
  ultimately show ?thesis by auto
qed

lemma list_ok_distinct: "list_ok d as \<Longrightarrow> distinct as"
  by (simp add: list_ok_def linked_def)

lemma contents_self: "contents h as = as \<longleftrightarrow> (\<forall>a \<in> set as. the (ptr (h a)) = a)"
  by (induction as) (auto simp: contents_def)

text \<open>An element in the middle, and the pointer to it.\<close>

lemma linked_at:
  "linked l h (us @ vs) \<Longrightarrow>
   (us = [] \<longrightarrow> head l = (if vs = [] then None else Some (hd vs))) \<and>
   (\<forall>a. us \<noteq> [] \<longrightarrow> last us = a \<longrightarrow> next (h a) = (if vs = [] then None else Some (hd vs)))"
  by (cases us rule: rev_cases; cases vs) (auto simp: linked_def segment_append)

lemma list_ok_remove:
  assumes "list_ok d (us @ a # vs)" "Curl_llist_remove (timeoutlist d) (Some a) (elems d) = (l, h, p)"
  shows "list_ok (d\<lparr>timeoutlist := l, elems := h\<rparr>) (us @ vs)"
proof -
  have lk: "linked (timeoutlist d) (elems d) (us @ a # vs)" using assms(1) by (simp add: list_ok_def)
  note r = remove_linked [OF lk assms(2)]
  have "contents (elems d) (us @ vs) = us @ vs"
    using assms(1) unfolding list_ok_def contents_self by simp
  with r assms(1) show ?thesis by (auto simp: list_ok_def)
qed

lemma deltimeout_loop_ok:
  "list_ok d (us @ vs) \<Longrightarrow> eid \<notin> set us \<Longrightarrow> e = (if vs = [] then None else Some (hd vs)) \<Longrightarrow>
   \<exists>l h. deltimeout_loop d eid e = Some (d\<lparr>timeoutlist := l, elems := h\<rparr>) \<and>
     list_ok (d\<lparr>timeoutlist := l, elems := h\<rparr>) (us @ remove1 eid vs)"
proof (induction vs arbitrary: us e)
  case Nil
  have "d = d\<lparr>timeoutlist := timeoutlist d, elems := elems d\<rparr>" by simp
  with Nil show ?case by (subst deltimeout_loop.simps) (auto intro!: exI [of _ "timeoutlist d"] exI [of _ "elems d"])
next
  case (Cons a vs)
  have a: "ptr (elems d a) = Some a" "node_eid d a = a"
    using Cons.prems(1) list_ok_ptr [OF Cons.prems(1), of a] by (simp_all add: list_ok_def)
  show ?case
  proof (cases "a = eid")
    case True
    obtain l h p where r: "Curl_llist_remove (timeoutlist d) (Some a) (elems d) = (l, h, p)"
      by (cases "Curl_llist_remove (timeoutlist d) (Some a) (elems d)") auto
    with list_ok_remove [OF Cons.prems(1) r] a True Cons.prems(3) show ?thesis
      by (subst deltimeout_loop.simps) auto
  next
    case False
    have l: "list_ok d ((us @ [a]) @ vs)" using Cons.prems(1) by simp
    have n: "next (elems d a) = (if vs = [] then None else Some (hd vs))"
      using linked_at [of "timeoutlist d" "elems d" "us @ [a]" vs] l by (simp add: list_ok_def)
    from Cons.IH [OF l _ n] Cons.prems(2,3) a False show ?thesis
      by (subst deltimeout_loop.simps) simp
  qed
qed

lemma multi_deltimeout_ok:
  assumes "list_ok d as"
  shows "\<exists>l h. multi_deltimeout d eid = Some (d\<lparr>timeoutlist := l, elems := h\<rparr>) \<and>
     list_ok (d\<lparr>timeoutlist := l, elems := h\<rparr>) (remove1 eid as)"
  using deltimeout_loop_ok [of d "[]" as eid] assms linked_at [of "timeoutlist d" "elems d" "[]" as]
  by (simp add: multi_deltimeout_def list_ok_def)

text \<open>The place of a new time.\<close>

lemma addtimeout_loop_ok:
  "list_ok d (us @ vs) \<Longrightarrow> e = (if vs = [] then None else Some (hd vs)) \<Longrightarrow>
   bef = (if us = [] then None else Some (last us)) \<Longrightarrow> (\<forall>a. node_time d' a = (if a = eid then t else node_time d a)) \<Longrightarrow>
   elems d' = elems d \<Longrightarrow> eid \<notin> set vs \<Longrightarrow>
   addtimeout_loop d' t e bef =
     (let ws = us @ takeWhile (\<lambda>a. \<not> Curl_timediff (node_time d a) t > 0) vs
      in Some (if ws = [] then None else Some (last ws)))"
proof (induction vs arbitrary: us e bef)
  case Nil
  then show ?case by (subst addtimeout_loop.simps) simp
next
  case (Cons a vs)
  have a: "ptr (elems d a) = Some a" using list_ok_ptr [OF Cons.prems(1), of a] by simp
  have ne: "a \<noteq> eid" using Cons.prems(6) by auto
  show ?case
  proof (cases "Curl_timediff (node_time d a) t > 0")
    case True
    with Cons.prems a ne show ?thesis by (subst addtimeout_loop.simps) simp
  next
    case False
    have l: "list_ok d ((us @ [a]) @ vs)" using Cons.prems(1) by simp
    have n: "next (elems d a) = (if vs = [] then None else Some (hd vs))"
      using linked_at [of "timeoutlist d" "elems d" "us @ [a]" vs] l by (simp add: list_ok_def)
    have "addtimeout_loop d' t (next (elems d a)) (Some a) =
      (let ws = (us @ [a]) @ takeWhile (\<lambda>a. \<not> Curl_timediff (node_time d a) t > 0) vs
       in Some (if ws = [] then None else Some (last ws)))"
      by (rule Cons.IH [OF l n]) (use Cons.prems in simp_all)
    with False Cons.prems a ne show ?thesis by (subst addtimeout_loop.simps) simp
  qed
qed

definition insert_timer :: "(expire_id \<Rightarrow> curltime) \<Rightarrow> curltime \<Rightarrow> expire_id \<Rightarrow> expire_id list \<Rightarrow> expire_id list" where
  "insert_timer ti t eid as =
     takeWhile (\<lambda>a. \<not> Curl_timediff (ti a) t > 0) as @ eid # dropWhile (\<lambda>a. \<not> Curl_timediff (ti a) t > 0) as"

lemma multi_addtimeout_ok:
  assumes "list_ok d as" "eid \<notin> set as"
  shows "\<exists>l h. let d' = d\<lparr>node_time := (node_time d)(eid := t), node_eid := (node_eid d)(eid := eid), timeoutlist := l, elems := h\<rparr>
    in multi_addtimeout d t eid = Some d' \<and> list_ok d' (insert_timer (node_time d) t eid as)"
proof -
  define d1 where "d1 = d\<lparr>node_time := (node_time d)(eid := t), node_eid := (node_eid d)(eid := eid)\<rparr>"
  define us where "us = takeWhile (\<lambda>a. \<not> Curl_timediff (node_time d a) t > 0) as"
  define vs where "vs = dropWhile (\<lambda>a. \<not> Curl_timediff (node_time d a) t > 0) as"
  have as: "as = us @ vs" by (simp add: us_def vs_def)
  have lk: "linked (timeoutlist d) (elems d) as" using assms(1) by (simp add: list_ok_def)
  have hd: "head (timeoutlist d) = (if as = [] then None else Some (hd as))"
    using linked_at [of "timeoutlist d" "elems d" "[]" as] lk by simp
  have d1: "timeoutlist d1 = timeoutlist d" "elems d1 = elems d" by (simp_all add: d1_def)
  have "addtimeout_loop d1 t (head (timeoutlist d)) None =
    (let ws = [] @ takeWhile (\<lambda>a. \<not> Curl_timediff (node_time d a) t > 0) as
     in Some (if ws = [] then None else Some (last ws)))"
    by (rule addtimeout_loop_ok) (use assms hd in \<open>simp_all add: d1_def\<close>)
  then have f: "addtimeout_loop d1 t (head (timeoutlist d)) None = Some (if us = [] then None else Some (last us))"
    by (simp add: us_def Let_def)
  have "lsize (timeoutlist d) = length as" using lk by (simp add: linked_def)
  then have e: "(if Curl_llist_count (timeoutlist d1) \<noteq> 0 then addtimeout_loop d1 t (head (timeoutlist d1)) None else Some None) =
      Some (if us = [] then None else Some (last us))"
    using f by (auto simp: Curl_llist_count_def d1 us_def)
  obtain l h where i: "Curl_llist_insert_next (timeoutlist d) (if us = [] then None else Some (last us)) eid eid (elems d) = (l, h)"
    by fastforce
  have "linked l h (us @ eid # vs) \<and> contents h (us @ eid # vs) = contents (elems d) us @ eid # contents (elems d) vs"
  proof (cases us rule: rev_cases)
    case Nil
    with insert_head_linked [OF lk assms(2), of eid l h] i as show ?thesis by simp
  next
    case (snoc ws w)
    with insert_after_linked [of "timeoutlist d" "elems d" ws w vs eid eid l h] i as lk assms(2) show ?thesis by simp
  qed
  moreover have "contents (elems d) us = us" "contents (elems d) vs = vs"
    using assms(1) as unfolding list_ok_def contents_self by simp_all
  ultimately have "linked l h (us @ eid # vs)" "contents h (us @ eid # vs) = us @ eid # vs" by simp_all
  moreover have "\<forall>a \<in> set (us @ eid # vs). ((node_eid d)(eid := eid)) a = a"
    using assms(1) as by (simp add: list_ok_def)
  ultimately have "list_ok (d1\<lparr>timeoutlist := l, elems := h\<rparr>) (us @ eid # vs)"
    by (simp add: list_ok_def d1_def)
  moreover have "multi_addtimeout d t eid = Some (d1\<lparr>timeoutlist := l, elems := h\<rparr>)"
    unfolding multi_addtimeout_def d1_def [symmetric] Let_def e using i by (simp add: d1)
  ultimately show ?thesis unfolding insert_timer_def us_def [symmetric] vs_def [symmetric] Let_def
    by (intro exI [of _ l] exI [of _ h]) (simp add: d1_def)
qed

text \<open>What has passed is removed from the front.\<close>

lemma next_timeout_loop_ok:
  "list_ok d as \<Longrightarrow> e = (if as = [] then None else Some (hd as)) \<Longrightarrow>
   \<exists>l h nd. let d' = d\<lparr>timeoutlist := l, elems := h\<rparr>; bs = dropWhile (\<lambda>a. \<not> Curl_timediff_us (node_time d a) now > 0) as
     in next_timeout_loop now d e node = Some (d', nd) \<and> list_ok d' bs \<and> (bs \<noteq> [] \<longrightarrow> nd = Some (hd bs))"
proof (induction as arbitrary: d e node)
  case Nil
  have "d = d\<lparr>timeoutlist := timeoutlist d, elems := elems d\<rparr>" by simp
  with Nil show ?case
    by (intro exI [of _ "timeoutlist d"] exI [of _ "elems d"] exI [of _ node]) (subst next_timeout_loop.simps, simp add: Let_def)
next
  case (Cons a as)
  have a: "ptr (elems d a) = Some a" using list_ok_ptr [OF Cons.prems(1), of a] by simp
  show ?case
  proof (cases "Curl_timediff_us (node_time d a) now > 0")
    case True
    have "d = d\<lparr>timeoutlist := timeoutlist d, elems := elems d\<rparr>" by simp
    with True Cons.prems a show ?thesis
      by (intro exI [of _ "timeoutlist d"] exI [of _ "elems d"] exI [of _ "Some a"]) (subst next_timeout_loop.simps, simp add: Let_def)
  next
    case False
    obtain l h p where r: "Curl_llist_remove (timeoutlist d) (Some a) (elems d) = (l, h, p)"
      by (cases "Curl_llist_remove (timeoutlist d) (Some a) (elems d)") auto
    define d1 where "d1 = d\<lparr>timeoutlist := l, elems := h\<rparr>"
    have ok: "list_ok d1 as" using list_ok_remove [of d "[]" a as] Cons.prems(1) r by (simp add: d1_def)
    have n: "next (elems d a) = (if as = [] then None else Some (hd as))"
      using linked_at [of "timeoutlist d" "elems d" "[a]" as] Cons.prems(1) by (simp add: list_ok_def)
    have st: "next_timeout_loop now d e node = next_timeout_loop now d1 (next (elems d a)) (Some a)"
      using False a r Cons.prems(2) by (subst next_timeout_loop.simps) (simp add: d1_def Let_def)
    have nt: "node_time d1 = node_time d" by (simp add: d1_def)
    from Cons.IH [OF ok n, of "Some a"] obtain l' h' nd where
      "next_timeout_loop now d1 (next (elems d a)) (Some a) = Some (d1\<lparr>timeoutlist := l', elems := h'\<rparr>, nd)"
      "list_ok (d1\<lparr>timeoutlist := l', elems := h'\<rparr>) (dropWhile (\<lambda>a. \<not> Curl_timediff_us (node_time d a) now > 0) as)"
      "dropWhile (\<lambda>a. \<not> Curl_timediff_us (node_time d a) now > 0) as \<noteq> [] \<longrightarrow>
        nd = Some (hd (dropWhile (\<lambda>a. \<not> Curl_timediff_us (node_time d a) now > 0) as))"
      unfolding nt Let_def by blast
    with False show ?thesis unfolding st Let_def
      by (intro exI [of _ l'] exI [of _ h'] exI [of _ nd]) (simp add: d1_def)
  qed
qed

lemma flush_loop_ok:
  "list_ok d as \<Longrightarrow> \<exists>l h. flush_loop d = Some (d\<lparr>timeoutlist := l, elems := h\<rparr>) \<and> list_ok (d\<lparr>timeoutlist := l, elems := h\<rparr>) []"
proof (induction as arbitrary: d rule: rev_induct)
  case Nil
  then have "lsize (timeoutlist d) = 0" by (simp add: list_ok_def linked_def)
  moreover have "d = d\<lparr>timeoutlist := timeoutlist d, elems := elems d\<rparr>" by simp
  ultimately show ?case
    using Nil by (intro exI [of _ "timeoutlist d"] exI [of _ "elems d"]) (subst flush_loop.simps, simp)
next
  case (snoc a as)
  have tl: "lsize (timeoutlist d) > 0" "tail (timeoutlist d) = Some a" using snoc.prems by (simp_all add: list_ok_def linked_def)
  obtain l h p where r: "Curl_llist_remove (timeoutlist d) (Some a) (elems d) = (l, h, p)"
    by (cases "Curl_llist_remove (timeoutlist d) (Some a) (elems d)") auto
  have "list_ok (d\<lparr>timeoutlist := l, elems := h\<rparr>) as" using list_ok_remove [of d as a "[]"] snoc.prems r by simp
  from snoc.IH [OF this] tl r show ?case by (subst flush_loop.simps) simp
qed

subsection \<open>The invariant\<close>

text \<open>
  A handle: its list is well formed and holds good times, in order as far as
  \<open>Curl_timediff\<close> sees; a handle out of the tree has no timer; the key of a handle in the
  tree is in no later second than any of its timers.
\<close>

definition in_order :: "(expire_id \<Rightarrow> curltime) \<Rightarrow> expire_id list \<Rightarrow> bool" where
  "in_order ti as \<longleftrightarrow> sorted_wrt (\<lambda>a b. \<not> Curl_timediff (ti a) (ti b) > 0) as"

definition easy_ok :: "easy_timers \<Rightarrow> bool" where
  "easy_ok d \<longleftrightarrow>
     list_ok d (timer_list d) \<and> (\<forall>a \<in> set (timer_list d). time_ok (node_time d a)) \<and>
     in_order (node_time d) (timer_list d) \<and>
     (expiretime d = tv_zero \<and> timer_list d = [] \<or>
      time_ok (expiretime d) \<and> (\<forall>a \<in> set (timer_list d). tv_sec (expiretime d) \<le> tv_sec (node_time d a)))"

text \<open>A multi handle, of which the queue of the tree is \<open>q\<close>; \<open>x\<close> is a handle left out.\<close>

definition timers_but :: "node option \<Rightarrow> multi_timers \<Rightarrow> (curltime \<times> node) list \<Rightarrow> bool" where
  "timers_but x m q \<longleftrightarrow>
     represents_queue (timetree m) (tree_nodes m) q \<and>
     (\<forall>k y. (k, y) \<in> set q \<longleftrightarrow> Some y \<noteq> x \<and> k = expiretime (easy m y) \<and> k \<noteq> tv_zero) \<and>
     (\<forall>y. Some y \<noteq> x \<longrightarrow> easy_ok (easy m y))"

abbreviation timers_ok :: "multi_timers \<Rightarrow> (curltime \<times> node) list \<Rightarrow> bool" where
  "timers_ok \<equiv> timers_but None"

lemma easy_okI:
  assumes "list_ok d as" "\<forall>a \<in> set as. time_ok (node_time d a)" "in_order (node_time d) as"
    "expiretime d = tv_zero \<and> as = [] \<or> time_ok (expiretime d) \<and> (\<forall>a \<in> set as. tv_sec (expiretime d) \<le> tv_sec (node_time d a))"
  shows "easy_ok d"
  using assms by (simp add: easy_ok_def list_ok_timer_list)

lemma easy_ok_exp: "easy_ok d \<Longrightarrow> expiretime d = tv_zero \<or> time_ok (expiretime d)"
  by (auto simp: easy_ok_def)

lemma zero_test: "tv_sec t \<noteq> 0 \<or> tv_usec t \<noteq> 0 \<longleftrightarrow> t \<noteq> tv_zero"
  by (cases t) (auto simp: tv_zero_def)

lemma queue_distinct: "represents_queue t st q \<Longrightarrow> distinct (map snd q)"
  by (auto simp: represents_queue_def nodes_of_queue)

lemma enqueue_set: "set (enqueue k x q) = insert (k, x) (set q)"
  unfolding enqueue_def set_append list.set
  by (metis Un_insert_right set_append takeWhile_dropWhile_id)

lemma timers_change:
  assumes "timers_ok m q" "easy_ok d" "expiretime d = expiretime (easy m x)"
  shows "timers_ok (set_easy x d m) q"
  using assms by (simp add: timers_but_def set_easy_def)

lemma timers_unlink:
  assumes "timers_ok m q" "easy m' = (easy m)(x := d)" "timetree m' = timetree m" "tree_nodes m' = tree_nodes m"
    "expiretime (easy m x) \<noteq> tv_zero"
  shows "timers_but (Some x) (unlink_node x m') (filter (\<lambda>y. snd y \<noteq> x) q)"
proof -
  obtain rc t st where r: "Curl_splayremove (timetree m) (Some x) (tree_nodes m) = (rc, t, st)"
    by (cases "Curl_splayremove (timetree m) (Some x) (tree_nodes m)")
  have "(expiretime (easy m x), x) \<in> set q" using assms(1,5) by (simp add: timers_but_def)
  then have "x \<in> snd ` set q" by force
  with remove_queue [OF _ this r] assms(1)
  have "rc = 0" "represents_queue t st (filter (\<lambda>y. snd y \<noteq> x) q)" by (auto simp: timers_but_def)
  with assms r show ?thesis by (auto simp: timers_but_def unlink_node_def)
qed

lemma timers_out:
  assumes "timers_ok m q" "expiretime (easy m x) = tv_zero"
  shows "timers_but (Some x) m q"
  using assms by (auto simp: timers_but_def)

lemma timers_link:
  assumes "timers_but (Some x) m q" "easy_ok d" "expiretime d = k" "time_ok k"
  shows "timers_ok (link_node k x (set_easy x d m)) (enqueue k x q)"
proof -
  obtain t st where i: "Curl_splayinsert k (timetree m) (Some x) (tree_nodes m) = (t, st)"
    by (cases "Curl_splayinsert k (timetree m) (Some x) (tree_nodes m)")
  have "x \<notin> snd ` set q" using assms(1) by (auto simp: timers_but_def)
  moreover have k: "k \<noteq> KEY_NOTUSED" "k \<noteq> tv_zero" using time_ok_bounds [OF assms(4)] by auto
  ultimately have "represents_queue t st (enqueue k x q)"
    using insert_queue [OF _ _ _ i] assms(1) by (simp add: timers_but_def)
  then show ?thesis using assms(1-3) i k by (auto simp: timers_but_def link_node_def set_easy_def enqueue_set)
qed

lemma timers_in:
  assumes "timers_but (Some x) m q" "easy_ok d" "expiretime d = tv_zero"
  shows "timers_ok (set_easy x d m) q"
  using assms by (auto simp: timers_but_def set_easy_def)

subsection \<open>Every operation keeps it\<close>

lemma later_than_stop:
  assumes "time_ok s" "time_ok t" "time_ok v" "Curl_timediff s t > 0" "\<not> Curl_timediff s v > 0"
  shows "\<not> Curl_timediff t v > 0"
  using assms(4,5) unfolding timediff_pos [OF assms(1,2)] timediff_pos [OF assms(1,3)] timediff_pos [OF assms(2,3)]
  by linarith

lemma in_order_cong: "(\<And>a. a \<in> set as \<Longrightarrow> ti a = ti' a) \<Longrightarrow> in_order ti as = in_order ti' as"
  unfolding in_order_def by (induction as) auto

lemma in_order_sub: "sorted_wrt P as \<Longrightarrow> sorted_wrt P (remove1 a as)"
  using set_remove1_subset by (induction as) fastforce+

lemma in_order_insert:
  assumes "in_order ti as" "\<forall>a \<in> set as. time_ok (ti a)" "time_ok t" "eid \<notin> set as"
  shows "in_order (ti(eid := t)) (insert_timer ti t eid as)"
proof -
  define us where "us = takeWhile (\<lambda>a. \<not> Curl_timediff (ti a) t > 0) as"
  define vs where "vs = dropWhile (\<lambda>a. \<not> Curl_timediff (ti a) t > 0) as"
  have as: "as = us @ vs" by (simp add: us_def vs_def)
  have u: "\<forall>a \<in> set us. \<not> Curl_timediff (ti a) t > 0" by (auto simp: us_def dest: set_takeWhileD)
  have v: "\<not> Curl_timediff t (ti v) > 0" if v: "v \<in> set vs" for v
  proof -
    obtain s rest where vs: "vs = s # rest" using v by (cases vs) auto
    then have s: "Curl_timediff (ti s) t > 0" using hd_dropWhile [of "\<lambda>a. \<not> Curl_timediff (ti a) t > 0" as] by (auto simp: vs_def [symmetric])
    have ok: "time_ok (ti s)" "time_ok (ti v)" using assms(2) as vs v by auto
    show ?thesis
    proof (cases "v = s")
      case True
      with s show ?thesis unfolding timediff_pos [OF ok(1) assms(3)] timediff_pos [OF assms(3) ok(2)] by auto
    next
      case False
      then have "\<not> Curl_timediff (ti s) (ti v) > 0"
        using assms(1) v vs unfolding in_order_def as sorted_wrt_append by auto
      with later_than_stop [OF ok(1) assms(3) ok(2) s] show ?thesis by blast
    qed
  qed
  have "sorted_wrt (\<lambda>a b. \<not> Curl_timediff (ti a) (ti b) > 0) us" "sorted_wrt (\<lambda>a b. \<not> Curl_timediff (ti a) (ti b) > 0) vs"
    "\<forall>a \<in> set us. \<forall>b \<in> set vs. \<not> Curl_timediff (ti a) (ti b) > 0"
    using assms(1) unfolding in_order_def as sorted_wrt_append by blast+
  moreover have "sorted_wrt (\<lambda>a b. \<not> Curl_timediff ((ti(eid := t)) a) ((ti(eid := t)) b) > 0) ws =
      sorted_wrt (\<lambda>a b. \<not> Curl_timediff (ti a) (ti b) > 0) ws" if "set ws \<subseteq> set as" for ws
    by (rule in_order_cong [unfolded in_order_def]) (use that assms(4) in auto)
  ultimately show ?thesis
    using u v assms(4) unfolding insert_timer_def us_def [symmetric] vs_def [symmetric] in_order_def sorted_wrt_append
    by (auto simp: as)
qed

lemma set_insert_timer: "set (insert_timer ti t eid as) = insert eid (set as)"
  unfolding insert_timer_def set_append list.set by (metis Un_insert_right set_append takeWhile_dropWhile_id)

text \<open>The list of a handle after \<open>Curl_expire\<close>, whatever becomes of its key.\<close>

lemma replace_timer:
  assumes "easy_ok d" "time_ok t"
  obtains d1 d2 where
    "multi_deltimeout d eid = Some d1" "multi_addtimeout d1 t eid = Some d2"
    "timer_list d2 = insert_timer (node_time d) t eid (remove1 eid (timer_list d))"
    "node_time d2 = (node_time d)(eid := t)" "expiretime d2 = expiretime d"
    "in_multi d2 = in_multi d" "pending d2 = pending d"
    "\<forall>k. time_ok k \<and> tv_sec k \<le> tv_sec t \<and> (expiretime d = tv_zero \<or> tv_sec k \<le> tv_sec (expiretime d)) \<longrightarrow>
       easy_ok (d2\<lparr>expiretime := k\<rparr>)"
proof -
  define as where "as = timer_list d"
  have d: "list_ok d as" "\<forall>a \<in> set as. time_ok (node_time d a)" "in_order (node_time d) as"
    "expiretime d = tv_zero \<and> as = [] \<or> time_ok (expiretime d) \<and> (\<forall>a \<in> set as. tv_sec (expiretime d) \<le> tv_sec (node_time d a))"
    using assms(1) by (simp_all add: easy_ok_def as_def)
  obtain l h where m1: "multi_deltimeout d eid = Some (d\<lparr>timeoutlist := l, elems := h\<rparr>)"
      "list_ok (d\<lparr>timeoutlist := l, elems := h\<rparr>) (remove1 eid as)"
    using multi_deltimeout_ok [OF d(1)] by blast
  define d1 where "d1 = d\<lparr>timeoutlist := l, elems := h\<rparr>"
  define bs where "bs = remove1 eid as"
  have nt: "node_time d1 = node_time d" "node_eid d1 = node_eid d" by (simp_all add: d1_def)
  have bs: "eid \<notin> set bs" "set bs \<subseteq> set as" "in_order (node_time d) bs"
    using list_ok_distinct [OF d(1)] d(3) by (auto simp: bs_def in_order_def intro: in_order_sub dest: notin_set_remove1)
  obtain l' h' where m2: "multi_addtimeout d1 t eid =
        Some (d1\<lparr>node_time := (node_time d)(eid := t), node_eid := (node_eid d)(eid := eid), timeoutlist := l', elems := h'\<rparr>)"
      "list_ok (d1\<lparr>node_time := (node_time d)(eid := t), node_eid := (node_eid d)(eid := eid), timeoutlist := l', elems := h'\<rparr>)
         (insert_timer (node_time d) t eid bs)"
    using multi_addtimeout_ok [OF m1(2) [folded d1_def bs_def] bs(1), of t] unfolding nt Let_def by blast
  define d2 where "d2 = d1\<lparr>node_time := (node_time d)(eid := t), node_eid := (node_eid d)(eid := eid), timeoutlist := l', elems := h'\<rparr>"
  have f: "node_time d2 = (node_time d)(eid := t)" "expiretime d2 = expiretime d" "in_multi d2 = in_multi d" "pending d2 = pending d"
    by (simp_all add: d2_def d1_def)
  have ok2: "list_ok (d2\<lparr>expiretime := k\<rparr>) (insert_timer (node_time d) t eid bs)" for k
    using m2(2) by (simp add: d2_def list_ok_def)
  have "easy_ok (d2\<lparr>expiretime := k\<rparr>)"
    if k: "time_ok k" "tv_sec k \<le> tv_sec t" "expiretime d = tv_zero \<or> tv_sec k \<le> tv_sec (expiretime d)" for k
  proof (rule easy_okI [OF ok2])
    show "\<forall>a \<in> set (insert_timer (node_time d) t eid bs). time_ok (node_time (d2\<lparr>expiretime := k\<rparr>) a)"
      using d(2) bs(2) assms(2) by (auto simp: set_insert_timer f)
    show "in_order (node_time (d2\<lparr>expiretime := k\<rparr>)) (insert_timer (node_time d) t eid bs)"
      using in_order_insert [OF bs(3) _ assms(2) bs(1)] d(2) bs(2) by (auto simp: f)
    have "tv_sec k \<le> tv_sec (node_time d a)" if "a \<in> set bs" for a
    proof -
      have a: "a \<in> set as" using that bs(2) by blast
      with d(4) have "time_ok (expiretime d)" "tv_sec (expiretime d) \<le> tv_sec (node_time d a)" by auto
      with k(3) time_ok_bounds [of "expiretime d"] show ?thesis by auto
    qed
    then show "expiretime (d2\<lparr>expiretime := k\<rparr>) = tv_zero \<and> insert_timer (node_time d) t eid bs = [] \<or>
      time_ok (expiretime (d2\<lparr>expiretime := k\<rparr>)) \<and>
      (\<forall>a \<in> set (insert_timer (node_time d) t eid bs). tv_sec (expiretime (d2\<lparr>expiretime := k\<rparr>)) \<le> tv_sec (node_time (d2\<lparr>expiretime := k\<rparr>) a))"
      using k bs(1) by (auto simp: set_insert_timer f)
  qed
  then show ?thesis
    by (intro that [of d1 d2])
      (use m1(1) m2(1) f list_ok_timer_list [OF ok2, of "expiretime d2"] in \<open>simp_all add: d1_def d2_def as_def bs_def\<close>)
qed

text \<open>\<open>Curl_expire\<close>, with the effect on list, key and queue.\<close>

lemma expire_ok:
  assumes "timers_ok m q" "in_multi (easy m x)" "time_ok now" "0 \<le> milli"
  defines "t \<equiv> expire_set now milli" and "old \<equiv> expiretime (easy m x)"
  obtains m' where "Curl_expire now m x milli eid = Some m'"
    "timer_list (easy m' x) = insert_timer (node_time (easy m x)) t eid (remove1 eid (timer_list (easy m x)))"
    "node_time (easy m' x) = (node_time (easy m x))(eid := t)" "\<And>y. y \<noteq> x \<Longrightarrow> easy m' y = easy m y"
    "in_multi (easy m' x)" "pending (easy m' x) = pending (easy m x)"
    "if old = tv_zero then timers_ok m' (enqueue t x q) \<and> expiretime (easy m' x) = t
     else if Curl_timediff t old > 0 then timers_ok m' q \<and> expiretime (easy m' x) = old
     else timers_ok m' (enqueue t x (filter (\<lambda>y. snd y \<noteq> x) q)) \<and> expiretime (easy m' x) = t"
proof -
  have t: "time_ok t" using expire_set_ok(1) [OF assms(3,4)] by (simp add: t_def)
  have ok: "easy_ok (easy m x)" using assms(1) by (simp add: timers_but_def)
  obtain d1 d2 where r0:
    "multi_deltimeout (easy m x) eid = Some d1" "multi_addtimeout d1 t eid = Some d2"
    "timer_list d2 = insert_timer (node_time (easy m x)) t eid (remove1 eid (timer_list (easy m x)))"
    "node_time d2 = (node_time (easy m x))(eid := t)" "expiretime d2 = expiretime (easy m x)"
    "in_multi d2 = in_multi (easy m x)" "pending d2 = pending (easy m x)"
    "\<forall>k. time_ok k \<and> tv_sec k \<le> tv_sec t \<and> (expiretime (easy m x) = tv_zero \<or> tv_sec k \<le> tv_sec (expiretime (easy m x))) \<longrightarrow>
       easy_ok (d2\<lparr>expiretime := k\<rparr>)"
    by (rule replace_timer [OF ok t, of eid]) blast
  note r = r0 [folded old_def]
  have old: "old = tv_zero \<or> time_ok old" using easy_ok_exp [OF ok] by (simp add: old_def)
  have st: "Curl_expire now m x milli eid =
      (if old \<noteq> tv_zero then
         if Curl_timediff t old > 0 then Some (set_easy x d2 m)
         else Some (link_node t x (set_easy x (d2\<lparr>expiretime := t\<rparr>) (unlink_node x (set_easy x d2 m))))
       else Some (link_node t x (set_easy x (d2\<lparr>expiretime := t\<rparr>) (set_easy x d2 m))))"
    using assms(2) r(1,2,5) unfolding Curl_expire_def t_def [symmetric] Let_def zero_test by simp
  have tl: "timer_list (d\<lparr>expiretime := k\<rparr>) = timer_list d" for d k by (simp add: timer_list_def)
  have ea: "easy (link_node k x (set_easy x d m')) = (easy m')(x := d)" "easy (unlink_node x m') = easy m'"
    "easy (set_easy x d m') = (easy m')(x := d)" for k d m'
    by (simp_all add: link_node_def set_easy_def unlink_node_def split: prod.splits)
  have se: "set_easy x d (set_easy x d' m) = set_easy x d m" for d d' by (simp add: set_easy_def)
  consider (zero) "old = tv_zero" | (later) "old \<noteq> tv_zero" "Curl_timediff t old > 0"
    | (sooner) "old \<noteq> tv_zero" "\<not> Curl_timediff t old > 0" by blast
  then show ?thesis
  proof cases
    case zero
    have "timers_ok (link_node t x (set_easy x (d2\<lparr>expiretime := t\<rparr>) m)) (enqueue t x q)"
      proof (rule timers_link [OF timers_out [OF assms(1)] _ _ t])
      show "expiretime (easy m x) = tv_zero" using zero by (simp add: old_def)
      show "easy_ok (d2\<lparr>expiretime := t\<rparr>)" using r(8) zero t by simp
    qed simp
    then show ?thesis
      by (intro that [of "link_node t x (set_easy x (d2\<lparr>expiretime := t\<rparr>) m)"]) (use zero st r assms(2) in \<open>simp_all add: se ea tl\<close>)
  next
    case later
    with old have k: "time_ok old" by simp
    then have "tv_sec old \<le> tv_sec t" using later(2) timediff_pos [OF t k] by auto
    then have "easy_ok (d2\<lparr>expiretime := old\<rparr>)" using r(8) k by simp
    moreover have "d2\<lparr>expiretime := old\<rparr> = d2" using r(5) by simp
    ultimately have "easy_ok d2" by metis
    then have "timers_ok (set_easy x d2 m) q" using timers_change [OF assms(1)] r(5) by (simp add: old_def)
    then show ?thesis by (intro that [of "set_easy x d2 m"]) (use later st r assms(2) in \<open>simp_all add: ea\<close>)
  next
    case sooner
    with old have k: "time_ok old" by simp
    then have "tv_sec t \<le> tv_sec old" using sooner(2) timediff_pos [OF t k] by auto
    then have e: "easy_ok (d2\<lparr>expiretime := t\<rparr>)" using r(8) t by simp
    have "timers_but (Some x) (unlink_node x (set_easy x d2 m)) (filter (\<lambda>y. snd y \<noteq> x) q)"
      by (rule timers_unlink [OF assms(1)]) (use sooner in \<open>simp_all add: set_easy_def old_def\<close>)
    from timers_link [OF this e _ t]
    have "timers_ok (link_node t x (set_easy x (d2\<lparr>expiretime := t\<rparr>) (unlink_node x (set_easy x d2 m))))
      (enqueue t x (filter (\<lambda>y. snd y \<noteq> x) q))" by simp
    then show ?thesis
      by (intro that [of "link_node t x (set_easy x (d2\<lparr>expiretime := t\<rparr>) (unlink_node x (set_easy x d2 m)))"])
        (use sooner st r assms(2) in \<open>simp_all add: ea tl\<close>)
  qed
qed

lemma deltimeout_easy_ok:
  assumes "easy_ok d"
  obtains d' where "multi_deltimeout d eid = Some d'" "easy_ok d'" "timer_list d' = remove1 eid (timer_list d)"
    "expiretime d' = expiretime d"
proof -
  define as where "as = timer_list d"
  have d: "list_ok d as" "\<forall>a \<in> set as. time_ok (node_time d a)" "in_order (node_time d) as"
    "expiretime d = tv_zero \<and> as = [] \<or> time_ok (expiretime d) \<and> (\<forall>a \<in> set as. tv_sec (expiretime d) \<le> tv_sec (node_time d a))"
    using assms by (simp_all add: easy_ok_def as_def)
  obtain l h where m: "multi_deltimeout d eid = Some (d\<lparr>timeoutlist := l, elems := h\<rparr>)"
      "list_ok (d\<lparr>timeoutlist := l, elems := h\<rparr>) (remove1 eid as)"
    using multi_deltimeout_ok [OF d(1)] by blast
  have s: "set (remove1 eid as) \<subseteq> set as" by (rule set_remove1_subset)
  have "easy_ok (d\<lparr>timeoutlist := l, elems := h\<rparr>)"
    by (rule easy_okI [OF m(2)]) (use d s in \<open>auto simp: in_order_def intro: in_order_sub\<close>)
  then show ?thesis
    by (intro that [OF m(1)]) (use list_ok_timer_list [OF m(2)] in \<open>simp_all add: as_def\<close>)
qed

lemma expire_done_ok:
  assumes "timers_ok m q"
  obtains m' where "Curl_expire_done m x eid = Some m'" "timers_ok m' q"
    "timer_list (easy m' x) = remove1 eid (timer_list (easy m x))" "\<And>y. y \<noteq> x \<Longrightarrow> easy m' y = easy m y"
proof -
  have "easy_ok (easy m x)" using assms by (simp add: timers_but_def)
  from deltimeout_easy_ok [OF this, of eid] obtain d where d: "multi_deltimeout (easy m x) eid = Some d" "easy_ok d"
    "timer_list d = remove1 eid (timer_list (easy m x))" "expiretime d = expiretime (easy m x)" by blast
  show ?thesis
    by (rule that [of "set_easy x d m"])
      (use d timers_change [OF assms d(2,4)] in \<open>simp_all add: Curl_expire_done_def set_easy_def\<close>)
qed

lemma expire_clear_ok:
  assumes "timers_ok m q" "in_multi (easy m x)"
  obtains m' where "Curl_expire_clear m x = Some m'" "timers_ok m' (filter (\<lambda>y. snd y \<noteq> x) q)"
    "timer_list (easy m' x) = []" "expiretime (easy m' x) = tv_zero" "\<And>y. y \<noteq> x \<Longrightarrow> easy m' y = easy m y"
proof (cases "expiretime (easy m x) = tv_zero")
  case True
  have "easy_ok (easy m x)" using assms(1) by (simp add: timers_but_def)
  then have "timer_list (easy m x) = []" using True time_ok_bounds by (auto simp: easy_ok_def)
  moreover have "(k, x) \<notin> set q" for k using assms(1) True by (auto simp: timers_but_def)
  then have "filter (\<lambda>y. snd y \<noteq> x) q = q" by (auto simp: filter_id_conv)
  ultimately show ?thesis
    by (intro that [of m]) (use True assms in \<open>simp_all add: Curl_expire_clear_def Let_def tv_zero_def\<close>)
next
  case False
  have "list_ok (easy m x) (timer_list (easy m x))" using assms(1) by (simp add: timers_but_def easy_ok_def)
  from flush_loop_ok [OF this] obtain l h where f: "flush_loop (easy m x) = Some ((easy m x)\<lparr>timeoutlist := l, elems := h\<rparr>)"
    "list_ok ((easy m x)\<lparr>timeoutlist := l, elems := h\<rparr>) []" by blast
  define d where "d = (easy m x)\<lparr>timeoutlist := l, elems := h, expiretime := tv_zero\<rparr>"
  have l: "list_ok d []" using f(2) by (simp add: d_def list_ok_def)
  have "easy_ok d" by (rule easy_okI [OF l]) (simp_all add: d_def in_order_def)
  moreover have "timers_but (Some x) (unlink_node x m) (filter (\<lambda>y. snd y \<noteq> x) q)"
    by (rule timers_unlink [OF assms(1), of _ x "easy m x"]) (use False in simp_all)
  ultimately have "timers_ok (set_easy x d (unlink_node x m)) (filter (\<lambda>y. snd y \<noteq> x) q)"
    by (intro timers_in) (simp_all add: d_def)
  moreover have "easy (set_easy x d (unlink_node x m)) = (easy m)(x := d)"
    by (simp add: set_easy_def unlink_node_def split: prod.splits)
  moreover have "Curl_expire_clear m x = Some (set_easy x d (unlink_node x m))"
    unfolding Curl_expire_clear_def Let_def zero_test using f(1) False assms(2) by (simp add: d_def tv_zero_def)
  ultimately show ?thesis
    using list_ok_timer_list [OF l] by (intro that [of "set_easy x d (unlink_node x m)"]) (simp_all add: d_def)
qed

abbreviation passed :: "easy_timers \<Rightarrow> curltime \<Rightarrow> expire_id \<Rightarrow> bool" where
  "passed d now a \<equiv> node_time d a \<le> now"

lemma add_next_timeout_ok:
  assumes "timers_but (Some x) m q" "easy_ok (easy m x)" "time_ok now"
  defines "bs \<equiv> dropWhile (passed (easy m x) now) (timer_list (easy m x))"
  obtains m' q' where "add_next_timeout now m x = Some m'" "timers_ok m' q'"
    "q' = (if bs = [] then q else enqueue (node_time (easy m x) (hd bs)) x q)"
    "timer_list (easy m' x) = bs" "\<forall>y. y \<noteq> x \<longrightarrow> easy m' y = easy m y"
    "node_time (easy m' x) = node_time (easy m x)"
    "expiretime (easy m' x) = (if bs = [] then tv_zero else node_time (easy m x) (hd bs))"
proof -
  define d as where "d = easy m x" and "as = timer_list d"
  have ok: "list_ok d as" "\<forall>a \<in> set as. time_ok (node_time d a)" "in_order (node_time d) as"
    using assms(2) by (simp_all add: easy_ok_def d_def as_def)
  have "dropWhile (\<lambda>a. \<not> Curl_timediff_us (node_time d a) now > 0) as = dropWhile (passed d now) as"
    by (rule dropWhile_cong) (use ok(2) timediff_us_nonpos [OF _ assms(3)] in \<open>auto simp: not_less\<close>)
  then have bs: "dropWhile (\<lambda>a. \<not> Curl_timediff_us (node_time d a) now > 0) as = bs"
    by (simp add: bs_def d_def as_def)
  have "linked (timeoutlist d) (elems d) as" using ok(1) by (simp add: list_ok_def)
  then have "head (timeoutlist d) = (if as = [] then None else Some (hd as))"
    using linked_at [of "timeoutlist d" "elems d" "[]" as] by simp
  from next_timeout_loop_ok [OF ok(1) this, of now None] obtain l h nd where n:
    "next_timeout_loop now d (head (timeoutlist d)) None = Some (d\<lparr>timeoutlist := l, elems := h\<rparr>, nd)"
    "list_ok (d\<lparr>timeoutlist := l, elems := h\<rparr>) bs" "bs \<noteq> [] \<longrightarrow> nd = Some (hd bs)"
    unfolding Let_def bs by blast
  define d1 where "d1 = d\<lparr>timeoutlist := l, elems := h\<rparr>"
  have hd: "head (timeoutlist d1) = (if bs = [] then None else Some (hd bs))"
    using linked_at [of "timeoutlist d1" "elems d1" "[]" bs] n(2) by (simp add: list_ok_def d1_def)
  have ok1: "list_ok (d1\<lparr>expiretime := k\<rparr>) bs" for k using n(2) by (simp add: d1_def list_ok_def)
  have sub: "set bs \<subseteq> set as" using set_dropWhileD bs by fastforce
  obtain cs where cs: "as = cs @ bs" using bs takeWhile_dropWhile_id by metis
  have io: "in_order (node_time d) bs" using ok(3) unfolding in_order_def cs sorted_wrt_append by blast
  have nt: "node_time (d1\<lparr>expiretime := k\<rparr>) = node_time d" "timer_list (d1\<lparr>expiretime := k\<rparr>) = bs" for k
    using list_ok_timer_list [OF ok1] by (simp_all add: d1_def)
  have st: "add_next_timeout now m x =
      (if bs = [] then Some (set_easy x (d1\<lparr>expiretime := tv_zero\<rparr>) m)
       else let tv = node_time d (hd bs) in Some (link_node tv x (set_easy x (d1\<lparr>expiretime := tv\<rparr>) m)))"
    using n(1,3) hd unfolding add_next_timeout_def d_def [symmetric] d1_def by (simp add: tv_zero_def Let_def)
  have ea: "easy (link_node k x (set_easy x e m)) = (easy m)(x := e)" "easy (set_easy x e m) = (easy m)(x := e)" for k e
    by (simp_all add: link_node_def set_easy_def split: prod.splits)
  show ?thesis
  proof (cases "bs = []")
    case True
    have "easy_ok (d1\<lparr>expiretime := tv_zero\<rparr>)"
      by (rule easy_okI [OF ok1]) (use True in \<open>simp_all add: in_order_def\<close>)
    then have "timers_ok (set_easy x (d1\<lparr>expiretime := tv_zero\<rparr>) m) q" by (intro timers_in [OF assms(1)]) simp_all
    then show ?thesis
      by (intro that [of "set_easy x (d1\<lparr>expiretime := tv_zero\<rparr>) m" q]) (use True st nt in \<open>simp_all add: ea d_def\<close>)
  next
    case False
    define tv where "tv = node_time d (hd bs)"
    have tv: "time_ok tv" using ok(2) subsetD [OF sub hd_in_set [OF False]] by (simp add: tv_def)
    have "tv_sec tv \<le> tv_sec (node_time d a)" if a: "a \<in> set bs" for a
    proof (cases "a = hd bs")
      case False
      then have "\<not> Curl_timediff tv (node_time d a) > 0" using io a unfolding in_order_def tv_def by (cases bs) auto
      moreover have "time_ok (node_time d a)" using ok(2) sub a by blast
      ultimately show ?thesis using timediff_pos [OF tv] by auto
    qed (simp add: tv_def)
    then have "easy_ok (d1\<lparr>expiretime := tv\<rparr>)"
      by (intro easy_okI [OF ok1]) (use ok(2) sub io tv in \<open>auto simp: nt\<close>)
    then have "timers_ok (link_node tv x (set_easy x (d1\<lparr>expiretime := tv\<rparr>) m)) (enqueue tv x q)"
      by (intro timers_link [OF assms(1) _ _ tv]) simp_all
    then show ?thesis
      by (intro that [of "link_node tv x (set_easy x (d1\<lparr>expiretime := tv\<rparr>) m)" "enqueue tv x q"])
        (use False st nt in \<open>simp_all add: ea d_def tv_def Let_def\<close>)
  qed
qed

subsection \<open>The loop over the expired timers\<close>

lemma queue_sorted: "represents_queue t st q \<Longrightarrow> sorted (map fst q)"
proof -
  have "sorted (map fst (queue_of st R as))" if "ordered (keys st) as" for R as
    using that
  proof (induction as)
    case (Cons a as)
    then have "\<forall>z \<in> set (queue_of st R as). keys st a < fst z"
      using queue_above [of as "keys st a" st R] by (simp add: ordered_Cons)
    with Cons show ?case by (auto simp: ordered_Cons sorted_append comp_def sorted_wrt_map less_imp_le)
  qed simp
  then show "represents_queue t st q \<Longrightarrow> sorted (map fst q)" by (auto simp: represents_queue_def)
qed

lemma takeWhile_enqueue:
  assumes "now < k"
  shows "takeWhile (\<lambda>z. fst z \<le> now) (enqueue k x q) = takeWhile (\<lambda>z. fst z \<le> now) q"
proof (induction q)
  case (Cons z q)
  then show ?case using assms by (cases "fst z \<le> k") (auto simp: enqueue_def)
qed (use assms in \<open>simp add: enqueue_def\<close>)

lemma timers_nonneg: "timers_but x m q \<Longrightarrow> \<forall>z \<in> set q. tv_zero \<le> fst z"
proof
  fix z assume a: "timers_but x m q" "z \<in> set q"
  obtain k y where z: "z = (k, y)" by (cases z)
  with a have "Some y \<noteq> x" "k = expiretime (easy m y)" "k \<noteq> tv_zero" by (auto simp: timers_but_def)
  with a easy_ok_exp have "time_ok k" by (auto simp: timers_but_def)
  with z time_ok_bounds show "tv_zero \<le> fst z" by (simp add: less_imp_le)
qed

lemma timers_pop:
  assumes "timers_ok m ((k, x) # q)" "easy m' = easy m" "represents_queue (timetree m') (tree_nodes m') q"
  shows "timers_but (Some x) m' q"
proof -
  have "distinct (map snd ((k, x) # q))" by (rule queue_distinct [of "timetree m" "tree_nodes m"]) (use assms(1) in \<open>simp add: timers_but_def\<close>)
  then have x: "x \<notin> snd ` set q" by simp
  have q: "(k', y) \<in> set ((k, x) # q) \<longleftrightarrow> k' = expiretime (easy m y) \<and> k' \<noteq> tv_zero" for k' y
    using assms(1) by (simp add: timers_but_def)
  have "(k', y) \<in> set q \<longleftrightarrow> y \<noteq> x \<and> k' = expiretime (easy m y) \<and> k' \<noteq> tv_zero" for k' y
    using q [of k' y] x by (cases "y = x") force+
  with assms show ?thesis by (simp add: timers_but_def)
qed

text \<open>
  A transfer that waits and is over its time gets the timer \<open>EXPIRE_RUN_NOW\<close> while it is out
  of the tree. The times and the list it has then; \<open>wake\<close> says whether that happens.
\<close>

definition woken_times :: "bool \<Rightarrow> curltime \<Rightarrow> easy_timers \<Rightarrow> expire_id \<Rightarrow> curltime" where
  "woken_times wake later d = (if wake then (node_time d)(EXPIRE_RUN_NOW := later) else node_time d)"

definition woken_list :: "bool \<Rightarrow> curltime \<Rightarrow> easy_timers \<Rightarrow> expire_id list" where
  "woken_list wake later d =
     (if wake then insert_timer (node_time d) later EXPIRE_RUN_NOW (remove1 EXPIRE_RUN_NOW (timer_list d)) else timer_list d)"

text \<open>
  This does no harm when \<open>Curl_expire\<close> finds the old time at least a millisecond ago, and so
  leaves the tree alone: \<open>pending_timeout_loses_timer\<close> is the other case.
\<close>

definition waits_safely :: "easy_timers \<Rightarrow> bool \<Rightarrow> curltime \<Rightarrow> bool" where
  "waits_safely d timed_out later \<longleftrightarrow>
     \<not> (pending d \<and> timed_out) \<or> in_multi d \<and> time_ok later \<and> Curl_timediff later (expiretime d) > 0"

lemma expire_set_zero: "time_ok now \<Longrightarrow> expire_set now 0 = now"
  by (cases now) (simp add: expire_set_def time_ok_def signed_divide_int_def signed_modulo_int_def)

lemma move_pending_ok:
  assumes "timers_but (Some x) m q" "easy_ok (easy m x)" "time_ok (expiretime (easy m x))"
    "in_multi (easy m x)" "time_ok later" "Curl_timediff later (expiretime (easy m x)) > 0"
  obtains d where "move_pending_to_connect later m x = Some (set_easy x d m)" "easy_ok d"
    "timer_list d = woken_list True later (easy m x)" "node_time d = woken_times True later (easy m x)"
    "expiretime d = expiretime (easy m x)" "timers_but (Some x) (set_easy x d m) q"
proof -
  define e where "e = (easy m x)\<lparr>pending := False\<rparr>"
  have e: "timer_list e = timer_list (easy m x)" "node_time e = node_time (easy m x)"
    "expiretime e = expiretime (easy m x)" "in_multi e = in_multi (easy m x)"
    by (simp_all add: e_def timer_list_def)
  have ok: "easy_ok e" using assms(2) e unfolding easy_ok_def by (simp add: e_def list_ok_def)
  obtain d1 d2 where r:
    "multi_deltimeout e EXPIRE_RUN_NOW = Some d1" "multi_addtimeout d1 later EXPIRE_RUN_NOW = Some d2"
    "timer_list d2 = insert_timer (node_time e) later EXPIRE_RUN_NOW (remove1 EXPIRE_RUN_NOW (timer_list e))"
    "node_time d2 = (node_time e)(EXPIRE_RUN_NOW := later)" "expiretime d2 = expiretime e"
    "\<forall>k. time_ok k \<and> tv_sec k \<le> tv_sec later \<and> (expiretime e = tv_zero \<or> tv_sec k \<le> tv_sec (expiretime e)) \<longrightarrow>
       easy_ok (d2\<lparr>expiretime := k\<rparr>)"
    by (rule replace_timer [OF ok assms(5), of EXPIRE_RUN_NOW]) blast
  have "tv_sec (expiretime e) \<le> tv_sec later" using assms(6) timediff_pos [OF assms(5,3)] by (auto simp: e(3))
  then have "easy_ok (d2\<lparr>expiretime := expiretime e\<rparr>)" using r(6) assms(3) by (simp add: e(3))
  moreover have "d2\<lparr>expiretime := expiretime e\<rparr> = d2" using r(5) by simp
  ultimately have "easy_ok d2" by metis
  moreover have "expiretime (easy m x) \<noteq> tv_zero" using time_ok_bounds [OF assms(3)] by simp
  then have "move_pending_to_connect later m x = Some (set_easy x d2 m)"
    using r(1,2,5) assms(4,6) e
    unfolding move_pending_to_connect_def Curl_expire_def expire_set_zero [OF assms(5)] Let_def zero_test e_def
    by (simp add: set_easy_def)
  moreover have "timers_but (Some x) (set_easy x d2 m) q" using assms(1) by (auto simp: timers_but_def set_easy_def)
  ultimately show ?thesis
    by (intro that [of d2]) (use r(3-5) e in \<open>simp_all add: woken_list_def woken_times_def\<close>)
qed

text \<open>What the loop does with one transfer.\<close>

abbreviation wakes :: "easy_timers \<Rightarrow> bool \<Rightarrow> bool" where
  "wakes d timed_out \<equiv> pending d \<and> timed_out"

definition requeued :: "bool \<Rightarrow> curltime \<Rightarrow> curltime \<Rightarrow> easy_timers \<Rightarrow> easy_timers \<Rightarrow> bool" where
  "requeued wake later now d d' \<longleftrightarrow>
     node_time d' = woken_times wake later d \<and>
     timer_list d' = dropWhile (\<lambda>a. node_time d' a \<le> now) (woken_list wake later d) \<and>
     expiretime d' = (case timer_list d' of [] \<Rightarrow> tv_zero | a # _ \<Rightarrow> node_time d' a)"

lemma expire_one_ok:
  assumes "timers_but (Some x) m q" "easy_ok (easy m x)" "time_ok (expiretime (easy m x))" "time_ok now"
    "waits_safely (easy m x) timed_out later"
  obtains m' q' where "expire_one timed_out later now m x = Some m'" "timers_ok m' q'"
    "q' = q \<or> now < expiretime (easy m' x) \<and> q' = enqueue (expiretime (easy m' x)) x q"
    "\<forall>y. y \<noteq> x \<longrightarrow> easy m' y = easy m y" "requeued (wakes (easy m x) timed_out) later now (easy m x) (easy m' x)"
proof -
  let ?wake = "wakes (easy m x) timed_out"
  obtain d where d: "(if ?wake then move_pending_to_connect later m x else Some m) = Some (set_easy x d m)" "easy_ok d"
    "timer_list d = woken_list ?wake later (easy m x)" "node_time d = woken_times ?wake later (easy m x)"
    "timers_but (Some x) (set_easy x d m) q"
  proof (cases ?wake)
    case True
    with assms(5) have s: "in_multi (easy m x)" "time_ok later" "Curl_timediff later (expiretime (easy m x)) > 0"
      by (auto simp: waits_safely_def)
    obtain d where "move_pending_to_connect later m x = Some (set_easy x d m)" "easy_ok d"
      "timer_list d = woken_list True later (easy m x)" "node_time d = woken_times True later (easy m x)"
      "timers_but (Some x) (set_easy x d m) q"
      by (rule move_pending_ok [OF assms(1-3) s])
    with True show ?thesis by (intro that [of d]) simp_all
  next
    case False
    have "set_easy x (easy m x) m = m" by (simp add: set_easy_def)
    with False assms(1,2) show ?thesis
      by (intro that [of "easy m x"]) (auto simp: woken_list_def woken_times_def)
  qed
  define m1 where "m1 = set_easy x d m"
  have e1: "easy m1 = (easy m)(x := d)" by (simp add: m1_def set_easy_def)
  then have x1: "easy m1 x = d" by simp
  define bs where "bs = dropWhile (passed d now) (timer_list d)"
  obtain m2 q2 where a: "add_next_timeout now m1 x = Some m2" "timers_ok m2 q2"
    "q2 = (if bs = [] then q else enqueue (node_time d (hd bs)) x q)"
    "timer_list (easy m2 x) = bs" "\<forall>y. y \<noteq> x \<longrightarrow> easy m2 y = easy m1 y" "node_time (easy m2 x) = node_time d"
    "expiretime (easy m2 x) = (if bs = [] then tv_zero else node_time d (hd bs))"
    by (rule add_next_timeout_ok [OF d(5) [folded m1_def] _ assms(4), unfolded x1, folded bs_def, OF d(2)]) blast
  have "requeued ?wake later now (easy m x) (easy m2 x)"
    unfolding requeued_def
  proof (intro conjI)
    show "expiretime (easy m2 x) = (case timer_list (easy m2 x) of [] \<Rightarrow> tv_zero | a # _ \<Rightarrow> node_time (easy m2 x) a)"
      using a(4,6,7) by (cases bs) simp_all
  qed (use a(4,6) d(3,4) in \<open>simp_all add: bs_def\<close>)
  moreover have "now < node_time d (hd bs)" if "bs \<noteq> []"
    using hd_dropWhile [of "passed d now" "timer_list d"] that by (simp add: bs_def not_le)
  moreover have "expire_one timed_out later now m x = Some m2"
    using a(1) by (simp add: expire_one_def d(1) m1_def)
  ultimately show ?thesis
    using a e1 by (intro that [of m2 q2]) auto
qed

lemma expire_loop_ok:
  "timers_ok m q \<Longrightarrow> time_ok now \<Longrightarrow> takeWhile (\<lambda>z. fst z \<le> now) q = p \<Longrightarrow>
   \<forall>x \<in> snd ` set p. waits_safely (easy m x) (timed_out x) (later x) \<Longrightarrow>
   \<exists>m' q'. expire_loop timed_out later now m = Some (map snd p, m') \<and> timers_ok m' q' \<and>
     (\<forall>z \<in> set q'. now < fst z) \<and>
     (\<forall>y. if y \<in> snd ` set p
          then requeued (wakes (easy m y) (timed_out y)) (later y) now (easy m y) (easy m' y)
          else easy m' y = easy m y)"
proof (induction p arbitrary: m q)
  case Nil
  obtain t rm st where g: "Curl_splaygetbest now (timetree m) (tree_nodes m) = (t, rm, st)"
    by (cases "Curl_splaygetbest now (timetree m) (tree_nodes m)") auto
  have rep: "represents_queue (timetree m) (tree_nodes m) q" using Nil.prems(1) by (simp add: timers_but_def)
  have later: "\<forall>z \<in> set q. now < fst z"
  proof (cases q)
    case (Cons z zs)
    then have "now < fst z" using Nil.prems(3) by (auto split: if_splits)
    with queue_sorted [OF rep] Cons show ?thesis by (auto simp: less_le_trans)
  qed simp
  have r: "rm = None \<and> represents_queue t st q"
    using getbest_queue [OF rep timers_nonneg [OF Nil.prems(1)] g] later by (cases q) auto
  then have "expire_loop timed_out later now m = Some ([], m\<lparr>timetree := t, tree_nodes := st\<rparr>)"
    using g by (subst expire_loop.simps) simp
  moreover have "timers_ok (m\<lparr>timetree := t, tree_nodes := st\<rparr>) q" using r Nil.prems(1) by (simp add: timers_but_def)
  ultimately show ?case using later
    by (intro exI [of _ "m\<lparr>timetree := t, tree_nodes := st\<rparr>"] exI [of _ q]) simp
next
  case (Cons z p)
  obtain k x where z: "z = (k, x)" by (cases z)
  obtain q1 where q: "q = (k, x) # q1" "k \<le> now" "takeWhile (\<lambda>z. fst z \<le> now) q1 = p"
    using Cons.prems(3) z by (cases q) (auto split: if_splits)
  obtain t rm st where g: "Curl_splaygetbest now (timetree m) (tree_nodes m) = (t, rm, st)"
    by (cases "Curl_splaygetbest now (timetree m) (tree_nodes m)") auto
  have rep: "represents_queue (timetree m) (tree_nodes m) q" using Cons.prems(1) by (simp add: timers_but_def)
  have r: "rm = Some x" "represents_queue t st q1"
    using getbest_queue [OF rep timers_nonneg [OF Cons.prems(1)] g] q(1,2) by (simp_all add: not_less)
  define m1 where "m1 = m\<lparr>timetree := t, tree_nodes := st\<rparr>"
  have e1: "easy m1 = easy m" by (simp add: m1_def)
  have but: "timers_but (Some x) m1 q1"
    by (rule timers_pop [of m k]) (use Cons.prems(1) q(1) r(2) in \<open>simp_all add: m1_def\<close>)
  have ok: "easy_ok (easy m1 x)" using Cons.prems(1) e1 by (simp add: timers_but_def)
  have "k = expiretime (easy m x)" "k \<noteq> tv_zero" using Cons.prems(1) q(1) by (auto simp: timers_but_def)
  then have k: "time_ok (expiretime (easy m1 x))" using easy_ok_exp [OF ok] by (simp add: e1)
  have safe: "waits_safely (easy m1 x) (timed_out x) (later x)" using Cons.prems(4) z e1 by simp
  obtain m2 q2 where a: "expire_one (timed_out x) (later x) now m1 x = Some m2" "timers_ok m2 q2"
    "q2 = q1 \<or> now < expiretime (easy m2 x) \<and> q2 = enqueue (expiretime (easy m2 x)) x q1"
    "\<forall>y. y \<noteq> x \<longrightarrow> easy m2 y = easy m y"
    "requeued (wakes (easy m x) (timed_out x)) (later x) now (easy m x) (easy m2 x)"
    by (rule expire_one_ok [OF but ok k Cons.prems(2) safe, unfolded e1])
  have p: "takeWhile (\<lambda>z. fst z \<le> now) q2 = p" using a(3) q(3) takeWhile_enqueue by auto
  have "distinct (map snd q)" using rep by (rule queue_distinct)
  then have "x \<notin> snd ` set q1" using q(1) by simp
  moreover have "set p \<subseteq> set q1" using q(3) by (metis set_takeWhileD subsetI)
  ultimately have x: "x \<notin> snd ` set p" by blast
  have same: "easy m2 y = easy m y" if "y \<in> snd ` set p" for y using a(4) x that by metis
  have "\<forall>y \<in> snd ` set p. waits_safely (easy m2 y) (timed_out y) (later y)"
    using Cons.prems(4) by (simp add: same)
  from Cons.IH [OF a(2) Cons.prems(2) p this] obtain m' q' where ih:
    "expire_loop timed_out later now m2 = Some (map snd p, m')" "timers_ok m' q'" "\<forall>z \<in> set q'. now < fst z"
    "\<And>y. if y \<in> snd ` set p
          then requeued (wakes (easy m2 y) (timed_out y)) (later y) now (easy m2 y) (easy m' y)
          else easy m' y = easy m2 y"
    by blast
  have st: "expire_loop timed_out later now m = Some (map snd (z # p), m')"
    using g r(1) a(1) ih(1) z by (subst expire_loop.simps) (simp add: m1_def [symmetric])
  have "if y \<in> snd ` set (z # p)
      then requeued (wakes (easy m y) (timed_out y)) (later y) now (easy m y) (easy m' y)
      else easy m' y = easy m y" for y
  proof (cases "y \<in> snd ` set p")
    case True
    with ih(4) [of y] same [OF True] show ?thesis by simp
  next
    case False
    with ih(4) [of y] a(4,5) z show ?thesis by (cases "y = x") auto
  qed
  then show ?case using st ih(2,3) by blast
qed

subsection \<open>The timeout for the application\<close>

lemma splay_queue:
  assumes "represents_queue t st q"
  shows "represents_queue (Curl_splay (keys st) i t) st q"
  using assms by (auto simp: represents_queue_def)

text \<open>Microseconds, and how much \<open>Curl_timediff_ceil\<close> rounds up.\<close>

definition usecs :: "curltime \<Rightarrow> int" where
  "usecs t = tv_sec t * 1000000 + tv_usec t"

lemma usecs_less: "time_ok a \<Longrightarrow> time_ok b \<Longrightarrow> usecs a < usecs b \<longleftrightarrow> a < b"
  by (auto simp: usecs_def time_ok_def less_curltime_def)

lemma timediff_ceil_bounds:
  assumes "tv_sec a - tv_sec b < 9223372036854775" "- 9223372036854775 < tv_sec a - tv_sec b"
  shows "usecs a - usecs b \<le> Curl_timediff_ceil a b * 1000" "Curl_timediff_ceil a b * 1000 < usecs a - usecs b + 2000"
proof -
  define d u where "d = tv_sec a - tv_sec b" and "u = tv_usec a - tv_usec b + 999"
  have c: "Curl_timediff_ceil a b = d * 1000 + u sdiv 1000"
    using assms unfolding Curl_timediff_ceil_def Let_def timediff_limits d_def u_def by simp
  have us: "usecs a - usecs b = d * 1000000 + u - 999" by (simp add: usecs_def d_def u_def algebra_simps)
  have "u - 999 \<le> u sdiv 1000 * 1000 \<and> u sdiv 1000 * 1000 < u - 999 + 2000"
  proof (cases "0 \<le> u")
    case True
    have "0 \<le> u mod 1000" "u mod 1000 < 1000" "u div 1000 * 1000 + u mod 1000 = u" by simp_all
    then show ?thesis unfolding sdiv_pos [OF zero_less_numeral True] by linarith
  next
    case False
    then have n: "u < 0" by simp
    have "0 \<le> (- u) mod 1000" "(- u) mod 1000 < 1000" "(- u) div 1000 * 1000 + (- u) mod 1000 = - u" by simp_all
    then show ?thesis unfolding sdiv_neg [OF zero_less_numeral n] by linarith
  qed
  then show "usecs a - usecs b \<le> Curl_timediff_ceil a b * 1000" "Curl_timediff_ceil a b * 1000 < usecs a - usecs b + 2000"
    unfolding c us by simp_all
qed

lemma multi_timeout_first:
  assumes "timers_ok m q" "\<not> dead m" "multi_timeout w now m = (ms, m')"
  shows "timers_ok m' q \<and> easy m' = easy m \<and>
    (case q of [] \<Rightarrow> ms = - 1
     | (k, _) # _ \<Rightarrow> keys (tree_nodes m') (root (timetree m')) = k \<and> ms = (if now < k then to_long w (Curl_timediff_ceil k now) else 0))"
proof -
  have rep: "represents_queue (timetree m) (tree_nodes m) q" using assms(1) by (simp add: timers_but_def)
  define t where "t = Curl_splay (keys (tree_nodes m)) tv_zero (timetree m)"
  have rep': "represents_queue t (tree_nodes m) q" unfolding t_def by (rule splay_queue [OF rep])
  have ok: "timers_ok (m\<lparr>timetree := t\<rparr>) q" using rep' assms(1) by (simp add: timers_but_def)
  show ?thesis
  proof (cases t)
    case Tip
    then have "q = []" using rep' by (auto simp: represents_queue_def)
    moreover have "multi_timeout w now m = (- 1, m)"
      using assms(2) Tip unfolding multi_timeout_def t_def [symmetric] by simp
    ultimately show ?thesis using assms by simp
  next
    case (Node l r g)
    obtain R where R: "ordered (keys (tree_nodes m)) (inorder t)" "q = queue_of (tree_nodes m) R (inorder t)"
      using rep' by (auto simp: represents_queue_def)
    have "inorder l = []"
    proof (rule ccontr)
      assume "inorder l \<noteq> []"
      then obtain a as where a: "inorder l = a # as" by (cases "inorder l") auto
      have ord: "ordered (keys (tree_nodes m)) (inorder (timetree m))" using R(1) by (simp add: t_def)
      have "keys (tree_nodes m) a < tv_zero" using splay_parts(2) [OF ord Node [unfolded t_def]] a by simp
      moreover have "(keys (tree_nodes m) a, a) \<in> set q" unfolding R(2) Node by (simp add: a)
      ultimately show False using timers_nonneg [OF assms(1)] by force
    qed
    then obtain q' where q: "q = (keys (tree_nodes m) r, r) # q'" using R(2) Node by auto
    have "multi_timeout w now m =
        (if now < keys (tree_nodes m) r then to_long w (Curl_timediff_ceil (keys (tree_nodes m) r) now) else 0,
         m\<lparr>timetree := t\<rparr>)"
      using assms(2) Node unfolding multi_timeout_def t_def [symmetric] by simp
    with assms(3) q ok Node show ?thesis by auto
  qed
qed

text \<open>A value that fits is not changed by the cast.\<close>

lemma to_long_fits:
  assumes "- (2 ^ (w - 1)) \<le> v" "v < 2 ^ (w - 1)"
  shows "to_long w v = v"
  unfolding to_long_def by (rule signed_take_bit_int_eq_self) (use assms in simp_all)

lemma timeout_fits:
  assumes "time_ok k" "time_ok now" "now < k" "usecs k - usecs now < (2 ^ (w - 1) - 2000) * 1000" "w \<le> 64"
  shows "usecs k \<le> usecs now + to_long w (Curl_timediff_ceil k now) * 1000"
    "usecs now + to_long w (Curl_timediff_ceil k now) * 1000 < usecs k + 2000"
proof -
  define p :: int where "p = 2 ^ (w - 1)"
  have "(2 :: int) ^ (w - 1) \<le> 2 ^ 63" by (rule power_increasing) (use assms(5) in simp_all)
  then have p: "0 < p" "p \<le> 9223372036854775808" by (simp_all add: p_def)
  have near: "usecs k - usecs now < (p - 2000) * 1000" using assms(4) by (simp add: p_def)
  then have "usecs k - usecs now < 9223372036854773808000" using p(2) by simp
  moreover have "(tv_sec k - tv_sec now) * 1000000 - 999999 \<le> usecs k - usecs now"
    using assms(1,2) by (simp add: usecs_def time_ok_def)
  ultimately have "tv_sec k - tv_sec now < 9223372036854775" by simp
  moreover have "- 9223372036854775 < tv_sec k - tv_sec now" using assms(3) by (auto simp: less_curltime_def)
  ultimately have c: "usecs k - usecs now \<le> Curl_timediff_ceil k now * 1000"
    "Curl_timediff_ceil k now * 1000 < usecs k - usecs now + 2000"
    by (rule timediff_ceil_bounds)+
  have "0 < usecs k - usecs now" using usecs_less [OF assms(2,1)] assms(3) by simp
  then have "0 \<le> Curl_timediff_ceil k now" using c(1) by linarith
  moreover have "Curl_timediff_ceil k now < p" using c(2) near by simp
  ultimately have "to_long w (Curl_timediff_ceil k now) = Curl_timediff_ceil k now"
    using p(1) by (intro to_long_fits) (simp_all add: p_def)
  with c show "usecs k \<le> usecs now + to_long w (Curl_timediff_ceil k now) * 1000"
    "usecs now + to_long w (Curl_timediff_ceil k now) * 1000 < usecs k + 2000" by simp_all
qed

subsection \<open>Runs\<close>

text \<open>A new multi handle with no timers.\<close>

definition new_timers :: "(node \<Rightarrow> easy_timers) \<Rightarrow> multi_timers" where
  "new_timers es =
     \<lparr>timetree = Tip, tree_nodes = \<lambda>_. \<lparr>samen = 0, samep = 0, key = tv_zero\<rparr>, easy = es, dead = False,
      has_timer_cb = True, timer_lastcall = tv_zero\<rparr>"

definition no_timers :: easy_timers where
  "no_timers =
     \<lparr>in_multi = True, pending = False, expiretime = tv_zero, timeoutlist = Curl_llist_init,
      elems = \<lambda>_. \<lparr>ptr = None, prev = None, next = None\<rparr>, node_time = \<lambda>_. tv_zero, node_eid = \<lambda>_. 0\<rparr>"

text \<open>
  The operations: setting, deleting and clearing timers; a transfer that begins to wait
  (\<open>MSTATE_PENDING\<close>) and one that is let go on; a loop over the expired timers, with the
  transfers that are over their time and the clock while each is looked at.
\<close>

datatype timer_op =
  Expire curltime node int expire_id
| Expire_done node expire_id
| Expire_clear node
| Wait node
| Continue curltime node
| Perform "node \<Rightarrow> bool" "node \<Rightarrow> curltime" curltime

fun timer_step :: "multi_timers option \<Rightarrow> timer_op \<Rightarrow> multi_timers option" where
  "timer_step None _ = None"
| "timer_step (Some m) (Expire now x milli eid) = Curl_expire now m x milli eid"
| "timer_step (Some m) (Expire_done x eid) = Curl_expire_done m x eid"
| "timer_step (Some m) (Expire_clear x) = Curl_expire_clear m x"
| "timer_step (Some m) (Wait x) = Some (set_easy x ((easy m x)\<lparr>pending := True\<rparr>) m)"
| "timer_step (Some m) (Continue later x) =
     (if pending (easy m x) then move_pending_to_connect later m x else Some m)"
| "timer_step (Some m) (Perform timed_out later now) = map_option snd (expire_loop timed_out later now m)"

fun timer_op_ok :: "timer_op \<Rightarrow> bool" where
  "timer_op_ok (Expire now x milli eid) \<longleftrightarrow> time_ok now \<and> 0 \<le> milli"
| "timer_op_ok (Continue later x) \<longleftrightarrow> time_ok later"
| "timer_op_ok (Perform timed_out later now) \<longleftrightarrow> time_ok now"
| "timer_op_ok _ \<longleftrightarrow> True"

text \<open>
  What a run must avoid: that a transfer taken in a loop waits, is over its time, and that
  less than a millisecond has passed since its expiry time.
\<close>

fun no_close_timeout :: "multi_timers \<Rightarrow> timer_op \<Rightarrow> bool" where
  "no_close_timeout m (Perform timed_out later now) \<longleftrightarrow>
     (\<forall>x. expiretime (easy m x) \<le> now \<longrightarrow> waits_safely (easy m x) (timed_out x) (later x))"
| "no_close_timeout m _ \<longleftrightarrow> True"

lemma set_pending_ok:
  assumes "timers_ok m q"
  shows "timers_ok (set_easy x ((easy m x)\<lparr>pending := p\<rparr>) m) q"
proof (rule timers_change [OF assms])
  have "easy_ok (easy m x)" using assms by (simp add: timers_but_def)
  then show "easy_ok ((easy m x)\<lparr>pending := p\<rparr>)" by (simp add: easy_ok_def list_ok_def timer_list_def)
qed simp

lemma expire_step_ok:
  assumes "timers_ok m q" "time_ok now" "0 \<le> milli"
  shows "\<exists>m' q'. Curl_expire now m x milli eid = Some m' \<and> timers_ok m' q'"
proof (cases "in_multi (easy m x)")
  case True
  show ?thesis by (rule expire_ok [OF assms(1) True assms(2,3), of eid]) (auto split: if_splits)
qed (use assms(1) in \<open>auto simp: Curl_expire_def\<close>)

lemma due_in_queue:
  assumes "timers_ok m q" "x \<in> snd ` set (takeWhile (\<lambda>z. fst z \<le> now) q)"
  shows "expiretime (easy m x) \<le> now"
proof -
  obtain k where "(k, x) \<in> set (takeWhile (\<lambda>z. fst z \<le> now) q)" using assms(2) by auto
  then have "(k, x) \<in> set q" "k \<le> now" by (auto dest: set_takeWhileD)
  with assms(1) show ?thesis by (auto simp: timers_but_def)
qed

lemma timer_step_ok:
  assumes "timers_ok m q" "timer_op_ok act" "no_close_timeout m act"
  shows "\<exists>m' q'. timer_step (Some m) act = Some m' \<and> timers_ok m' q'"
proof (cases act)
  case (Expire now x milli eid)
  with assms expire_step_ok [OF assms(1), of now milli x eid] show ?thesis by simp
next
  case (Expire_done x eid)
  show ?thesis by (rule expire_done_ok [OF assms(1), of x eid]) (use Expire_done in auto)
next
  case (Expire_clear x)
  show ?thesis
  proof (cases "in_multi (easy m x)")
    case True
    show ?thesis by (rule expire_clear_ok [OF assms(1) True]) (use Expire_clear in auto)
  qed (use Expire_clear assms(1) in \<open>auto simp: Curl_expire_clear_def Let_def\<close>)
next
  case (Wait x)
  with set_pending_ok [OF assms(1), of x True] show ?thesis by auto
next
  case (Continue later x)
  with assms(1,2) expire_step_ok [OF set_pending_ok [OF assms(1)], of later 0 x False x EXPIRE_RUN_NOW] show ?thesis
    by (auto simp: move_pending_to_connect_def)
next
  case (Perform timed_out later now)
  then have n: "time_ok now" using assms(2) by simp
  have "\<forall>x \<in> snd ` set (takeWhile (\<lambda>z. fst z \<le> now) q). waits_safely (easy m x) (timed_out x) (later x)"
    using due_in_queue [OF assms(1)] assms(3) Perform by simp
  from expire_loop_ok [OF assms(1) n refl this] Perform show ?thesis by auto
qed

lemma timers_run_ok:
  "timers_ok m q \<Longrightarrow> list_all timer_op_ok ops \<Longrightarrow>
   \<forall>us act vs m'. ops = us @ act # vs \<and> foldl timer_step (Some m) us = Some m' \<longrightarrow> no_close_timeout m' act \<Longrightarrow>
   \<exists>m' q'. foldl timer_step (Some m) ops = Some m' \<and> timers_ok m' q'"
proof (induction ops arbitrary: m q)
  case (Cons act ops)
  have "no_close_timeout m act" using Cons.prems(3) by (metis append_Nil foldl_Nil)
  then obtain m' q' where m': "timer_step (Some m) act = Some m'" "timers_ok m' q'"
    using timer_step_ok [OF Cons.prems(1), of act] Cons.prems(2) by auto
  have "\<forall>us b vs n. ops = us @ b # vs \<and> foldl timer_step (Some m') us = Some n \<longrightarrow> no_close_timeout n b"
    using Cons.prems(3) m'(1) by (metis append_Cons foldl_Cons)
  from Cons.IH [OF m'(2) _ this] Cons.prems(2) m'(1) show ?case by simp
qed auto

lemma timers_run_idle:
  assumes "timers_ok m q" "list_all timer_op_ok ops" "list_all (\<lambda>act. \<forall>m. no_close_timeout m act) ops"
  obtains m' q' where "foldl timer_step (Some m) ops = Some m'" "timers_ok m' q'"
proof -
  have "\<forall>us act vs m'. ops = us @ act # vs \<and> foldl timer_step (Some m) us = Some m' \<longrightarrow> no_close_timeout m' act"
    using assms(3) by auto
  from timers_run_ok [OF assms(1,2) this] that show ?thesis by blast
qed

lemma new_timers_ok:
  assumes "\<forall>x. es x = no_timers"
  shows "timers_ok (new_timers es) []"
proof -
  have l: "list_ok no_timers []"
    by (simp add: list_ok_def no_timers_def linked_init)
  have "easy_ok no_timers" by (rule easy_okI [OF l]) (simp_all add: no_timers_def in_order_def)
  moreover have "represents_queue Tip st []" for st by (rule represents_queueI [of _ _ "\<lambda>_. []"]) simp_all
  ultimately show ?thesis using assms by (simp add: timers_but_def new_timers_def no_timers_def)
qed

lemma in_queue:
  assumes "timers_ok m q" "timer_list (easy m x) \<noteq> []"
  shows "(expiretime (easy m x), x) \<in> set q"
proof -
  have "easy_ok (easy m x)" using assms(1) by (simp add: timers_but_def)
  with assms(2) have "expiretime (easy m x) \<noteq> tv_zero" using time_ok_bounds by (auto simp: easy_ok_def)
  with assms(1) show ?thesis by (simp add: timers_but_def)
qed

lemma second_late:
  assumes "timers_ok m q" "a \<in> set (timer_list (easy m x))"
  shows "tv_sec (expiretime (easy m x)) \<le> tv_sec (node_time (easy m x) a)"
proof -
  have "easy_ok (easy m x)" using assms(1) by (simp add: timers_but_def)
  with assms(2) show ?thesis by (auto simp: easy_ok_def)
qed

text \<open>The key follows a timer that is set again and again within a millisecond.\<close>

lemma postpone_step:
  assumes "timers_ok m [(Curltime s u, x)]" "in_multi (easy m x)" "time_ok (Curltime s v)" "u \<le> v" "v < u + 1000"
  obtains m' where "Curl_expire (Curltime s v) m x 0 eid = Some m'" "timers_ok m' [(Curltime s v, x)]"
    "in_multi (easy m' x)" "set (timer_list (easy m' x)) = insert eid (set (timer_list (easy m x)))"
    "node_time (easy m' x) = (node_time (easy m x))(eid := Curltime s v)"
proof -
  let ?old = "expiretime (easy m x)"
  have old: "?old = Curltime s u" "?old \<noteq> tv_zero"
    using assms(1) unfolding timers_but_def by (metis list.set_intros(1))+
  have ok: "easy_ok (easy m x)" using assms(1) by (simp add: timers_but_def)
  then have o: "time_ok ?old" using old(2) easy_ok_exp by blast
  have set: "expire_set (Curltime s v) 0 = Curltime s v"
    using assms(3) by (simp add: expire_set_def time_ok_def signed_divide_int_def signed_modulo_int_def)
  have "\<not> Curl_timediff (Curltime s v) ?old > 0"
    using timediff_pos [OF assms(3) o] assms(5) old(1) by simp
  moreover obtain m' where e: "Curl_expire (Curltime s v) m x 0 eid = Some m'"
    "timer_list (easy m' x) = insert_timer (node_time (easy m x)) (Curltime s v) eid (remove1 eid (timer_list (easy m x)))"
    "node_time (easy m' x) = (node_time (easy m x))(eid := Curltime s v)"
    "in_multi (easy m' x)"
    "if ?old = tv_zero then timers_ok m' (enqueue (Curltime s v) x [(Curltime s u, x)]) \<and> expiretime (easy m' x) = Curltime s v
     else if Curl_timediff (Curltime s v) ?old > 0 then timers_ok m' [(Curltime s u, x)] \<and> expiretime (easy m' x) = ?old
     else timers_ok m' (enqueue (Curltime s v) x (filter (\<lambda>y. snd y \<noteq> x) [(Curltime s u, x)])) \<and> expiretime (easy m' x) = Curltime s v"
    by (rule expire_ok [OF assms(1,2,3) order_refl, of eid, unfolded set]) blast
  moreover have "distinct (timer_list (easy m x))" using ok unfolding easy_ok_def by (blast intro: list_ok_distinct)
  ultimately show ?thesis using old(2) by (intro that [of m']) (auto simp: enqueue_def set_insert_timer)
qed

subsection \<open>Properties\<close>

text \<open>
  C6. Timers are not lost. Take any sequence of setting, deleting and clearing timers, of
  transfers that begin to wait or go on, and of loops over the expired timers, in which no
  loop meets a waiting transfer that is over its time less than a millisecond after its
  expiry time (C8 is what happens then). The calls end, the splay tree holds each transfer
  with a pending timer exactly once, under its expiry time, and this time is in no later
  second than any of its pending timers.
\<close>

theorem timers_invariant:
  assumes "\<forall>x. es x = no_timers" "list_all timer_op_ok ops"
    "\<forall>us act vs m. ops = us @ act # vs \<and> foldl timer_step (Some (new_timers es)) us = Some m \<longrightarrow> no_close_timeout m act"
  shows "\<exists>m q. foldl timer_step (Some (new_timers es)) ops = Some m \<and> timers_ok m q \<and> distinct (map snd q) \<and>
    sorted (map fst q) \<and>
    (\<forall>x. \<forall>a \<in> set (timer_list (easy m x)). (expiretime (easy m x), x) \<in> set q \<and>
       tv_sec (expiretime (easy m x)) \<le> tv_sec (node_time (easy m x) a))"
proof -
  obtain m q where m: "foldl timer_step (Some (new_timers es)) ops = Some m" "timers_ok m q"
    using timers_run_ok [OF new_timers_ok [OF assms(1)] assms(2,3)] by blast
  then have rep: "represents_queue (timetree m) (tree_nodes m) q" by (simp add: timers_but_def)
  have "(expiretime (easy m x), x) \<in> set q" if "a \<in> set (timer_list (easy m x))" for x a
    by (rule in_queue [OF m(2)]) (use that in auto)
  then show ?thesis
    using m queue_distinct [OF rep] queue_sorted [OF rep] second_late [OF m(2)]
    by (intro exI [of _ m] exI [of _ q] conjI allI ballI) auto
qed

text \<open>
  The run of the witness has a transfer that waits, is over its time two seconds after its
  timer, and is let go on by the loop.
\<close>

theorem timers_invariant_witness:
  "\<exists>m q. foldl timer_step (Some (new_timers (\<lambda>_. no_timers)))
      [Expire (Curltime 1 0) 3 250 10, Wait 3, Expire (Curltime 1 7) 4 0 8, Expire (Curltime 1 9) 3 100 2,
       Perform (\<lambda>x. x = 3) (\<lambda>_. Curltime 3 0) (Curltime 1 200000), Expire_done 3 10, Expire_clear 4] = Some m \<and>
    timers_ok m q \<and> distinct (map snd q) \<and> sorted (map fst q) \<and>
    (\<forall>x. \<forall>a \<in> set (timer_list (easy m x)). (expiretime (easy m x), x) \<in> set q \<and>
       tv_sec (expiretime (easy m x)) \<le> tv_sec (node_time (easy m x) a))"
proof (rule timers_invariant)
  let ?m = "new_timers (\<lambda>_. no_timers)"
  let ?us = "[Expire (Curltime 1 0) 3 250 10, Wait 3, Expire (Curltime 1 7) 4 0 8, Expire (Curltime 1 9) 3 100 2]"
  let ?p = "Perform (\<lambda>x. x = 3) (\<lambda>_. Curltime 3 0) (Curltime 1 200000)"
  have run: "case foldl timer_step (Some ?m) ?us of None \<Rightarrow> False | Some m \<Rightarrow>
      in_multi (easy m 3) \<and> Curl_timediff (Curltime 3 0) (expiretime (easy m 3)) > 0"
    by code_simp
  have "no_close_timeout m act"
    if ops: "?us @ [?p, Expire_done 3 10, Expire_clear 4] = us @ act # vs" "foldl timer_step (Some ?m) us = Some m" for us act vs m
  proof (cases act)
    case (Perform timed_out later now)
    with ops(1) have "us = ?us" "act = ?p" by (auto simp: Cons_eq_append_conv)
    with run ops(2) show ?thesis by (auto simp: waits_safely_def time_ok_def split: option.splits)
  qed simp_all
  then show "\<forall>us act vs m. [Expire (Curltime 1 0) 3 250 10, Wait 3, Expire (Curltime 1 7) 4 0 8, Expire (Curltime 1 9) 3 100 2,
       ?p, Expire_done 3 10, Expire_clear 4] = us @ act # vs \<and> foldl timer_step (Some ?m) us = Some m \<longrightarrow> no_close_timeout m act"
    by simp
qed (simp_all add: time_ok_def)

text \<open>
  C7. The loop of \<open>curl_multi_perform\<close> over the expired timers ends and takes exactly the
  transfers whose time has come, each once and in the order of their times, unless a waiting
  one among them is over its time less than a millisecond after its expiry time (C8). Of each
  it drops the leading timers that have passed, after giving a waiting one that is over its
  time a timer to run now; the transfer is back in the tree under exactly the first timer
  that is left, or out of it when there is none. The other transfers do not change, and
  nothing due is left in the tree.
\<close>

theorem perform_expires_due:
  assumes "timers_ok m q" "time_ok now"
    "\<forall>z \<in> set q. fst z \<le> now \<longrightarrow> waits_safely (easy m (snd z)) (timed_out (snd z)) (later (snd z))"
  shows "\<exists>m' q'. expire_loop timed_out later now m = Some (map snd (takeWhile (\<lambda>z. fst z \<le> now) q), m') \<and>
    timers_ok m' q' \<and> (\<forall>z \<in> set q'. now < fst z) \<and>
    (\<forall>k y. (k, y) \<in> set q' \<longleftrightarrow> k = expiretime (easy m' y) \<and> k \<noteq> tv_zero) \<and>
    (\<forall>y. if y \<in> snd ` set (takeWhile (\<lambda>z. fst z \<le> now) q)
         then
           let d = easy m y; d' = easy m' y; wake = pending d \<and> timed_out y
           in node_time d' = woken_times wake (later y) d \<and>
              timer_list d' = dropWhile (\<lambda>a. node_time d' a \<le> now) (woken_list wake (later y) d) \<and>
              expiretime d' = (case timer_list d' of [] \<Rightarrow> tv_zero | a # _ \<Rightarrow> node_time d' a)
         else easy m' y = easy m y)"
proof -
  have "\<forall>x \<in> snd ` set (takeWhile (\<lambda>z. fst z \<le> now) q). waits_safely (easy m x) (timed_out x) (later x)"
    using assms(3) by (auto dest: set_takeWhileD)
  from expire_loop_ok [OF assms(1,2) refl this] obtain m' q' where
    "expire_loop timed_out later now m = Some (map snd (takeWhile (\<lambda>z. fst z \<le> now) q), m')" "timers_ok m' q'"
    "\<forall>z \<in> set q'. now < fst z"
    "\<forall>y. if y \<in> snd ` set (takeWhile (\<lambda>z. fst z \<le> now) q)
          then requeued (wakes (easy m y) (timed_out y)) (later y) now (easy m y) (easy m' y)
          else easy m' y = easy m y" by blast
  note r = this [unfolded requeued_def]
  have "\<forall>k y. (k, y) \<in> set q' \<longleftrightarrow> k = expiretime (easy m' y) \<and> k \<noteq> tv_zero"
    using r(2) by (simp add: timers_but_def)
  with r show ?thesis unfolding Let_def by blast
qed

text \<open>
  Transfer 3 waits and has a timer that is due and one that is not; it is over its time two
  seconds later. After the loop it is in the tree under the second timer.
\<close>

theorem perform_expires_due_witness:
  "\<exists>m m' q'. foldl timer_step (Some (new_timers (\<lambda>_. no_timers)))
      [Expire (Curltime 1 0) 3 0 10, Expire (Curltime 1 0) 3 500 2, Wait 3] = Some m \<and>
    expire_loop (\<lambda>x. x = 3) (\<lambda>_. Curltime 3 0) (Curltime 1 200000) m = Some ([3], m') \<and>
    timers_ok m' q' \<and> timer_list (easy m' 3) = [2, 8] \<and> expiretime (easy m' 3) = Curltime 1 500000 \<and>
    (Curltime 1 500000, 3) \<in> set q'"
proof -
  let ?m = "new_timers (\<lambda>_. no_timers)"
  let ?ops = "[Expire (Curltime 1 0) 3 0 10, Expire (Curltime 1 0) 3 500 2, Wait 3]"
  let ?loop = "expire_loop (\<lambda>x. x = 3) (\<lambda>_. Curltime 3 0) (Curltime 1 200000)"
  have "timers_ok ?m []" by (rule new_timers_ok) simp
  then obtain m q where m: "foldl timer_step (Some ?m) ?ops = Some m" "timers_ok m q"
    by (rule timers_run_idle [of ?m "[]" ?ops]) (simp_all add: time_ok_def)
  have "case foldl timer_step (Some ?m) ?ops of None \<Rightarrow> False | Some m \<Rightarrow>
      pending (easy m 3) \<and> in_multi (easy m 3) \<and> Curl_timediff (Curltime 3 0) (expiretime (easy m 3)) > 0 \<and>
      woken_list True (Curltime 3 0) (easy m 3) = [10, 2, 8] \<and>
      node_time (easy m 3) 10 = Curltime 1 0 \<and> node_time (easy m 3) 2 = Curltime 1 500000 \<and>
      map_option fst (?loop m) = Some [3]"
    by code_simp
  then have d: "pending (easy m 3)" "in_multi (easy m 3)" "Curl_timediff (Curltime 3 0) (expiretime (easy m 3)) > 0"
    "woken_list True (Curltime 3 0) (easy m 3) = [10, 2, 8]"
    "node_time (easy m 3) 10 = Curltime 1 0" "node_time (easy m 3) 2 = Curltime 1 500000"
    "map_option fst (?loop m) = Some [3]"
    using m(1) by simp_all
  have "\<forall>z \<in> set q. fst z \<le> Curltime 1 200000 \<longrightarrow> waits_safely (easy m (snd z)) (snd z = 3) (Curltime 3 0)"
    using d(2,3) by (auto simp: waits_safely_def time_ok_def)
  then obtain m' q' where
    r: "?loop m = Some (map snd (takeWhile (\<lambda>z. fst z \<le> Curltime 1 200000) q), m')" "timers_ok m' q'"
    "\<forall>k y. (k, y) \<in> set q' \<longleftrightarrow> k = expiretime (easy m' y) \<and> k \<noteq> tv_zero"
    "\<forall>y. if y \<in> snd ` set (takeWhile (\<lambda>z. fst z \<le> Curltime 1 200000) q)
         then
           let d = easy m y; d' = easy m' y; wake = pending d \<and> y = 3
           in node_time d' = woken_times wake (Curltime 3 0) d \<and>
              timer_list d' = dropWhile (\<lambda>a. node_time d' a \<le> Curltime 1 200000) (woken_list wake (Curltime 3 0) d) \<and>
              expiretime d' = (case timer_list d' of [] \<Rightarrow> tv_zero | a # _ \<Rightarrow> node_time d' a)
         else easy m' y = easy m y"
    using perform_expires_due [OF m(2), of "Curltime 1 200000" "\<lambda>x. x = 3" "\<lambda>_. Curltime 3 0"] by (auto simp: time_ok_def)
  have taken: "map snd (takeWhile (\<lambda>z. fst z \<le> Curltime 1 200000) q) = [3]" using r(1) d(7) by simp
  then have "3 \<in> snd ` set (takeWhile (\<lambda>z. fst z \<le> Curltime 1 200000) q)" by (metis list.set_intros(1) set_map)
  with r(4) [rule_format, of 3] d(1)
  have three: "node_time (easy m' 3) = woken_times True (Curltime 3 0) (easy m 3)"
    "timer_list (easy m' 3) = dropWhile (\<lambda>a. node_time (easy m' 3) a \<le> Curltime 1 200000) [10, 2, 8]"
    "expiretime (easy m' 3) = (case timer_list (easy m' 3) of [] \<Rightarrow> tv_zero | a # _ \<Rightarrow> node_time (easy m' 3) a)"
    unfolding Let_def using d(4) by simp_all
  then have "timer_list (easy m' 3) = [2, 8]" "expiretime (easy m' 3) = Curltime 1 500000"
    using d(5,6) by (simp_all add: woken_times_def EXPIRE_RUN_NOW_def less_eq_curltime_def)
  moreover from this(2) have "(Curltime 1 500000, 3) \<in> set q'" using r(3) by (simp add: tv_zero_def)
  ultimately show ?thesis using m(1) r(1,2) taken by auto
qed

text \<open>
  C10. The timeout reported to the application: none without timers; zero when the first
  timer is due; otherwise milliseconds after which it is due, rounded up by less than two,
  as long as the timer is due two seconds before the largest value of a \<open>long\<close> of \<open>w\<close> bits,
  counted in milliseconds, has passed.
\<close>

theorem multi_timeout_suffices:
  assumes "timers_ok m q" "\<not> dead m" "time_ok now" "multi_timeout w now m = (ms, m')" "w \<le> 64"
    "case q of [] \<Rightarrow> True | (k, x) # _ \<Rightarrow> usecs k - usecs now < (2 ^ (w - 1) - 2000) * 1000"
  shows "timers_ok m' q \<and>
    (case q of
       [] \<Rightarrow> ms = - 1
     | (k, x) # _ \<Rightarrow>
         if k \<le> now then ms = 0
         else usecs k \<le> usecs now + ms * 1000 \<and> usecs now + ms * 1000 < usecs k + 2000)"
proof -
  note f = multi_timeout_first [OF assms(1,2,4)]
  show ?thesis
  proof (cases q)
    case (Cons z zs)
    obtain k x where z: "z = (k, x)" by (cases z)
    have "k = expiretime (easy m x)" "k \<noteq> tv_zero" "easy_ok (easy m x)"
      using assms(1) Cons z by (auto simp: timers_but_def)
    then have k: "time_ok k" using easy_ok_exp by metis
    show ?thesis
    proof (cases "now < k")
      case True
      then have "\<not> k \<le> now" by simp
      with timeout_fits [OF k assms(3) True _ assms(5)] assms(6) f Cons z True show ?thesis by simp
    next
      case False
      then have "k \<le> now" by simp
      with f Cons z False show ?thesis by simp
    qed
  qed (use f in simp)
qed

theorem multi_timeout_suffices_witness:
  "\<exists>m ms m'. foldl timer_step (Some (new_timers (\<lambda>_. no_timers))) [Expire (Curltime 1 0) 3 250 10] = Some m \<and>
    multi_timeout 32 (Curltime 1 100) m = (ms, m') \<and> timers_ok m' [(Curltime 1 250000, 3)] \<and>
    1250000 \<le> 1000100 + ms * 1000 \<and> 1000100 + ms * 1000 < 1252000"
proof -
  let ?m = "new_timers (\<lambda>_. no_timers)"
  have t: "expire_set (Curltime 1 0) 250 = Curltime 1 250000"
    by (simp add: expire_set_def signed_divide_int_def signed_modulo_int_def)
  have p: "timers_ok ?m []" "in_multi (easy ?m 3)" "time_ok (Curltime 1 0)" "(0 :: int) \<le> 250"
    by (simp_all add: new_timers_ok) (simp_all add: new_timers_def no_timers_def time_ok_def)
  have z: "expiretime (easy ?m 3) = tv_zero" by (simp add: new_timers_def no_timers_def)
  obtain m where m: "Curl_expire (Curltime 1 0) ?m 3 250 10 = Some m" "timers_ok m [(Curltime 1 250000, 3)]"
    by (rule expire_ok [OF p, of 10]) (use z t in \<open>auto simp: enqueue_def\<close>)
  have "case Curl_expire (Curltime 1 0) ?m 3 250 10 of None \<Rightarrow> False | Some m \<Rightarrow> \<not> dead m" by code_simp
  then have live: "\<not> dead m" using m(1) by simp
  obtain ms m' where ms: "multi_timeout 32 (Curltime 1 100) m = (ms, m')" by (cases "multi_timeout 32 (Curltime 1 100) m")
  have now: "time_ok (Curltime 1 100)" by (simp add: time_ok_def)
  have "timers_ok m' [(Curltime 1 250000, 3)] \<and>
    (case [(Curltime 1 250000, 3 :: node)] of
       [] \<Rightarrow> ms = - 1
     | (k, x) # _ \<Rightarrow>
         if k \<le> Curltime 1 100 then ms = 0
         else usecs k \<le> usecs (Curltime 1 100) + ms * 1000 \<and> usecs (Curltime 1 100) + ms * 1000 < usecs k + 2000)"
    by (rule multi_timeout_suffices [OF m(2) live now ms]) (simp_all add: usecs_def)
  with m(1) ms show ?thesis by (auto simp: usecs_def less_eq_curltime_def)
qed

text \<open>
  The condition is needed with a \<open>long\<close> of 32 bits, although the comment in the code says
  the conversion is safe. The longest timeout that can be asked for, 2147483647 milliseconds,
  is rounded up to one more when the microseconds are borrowed, and becomes negative: the
  application is told that there is no timer.
\<close>

lemma long_timeout_wraps:
  "to_long 32 (Curl_timediff_ceil (expire_set (Curltime 1 500000) 2147483647) (Curltime 1 500000)) = - 2147483648"
  unfolding timediff_limits Curl_timediff_ceil_def expire_set_def
  by (simp add: signed_divide_int_def signed_modulo_int_def to_long_def)

text \<open>
  C9. A later timer can put off an earlier one. \<open>Curl_expire\<close> moves the key of the transfer to
  the new time unless \<open>Curl_timediff\<close> is positive, and that counts whole milliseconds: a timer
  that is set again every 999 microseconds takes the key along, up to nearly a second past
  the timer (here number 10) that is due first and still in the list.
\<close>

theorem expire_postpones:
  assumes "n \<le> 1000"
  shows "\<exists>m. foldl timer_step (Some (new_timers (\<lambda>_. no_timers)))
      (Expire (Curltime 1 0) x 0 10 # map (\<lambda>i. Expire (Curltime 1 (999 * int i)) x 0 8) [0..<Suc n]) = Some m \<and>
    timers_ok m [(Curltime 1 (999 * int n), x)] \<and> 10 \<in> set (timer_list (easy m x)) \<and>
    node_time (easy m x) 10 = Curltime 1 0"
proof -
  let ?run = "\<lambda>n. foldl timer_step (Some (new_timers (\<lambda>_. no_timers)))
      (Expire (Curltime 1 0) x 0 10 # map (\<lambda>i. Expire (Curltime 1 (999 * int i)) x 0 8) [0..<n])"
  let ?good = "\<lambda>m u. timers_ok m [(Curltime 1 u, x)] \<and> in_multi (easy m x) \<and> 10 \<in> set (timer_list (easy m x)) \<and>
    node_time (easy m x) 10 = Curltime 1 0"
  let ?m = "new_timers (\<lambda>_. no_timers)" and ?t = "Curltime 1 0"
  have new: "easy ?m x = no_timers" "timer_list no_timers = []" "expiretime no_timers = tv_zero" "in_multi no_timers"
    by (simp_all add: new_timers_def no_timers_def timer_list_def Curl_llist_init_def)
  have t: "time_ok ?t" "expire_set ?t 0 = ?t"
    by (simp_all add: time_ok_def expire_set_def signed_divide_int_def signed_modulo_int_def)
  have p: "timers_ok ?m []" "in_multi (easy ?m x)" using new by (simp_all add: new_timers_ok)
  obtain m0 where e: "Curl_expire ?t ?m x 0 10 = Some m0"
    "timer_list (easy m0 x) = insert_timer (node_time (easy ?m x)) ?t 10 (remove1 10 (timer_list (easy ?m x)))"
    "node_time (easy m0 x) = (node_time (easy ?m x))(10 := ?t)" "in_multi (easy m0 x)"
    "if expiretime (easy ?m x) = tv_zero then timers_ok m0 (enqueue ?t x []) \<and> expiretime (easy m0 x) = ?t
     else if Curl_timediff ?t (expiretime (easy ?m x)) > 0 then timers_ok m0 [] \<and> expiretime (easy m0 x) = expiretime (easy ?m x)
     else timers_ok m0 (enqueue ?t x (filter (\<lambda>y. snd y \<noteq> x) [])) \<and> expiretime (easy m0 x) = ?t"
    by (rule expire_ok [OF p t(1) order_refl, of 10, unfolded t(2)]) blast
  then have m0: "Curl_expire ?t ?m x 0 10 = Some m0" "?good m0 0"
    by (simp_all add: new set_insert_timer enqueue_def)
  have "\<exists>m. ?run (Suc n) = Some m \<and> ?good m (999 * int n)" if "n \<le> 1000" for n
    using that
  proof (induction n)
    case 0
    have t: "time_ok (Curltime 1 0)" by (simp add: time_ok_def)
    show ?case
      by (rule postpone_step [OF m0(2) [THEN conjunct1] m0(2) [THEN conjunct2, THEN conjunct1] t, of 8])
        (use m0 in auto)
  next
    case (Suc n)
    then obtain m where m: "?run (Suc n) = Some m" "?good m (999 * int n)" by auto
    have t: "time_ok (Curltime 1 (999 * int (Suc n)))" using Suc.prems by (simp add: time_ok_def)
    have run: "?run (Suc (Suc n)) = timer_step (?run (Suc n)) (Expire (Curltime 1 (999 * int (Suc n))) x 0 8)" by simp
    show ?case
      unfolding run m(1)
      by (rule postpone_step [OF m(2) [THEN conjunct1] m(2) [THEN conjunct2, THEN conjunct1] t, of 8]) (use m in auto)
  qed
  from this [OF assms] show ?thesis by blast
qed

theorem expire_postpones_witness:
  "\<exists>m. foldl timer_step (Some (new_timers (\<lambda>_. no_timers)))
      (Expire (Curltime 1 0) 5 0 10 # map (\<lambda>i. Expire (Curltime 1 (999 * int i)) 5 0 8) [0..<Suc 1000]) = Some m \<and>
    timers_ok m [(Curltime 1 (999 * int 1000), 5)] \<and> 10 \<in> set (timer_list (easy m 5)) \<and>
    node_time (easy m 5) 10 = Curltime 1 0"
  by (rule expire_postpones) simp











text \<open>\<open>Curl_timediff_ceil\<close> rounds a borrowed half second up by a millisecond too many.\<close>

lemma timediff_ceil_rounds_twice: "Curl_timediff_ceil (Curltime 1 0) (Curltime 0 500000) = 501"
  unfolding timediff_limits Curl_timediff_ceil_def by (simp add: signed_divide_int_def)

end
