(* ===== verification/Inet.thy ===== *)
theory Inet
  imports Escape
begin

text \<open>
  Textual network addresses, \<open>inet_pton.c\<close> and \<open>inet_ntop.c\<close>. The bytes written through
  \<open>tp\<close> are a list whose last element is \<open>*tp\<close> in \<open>inet_pton4\<close>; in \<open>inet_pton6\<close> the block
  \<open>tmp\<close> is a list of 16 bytes and \<open>tp\<close> and \<open>colonp\<close> are indices. Conversions that are left
  shifts by a digit and an OR into the cleared bits are written as sums.

  The numbers that \<open>msnprintf\<close> prints for \<open>%d\<close> and \<open>%x\<close> are their digits, \<open>digits_of\<close>. What
  is printed is read back as the same address, and dotted quads are accepted in this form
  only.
\<close>

datatype address_family = AF_INET | AF_INET6 | AF_OTHER

definition INADDRSZ :: nat where "INADDRSZ = 4"
definition IN6ADDRSZ :: nat where "IN6ADDRSZ = 16"
definition INT16SZ :: nat where "INT16SZ = 2"

subsection \<open>Parsing\<close>

text \<open>\<open>strchr\<close> as it is used here: the index of a character in a string of digits.\<close>

fun strchr_index :: "byte list \<Rightarrow> byte \<Rightarrow> nat option" where
  "strchr_index [] cc = None"
| "strchr_index (c # cs) cc = (if c = cc then Some 0 else map_option Suc (strchr_index cs cc))"

definition pton_digits :: "byte list" where "pton_digits = s2b ''0123456789''"
definition xdigits_l :: "byte list" where "xdigits_l = s2b ''0123456789abcdef''"
definition xdigits_u :: "byte list" where "xdigits_u = s2b ''0123456789ABCDEF''"

text \<open>The loop of \<open>inet_pton4\<close>: what has been written, and the number of octets seen.\<close>

fun pton4_loop :: "byte list \<Rightarrow> bool \<Rightarrow> nat \<Rightarrow> byte list \<Rightarrow> (nat \<times> byte list) option" where
  "pton4_loop [] saw_digit octets tmp = Some (octets, tmp)"
| "pton4_loop (cc # src) saw_digit octets tmp =
     (case strchr_index pton_digits cc of
        Some pch \<Rightarrow>
          let val = unat (last tmp) * 10 + pch
          in if saw_digit \<and> last tmp = 0 then None
             else if val > 255 then None
             else
               let tmp = butlast tmp @ [word_of_nat val]
               in if \<not> saw_digit then
                    if octets + 1 > 4 then None else pton4_loop src True (octets + 1) tmp
                  else pton4_loop src True octets tmp
      | None \<Rightarrow>
          if cc = 0x2E \<and> saw_digit then
            if octets = 4 then None else pton4_loop src False octets (tmp @ [0])
          else None)"

definition inet_pton4 :: "byte list \<Rightarrow> byte list option" where
  "inet_pton4 src =
     (case pton4_loop src False 0 [0] of
        None \<Rightarrow> None
      | Some (octets, tmp) \<Rightarrow> if octets < 4 then None else Some (take INADDRSZ tmp))"

text \<open>The variables of \<open>inet_pton6\<close>.\<close>

record pton6 =
  tmp :: "byte list"
  tp :: nat
  colonp :: "nat option"
  curtok :: "byte list"
  saw_xdigit :: nat
  pval :: nat

text \<open>The value read so far goes into two bytes at \<open>tp\<close>.\<close>

definition pton6_store :: "pton6 \<Rightarrow> pton6" where
  "pton6_store v =
     v\<lparr>tmp := (tmp v)[tp v := word_of_nat (pval v div 256), tp v + 1 := word_of_nat (pval v)], tp := tp v + 2,
       saw_xdigit := 0, pval := 0\<rparr>"

fun pton6_loop :: "byte list \<Rightarrow> pton6 \<Rightarrow> pton6 option" where
  "pton6_loop [] v = Some v"
| "pton6_loop (cc # src) v =
     (case (case strchr_index xdigits_l cc of None \<Rightarrow> strchr_index xdigits_u cc | Some i \<Rightarrow> Some i) of
        Some d \<Rightarrow>
          if saw_xdigit v + 1 > 4 then None
          else pton6_loop src (v\<lparr>pval := pval v * 16 + d, saw_xdigit := saw_xdigit v + 1\<rparr>)
      | None \<Rightarrow>
          if cc = 0x3A then
            (let v = v\<lparr>curtok := src\<rparr>
             in if saw_xdigit v = 0 then
                  if colonp v \<noteq> None then None else pton6_loop src (v\<lparr>colonp := Some (tp v)\<rparr>)
                else if tp v + INT16SZ > IN6ADDRSZ then None
                else pton6_loop src (pton6_store v))
          else if cc = 0x2E \<and> tp v + INADDRSZ \<le> IN6ADDRSZ then
            (case inet_pton4 (curtok v) of
               None \<Rightarrow> None
             | Some bs \<Rightarrow>
                 Some (v\<lparr>tmp := take (tp v) (tmp v) @ bs @ drop (tp v + INADDRSZ) (tmp v),
                         tp := tp v + INADDRSZ, saw_xdigit := 0\<rparr>))
          else None)"

text \<open>The bytes from \<open>colonp\<close> on are moved to the end, one at a time from the last.\<close>

fun pton6_shift :: "nat \<Rightarrow> nat \<Rightarrow> nat \<Rightarrow> byte list \<Rightarrow> byte list" where
  "pton6_shift 0 c n m = m"
| "pton6_shift (Suc k) c n m =
     (let i = n - k; m = m[IN6ADDRSZ - i := m ! (c + n - i)]
      in pton6_shift k c n (m[c + n - i := 0]))"

definition pton6_finish :: "pton6 \<Rightarrow> byte list option" where
  "pton6_finish v =
     (case (if saw_xdigit v \<noteq> 0 then
              if tp v + INT16SZ > IN6ADDRSZ then None else Some (pton6_store v)
            else Some v) of
        None \<Rightarrow> None
      | Some v \<Rightarrow>
          (case colonp v of
             Some c \<Rightarrow>
               if tp v = IN6ADDRSZ then None
               else Some (pton6_shift (tp v - c) c (tp v - c) (tmp v))
           | None \<Rightarrow> if tp v \<noteq> IN6ADDRSZ then None else Some (tmp v)))"

definition inet_pton6 :: "byte list \<Rightarrow> byte list option" where
  "inet_pton6 src =
     (if at src 0 = 0x3A \<and> at src 1 \<noteq> 0x3A then None
      else
        let src = (if at src 0 = 0x3A then drop 1 src else src)
        in case pton6_loop src \<lparr>tmp = replicate IN6ADDRSZ 0, tp = 0, colonp = None, curtok = src, saw_xdigit = 0, pval = 0\<rparr> of
             None \<Rightarrow> None
           | Some v \<Rightarrow> pton6_finish v)"

text \<open>The result and what is stored.\<close>

definition Curl_inet_pton :: "address_family \<Rightarrow> byte list \<Rightarrow> int \<times> byte list option" where
  "Curl_inet_pton af src =
     (case af of
        AF_INET \<Rightarrow> (case inet_pton4 src of None \<Rightarrow> (0, None) | Some dst \<Rightarrow> (1, Some dst))
      | AF_INET6 \<Rightarrow> (case inet_pton6 src of None \<Rightarrow> (0, None) | Some dst \<Rightarrow> (1, Some dst))
      | AF_OTHER \<Rightarrow> (- 1, None))"

subsection \<open>Printing\<close>

fun digits_of :: "nat \<Rightarrow> nat \<Rightarrow> byte list" where
  "digits_of base n =
     (if base < 2 \<or> n < base then [xdigits_l ! n]
      else digits_of base (n div base) @ [xdigits_l ! (n mod base)])"

declare digits_of.simps [simp del]

definition dotted :: "byte list \<Rightarrow> byte list" where
  "dotted src =
     digits_of 10 (unat (src ! 0)) @ [0x2E] @ digits_of 10 (unat (src ! 1)) @ [0x2E] @
     digits_of 10 (unat (src ! 2)) @ [0x2E] @ digits_of 10 (unat (src ! 3))"

definition inet_ntop4 :: "byte list \<Rightarrow> nat \<Rightarrow> byte list option" where
  "inet_ntop4 src buflen =
     (let tmp = take 15 (dotted src)
      in if length tmp = 0 \<or> length tmp \<ge> buflen then None else Some tmp)"

definition words_of :: "byte list \<Rightarrow> nat list" where
  "words_of src = map (\<lambda>i. unat (src ! (2 * i)) * 256 + unat (src ! (2 * i + 1))) [0..<8]"

text \<open>A run of zero words is its base and length.\<close>

definition better_run :: "(nat \<times> nat) option \<Rightarrow> nat \<times> nat \<Rightarrow> (nat \<times> nat) option" where
  "better_run best cur = (case best of None \<Rightarrow> Some cur | Some b \<Rightarrow> if snd cur > snd b then Some cur else Some b)"

fun runs_loop ::
  "nat list \<Rightarrow> nat \<Rightarrow> (nat \<times> nat) option \<Rightarrow> (nat \<times> nat) option \<Rightarrow> (nat \<times> nat) option \<times> (nat \<times> nat) option" where
  "runs_loop [] i best cur = (best, cur)"
| "runs_loop (w # ws) i best cur =
     (if w = 0 then
        runs_loop ws (i + 1) best (case cur of None \<Rightarrow> Some (i, 1) | Some (b, l) \<Rightarrow> Some (b, l + 1))
      else
        case cur of
          None \<Rightarrow> runs_loop ws (i + 1) best None
        | Some c \<Rightarrow> runs_loop ws (i + 1) (better_run best c) None)"

definition best_run :: "nat list \<Rightarrow> (nat \<times> nat) option" where
  "best_run ws =
     (case runs_loop ws 0 None None of
        (best, cur) \<Rightarrow>
          let best = (case cur of None \<Rightarrow> best | Some c \<Rightarrow> better_run best c)
          in case best of None \<Rightarrow> None | Some (b, l) \<Rightarrow> if l < 2 then None else Some (b, l))"

text \<open>The size of \<open>tmp\<close> is that of the longest address with its final zero.\<close>

definition NTOP6_TMP :: nat where "NTOP6_TMP = 46"

fun ntop6_loop :: "byte list \<Rightarrow> nat list \<Rightarrow> (nat \<times> nat) option \<Rightarrow> nat list \<Rightarrow> byte list \<Rightarrow> byte list option" where
  "ntop6_loop src ws best [] out = Some out"
| "ntop6_loop src ws best (i # is) out =
     (if (case best of Some (b, l) \<Rightarrow> b \<le> i \<and> i < b + l | None \<Rightarrow> False) then
        ntop6_loop src ws best is (if map_option fst best = Some i then out @ [0x3A] else out)
      else
        let out = (if i \<noteq> 0 then out @ [0x3A] else out)
        in if i = 6 \<and> (best = Some (0, 6) \<or> best = Some (0, 5) \<and> ws ! 5 = 0xffff) then
             (case inet_ntop4 (drop 12 src) (NTOP6_TMP - length out) of
                None \<Rightarrow> None
              | Some s \<Rightarrow> Some (out @ s))
           else ntop6_loop src ws best is (out @ take 4 (digits_of 16 (ws ! i))))"

definition inet_ntop6 :: "byte list \<Rightarrow> nat \<Rightarrow> byte list option" where
  "inet_ntop6 src buflen =
     (let ws = words_of src; best = best_run ws
      in case ntop6_loop src ws best [0..<8] [] of
           None \<Rightarrow> None
         | Some out \<Rightarrow>
             let out = (case best of Some (b, l) \<Rightarrow> if b + l = 8 then out @ [0x3A] else out | None \<Rightarrow> out)
             in if length out + 1 > buflen then None else Some out)"

definition Curl_inet_ntop :: "address_family \<Rightarrow> byte list \<Rightarrow> nat \<Rightarrow> byte list option" where
  "Curl_inet_ntop af src buflen =
     (case af of AF_INET \<Rightarrow> inet_ntop4 src buflen | AF_INET6 \<Rightarrow> inet_ntop6 src buflen | AF_OTHER \<Rightarrow> None)"

subsection \<open>Digits\<close>

lemma strchr_decimal: "d < 10 \<Longrightarrow> strchr_index pton_digits (xdigits_l ! d) = Some d"
proof -
  have "list_all (\<lambda>d. strchr_index pton_digits (xdigits_l ! d) = Some d) [0..<10]" by code_simp
  then show "d < 10 \<Longrightarrow> strchr_index pton_digits (xdigits_l ! d) = Some d" by (simp add: list_all_iff)
qed

lemma strchr_hex: "d < 16 \<Longrightarrow> strchr_index xdigits_l (xdigits_l ! d) = Some d"
proof -
  have "list_all (\<lambda>d. strchr_index xdigits_l (xdigits_l ! d) = Some d) [0..<16]" by code_simp
  then show "d < 16 \<Longrightarrow> strchr_index xdigits_l (xdigits_l ! d) = Some d" by (simp add: list_all_iff)
qed

lemma strchr_SomeD: "strchr_index cs c = Some i \<Longrightarrow> i < length cs \<and> cs ! i = c"
  by (induction cs arbitrary: i) (auto split: if_splits)

lemma strchr_decimal_iff: "strchr_index pton_digits c = Some d \<longleftrightarrow> d < 10 \<and> c = xdigits_l ! d"
proof
  have "list_all (\<lambda>i. pton_digits ! i = xdigits_l ! i) [0..<10]" "length pton_digits = 10" by code_simp+
  moreover assume "strchr_index pton_digits c = Some d"
  ultimately show "d < 10 \<and> c = xdigits_l ! d" by (auto simp: list_all_iff dest!: strchr_SomeD)
qed (simp add: strchr_decimal)

lemma separators [simp]:
  "strchr_index pton_digits 0x2E = None" "strchr_index xdigits_l 0x2E = None" "strchr_index xdigits_u 0x2E = None"
  "strchr_index xdigits_l 0x3A = None" "strchr_index xdigits_u 0x3A = None"
  by code_simp+

lemma digits_of_small: "n < base \<Longrightarrow> digits_of base n = [xdigits_l ! n]"
  by (simp add: digits_of.simps [of base n])

lemma digits_of_step: "2 \<le> base \<Longrightarrow> 0 < n \<Longrightarrow> d < base \<Longrightarrow> digits_of base (n * base + d) = digits_of base n @ [xdigits_l ! d]"
proof -
  assume a: "2 \<le> base" "0 < n" "d < base"
  then have "\<not> n * base + d < base" by (cases n) simp_all
  then show ?thesis using a by (simp add: digits_of.simps [of base "n * base + d"])
qed

lemma digits_of_split: "2 \<le> base \<Longrightarrow> base \<le> n \<Longrightarrow> digits_of base n = digits_of base (n div base) @ [xdigits_l ! (n mod base)]"
  by (simp add: digits_of.simps [of base n])

lemma digits_of_nonempty [simp]: "digits_of base n \<noteq> []"
  by (simp add: digits_of.simps [of base n])

lemma digits_of_length: "2 \<le> base \<Longrightarrow> 0 < k \<Longrightarrow> n < base ^ k \<Longrightarrow> length (digits_of base n) \<le> k"
proof (induction k arbitrary: n)
  case (Suc k)
  show ?case
  proof (cases "n < base")
    case False
    then have "k \<noteq> 0" using Suc.prems(3) by (cases k) simp_all
    moreover have "n div base < base ^ k" using Suc.prems by (simp add: less_mult_imp_div_less mult.commute)
    ultimately have "length (digits_of base (n div base)) \<le> k" using Suc.IH Suc.prems(1) by simp
    then show ?thesis using False Suc.prems(1) by (simp add: digits_of_split)
  qed (simp add: digits_of_small)
qed simp

subsection \<open>Dotted quads\<close>

lemma pton4_digits:
  "n < 256 \<Longrightarrow> k < 4 \<Longrightarrow>
   pton4_loop (digits_of 10 n @ rest) False k (t @ [0]) = pton4_loop rest True (k + 1) (t @ [word_of_nat n])"
proof (induction n arbitrary: rest rule: less_induct)
  case (less n)
  show ?case
  proof (cases "n < 10")
    case True
    then show ?thesis using less.prems by (simp add: digits_of_small strchr_decimal)
  next
    case False
    then have q: "n div 10 < n" "n div 10 < 256" "0 < n div 10" using less.prems by simp_all
    have d: "digits_of 10 n = digits_of 10 (n div 10) @ [xdigits_l ! (n mod 10)]" using False by (simp add: digits_of_split)
    have u: "unat (word_of_nat (n div 10) :: byte) = n div 10" using q(2) by (simp add: unat_of_nat)
    then have nz: "(word_of_nat (n div 10) :: byte) \<noteq> 0" using q(3) by (metis unat_0 less_numeral_extra(3))
    have v: "n div 10 * 10 + n mod 10 = n" by simp
    show ?thesis
      unfolding d append_assoc less.IH [OF q(1,2) less.prems(2)]
      using less.prems nz by (simp add: strchr_decimal u v)
  qed
qed

lemma pton4_dotted:
  assumes "length bs = 4"
  shows "inet_pton4 (dotted bs) = Some bs"
proof -
  obtain a b c d where bs: "bs = [a, b, c, d]"
    using assms by (auto simp: numeral_eq_Suc length_Suc_conv)
  have e: "0x2E # xs = [0x2E] @ xs" for xs :: "byte list" by simp
  have g: "pton4_loop (digits_of 10 (unat x) @ rest) False k (t @ [0]) = pton4_loop rest True (k + 1) (t @ [x])"
    if "k < 4" for x :: byte and rest k t
    using pton4_digits [of "unat x" k rest t] that unsigned_less [of x] by simp
  have "pton4_loop (dotted bs) False 0 [0] = Some (4, [a, b, c, d])"
    using g [of 0 a _ "[]"] g [of 1 b _ "[a]"] g [of "Suc (Suc 0)" c _ "[a, b]"] g [of "Suc (Suc (Suc 0))" d "[]" "[a, b, c]"]
    by (simp add: dotted_def bs numeral_eq_Suc)
  then show ?thesis by (simp add: inet_pton4_def bs INADDRSZ_def)
qed

text \<open>What has been read when so much has been written.\<close>

definition pton4_read :: "bool \<Rightarrow> byte list \<Rightarrow> byte list" where
  "pton4_read saw ts =
     concat (map (\<lambda>b. digits_of 10 (unat b) @ [0x2E]) (butlast ts)) @ (if saw then digits_of 10 (unat (last ts)) else [])"

lemma pton4_loop_reads:
  "pton4_loop src saw k ts = Some (k', ts') \<Longrightarrow> ts \<noteq> [] \<Longrightarrow> (\<not> saw \<longrightarrow> last ts = 0 \<and> k < 4) \<Longrightarrow> k \<le> 4 \<Longrightarrow>
   length ts = (if saw then k else k + 1) \<Longrightarrow>
   \<exists>saw'. pton4_read saw ts @ src = pton4_read saw' ts' \<and> length ts' = (if saw' then k' else k' + 1) \<and>
     k' \<le> 4 \<and> (\<not> saw' \<longrightarrow> k' < 4)"
proof (induction src saw k ts rule: pton4_loop.induct)
  case (1 saw k ts)
  then show ?case by (intro exI [of _ saw]) auto
next
  case (2 cc src saw k ts)
  show ?case
  proof (cases "strchr_index pton_digits cc")
    case None
    then have s: "cc = 0x2E" "saw" "k \<noteq> 4" using "2.prems"(1) by (auto split: if_splits)
    have eq: "pton4_read saw ts @ cc # src = pton4_read False (ts @ [0]) @ src"
    proof -
      obtain us x where "ts = us @ [x]" using "2.prems"(2) by (cases ts rule: rev_cases) auto
      then show ?thesis using s by (simp add: pton4_read_def butlast_append)
    qed
    have "pton4_loop src False k (ts @ [0]) = Some (k', ts')" using "2.prems"(1) None s by simp
    then show ?thesis unfolding eq using "2.IH"(1) [OF None] s "2.prems"(4,5) by simp
  next
    case (Some d)
    then have d: "d < 10" "cc = xdigits_l ! d" by (simp_all add: strchr_decimal_iff)
    define val where "val = unat (last ts) * 10 + d"
    define ts1 where "ts1 = butlast ts @ [word_of_nat val :: byte]"
    have v: "\<not> (saw \<and> last ts = 0)" "\<not> val > 255" "saw \<or> \<not> k + 1 > 4"
      and r: "pton4_loop src True (if saw then k else k + 1) ts1 = Some (k', ts')"
      using "2.prems"(1) Some unfolding val_def ts1_def by (auto simp: Let_def split: if_splits)
    have u: "unat (word_of_nat val :: byte) = val" using v(2) by (simp add: unat_of_nat)
    have dd: "digits_of 10 val = (if saw then digits_of 10 (unat (last ts)) else []) @ [xdigits_l ! d]"
    proof (cases saw)
      case True
      then have "0 < unat (last ts)" using v(1) by (simp add: unat_gt_0)
      then show ?thesis using digits_of_step [of 10 "unat (last ts)" d] d(1) True by (simp add: val_def)
    next
      case False
      then show ?thesis using "2.prems"(3) d(1) by (simp add: val_def digits_of_small)
    qed
    have read: "pton4_read saw ts @ cc # src = pton4_read True ts1 @ src"
      unfolding pton4_read_def ts1_def by (simp add: u dd d(2))
    have len: "length ts1 = (if saw then k else k + 1)" "ts1 \<noteq> []" using "2.prems"(2,5) by (auto simp: ts1_def)
    show ?thesis
    proof (cases saw)
      case True
      with "2.IH"(3) [OF Some refl _ _ refl, folded val_def, folded ts1_def] v r len "2.prems"(4)
      show ?thesis unfolding read by simp
    next
      case False
      with "2.IH"(2) [OF Some refl _ _ refl, folded val_def, folded ts1_def] v r len
      show ?thesis unfolding read by simp
    qed
  qed
qed

lemma pton4_exact_aux: "inet_pton4 s = Some bs \<longleftrightarrow> length bs = 4 \<and> s = dotted bs"
proof
  assume "inet_pton4 s = Some bs"
  then obtain k ts where r: "pton4_loop s False 0 [0] = Some (k, ts)" "\<not> k < 4" "bs = take INADDRSZ ts"
    by (auto simp: inet_pton4_def split: option.splits prod.splits if_splits)
  from pton4_loop_reads [OF r(1)] obtain saw where w:
    "pton4_read False [0] @ s = pton4_read saw ts" "length ts = (if saw then k else k + 1)" "k \<le> 4" "\<not> saw \<longrightarrow> k < 4"
    by auto
  then have saw: "saw" "length ts = 4" using r(2) by auto
  then obtain a b c d where ts: "ts = [a, b, c, d]" by (auto simp: numeral_eq_Suc length_Suc_conv)
  then show "length bs = 4 \<and> s = dotted bs" using w(1) saw(1) r(3) by (simp add: pton4_read_def dotted_def INADDRSZ_def)
qed (auto simp: pton4_dotted)

subsection \<open>Groups of hexadecimal digits\<close>

lemma pton6_digits:
  "n < 65536 \<Longrightarrow> saw_xdigit v = 0 \<Longrightarrow> pval v = 0 \<Longrightarrow>
   pton6_loop (digits_of 16 n @ rest) v = pton6_loop rest (v\<lparr>pval := n, saw_xdigit := length (digits_of 16 n)\<rparr>)"
proof (induction n arbitrary: rest rule: less_induct)
  case (less n)
  show ?case
  proof (cases "n < 16")
    case True
    then show ?thesis using less.prems by (simp add: digits_of_small strchr_hex)
  next
    case False
    then have q: "n div 16 < n" "n div 16 < 65536" using less.prems(1) by simp_all
    have d: "digits_of 16 n = digits_of 16 (n div 16) @ [xdigits_l ! (n mod 16)]" using False by (simp add: digits_of_split)
    have "length (digits_of 16 n) \<le> 4" using digits_of_length [of 16 4 n] less.prems(1) by simp
    then have l: "length (digits_of 16 (n div 16)) + 1 \<le> 4" unfolding d by simp
    show ?thesis
      unfolding d append_assoc less.IH [OF q less.prems(2,3)]
      using l by (simp add: strchr_hex)
  qed
qed

text \<open>Digits of a decimal number are read as hexadecimal ones before the first dot is seen.\<close>

lemma pton6_decimal:
  "n < 256 \<Longrightarrow> saw_xdigit v = 0 \<Longrightarrow>
   \<exists>x. pton6_loop (digits_of 10 n @ rest) v = pton6_loop rest (v\<lparr>pval := x, saw_xdigit := length (digits_of 10 n)\<rparr>)"
proof (induction n arbitrary: rest rule: less_induct)
  case (less n)
  show ?case
  proof (cases "n < 10")
    case True
    then show ?thesis using less.prems by (auto simp: digits_of_small strchr_hex)
  next
    case False
    then have q: "n div 10 < n" "n div 10 < 256" using less.prems(1) by simp_all
    have d: "digits_of 10 n = digits_of 10 (n div 10) @ [xdigits_l ! (n mod 10)]" using False by (simp add: digits_of_split)
    have "length (digits_of 10 n) \<le> 3" using digits_of_length [of 10 3 n] less.prems(1) by simp
    then have l: "length (digits_of 10 (n div 10)) + 1 \<le> 4" unfolding d by simp
    have m: "n mod 10 < 16" using mod_less_divisor [of 10 n] by linarith
    obtain x where "pton6_loop (digits_of 10 (n div 10) @ [xdigits_l ! (n mod 10)] @ rest) v =
      pton6_loop ([xdigits_l ! (n mod 10)] @ rest) (v\<lparr>pval := x, saw_xdigit := length (digits_of 10 (n div 10))\<rparr>)"
      using less.IH [OF q less.prems(2)] by blast
    then show ?thesis
      unfolding d append_assoc using l m by (intro exI [of _ "x * 16 + n mod 10"]) (simp add: strchr_hex)
  qed
qed

lemma pton6_dotted:
  assumes "length bs = 4" "saw_xdigit v = 0" "curtok v = dotted bs" "tp v + 4 \<le> 16"
  shows "\<exists>x. pton6_loop (dotted bs) v =
    Some (v\<lparr>tmp := take (tp v) (tmp v) @ bs @ drop (tp v + 4) (tmp v), tp := tp v + 4, saw_xdigit := 0, pval := x\<rparr>)"
proof -
  obtain r where d: "dotted bs = digits_of 10 (unat (bs ! 0)) @ 0x2E # r" by (auto simp: dotted_def)
  obtain x where "pton6_loop (digits_of 10 (unat (bs ! 0)) @ 0x2E # r) v =
      pton6_loop (0x2E # r) (v\<lparr>pval := x, saw_xdigit := length (digits_of 10 (unat (bs ! 0)))\<rparr>)"
    using pton6_decimal [of "unat (bs ! 0)" v "0x2E # r"] assms(2) unsigned_less [of "bs ! 0"] by auto
  moreover have "inet_pton4 (curtok v) = Some bs" using pton4_dotted [OF assms(1)] assms(3) by simp
  ultimately show ?thesis
    using assms(4) unfolding d by (intro exI [of _ x]) (simp add: INADDRSZ_def IN6ADDRSZ_def)
qed

text \<open>The bytes of words, and a block after they have been written at \<open>i\<close>.\<close>

definition word_bytes :: "nat list \<Rightarrow> byte list" where
  "word_bytes ws = concat (map (\<lambda>w. [word_of_nat (w div 256), word_of_nat w]) ws)"

lemma word_bytes_simps [simp]:
  "word_bytes [] = []" "word_bytes (w # ws) = word_of_nat (w div 256) # word_of_nat w # word_bytes ws"
  "word_bytes (us @ ws) = word_bytes us @ word_bytes ws"
  by (simp_all add: word_bytes_def)

lemma length_word_bytes [simp]: "length (word_bytes ws) = 2 * length ws"
  by (induction ws) simp_all

definition groups :: "nat list \<Rightarrow> byte list" where
  "groups ws = concat (map (\<lambda>w. digits_of 16 w @ [0x3A]) ws)"

lemma groups_simps [simp]: "groups [] = []" "groups (w # ws) = digits_of 16 w @ 0x3A # groups ws"
  by (simp_all add: groups_def)

definition put :: "nat \<Rightarrow> byte list \<Rightarrow> byte list \<Rightarrow> byte list" where
  "put i bs m = take i m @ bs @ drop (i + length bs) m"

lemma put_Nil [simp]: "put i [] m = m"
  by (simp add: put_def)

lemma put_two: "i + 2 \<le> length m \<Longrightarrow> m[i := a, i + 1 := b] = put i [a, b] m"
proof -
  assume "i + 2 \<le> length m"
  then have "i < length m" "Suc i < length m" by simp_all
  then have "m = take i m @ m ! i # m ! Suc i # drop (Suc (Suc i)) m" "length (take i m) = i"
    by (simp_all add: Cons_nth_drop_Suc)
  then obtain us x y vs where "m = us @ x # y # vs" "length us = i" by metis
  then show ?thesis by (auto simp: list_update_append put_def)
qed

lemma put_put:
  assumes "i + length as + length bs \<le> length m"
  shows "put (i + length as) bs (put i as m) = put i (as @ bs) m"
proof -
  obtain us vs ws zs where "m = us @ vs @ ws @ zs" "length us = i" "length vs = length as" "length ws = length bs"
  proof
    show "m = take i m @ take (length as) (drop i m) @ take (length bs) (drop (i + length as) m) @ drop (i + length as + length bs) m"
      by (metis append_take_drop_id drop_drop add.commute)
  qed (use assms in simp_all)
  then show ?thesis by (simp add: put_def)
qed

lemma length_put [simp]: "i + length bs \<le> length m \<Longrightarrow> length (put i bs m) = length m"
  by (simp add: put_def)

lemma pton6_groups:
  "\<forall>w \<in> set ws. w < 65536 \<Longrightarrow> saw_xdigit v = 0 \<Longrightarrow> pval v = 0 \<Longrightarrow> length (tmp v) = 16 \<Longrightarrow> tp v + 2 * length ws \<le> 16 \<Longrightarrow>
   pton6_loop (groups ws @ rest) v =
   pton6_loop rest (v\<lparr>tmp := put (tp v) (word_bytes ws) (tmp v), tp := tp v + 2 * length ws,
     curtok := if ws = [] then curtok v else rest\<rparr>)"
proof (induction ws arbitrary: v)
  case (Cons w ws)
  define v1 where "v1 = v\<lparr>curtok := groups ws @ rest, tmp := put (tp v) [word_of_nat (w div 256), word_of_nat w] (tmp v),
    tp := tp v + 2, saw_xdigit := 0, pval := 0\<rparr>"
  have "pton6_loop (groups (w # ws) @ rest) v = pton6_loop (0x3A # groups ws @ rest) (v\<lparr>pval := w, saw_xdigit := length (digits_of 16 w)\<rparr>)"
    using pton6_digits [of w v "0x3A # groups ws @ rest"] Cons.prems by simp
  also have "\<dots> = pton6_loop (groups ws @ rest) v1"
    using Cons.prems put_two [of "tp v" "tmp v"]
    by (simp add: v1_def pton6_store_def INT16SZ_def IN6ADDRSZ_def)
  also have "\<dots> = pton6_loop rest (v1\<lparr>tmp := put (tp v1) (word_bytes ws) (tmp v1), tp := tp v1 + 2 * length ws,
     curtok := if ws = [] then curtok v1 else rest\<rparr>)"
    by (rule Cons.IH) (use Cons.prems in \<open>simp_all add: v1_def\<close>)
  also have "v1\<lparr>tmp := put (tp v1) (word_bytes ws) (tmp v1), tp := tp v1 + 2 * length ws, curtok := if ws = [] then curtok v1 else rest\<rparr> =
    v\<lparr>tmp := put (tp v) (word_bytes (w # ws)) (tmp v), tp := tp v + 2 * length (w # ws), curtok := rest\<rparr>"
    using put_put [of "tp v" "[word_of_nat (w div 256), word_of_nat w]" "word_bytes ws" "tmp v"] Cons.prems
    by (cases v) (simp add: v1_def)
  finally show ?case by simp
qed simp

text \<open>A shorter address is moved apart at \<open>colonp\<close>.\<close>

lemma pton6_shift_nth:
  assumes "length m = 16" "c + n < 16"
  shows "k \<le> n \<Longrightarrow> length mk = 16 \<Longrightarrow>
    (\<forall>x < 16. mk ! x = (if x < c + k then m ! x else if x < 16 - (n - k) then 0 else m ! (x - (16 - c - n)))) \<Longrightarrow>
    length (pton6_shift k c n mk) = 16 \<and>
    (\<forall>x < 16. pton6_shift k c n mk ! x = (if x < c then m ! x else if x < 16 - n then 0 else m ! (x - (16 - c - n))))"
proof (induction k arbitrary: mk)
  case (Suc k)
  define i where "i = n - k"
  define mk' where "mk' = mk[16 - i := mk ! (c + n - i)]"
  have i: "c + n - i = c + k" "0 < i" "i \<le> n" using Suc.prems(1) by (simp_all add: i_def)
  have len: "length (mk'[c + k := 0]) = 16" using Suc.prems(2) by (simp add: mk'_def)
  have "(mk'[c + k := 0]) ! x = (if x < c + k then m ! x else if x < 16 - (n - k) then 0 else m ! (x - (16 - c - n)))"
    if x: "x < 16" for x
  proof -
    have e: "mk' ! x = (if x = 16 - i then mk ! (c + k) else mk ! x)"
      using x Suc.prems(2) i by (simp add: mk'_def nth_list_update)
    have src: "mk ! (c + k) = m ! (c + k)" using Suc.prems(3) assms(2) Suc.prems(1) by simp
    consider "x = c + k" | "x \<noteq> c + k" "x = 16 - i" | "x \<noteq> c + k" "x \<noteq> 16 - i" by blast
    then show ?thesis
    proof cases
      case 1
      moreover have "c + k < 16 - (n - k)" using Suc.prems(1) assms(2) by linarith
      ultimately show ?thesis using x Suc.prems(1,2) assms(2) by (simp add: mk'_def)
    next
      case 2
      then have "x - (16 - c - n) = c + k" "\<not> x < c + k" using assms(2) Suc.prems(1) by (auto simp: i_def)
      with 2 e src show ?thesis by (simp add: i_def add.commute)
    next
      case 3
      then have "(mk'[c + k := 0]) ! x = mk ! x" using e by simp
      also have "\<dots> = (if x < c + Suc k then m ! x else if x < 16 - (n - Suc k) then 0 else m ! (x - (16 - c - n)))"
        using Suc.prems(3) x by simp
      also have "\<dots> = (if x < c + k then m ! x else if x < 16 - (n - k) then 0 else m ! (x - (16 - c - n)))"
        using 3 Suc.prems(1) by (auto simp: i_def)
      finally show ?thesis .
    qed
  qed
  then have a: "\<forall>x < 16. (mk'[c + k := 0]) ! x = (if x < c + k then m ! x else if x < 16 - (n - k) then 0 else m ! (x - (16 - c - n)))"
    by blast
  have st: "pton6_shift (Suc k) c n mk = pton6_shift k c n (mk'[c + k := 0])"
    by (simp add: Let_def IN6ADDRSZ_def i_def [symmetric] mk'_def i(1))
  show ?case unfolding st by (rule Suc.IH [OF _ len a]) (use Suc.prems(1) in simp)
qed (use assms in simp)

lemma pton6_shift_zeros:
  assumes "length m = 16" "c + n < 16" "drop (c + n) m = replicate (16 - c - n) 0"
  shows "pton6_shift n c n m = take c m @ replicate (16 - c - n) 0 @ take n (drop c m)"
proof -
  have z: "m ! x = 0" if "c + n \<le> x" "x < 16" for x
    using assms(3) that nth_drop [of "c + n" m "x - (c + n)"] assms(1,2) by simp
  have "length (pton6_shift n c n m) = 16 \<and>
    (\<forall>x < 16. pton6_shift n c n m ! x = (if x < c then m ! x else if x < 16 - n then 0 else m ! (x - (16 - c - n))))"
    by (rule pton6_shift_nth [OF assms(1,2) order_refl assms(1)]) (use z in auto)
  then show ?thesis
    using assms(1,2) by (intro nth_equalityI) (auto simp: nth_append min_def ac_simps)
qed

subsection \<open>The printed address\<close>

text \<open>A run that is chosen is one of at least two zero words.\<close>

definition zero_run :: "nat list \<Rightarrow> nat \<times> nat \<Rightarrow> bool" where
  "zero_run ws r \<longleftrightarrow> fst r + snd r \<le> length ws \<and> (\<forall>i. fst r \<le> i \<and> i < fst r + snd r \<longrightarrow> ws ! i = 0)"

lemma runs_loop_zero:
  "ws = us @ vs \<Longrightarrow> i = length us \<Longrightarrow> pred_option (zero_run ws) best \<Longrightarrow>
   pred_option (\<lambda>c. zero_run ws c \<and> fst c + snd c = i) cur \<Longrightarrow> runs_loop vs i best cur = (best', cur') \<Longrightarrow>
   pred_option (zero_run ws) best' \<and> pred_option (zero_run ws) cur'"
proof (induction vs arbitrary: us i best cur)
  case Nil
  then show ?case by (cases cur) auto
next
  case (Cons w vs)
  have ws: "ws = (us @ [w]) @ vs" "i + 1 = length (us @ [w])" using Cons.prems(1,2) by simp_all
  have i: "i < length ws" "ws ! i = w" using Cons.prems(1,2) by simp_all
  show ?case
  proof (cases "w = 0")
    case True
    let ?cur = "case cur of None \<Rightarrow> Some (i, 1) | Some (b, l) \<Rightarrow> Some (b, l + 1)"
    have "pred_option (\<lambda>c. zero_run ws c \<and> fst c + snd c = i + 1) ?cur"
    proof (cases cur)
      case None
      then show ?thesis using i True by (auto simp: zero_run_def less_Suc_eq_le dest: le_antisym)
    next
      case (Some c)
      obtain b l where c: "c = (b, l)" by (cases c)
      then have "zero_run ws (b, l)" "b + l = i" using Cons.prems(4) Some by simp_all
      then have "zero_run ws (b, l + 1)" using i True by (auto simp: zero_run_def less_Suc_eq)
      then show ?thesis using Some c \<open>b + l = i\<close> by simp
    qed
    from Cons.IH [OF ws Cons.prems(3) this] Cons.prems(5) True show ?thesis by simp
  next
    case False
    show ?thesis
    proof (cases cur)
      case None
      from Cons.IH [OF ws Cons.prems(3), of None] Cons.prems(5) False None show ?thesis by simp
    next
      case (Some c)
      have "pred_option (zero_run ws) (better_run best c)"
        using Cons.prems(3,4) Some by (cases best) (auto simp: better_run_def)
      from Cons.IH [OF ws this, of None] Cons.prems(5) False Some show ?thesis by simp
    qed
  qed
qed

lemma best_run_zero: "best_run ws = Some (b, l) \<Longrightarrow> zero_run ws (b, l) \<and> 2 \<le> l"
proof -
  assume a: "best_run ws = Some (b, l)"
  obtain best cur where r: "runs_loop ws 0 None None = (best, cur)" by fastforce
  have "pred_option (zero_run ws) best \<and> pred_option (zero_run ws) cur"
    by (rule runs_loop_zero [of ws "[]" ws 0 None None]) (use r in simp_all)
  then have "pred_option (zero_run ws) (case cur of None \<Rightarrow> best | Some c \<Rightarrow> better_run best c)"
    by (cases cur; cases best) (auto simp: better_run_def)
  then show ?thesis
    using a r by (auto simp: best_run_def Let_def split: option.splits if_splits prod.splits)
qed

text \<open>The words from \<open>i\<close> to \<open>j\<close>, with colons between them.\<close>

definition hex_words :: "nat list \<Rightarrow> byte list" where
  "hex_words us = (if us = [] then [] else groups (butlast us) @ digits_of 16 (last us))"

lemma groups_snoc: "groups (us @ [w]) = groups us @ digits_of 16 w @ [0x3A]"
  by (simp add: groups_def)

lemma hex_words_colon: "us \<noteq> [] \<Longrightarrow> concat (map (\<lambda>w. 0x3A # digits_of 16 w) us) = 0x3A # hex_words us"
proof (induction us rule: rev_induct)
  case (snoc w us)
  show ?case
  proof (cases "us = []")
    case False
    then have "groups us = hex_words us @ [0x3A]"
      using groups_snoc [of "butlast us" "last us"] by (simp add: hex_words_def)
    with False snoc.IH show ?thesis by (simp add: hex_words_def [of "us @ [w]"])
  qed (simp add: hex_words_def)
qed simp

lemma groups_hex: "us \<noteq> [] \<Longrightarrow> groups us = hex_words us @ [0x3A]"
  using groups_snoc [of "butlast us" "last us"] by (simp add: hex_words_def)

definition embeds :: "nat list \<Rightarrow> (nat \<times> nat) option \<Rightarrow> bool" where
  "embeds ws best \<longleftrightarrow> best = Some (0, 6) \<or> best = Some (0, 5) \<and> ws ! 5 = 0xffff"

definition in_run :: "(nat \<times> nat) option \<Rightarrow> nat \<Rightarrow> bool" where
  "in_run best i = (case best of Some (b, l) \<Rightarrow> b \<le> i \<and> i < b + l | None \<Rightarrow> False)"

lemma ntop6_loop_Cons:
  "ntop6_loop src ws best (i # is) out =
     (if in_run best i then
        ntop6_loop src ws best is (if map_option fst best = Some i then out @ [0x3A] else out)
      else
        let out = (if i \<noteq> 0 then out @ [0x3A] else out)
        in if i = 6 \<and> embeds ws best then
             (case inet_ntop4 (drop 12 src) (NTOP6_TMP - length out) of
                None \<Rightarrow> None
              | Some s \<Rightarrow> Some (out @ s))
           else ntop6_loop src ws best is (out @ take 4 (digits_of 16 (ws ! i))))"
  by (simp add: in_run_def embeds_def)

lemma ntop6_outside:
  assumes "\<forall>w \<in> set ws. w < 65536"
  shows "\<forall>i \<in> set is. \<not> in_run best i \<and> \<not> (i = 6 \<and> embeds ws best) \<and> i < length ws \<and> 0 < i \<Longrightarrow>
    ntop6_loop src ws best (is @ js) out =
    ntop6_loop src ws best js (out @ concat (map (\<lambda>w. 0x3A # digits_of 16 w) (map ((!) ws) is)))"
proof (induction "is" arbitrary: out)
  case (Cons i "is")
  have "ws ! i < 65536" using assms Cons.prems by simp
  then have "length (digits_of 16 (ws ! i)) \<le> 4" using digits_of_length [of 16 4 "ws ! i"] by simp
  with Cons show ?case by (cases "i = 6") (simp_all add: ntop6_loop_Cons Let_def del: ntop6_loop.simps)
qed simp

lemma ntop6_inside:
  "\<forall>i \<in> set is. in_run best i \<and> map_option fst best \<noteq> Some i \<Longrightarrow>
   ntop6_loop src ws best (is @ js) out = ntop6_loop src ws best js out"
  by (induction "is") (simp_all add: ntop6_loop_Cons del: ntop6_loop.simps)

lemma map_nth_range: "j \<le> length ws \<Longrightarrow> map ((!) ws) [i..<j] = take (j - i) (drop i ws)"
  by (intro nth_equalityI) simp_all

text \<open>From word 0 on, up to a run or to the end.\<close>

lemma ntop6_front:
  assumes "\<forall>w \<in> set ws. w < 65536" "length ws = 8" "\<forall>i < b. \<not> in_run best i" "b \<le> 6 \<or> \<not> embeds ws best" "b \<le> 8"
  shows "ntop6_loop src ws best ([0..<b] @ js) [] = ntop6_loop src ws best js (hex_words (take b ws))"
proof (cases b)
  case 0
  then show ?thesis by (simp add: hex_words_def)
next
  case (Suc k)
  have l: "[0..<b] = 0 # [1..<b]" using Suc upt_conv_Cons [of 0 b] by simp
  obtain w us where ws: "ws = w # us" using assms(2) by (cases ws) auto
  have "w < 65536" using assms(1) ws by simp
  then have d: "length (digits_of 16 w) \<le> 4" using digits_of_length [of 16 4 w] by simp
  have "ntop6_loop src ws best ([0..<b] @ js) [] = ntop6_loop src ws best ([1..<b] @ js) (digits_of 16 w)"
    using assms(3) Suc d unfolding l by (simp add: ntop6_loop_Cons ws Let_def del: ntop6_loop.simps)
  also have "\<dots> = ntop6_loop src ws best js (digits_of 16 w @ concat (map (\<lambda>w. 0x3A # digits_of 16 w) (map ((!) ws) [1..<b])))"
    by (rule ntop6_outside [OF assms(1)]) (use assms(2-5) in auto)
  also have "map ((!) ws) [1..<b] = take k us"
    using map_nth_range [of b ws 1] assms(2,5) Suc ws by simp
  also have "digits_of 16 w @ concat (map (\<lambda>w. 0x3A # digits_of 16 w) (take k us)) = hex_words (w # take k us)"
  proof (cases "take k us = []")
    case False
    then show ?thesis using hex_words_colon [of "take k us"] by (simp add: hex_words_def)
  qed (simp add: hex_words_def)
  finally show ?thesis using Suc ws by simp
qed

lemma upt_split: "b \<le> n \<Longrightarrow> [0..<n] = [0..<b] @ [b..<n]"
  using upt_add_eq_append [of 0 b "n - b"] by simp

lemma ntop6_no_run:
  assumes "\<forall>w \<in> set ws. w < 65536" "length ws = 8"
  shows "ntop6_loop src ws None [0..<8] [] = Some (hex_words ws)"
  using ntop6_front [OF assms, of 8 None src "[]"] assms(2) by (simp add: in_run_def embeds_def)

lemma ntop6_run:
  assumes "\<forall>w \<in> set ws. w < 65536" "length ws = 8" "b + l \<le> 8" "2 \<le> l" "\<not> embeds ws (Some (b, l))"
  shows "ntop6_loop src ws (Some (b, l)) [0..<8] [] =
    Some (hex_words (take b ws) @ 0x3A # (if b + l = 8 then [] else 0x3A # hex_words (drop (b + l) ws)))"
proof -
  have s: "[0..<8] = [0..<b] @ b # [Suc b..<b + l] @ [b + l..<8]"
    using upt_split [of b 8] upt_conv_Cons [of b 8] upt_add_eq_append [of "Suc b" "b + l" "8 - (b + l)"] assms(3,4) by simp
  have "ntop6_loop src ws (Some (b, l)) [0..<8] [] =
    ntop6_loop src ws (Some (b, l)) (b # [Suc b..<b + l] @ [b + l..<8]) (hex_words (take b ws))"
    unfolding s by (rule ntop6_front [OF assms(1,2)]) (use assms in \<open>auto simp: in_run_def\<close>)
  also have "\<dots> = ntop6_loop src ws (Some (b, l)) ([Suc b..<b + l] @ [b + l..<8]) (hex_words (take b ws) @ [0x3A])"
    using assms(4) by (simp add: ntop6_loop_Cons in_run_def del: ntop6_loop.simps)
  also have "\<dots> = ntop6_loop src ws (Some (b, l)) ([b + l..<8] @ []) (hex_words (take b ws) @ [0x3A])"
    using ntop6_inside [of "[Suc b..<b + l]" "Some (b, l)" src ws "[b + l..<8]"] by (simp add: in_run_def)
  also have "\<dots> = ntop6_loop src ws (Some (b, l)) []
      (hex_words (take b ws) @ [0x3A] @ concat (map (\<lambda>w. 0x3A # digits_of 16 w) (map ((!) ws) [b + l..<8])))"
    using ntop6_outside [OF assms(1), of "[b + l..<8]" "Some (b, l)" src "[]"] assms(2-5) by (simp add: in_run_def)
  also have "map ((!) ws) [b + l..<8] = drop (b + l) ws"
    using map_nth_range [of 8 ws "b + l"] assms(2) by simp
  finally show ?thesis using hex_words_colon [of "drop (b + l) ws"] assms(2,3) by simp
qed

lemma length_dotted: "length (dotted src) \<le> 15"
proof -
  have d: "length (digits_of 10 (unat x)) \<le> 3" for x :: byte
  proof -
    have "unat x < 1000" using unat_byte [of x] by linarith
    then show ?thesis using digits_of_length [of 10 3 "unat x"] by simp
  qed
  show ?thesis
    using d [of "src ! 0"] d [of "src ! 1"] d [of "src ! 2"] d [of "src ! 3"] by (simp add: dotted_def)
qed

lemma ntop4_dotted: "16 \<le> buflen \<Longrightarrow> inet_ntop4 src buflen = Some (dotted src)"
  using length_dotted [of src] by (simp add: inet_ntop4_def dotted_def)

lemma ntop6_embeds:
  assumes "\<forall>w \<in> set ws. w < 65536" "length ws = 8" "embeds ws (Some (b, l))"
  shows "b = 0 \<and> (l = 5 \<or> l = 6) \<and>
    ntop6_loop src ws (Some (b, l)) [0..<8] [] = Some (0x3A # 0x3A # groups (drop l (take 6 ws)) @ dotted (drop 12 src))"
proof -
  have bl: "b = 0 \<and> (l = 5 \<and> ws ! 5 = 0xffff \<or> l = 6)" using assms(3) by (auto simp: embeds_def)
  have ds: "length (digits_of 16 0xffff) \<le> 4" using digits_of_length [of 16 4 "0xffff"] by simp
  have u: "[0..<8] = 0 # [1..<l] @ [l..<8]" "[Suc 0..<6] = [1, 2, 3, 4, 5]" "[5..<8] = [5, 6, 7]" "[6..<8] = [6, 7]"
    using bl by (auto simp: upt_rec)
  have "ntop6_loop src ws (Some (b, l)) [0..<8] [] = ntop6_loop src ws (Some (b, l)) [l..<8] [0x3A]"
    using bl ntop6_inside [of "[1..<l]" "Some (b, l)" src ws "[l..<8]"] unfolding u(1)
    by (auto simp: ntop6_loop_Cons in_run_def simp del: ntop6_loop.simps)
  moreover have "ntop6_loop src ws (Some (b, l)) [l..<8] [0x3A] = Some (0x3A # 0x3A # groups (drop l (take 6 ws)) @ dotted (drop 12 src))"
  proof (cases "l = 6")
    case True
    then show ?thesis using bl assms(3) by (simp add: u ntop6_loop_Cons in_run_def ntop4_dotted NTOP6_TMP_def del: ntop6_loop.simps)
  next
    case False
    then have l: "l = 5" "ws ! 5 = 0xffff" using bl by auto
    have t: "drop 5 (take 6 ws) = [ws ! 5]" using map_nth_range [of 6 ws 5] assms(2) by (simp add: drop_take)
    show ?thesis using bl assms(3) l ds
      by (simp add: u ntop6_loop_Cons in_run_def t ntop4_dotted NTOP6_TMP_def Let_def del: ntop6_loop.simps)
  qed
  ultimately show ?thesis using bl by auto
qed

lemma length_hex_words: "\<forall>w \<in> set us. w < 65536 \<Longrightarrow> length (hex_words us) \<le> 5 * length us"
proof (induction us rule: rev_induct)
  case (snoc w us)
  have "length (digits_of 16 w) \<le> 4" using digits_of_length [of 16 4 w] snoc.prems by simp
  moreover have "length (groups us) \<le> length (hex_words us) + 1"
    by (cases "us = []") (simp_all add: groups_hex)
  moreover have "us \<noteq> [] \<Longrightarrow> length (hex_words us) < 5 * length us"
  proof -
    assume "us \<noteq> []"
    then obtain vs x where us: "us = vs @ [x]" by (cases us rule: rev_cases) auto
    have g: "\<forall>w \<in> set vs. w < 65536 \<Longrightarrow> length (groups vs) \<le> 5 * length vs" for vs
    proof (induction vs)
      case (Cons v vs)
      then show ?case using digits_of_length [of 16 4 v] by simp
    qed simp
    have "length (digits_of 16 x) \<le> 4" using digits_of_length [of 16 4 x] snoc.prems us by simp
    then show ?thesis using g [of vs] snoc.prems us by (simp add: hex_words_def)
  qed
  ultimately show ?case by (cases "us = []") (simp_all add: hex_words_def)
qed (simp add: hex_words_def)

subsection \<open>Reading a printed address\<close>

definition finish_at :: "nat option \<Rightarrow> nat \<Rightarrow> byte list \<Rightarrow> byte list option" where
  "finish_at cl n m =
     (case cl of
        Some c \<Rightarrow> if n = 16 then None else Some (pton6_shift (n - c) c (n - c) m)
      | None \<Rightarrow> if n \<noteq> 16 then None else Some m)"

text \<open>The groups up to the end of the string.\<close>

lemma pton6_tail:
  assumes "\<forall>w \<in> set us. w < 65536" "saw_xdigit v = 0" "pval v = 0" "length (tmp v) = 16" "tp v + 2 * length us \<le> 16"
  shows "\<exists>v'. pton6_loop (hex_words us) v = Some v' \<and>
    pton6_finish v' = finish_at (colonp v) (tp v + 2 * length us) (put (tp v) (word_bytes us) (tmp v))"
proof (cases us rule: rev_cases)
  case Nil
  then show ?thesis
    by (simp add: hex_words_def pton6_finish_def assms(2) finish_at_def IN6ADDRSZ_def split: option.split)
next
  case (snoc vs w)
  define v1 where "v1 = v\<lparr>tmp := put (tp v) (word_bytes vs) (tmp v), tp := tp v + 2 * length vs,
    curtok := if vs = [] then curtok v else digits_of 16 w\<rparr>"
  define v2 where "v2 = v1\<lparr>pval := w, saw_xdigit := length (digits_of 16 w)\<rparr>"
  have "pton6_loop (hex_words us) v = pton6_loop (digits_of 16 w) v1"
    using pton6_groups [of vs v "digits_of 16 w"] assms snoc by (simp add: hex_words_def v1_def)
  also have "\<dots> = Some v2"
    using pton6_digits [of w v1 "[]"] assms snoc by (simp add: v1_def v2_def)
  finally have r: "pton6_loop (hex_words us) v = Some v2" .
  have l: "length (put (tp v) (word_bytes vs) (tmp v)) = 16" using assms(4,5) snoc by simp
  have t: "tmp (pton6_store v2) = put (tp v) (word_bytes us) (tmp v)"
    using put_two [of "tp v + 2 * length vs" "put (tp v) (word_bytes vs) (tmp v)"]
      put_put [of "tp v" "word_bytes vs" "[word_of_nat (w div 256), word_of_nat w]" "tmp v"] l assms(4,5) snoc
    by (simp add: pton6_store_def v2_def v1_def)
  have s: "tp (pton6_store v2) = tp v + 2 * length us" "colonp (pton6_store v2) = colonp v"
    by (simp_all add: pton6_store_def v2_def v1_def snoc)
  have f: "saw_xdigit v2 \<noteq> 0" "\<not> tp v2 + INT16SZ > IN6ADDRSZ"
    using assms(5) snoc by (simp_all add: v2_def v1_def INT16SZ_def IN6ADDRSZ_def)
  have "pton6_finish v2 = finish_at (colonp v) (tp v + 2 * length us) (put (tp v) (word_bytes us) (tmp v))"
    using f by (simp add: pton6_finish_def finish_at_def s t IN6ADDRSZ_def split: option.split)
  then show ?thesis using r by blast
qed

text \<open>The first character of a number is not a colon.\<close>

lemma digits_of_first: "2 \<le> base \<Longrightarrow> base \<le> 16 \<Longrightarrow> at (digits_of base n @ rest) 0 \<noteq> 0x3A"
proof (induction n arbitrary: rest rule: less_induct)
  case (less n)
  have "list_all (\<lambda>d. xdigits_l ! d \<noteq> 0x3A) [0..<16]" by code_simp
  then have d: "d < 16 \<Longrightarrow> xdigits_l ! d \<noteq> 0x3A" for d by (simp add: list_all_iff)
  show ?case
  proof (cases "n < base")
    case True
    then show ?thesis using d [of n] less.prems by (simp add: digits_of_small at_def)
  next
    case False
    then have "n div base < n" using less.prems(1) by simp
    then show ?thesis using less.IH less.prems False by (simp add: digits_of_split)
  qed
qed

definition pton6_start :: "nat \<Rightarrow> byte list \<Rightarrow> byte list \<Rightarrow> pton6" where
  "pton6_start n bs src =
     \<lparr>tmp = put 0 bs (replicate 16 0), tp = n, colonp = Some n, curtok = src, saw_xdigit = 0, pval = 0\<rparr>"

lemma pton6_open:
  assumes "\<forall>w \<in> set us. w < 65536" "length us \<le> 8"
  shows "inet_pton6 (hex_words us @ 0x3A # 0x3A # rest) =
    (case pton6_loop rest (pton6_start (2 * length us) (word_bytes us) rest) of None \<Rightarrow> None | Some v \<Rightarrow> pton6_finish v)"
proof (cases "us = []")
  case True
  then show ?thesis by (simp add: inet_pton6_def hex_words_def at_def pton6_start_def IN6ADDRSZ_def)
next
  case False
  let ?src = "hex_words us @ 0x3A # 0x3A # rest"
  let ?v = "\<lparr>tmp = replicate IN6ADDRSZ 0, tp = 0, colonp = None, curtok = ?src, saw_xdigit = 0, pval = 0\<rparr>"
  have src: "?src = groups us @ 0x3A # rest" using groups_hex [OF False] by simp
  obtain w vs where us: "us = w # vs" using False by (cases us) auto
  have f: "at ?src 0 \<noteq> 0x3A" unfolding src using digits_of_first [of 16 w] by (simp add: us)
  have "pton6_loop ?src ?v = pton6_loop rest (pton6_start (2 * length us) (word_bytes us) rest)"
    using pton6_groups [OF assms(1), of ?v "0x3A # rest"] assms(2) False unfolding src
    by (simp add: pton6_start_def IN6ADDRSZ_def)
  then show ?thesis using f by (simp add: inet_pton6_def)
qed

lemma pton6_hex_words:
  assumes "\<forall>w \<in> set ws. w < 65536" "length ws = 8"
  shows "inet_pton6 (hex_words ws) = Some (word_bytes ws)"
proof -
  let ?v = "\<lparr>tmp = replicate IN6ADDRSZ 0, tp = 0, colonp = None, curtok = hex_words ws, saw_xdigit = 0, pval = 0\<rparr>"
  obtain w vs where ws: "ws = w # vs" using assms(2) by (cases ws) auto
  have "vs \<noteq> []" using assms(2) ws by auto
  then have "hex_words ws = digits_of 16 w @ 0x3A # groups (butlast vs) @ digits_of 16 (last vs)"
    by (simp add: hex_words_def ws)
  then have f: "at (hex_words ws) 0 \<noteq> 0x3A" using digits_of_first [of 16 w] by simp
  obtain v' where "pton6_loop (hex_words ws) ?v = Some v'" "pton6_finish v' = finish_at None 16 (put 0 (word_bytes ws) (replicate 16 0))"
    using pton6_tail [OF assms(1), of ?v] assms(2) by (auto simp: IN6ADDRSZ_def)
  then show ?thesis using f assms(2) by (simp add: inet_pton6_def finish_at_def put_def)
qed

lemma finish_split:
  assumes "length as + length bs < 16"
  shows "finish_at (Some (length as)) (length as + length bs) (put (length as) bs (put 0 as (replicate 16 0))) =
    Some (as @ replicate (16 - length as - length bs) 0 @ bs)"
proof -
  have p: "put (length as) bs (put 0 as (replicate 16 0)) = as @ bs @ replicate (16 - length as - length bs) 0"
    using put_put [of 0 as bs "replicate 16 0"] assms by (simp add: put_def)
  show ?thesis
    using assms pton6_shift_zeros [of "as @ bs @ replicate (16 - length as - length bs) 0" "length as" "length bs"]
    by (simp add: finish_at_def p)
qed

lemma pton6_run:
  assumes "\<forall>w \<in> set us. w < 65536" "\<forall>w \<in> set vs. w < 65536" "length us + length vs < 8"
  shows "inet_pton6 (hex_words us @ 0x3A # 0x3A # hex_words vs) =
    Some (word_bytes us @ replicate (16 - 2 * length us - 2 * length vs) 0 @ word_bytes vs)"
proof -
  let ?v = "pton6_start (2 * length us) (word_bytes us) (hex_words vs)"
  have len: "length (put 0 (word_bytes us) (replicate 16 0)) = 16" using assms(3) by simp
  obtain v' where "pton6_loop (hex_words vs) ?v = Some v'"
    "pton6_finish v' = finish_at (colonp ?v) (tp ?v + 2 * length vs) (put (tp ?v) (word_bytes vs) (tmp ?v))"
    using pton6_tail [OF assms(2), of ?v] assms(3) len by (auto simp: pton6_start_def)
  then show ?thesis
    using finish_split [of "word_bytes us" "word_bytes vs"] assms(3)
    by (simp add: pton6_open [OF assms(1)] pton6_start_def)
qed

lemma pton6_embedded:
  assumes "\<forall>w \<in> set us. w < 65536" "length us \<le> 1" "length bs = 4"
  shows "inet_pton6 (0x3A # 0x3A # groups us @ dotted bs) = Some (replicate (12 - 2 * length us) 0 @ word_bytes us @ bs)"
proof -
  let ?r = "groups us @ dotted bs"
  let ?v = "pton6_start 0 [] ?r"
  define v1 where "v1 = ?v\<lparr>tmp := put 0 (word_bytes us) (replicate 16 0), tp := 2 * length us, curtok := dotted bs\<rparr>"
  have "pton6_loop ?r ?v = pton6_loop (dotted bs) v1"
    using pton6_groups [OF assms(1), of ?v "dotted bs"] assms(2) by (cases "us = []") (simp_all add: pton6_start_def v1_def)
  moreover obtain x where "pton6_loop (dotted bs) v1 =
    Some (v1\<lparr>tmp := take (tp v1) (tmp v1) @ bs @ drop (tp v1 + 4) (tmp v1), tp := tp v1 + 4, saw_xdigit := 0, pval := x\<rparr>)"
    using pton6_dotted [OF assms(3), of v1] assms(2) by (auto simp: v1_def pton6_start_def)
  moreover have "put (2 * length us) bs (put 0 (word_bytes us) (replicate 16 0)) = put 0 (word_bytes us @ bs) (replicate 16 0)"
    using put_put [of 0 "word_bytes us" bs "replicate 16 0"] assms(2,3) by simp
  moreover have "finish_at (Some 0) (2 * length us + 4) (put 0 (word_bytes us @ bs) (replicate 16 0)) =
      Some (replicate (12 - 2 * length us) 0 @ word_bytes us @ bs)"
    using finish_split [of "[]" "word_bytes us @ bs"] assms(2,3) by simp
  ultimately show ?thesis
    using pton6_open [of "[]" ?r] assms(2,3)
    by (simp add: hex_words_def pton6_finish_def finish_at_def v1_def pton6_start_def put_def IN6ADDRSZ_def)
qed

lemma word_bytes_words_of:
  assumes "length bs = 16"
  shows "length (words_of bs) = 8 \<and> (\<forall>w \<in> set (words_of bs). w < 65536) \<and> word_bytes (words_of bs) = bs"
proof -
  have w: "unat a * 256 + unat b < 65536" "word_of_nat ((unat a * 256 + unat b) div 256) = a" "word_of_nat (unat a * 256 + unat b) = b"
    for a b :: byte
  proof -
    show "unat a * 256 + unat b < 65536" using unat_byte [of a] unat_byte [of b] by linarith
    have "(unat a * 256 + unat b) div 256 = unat a" using unat_byte [of b] by (simp add: div_add1_eq)
    then show "word_of_nat ((unat a * 256 + unat b) div 256) = a" by simp
    have "(256 :: byte) = 0" "word_of_nat (unat a * 256 + unat b) = a * 256 + b" by simp_all
    then show "word_of_nat (unat a * 256 + unat b) = b" by (metis mult_zero_right add_0)
  qed
  obtain b0 b1 b2 b3 b4 b5 b6 b7 b8 b9 ba bb bc bd be bf where
    "bs = [b0, b1, b2, b3, b4, b5, b6, b7, b8, b9, ba, bb, bc, bd, be, bf]"
    using assms by (auto simp: numeral_eq_Suc length_Suc_conv)
  then show ?thesis using w by (simp add: words_of_def word_bytes_def upt_rec)
qed

lemma word_bytes_zeros: "word_bytes (replicate l 0) = replicate (2 * l) 0"
  by (induction l) simp_all

lemma zero_run_split:
  "zero_run ws (b, l) \<Longrightarrow> ws = take b ws @ replicate l 0 @ drop (b + l) ws"
proof -
  assume z: "zero_run ws (b, l)"
  have "take l (drop b ws) = replicate l 0"
    using z by (intro nth_equalityI) (auto simp: zero_run_def)
  then show ?thesis by (metis append_take_drop_id add.commute drop_drop)
qed

text \<open>Every printed address fits the buffer and is read as the address that was printed.\<close>

lemma inet6_roundtrip_aux:
  assumes len: "length bs = 16" and buf: "46 \<le> buflen"
  shows "\<exists>s. inet_ntop6 bs buflen = Some s \<and> inet_pton6 s = Some bs"
proof -
  define ws where "ws = words_of bs"
  have ws: "length ws = 8" "\<forall>w \<in> set ws. w < 65536" "word_bytes ws = bs"
    using word_bytes_words_of [OF len] by (simp_all add: ws_def)
  show ?thesis
  proof (cases "best_run ws")
    case None
    have "inet_ntop6 bs buflen = Some (hex_words ws)"
      using ntop6_no_run [OF ws(2,1)] length_hex_words [OF ws(2)] ws(1) None buf
      by (simp add: inet_ntop6_def ws_def [symmetric])
    then show ?thesis using pton6_hex_words [OF ws(2,1)] ws(3) by simp
  next
    case (Some r)
    obtain b l where r: "r = (b, l)" by (cases r)
    then have z: "zero_run ws (b, l)" "2 \<le> l" using best_run_zero Some by auto
    then have bl: "b + l \<le> 8" using ws(1) by (simp add: zero_run_def)
    have split: "ws = take b ws @ replicate l 0 @ drop (b + l) ws" by (rule zero_run_split [OF z(1)])
    show ?thesis
    proof (cases "embeds ws (Some (b, l))")
      case False
      let ?us = "take b ws" and ?vs = "drop (b + l) ws"
      have ok: "\<forall>w \<in> set ?us. w < 65536" "\<forall>w \<in> set ?vs. w < 65536" using ws(2) by (auto dest: in_set_takeD in_set_dropD)
      have lens: "length ?us = b" "length ?vs = 8 - (b + l)" using ws(1) bl by simp_all
      have "inet_ntop6 bs buflen = Some (hex_words ?us @ 0x3A # 0x3A # hex_words ?vs)"
      proof -
        have "length (hex_words ?us) + length (hex_words ?vs) \<le> 30"
          using length_hex_words [OF ok(1)] length_hex_words [OF ok(2)] lens bl z(2) by simp
        moreover have "b + l = 8 \<Longrightarrow> hex_words ?vs = []" using ws(1) by (simp add: hex_words_def)
        ultimately show ?thesis
          using ntop6_run [OF ws(2,1) bl z(2) False] Some r buf
          by (cases "b + l = 8") (simp_all add: inet_ntop6_def ws_def [symmetric])
      qed
      moreover have "inet_pton6 (hex_words ?us @ 0x3A # 0x3A # hex_words ?vs) = Some bs"
      proof -
        have "16 - 2 * b - 2 * (8 - (b + l)) = 2 * l" using bl by simp
        then have "word_bytes ?us @ replicate (16 - 2 * length ?us - 2 * length ?vs) 0 @ word_bytes ?vs = bs"
          using ws(3) word_bytes_simps(3) [of ?us] word_bytes_simps(3) [of "replicate l 0" ?vs] split lens
          by (metis word_bytes_zeros)
        then show ?thesis using pton6_run [OF ok] lens z(2) bl by simp
      qed
      ultimately show ?thesis by blast
    next
      case True
      note e = ntop6_embeds [OF ws(2,1) True, of bs]
      let ?us = "drop l (take 6 ws)"
      have us: "\<forall>w \<in> set ?us. w < 65536" "length ?us = 6 - l" using ws(1,2) by (auto dest: in_set_takeD in_set_dropD)
      have g: "length (groups ?us) \<le> 6"
      proof (cases "?us = []")
        case False
        then show ?thesis using groups_hex length_hex_words [OF us(1)] us(2) e
          by (auto simp: groups_hex)
      qed simp
      have "inet_ntop6 bs buflen = Some (0x3A # 0x3A # groups ?us @ dotted (drop 12 bs))"
        proof -
        have "b + l \<noteq> 8" using e by auto
        then show ?thesis using e [THEN conjunct2, THEN conjunct2] g Some r buf length_dotted [of "drop 12 bs"]
          by (simp add: inet_ntop6_def ws_def [symmetric] Let_def)
      qed
      moreover have "inet_pton6 (0x3A # 0x3A # groups ?us @ dotted (drop 12 bs)) = Some bs"
      proof -
        have "take l (take 6 ws) = replicate l 0"
          using z(1) e ws(1) by (intro nth_equalityI) (auto simp: zero_run_def)
        then have "take 6 ws = replicate l 0 @ ?us" using append_take_drop_id [of l "take 6 ws"] by simp
        then have "word_bytes (take 6 ws) = replicate (2 * l) 0 @ word_bytes ?us"
          unfolding word_bytes_zeros [symmetric] word_bytes_simps(3) [symmetric] by (rule arg_cong)
        then have "bs = replicate (2 * l) 0 @ word_bytes ?us @ word_bytes (drop 6 ws)"
          using ws(3) word_bytes_simps(3) [of "take 6 ws" "drop 6 ws"] by simp
        moreover from this have "word_bytes (drop 6 ws) = drop 12 bs"
          using us(2) e by auto
        ultimately have "bs = replicate (2 * l) 0 @ word_bytes ?us @ drop 12 bs" by simp
        moreover have "12 - 2 * length ?us = 2 * l" "length ?us \<le> 1" using us(2) e by auto
        ultimately show ?thesis using pton6_embedded [OF us(1), of "drop 12 bs"] len by simp
      qed
      ultimately show ?thesis by blast
    qed
  qed
qed

text \<open>An address that is read has 16 bytes.\<close>

lemma pton6_length: "pton6_loop s v = Some v' \<Longrightarrow> length (tmp v) = 16 \<Longrightarrow> length (tmp v') = 16"
proof (induction s v rule: pton6_loop.induct)
  case (2 cc s v)
  let ?d = "case strchr_index xdigits_l cc of None \<Rightarrow> strchr_index xdigits_u cc | Some i \<Rightarrow> Some i"
  show ?case
  proof (cases ?d)
    case (Some d)
    with 2 show ?thesis by (auto split: if_splits)
  next
    case None
    consider "cc = 0x3A" | "cc \<noteq> 0x3A" by blast
    then show ?thesis
    proof cases
      case 1
      with 2 None show ?thesis by (auto simp: pton6_store_def Let_def split: if_splits)
    next
      case 2
      then obtain bs where "tp v + INADDRSZ \<le> IN6ADDRSZ" "inet_pton4 (curtok v) = Some bs"
        "tmp v' = take (tp v) (tmp v) @ bs @ drop (tp v + INADDRSZ) (tmp v)"
        using "2.prems"(1) None by (auto split: if_splits option.splits)
      then show ?thesis using "2.prems"(2) pton4_exact_aux by (auto simp: INADDRSZ_def IN6ADDRSZ_def)
    qed
  qed
qed simp

lemma length_pton6_shift: "length (pton6_shift k c n m) = length m"
  by (induction k arbitrary: m) (simp_all add: Let_def)

lemma length_inet_pton6: "inet_pton6 s = Some bs \<Longrightarrow> length bs = 16"
  by (auto simp: inet_pton6_def pton6_finish_def pton6_store_def length_pton6_shift IN6ADDRSZ_def Let_def
      dest!: pton6_length split: if_splits option.splits)

text \<open>Eight groups that end in a colon are an address too.\<close>

lemma pton6_trailing_colon:
  assumes "\<forall>w \<in> set ws. w < 65536" "length ws = 8"
  shows "inet_pton6 (groups ws) = Some (word_bytes ws)"
proof -
  let ?v = "\<lparr>tmp = replicate IN6ADDRSZ 0, tp = 0, colonp = None, curtok = groups ws, saw_xdigit = 0, pval = 0\<rparr>"
  obtain w us where ws: "ws = w # us" using assms(2) by (cases ws) auto
  have "at (groups ws) 0 \<noteq> 0x3A" using digits_of_first [of 16 w] by (simp add: ws)
  then show ?thesis
    using pton6_groups [OF assms(1), of ?v "[]"] assms(2)
    by (simp add: inet_pton6_def pton6_finish_def IN6ADDRSZ_def put_def)
qed

subsection \<open>Properties\<close>

text \<open>
  C25. \<open>inet_pton4\<close> accepts exactly the canonical dotted quads: a string is read as four
  bytes iff it is their decimal values without leading zeros, with single dots between.
\<close>
theorem pton4_exact: "inet_pton4 s = Some bs \<longleftrightarrow> length bs = 4 \<and> s = dotted bs"
  by (rule pton4_exact_aux)

text \<open>
  C24. What \<open>Curl_inet_ntop\<close> prints for an IPv6 address, compressed runs of zeros and an
  embedded IPv4 address included, fits a buffer of 46 bytes and is read back as the same
  16 bytes by \<open>Curl_inet_pton\<close>.
\<close>
theorem inet6_roundtrip:
  assumes "length bs = 16" and "46 \<le> buflen"
  shows "\<exists>s. Curl_inet_ntop AF_INET6 bs buflen = Some s \<and> Curl_inet_pton AF_INET6 s = (1, Some bs)"
  using inet6_roundtrip_aux [OF assms] by (auto simp: Curl_inet_ntop_def Curl_inet_pton_def)

theorem inet6_roundtrip_witness:
  "\<exists>s. Curl_inet_ntop AF_INET6 [0x20, 1, 0xd, 0xb8, 0, 0, 0, 0, 0, 0, 0, 0, 0, 0, 0, 1] 46 = Some s \<and>
    Curl_inet_pton AF_INET6 s = (1, Some [0x20, 1, 0xd, 0xb8, 0, 0, 0, 0, 0, 0, 0, 0, 0, 0, 0, 1])"
  by (rule inet6_roundtrip) simp_all

lemma inet4_roundtrip:
  "length bs = 4 \<Longrightarrow> 16 \<le> buflen \<Longrightarrow>
   \<exists>s. Curl_inet_ntop AF_INET bs buflen = Some s \<and> Curl_inet_pton AF_INET s = (1, Some bs)"
  by (simp add: Curl_inet_ntop_def Curl_inet_pton_def ntop4_dotted pton4_dotted)

end
