(* ===== verification/Noproxy.thy ===== *)
theory Noproxy
  imports Inet "HOL-Library.Sublist"
begin

text \<open>
  The list of hosts that are reached without a proxy, \<open>noproxy.c\<close>. A pointer into the list is
  what is left of it, and the strings copied to \<open>hostip\<close> and \<open>checkip\<close> are the part copied.
  \<open>atoi\<close> of the C library is the low part of \<open>strtol\<close>.

  The list is split at blanks and commas and each entry is compared with the host; an IPv4
  network is matched by its prefix, but for IPv6 the test of the bits that do not fill a byte is
  the wrong way round.
\<close>

subsection \<open>Networks\<close>

text \<open>The value of four bytes in network order, as \<open>htonl\<close> of what was stored gives it.\<close>

definition htonl_bytes :: "byte list \<Rightarrow> 32 word" where
  "htonl_bytes bs =
     push_bit 24 (ucast (bs ! 0)) OR push_bit 16 (ucast (bs ! 1)) OR push_bit 8 (ucast (bs ! 2)) OR ucast (bs ! 3)"

definition Curl_cidr4_match :: "byte list \<Rightarrow> byte list \<Rightarrow> nat \<Rightarrow> bool" where
  "Curl_cidr4_match ipv4 network bits =
     (if bits > 32 then False
      else
        case Curl_inet_pton AF_INET ipv4 of
          (_, None) \<Rightarrow> False
        | (_, Some address) \<Rightarrow>
            (case Curl_inet_pton AF_INET network of
               (_, None) \<Rightarrow> False
             | (_, Some check) \<Rightarrow>
                 if bits \<noteq> 0 \<and> bits \<noteq> 32 then
                   let mask = push_bit (32 - bits) 0xffffffff;
                       haddr = htonl_bytes address;
                       hcheck = htonl_bytes check
                   in if (haddr XOR hcheck) AND mask \<noteq> 0 then False else True
                 else address = check))"

definition Curl_cidr6_match :: "byte list \<Rightarrow> byte list \<Rightarrow> nat \<Rightarrow> bool" where
  "Curl_cidr6_match ipv6 network bits =
     (let bits = (if bits = 0 then 128 else bits); bytes = bits div 8; rest = bits mod 8
      in case Curl_inet_pton AF_INET6 ipv6 of
           (_, None) \<Rightarrow> False
         | (_, Some address) \<Rightarrow>
             (case Curl_inet_pton AF_INET6 network of
                (_, None) \<Rightarrow> False
              | (_, Some check) \<Rightarrow>
                  if bytes > 16 \<or> bytes = 16 \<and> rest \<noteq> 0 then False
                  else if bytes \<noteq> 0 \<and> take bytes address \<noteq> take bytes check then False
                  else if rest \<noteq> 0 \<and> \<not> (address ! bytes XOR check ! bytes) AND push_bit (8 - rest) 0xff \<noteq> 0 then False
                  else True))"

subsection \<open>The list\<close>

datatype nametype = TYPE_HOST | TYPE_IPV4 | TYPE_IPV6

fun atoi_digits :: "byte list \<Rightarrow> int \<Rightarrow> int" where
  "atoi_digits [] n = n"
| "atoi_digits (c # s) n = (if ISDIGIT c then atoi_digits s (n * 10 + (uint c - 0x30)) else n)"

definition atoi :: "byte list \<Rightarrow> 32 word" where
  "atoi s =
     (let s = dropWhile ISSPACE s; neg = (at s 0 = 0x2D);
          s = (if neg \<or> at s 0 = 0x2B then drop 1 s else s);
          n = atoi_digits s 0
      in word_of_int (if neg then max (- (2 ^ 63)) (- n) else min (2 ^ 63 - 1) n))"

text \<open>The name that is compared, its length, and what it is.\<close>

definition noproxy_name :: "byte list \<Rightarrow> (byte list \<times> nat \<times> nametype) option" where
  "noproxy_name name =
     (if at name 0 = 0x5B then
        case strchr_index name 0x5D of
          None \<Rightarrow> None
        | Some endptr \<Rightarrow>
            let namelen = endptr - 1
            in if namelen \<ge> 128 then None else Some (take namelen (drop 1 name), namelen, TYPE_IPV6)
      else if fst (Curl_inet_pton AF_INET name) = 1 then Some (name, length name, TYPE_IPV4)
      else Some (name, (if at name (length name - 1) = 0x2E then length name - 1 else length name), TYPE_HOST))"

text \<open>\<open>token\<close> points into the list, and only its first \<open>tokenlen\<close> characters count.\<close>

definition host_match :: "byte list \<Rightarrow> nat \<Rightarrow> byte list \<Rightarrow> nat \<Rightarrow> bool" where
  "host_match name namelen token tokenlen =
     (let tokenlen = (if at token (tokenlen - 1) = 0x2E then tokenlen - 1 else tokenlen);
          (token, tokenlen) = (if tokenlen \<noteq> 0 \<and> at token 0 = 0x2E then (drop 1 token, tokenlen - 1) else (token, tokenlen))
      in if tokenlen = namelen then curl_strnequal (Some token) (Some name) namelen
         else if tokenlen < namelen then
           at name (namelen - tokenlen - 1) = 0x2E \<and>
           curl_strnequal (Some token) (Some (drop (namelen - tokenlen) name)) tokenlen
         else False)"

definition addr_match :: "nametype \<Rightarrow> byte list \<Rightarrow> byte list \<Rightarrow> nat \<Rightarrow> bool" where
  "addr_match type name token tokenlen =
     (if tokenlen \<ge> 128 then False
      else
        let check = take tokenlen token;
            (bits, check) = (case strchr_index check 0x2F of
                Some slash \<Rightarrow> (unat (atoi (drop (slash + 1) check)), take slash check)
              | None \<Rightarrow> (0, check))
        in if type = TYPE_IPV6 then Curl_cidr6_match name check bits else Curl_cidr4_match name check bits)"

definition token_match :: "byte list \<Rightarrow> nat \<Rightarrow> nametype \<Rightarrow> byte list \<Rightarrow> nat \<Rightarrow> bool" where
  "token_match name namelen type token tokenlen =
     (case type of
        TYPE_HOST \<Rightarrow> host_match name namelen token tokenlen
      | _ \<Rightarrow> addr_match type name token tokenlen)"

definition token_length :: "byte list \<Rightarrow> nat" where
  "token_length token = length (takeWhile (\<lambda>c. \<not> ISBLANK c \<and> c \<noteq> 0x2C) token)"

text \<open>The answer and \<open>spacesep\<close>.\<close>

function noproxy_loop :: "byte list \<Rightarrow> nat \<Rightarrow> nametype \<Rightarrow> byte list \<Rightarrow> bool \<Rightarrow> bool \<times> bool" where
  "noproxy_loop name namelen type p spacesep =
     (if p = [] then (False, spacesep)
      else
        let token = dropWhile ISBLANK p;
            tokenlen = token_length token;
            p' = drop tokenlen token
        in if tokenlen \<noteq> 0 \<and> token_match name namelen type token tokenlen then (True, spacesep)
           else
             let p' = dropWhile ISBLANK p'
             in if p' \<noteq> [] \<and> at p' 0 \<noteq> 0x2C then noproxy_loop name namelen type p' True
                else noproxy_loop name namelen type (dropWhile (\<lambda>c. c = 0x2C) p') spacesep)"
  by pat_completeness auto

definition Curl_check_noproxy :: "byte list option \<Rightarrow> byte list option \<Rightarrow> bool \<times> bool" where
  "Curl_check_noproxy name no_proxy =
     (case name of
        None \<Rightarrow> (False, False)
      | Some name \<Rightarrow>
          if name = [] then (False, False)
          else
            case no_proxy of
              None \<Rightarrow> (False, False)
            | Some p \<Rightarrow>
                if p = [] then (False, False)
                else if p = s2b ''*'' then (True, False)
                else
                  case noproxy_name name of
                    None \<Rightarrow> (False, False)
                  | Some (name, namelen, type) \<Rightarrow> noproxy_loop name namelen type p False)"

subsection \<open>Termination\<close>

text \<open>After an entry, at a blank, a comma or the end, something has been passed.\<close>

lemma noproxy_progress:
  assumes "p \<noteq> []"
  defines "token \<equiv> dropWhile ISBLANK p"
  defines "p' \<equiv> dropWhile ISBLANK (drop (token_length token) token)"
  shows "length p' < length p \<or> p' = p \<and> at p 0 = 0x2C"
proof -
  obtain c s where p: "p = c # s" using assms(1) by (cases p) auto
  have le: "length (dropWhile ISBLANK (drop n q)) \<le> length q" for n q
    using length_dropWhile_le [of ISBLANK "drop n q"] by simp
  consider "ISBLANK c" | "c = 0x2C" | "\<not> ISBLANK c" "c \<noteq> 0x2C" by blast
  then show ?thesis
  proof cases
    case 1
    then have "token = dropWhile ISBLANK s" by (simp add: token_def p)
    then have "length token \<le> length s" by (simp add: length_dropWhile_le)
    then show ?thesis using le [of "token_length token" token] p by (simp add: p'_def)
  next
    case 2
    moreover have "\<not> ISBLANK 0x2C" by code_simp
    ultimately show ?thesis by (simp add: p p'_def token_def token_length_def)
  next
    case 3
    then show ?thesis using le [of "token_length s" s] by (simp add: p p'_def token_def token_length_def)
  qed
qed

termination noproxy_loop
proof (relation "measure (\<lambda>(_, _, _, p, _). length p)", goal_cases)
  case (2 name namelen type p spacesep token tokenlen p' p'')
  have "length p'' < length p \<or> p'' = p \<and> at p 0 = 0x2C"
    unfolding 2(2-4,6) by (rule noproxy_progress [OF 2(1)])
  then show ?case using 2(7) by auto
next
  case (3 name namelen type p spacesep token tokenlen p' p'')
  have p: "length p'' < length p \<or> p'' = p \<and> at p 0 = 0x2C"
    unfolding 3(2-4,6) by (rule noproxy_progress [OF 3(1)])
  have "length (dropWhile (\<lambda>c. c = 0x2C) p'') < length p"
  proof (cases p'')
    case Nil
    then show ?thesis using 3(1) by simp
  next
    case (Cons c s)
    then have "length (dropWhile (\<lambda>c. c = 0x2C) p'') \<le> length s" using 3(7) by (simp add: length_dropWhile_le)
    moreover have "length p'' \<le> length p" using p by auto
    ultimately show ?thesis using Cons by simp
  qed
  then show ?case by simp
qed simp

declare noproxy_loop.simps [simp del]

subsection \<open>Prefixes\<close>

text \<open>The bits of an address from its start, and addresses that agree in the first \<open>k\<close>.\<close>

definition addr_bit :: "byte list \<Rightarrow> nat \<Rightarrow> bool" where
  "addr_bit bs i = bit (bs ! (i div 8)) (7 - i mod 8)"

definition same_prefix :: "nat \<Rightarrow> byte list \<Rightarrow> byte list \<Rightarrow> bool" where
  "same_prefix k as bs \<longleftrightarrow> (\<forall>i < k. addr_bit as i = addr_bit bs i)"

lemma addr_bit_byte: "j < 8 \<Longrightarrow> addr_bit bs (8 * k + j) = bit (bs ! k) (7 - j)"
  by (simp add: addr_bit_def)

lemma byte_eq_bits: "(x :: byte) = y \<longleftrightarrow> (\<forall>j < 8. bit x (7 - j) = bit y (7 - j))"
proof
  assume a: "\<forall>j < 8. bit x (7 - j) = bit y (7 - j)"
  show "x = y"
  proof (rule bit_word_eqI)
    fix n
    assume "n < LENGTH(8)"
    then show "bit x n = bit y n" using a [rule_format, of "7 - n"] by simp
  qed
qed simp

lemma same_prefix_add:
  "r \<le> 8 \<Longrightarrow> same_prefix (8 * k + r) as bs \<longleftrightarrow>
   same_prefix (8 * k) as bs \<and> (\<forall>j < r. bit (as ! k) (7 - j) = bit (bs ! k) (7 - j))"
proof -
  assume r: "r \<le> 8"
  have "i < 8 * k + r \<longleftrightarrow> i < 8 * k \<or> (\<exists>j < r. i = 8 * k + j)" for i
    by (auto intro: exI [of _ "i - 8 * k"])
  then show ?thesis unfolding same_prefix_def using r by (auto simp: addr_bit_byte)
qed

lemma same_prefix_bytes:
  "k \<le> length as \<Longrightarrow> k \<le> length bs \<Longrightarrow> same_prefix (8 * k) as bs \<longleftrightarrow> take k as = take k bs"
proof (induction k)
  case (Suc k)
  have "same_prefix (8 * Suc k) as bs \<longleftrightarrow> same_prefix (8 * k) as bs \<and> as ! k = bs ! k"
    using same_prefix_add [of 8 k as bs] byte_eq_bits [of "as ! k" "bs ! k"] by (simp add: add.commute)
  then show ?case using Suc by (simp add: take_Suc_conv_app_nth)
qed (simp add: same_prefix_def)

lemma masked_byte:
  assumes "r \<le> 8"
  shows "((x :: byte) XOR y) AND push_bit (8 - r) 0xff = 0 \<longleftrightarrow> (\<forall>j < r. bit x (7 - j) = bit y (7 - j))"
proof -
  have m: "(0xff :: byte) = - 1" by simp
  have "(x XOR y) AND push_bit (8 - r) 0xff = 0 \<longleftrightarrow> (\<forall>n < 8. 8 - r \<le> n \<longrightarrow> bit x n = bit y n)"
    unfolding bit_eq_iff m by (auto simp: bit_simps)
  also have "\<dots> \<longleftrightarrow> (\<forall>j < r. bit x (7 - j) = bit y (7 - j))"
  proof
    assume a: "\<forall>n < 8. 8 - r \<le> n \<longrightarrow> bit x n = bit y n"
    show "\<forall>j < r. bit x (7 - j) = bit y (7 - j)" using a assms by auto
  next
    assume a: "\<forall>j < r. bit x (7 - j) = bit y (7 - j)"
    show "\<forall>n < 8. 8 - r \<le> n \<longrightarrow> bit x n = bit y n"
    proof (intro allI impI)
      fix n :: nat
      assume "n < 8" "8 - r \<le> n"
      then show "bit x n = bit y n" using a [rule_format, of "7 - n"] by simp
    qed
  qed
  finally show ?thesis .
qed

lemma htonl_bit: "i < 32 \<Longrightarrow> bit (htonl_bytes bs) (31 - i) = addr_bit bs i"
proof -
  assume i: "i < 32"
  define q r where "q = i div 8" and "r = i mod 8"
  have e: "i = 8 * q + r" "r < 8" by (simp_all add: q_def r_def)
  then have "q = 0 \<or> q = 1 \<or> q = 2 \<or> q = 3" using i by linarith
  moreover have "r = 7 - (7 - r)" "7 - r < 8" using e(2) by simp_all
  moreover then obtain j where "r = 7 - j" "j < 8" by blast
  ultimately show ?thesis
    unfolding e(1) addr_bit_byte [OF e(2)]
    by (elim disjE) (simp_all add: htonl_bytes_def bit_simps)
qed

lemma masked_word:
  assumes "k \<le> 32"
  shows "(htonl_bytes as XOR htonl_bytes bs) AND push_bit (32 - k) 0xffffffff = 0 \<longleftrightarrow> same_prefix k as bs"
proof -
  have m: "(0xffffffff :: 32 word) = - 1" by simp
  have "(htonl_bytes as XOR htonl_bytes bs) AND push_bit (32 - k) 0xffffffff = 0 \<longleftrightarrow>
      (\<forall>n < 32. 32 - k \<le> n \<longrightarrow> bit (htonl_bytes as) n = bit (htonl_bytes bs) n)"
    unfolding bit_eq_iff m by (auto simp: bit_simps)
  also have "\<dots> \<longleftrightarrow> (\<forall>i < k. bit (htonl_bytes as) (31 - i) = bit (htonl_bytes bs) (31 - i))"
  proof
    assume a: "\<forall>n < 32. 32 - k \<le> n \<longrightarrow> bit (htonl_bytes as) n = bit (htonl_bytes bs) n"
    show "\<forall>i < k. bit (htonl_bytes as) (31 - i) = bit (htonl_bytes bs) (31 - i)" using a assms by auto
  next
    assume a: "\<forall>i < k. bit (htonl_bytes as) (31 - i) = bit (htonl_bytes bs) (31 - i)"
    show "\<forall>n < 32. 32 - k \<le> n \<longrightarrow> bit (htonl_bytes as) n = bit (htonl_bytes bs) n"
    proof (intro allI impI)
      fix n :: nat
      assume "n < 32" "32 - k \<le> n"
      then show "bit (htonl_bytes as) n = bit (htonl_bytes bs) n" using a [rule_format, of "31 - n"] by simp
    qed
  qed
  also have "\<dots> \<longleftrightarrow> same_prefix k as bs" using assms by (simp add: same_prefix_def htonl_bit)
  finally show ?thesis .
qed

lemma cidr4_prefix_aux:
  assumes "inet_pton4 s = Some as" "inet_pton4 t = Some bs"
  shows "Curl_cidr4_match s t bits \<longleftrightarrow> bits \<le> 32 \<and> same_prefix (if bits = 0 then 32 else bits) as bs"
proof -
  have l: "length as = 4" "length bs = 4" using assms pton4_exact_aux by auto
  have all: "same_prefix 32 as bs \<longleftrightarrow> as = bs" using same_prefix_bytes [of 4 as bs] l by simp
  show ?thesis
    using assms masked_word [of bits as bs] all by (auto simp: Curl_cidr4_match_def Curl_inet_pton_def Let_def)
qed

lemma cidr6_prefix_aux:
  assumes "inet_pton6 s = Some as" "inet_pton6 t = Some bs" "n = (if bits = 0 then 128 else bits)"
  shows "Curl_cidr6_match s t bits \<longleftrightarrow>
    n \<le> 128 \<and> same_prefix (8 * (n div 8)) as bs \<and> (n mod 8 = 0 \<or> \<not> same_prefix n as bs)"
proof -
  define k r where "k = n div 8" and "r = n mod 8"
  have n: "n = 8 * k + r" "r < 8" by (simp_all add: k_def r_def)
  have l: "length as = 16" "length bs = 16" using length_inet_pton6 assms by auto
  have fit: "n \<le> 128 \<longleftrightarrow> \<not> (k > 16 \<or> k = 16 \<and> r \<noteq> 0)" using n by auto
  have m: "Curl_cidr6_match s t bits \<longleftrightarrow>
      \<not> (k > 16 \<or> k = 16 \<and> r \<noteq> 0) \<and> \<not> (k \<noteq> 0 \<and> take k as \<noteq> take k bs) \<and>
      (r \<noteq> 0 \<longrightarrow> (as ! k XOR bs ! k) AND push_bit (8 - r) 0xff \<noteq> 0)"
    unfolding Curl_cidr6_match_def Let_def assms(3) [symmetric] k_def [symmetric] r_def [symmetric]
    using assms(1,2) by (auto simp: Curl_inet_pton_def)
  have p: "same_prefix n as bs \<longleftrightarrow> same_prefix (8 * k) as bs \<and> (as ! k XOR bs ! k) AND push_bit (8 - r) 0xff = 0"
    unfolding n(1) using same_prefix_add [of r k as bs] masked_byte [of r "as ! k" "bs ! k"] n(2) by simp
  show ?thesis
    unfolding k_def [symmetric] r_def [symmetric] p fit m
    using same_prefix_bytes [of k as bs] l by auto
qed

subsection \<open>Entries of the list\<close>

text \<open>What the list means: its entries are what is between blanks and commas.\<close>

definition separator :: "byte \<Rightarrow> bool" where
  "separator c \<longleftrightarrow> ISBLANK c \<or> c = 0x2C"

fun fields :: "byte list \<Rightarrow> byte list list" where
  "fields [] = [[]]"
| "fields (c # s) = (if separator c then [] # fields s else (case fields s of [] \<Rightarrow> [[c]] | f # fs \<Rightarrow> (c # f) # fs))"

definition entries :: "byte list \<Rightarrow> byte list list" where
  "entries s = filter (\<lambda>f. f \<noteq> []) (fields s)"

text \<open>A name is in a domain if they are equal or the domain is the end of the name behind a dot.\<close>

definition undotted :: "byte list \<Rightarrow> byte list" where
  "undotted t = (let t = (if last t = 0x2E then butlast t else t) in if t \<noteq> [] \<and> hd t = 0x2E then drop 1 t else t)"

definition in_domain :: "byte list \<Rightarrow> byte list \<Rightarrow> bool" where
  "in_domain name domain \<longleftrightarrow>
     map Curl_raw_toupper name = map Curl_raw_toupper domain \<or>
     suffix (0x2E # map Curl_raw_toupper domain) (map Curl_raw_toupper name)"

definition entry_match :: "byte list \<Rightarrow> nametype \<Rightarrow> byte list \<Rightarrow> bool" where
  "entry_match name type t =
     (case type of TYPE_HOST \<Rightarrow> in_domain name (undotted t) | _ \<Rightarrow> addr_match type name t (length t))"

lemma fields_nonempty [simp]: "fields s \<noteq> []"
  by (cases s) (simp_all split: list.split)

lemma entries_Nil [simp]: "entries [] = []"
  by (simp add: entries_def)

lemma entries_separator: "separator c \<Longrightarrow> entries (c # s) = entries s"
  by (simp add: entries_def)

lemma entries_dropWhile: "(\<And>c. P c \<Longrightarrow> separator c) \<Longrightarrow> entries (dropWhile P s) = entries s"
  by (induction s) (simp_all add: entries_separator)

lemma entries_word:
  assumes "w \<noteq> []" "list_all (\<lambda>c. \<not> separator c) w" "r = [] \<or> separator (hd r)"
  shows "entries (w @ r) = w # entries r"
proof -
  obtain fs where r: "fields r = [] # fs" using assms(3) by (cases r) auto
  have "fields (w @ r) = w # fs" using assms(2) by (induction w) (simp_all add: r)
  then show ?thesis using r assms(1) by (simp add: entries_def)
qed

lemma not_separator: "\<not> separator c \<longleftrightarrow> \<not> ISBLANK c \<and> c \<noteq> 0x2C"
  by (simp add: separator_def)

lemma token_split:
  "entries token = (if token_length token = 0 then [] else [take (token_length token) token]) @ entries (drop (token_length token) token)"
proof -
  let ?P = "\<lambda>c. \<not> ISBLANK c \<and> c \<noteq> 0x2C"
  have t: "take (token_length token) token = takeWhile ?P token" "drop (token_length token) token = dropWhile ?P token"
    by (simp_all only: token_length_def takeWhile_eq_take [symmetric] dropWhile_eq_drop [symmetric])
  have r: "dropWhile ?P token = [] \<or> separator (hd (dropWhile ?P token))"
    using hd_dropWhile [of ?P token] by (auto simp: separator_def)
  have w: "list_all (\<lambda>c. \<not> separator c) (takeWhile ?P token)"
    by (auto simp: list_all_iff not_separator dest: set_takeWhileD)
  have s: "entries token = entries (takeWhile ?P token @ dropWhile ?P token)" by simp
  show ?thesis
  proof (cases "takeWhile ?P token = []")
    case True
    then have "dropWhile ?P token = token" by (metis append_Nil takeWhile_dropWhile_id)
    with True show ?thesis unfolding t by (simp add: token_length_def)
  next
    case False
    then show ?thesis using entries_word [OF False w r] unfolding s t by (simp add: token_length_def)
  qed
qed

lemma toupper_dot: "Curl_raw_toupper c = 0x2E \<longleftrightarrow> c = 0x2E"
proof -
  have "(Curl_raw_toupper c = 0x2E) = (c = 0x2E)"
    by (rule byte_all [of "\<lambda>c. (Curl_raw_toupper c = 0x2E) = (c = 0x2E)"]) code_simp
  then show ?thesis .
qed

lemma ncasecompare_take:
  "n \<le> length a \<Longrightarrow> n \<le> length b \<Longrightarrow>
   ncasecompare a b n \<longleftrightarrow> map Curl_raw_toupper (take n a) = map Curl_raw_toupper (take n b)"
proof (induction n arbitrary: a b)
  case (Suc n)
  then show ?case by (cases a; cases b) auto
qed simp

lemma suffix_same_length: "length ys = length xs \<Longrightarrow> suffix (y # ys) (pre @ x # xs) \<longleftrightarrow> x = y \<and> xs = ys"
  by (auto simp: suffix_def)

text \<open>The dots of the entry are passed by moving the pointer and counting down.\<close>

lemma undotted_pointer:
  assumes "0 < k" "k \<le> length token"
  defines "k1 \<equiv> if at token (k - 1) = 0x2E then k - 1 else k"
  defines "dot \<equiv> k1 \<noteq> 0 \<and> at token 0 = 0x2E"
  defines "token2 \<equiv> if dot then drop 1 token else token" and "k2 \<equiv> if dot then k1 - 1 else k1"
  shows "take k2 token2 = undotted (take k token) \<and> k2 \<le> length token2"
proof -
  have l: "last (take k token) = at token (k - 1)" using assms(1,2) by (cases k) (simp_all add: take_Suc_conv_app_nth at_def)
  have b: "(if last (take k token) = 0x2E then butlast (take k token) else take k token) = take k1 token"
    using assms(1,2) l by (simp add: k1_def butlast_take)
  have k1: "k1 \<le> k" by (simp add: k1_def)
  have h: "take k1 token \<noteq> [] \<and> hd (take k1 token) = 0x2E \<longleftrightarrow> dot"
    using assms(1,2) by (auto simp: dot_def at_def hd_conv_nth)
  have "undotted (take k token) = (if dot then drop 1 (take k1 token) else take k1 token)"
    unfolding undotted_def b Let_def h ..
  then show ?thesis using k1 assms(2) by (auto simp: token2_def k2_def drop_take intro: diff_le_mono)
qed

lemma host_match_domain:
  assumes "0 < k" "k \<le> length token" "n \<le> length name"
  shows "host_match name n token k \<longleftrightarrow> in_domain (take n name) (undotted (take k token))"
proof -
  define k1 where "k1 = (if at token (k - 1) = 0x2E then k - 1 else k)"
  define dot where "dot \<longleftrightarrow> k1 \<noteq> 0 \<and> at token 0 = 0x2E"
  define token2 k2 where "token2 = (if dot then drop 1 token else token)" and "k2 = (if dot then k1 - 1 else k1)"
  have u: "take k2 token2 = undotted (take k token)" "k2 \<le> length token2"
    using undotted_pointer [OF assms(1,2)] unfolding k1_def [symmetric] dot_def [symmetric] token2_def [symmetric] k2_def [symmetric]
    by simp_all
  let ?up = "map Curl_raw_toupper"
  have m: "host_match name n token k \<longleftrightarrow>
      (if k2 = n then ncasecompare token2 name n
       else k2 < n \<and> at name (n - k2 - 1) = 0x2E \<and> ncasecompare token2 (drop (n - k2) name) k2)"
    unfolding host_match_def k1_def [symmetric] Let_def dot_def [symmetric]
    by (cases dot) (auto simp: token2_def k2_def curl_strnequal_def)
  have len: "length (?up (take n name)) = n" "length (?up (take k2 token2)) = k2" using assms(3) u(2) by simp_all
  consider "k2 = n" | "k2 < n" | "n < k2" by linarith
  then show ?thesis
  proof cases
    case 1
    have "\<not> suffix (0x2E # ?up (take k2 token2)) (?up (take n name))"
      using len 1 by (auto dest: suffix_length_le)
    then show ?thesis
      using 1 m ncasecompare_take [of n token2 name] u assms(3) by (auto simp: in_domain_def)
  next
    case 2
    have s: "take n name = take (n - k2 - 1) name @ name ! (n - k2 - 1) # take k2 (drop (n - k2) name)"
    proof -
      have "take n name = take (n - k2) name @ take k2 (drop (n - k2) name)"
        using 2 take_add [of "n - k2" k2 name] by simp
      moreover have "take (n - k2) name = take (n - k2 - 1) name @ [name ! (n - k2 - 1)]"
        using 2 assms(3) take_Suc_conv_app_nth [of "n - k2 - 1" name] by (simp add: Suc_diff_Suc)
      ultimately show ?thesis by simp
    qed
    have "suffix (0x2E # ?up (take k2 token2)) (?up (take n name)) \<longleftrightarrow>
        name ! (n - k2 - 1) = 0x2E \<and> ?up (take k2 (drop (n - k2) name)) = ?up (take k2 token2)"
      unfolding s map_append list.map by (subst suffix_same_length) (use u(2) assms(3) 2 in \<open>auto simp: toupper_dot\<close>)
    moreover have "?up (take n name) \<noteq> ?up (take k2 token2)" using len 2 by (metis less_irrefl)
    moreover have "at name (n - k2 - 1) = name ! (n - k2 - 1)"
    proof -
      have "n - k2 - 1 < length name" using 2 assms(3) by linarith
      then show ?thesis by (simp add: at_def)
    qed
    ultimately show ?thesis
      using 2 m ncasecompare_take [of k2 token2 "drop (n - k2) name"] u assms(3) by (auto simp: in_domain_def)
  next
    case 3
    have "\<not> suffix (0x2E # ?up (take k2 token2)) (?up (take n name))"
      using len 3 by (auto dest: suffix_length_le)
    moreover have "?up (take n name) \<noteq> ?up (take k2 token2)" using len 3 by (metis less_irrefl)
    ultimately show ?thesis using 3 m u by (simp add: in_domain_def)
  qed
qed

lemma token_match_entry:
  assumes "0 < k" "k \<le> length token" "n \<le> length name" "type \<noteq> TYPE_HOST \<longrightarrow> n = length name"
  shows "token_match name n type token k \<longleftrightarrow> entry_match (take n name) type (take k token)"
  using assms host_match_domain [OF assms(1-3)]
  by (cases type) (simp_all add: token_match_def entry_match_def addr_match_def min_def)

lemma noproxy_loop_entries:
  assumes "n \<le> length name" "type \<noteq> TYPE_HOST \<longrightarrow> n = length name"
  shows "fst (noproxy_loop name n type p sep) \<longleftrightarrow> list_ex (entry_match (take n name) type) (entries p)"
proof (induction p arbitrary: sep rule: measure_induct_rule [of length])
  case (less p)
  show ?case
  proof (cases "p = []")
    case True
    then show ?thesis by (simp add: noproxy_loop.simps [of _ _ _ "[]"])
  next
    case False
    define token where "token = dropWhile ISBLANK p"
    define k where "k = token_length token"
    define p' where "p' = dropWhile ISBLANK (drop k token)"
    have k: "k \<le> length token" by (simp add: k_def token_length_def length_takeWhile_le)
    have prog: "length p' < length p \<or> p' = p \<and> at p 0 = 0x2C"
      unfolding p'_def k_def token_def by (rule noproxy_progress [OF False])
    have blank: "entries (dropWhile ISBLANK q) = entries q" for q
      by (rule entries_dropWhile) (simp add: separator_def)
    have comma: "entries (dropWhile (\<lambda>c. c = 0x2C) q) = entries q" for q
      by (rule entries_dropWhile) (simp add: separator_def)
    have e: "entries p = (if k = 0 then [] else [take k token]) @ entries p'"
      using token_split [of token] blank [of p] blank [of "drop k token"] by (simp add: token_def k_def p'_def)
    have rec: "fst (noproxy_loop name n type p sep) \<longleftrightarrow>
        (k \<noteq> 0 \<and> token_match name n type token k) \<or>
        (if p' \<noteq> [] \<and> at p' 0 \<noteq> 0x2C then fst (noproxy_loop name n type p' True)
         else fst (noproxy_loop name n type (dropWhile (\<lambda>c. c = 0x2C) p') sep))"
      using False noproxy_loop.simps [of name n type p sep]
      unfolding token_def [symmetric] Let_def k_def [symmetric] p'_def [symmetric] by simp
    have short: "length (dropWhile (\<lambda>c. c = 0x2C) p') < length p" if "p' = [] \<or> at p' 0 = 0x2C"
    proof (cases p')
      case Nil
      then show ?thesis using False by simp
    next
      case (Cons c s)
      then have "length (dropWhile (\<lambda>c. c = 0x2C) p') \<le> length s" using that by (simp add: length_dropWhile_le)
      then show ?thesis using prog Cons by auto
    qed
    have "(if p' \<noteq> [] \<and> at p' 0 \<noteq> 0x2C then fst (noproxy_loop name n type p' True)
         else fst (noproxy_loop name n type (dropWhile (\<lambda>c. c = 0x2C) p') sep)) \<longleftrightarrow>
        list_ex (entry_match (take n name) type) (entries p')"
      using less.IH [of p' True] less.IH [of "dropWhile (\<lambda>c. c = 0x2C) p'" sep] prog short comma by auto
    then show ?thesis
      using rec e token_match_entry [of k token n name type] k assms by auto
  qed
qed

lemma noproxy_name_length:
  "noproxy_name name = Some (nm, n, type) \<Longrightarrow> n \<le> length nm \<and> (type \<noteq> TYPE_HOST \<longrightarrow> n = length nm)"
proof -
  have "strchr_index s c = Some i \<Longrightarrow> i - 1 \<le> length s - 1" for s c i
    by (drule strchr_SomeD) (auto intro: diff_le_mono)
  then show "noproxy_name name = Some (nm, n, type) \<Longrightarrow> ?thesis"
    by (fastforce simp: noproxy_name_def Let_def min_def split: if_splits option.splits)
qed

subsection \<open>Properties\<close>

text \<open>
  C26. The proxy is passed over exactly when the list is an asterisk or one of its entries
  matches the host, where the entries are what stands between blanks and commas. A host name
  matches a domain that it equals or ends in behind a dot, whatever the case of the letters and
  apart from a dot at either end of the entry.
\<close>
theorem noproxy_entries:
  "fst (Curl_check_noproxy (Some name) (Some p)) \<longleftrightarrow>
     name \<noteq> [] \<and>
     (p = s2b ''*'' \<or>
      (case noproxy_name name of
         None \<Rightarrow> False
       | Some (nm, n, type) \<Rightarrow> list_ex (entry_match (take n nm) type) (entries p)))"
  by (auto simp: Curl_check_noproxy_def noproxy_loop_entries dest!: noproxy_name_length split: option.split prod.split)

theorem noproxy_entries_witness:
  "fst (Curl_check_noproxy (Some (s2b ''www.example.com'')) (Some (s2b ''localhost .Example.COM'')))"
  unfolding noproxy_entries by code_simp

text \<open>
  An IPv4 address is in a network given with a prefix length exactly when the length is at
  most 32 and the address and the network agree in that many first bits; without a length all
  bits count.
\<close>
theorem cidr4_prefix:
  assumes "inet_pton4 s = Some as" and "inet_pton4 t = Some bs"
  shows "Curl_cidr4_match s t bits \<longleftrightarrow> bits \<le> 32 \<and> same_prefix (if bits = 0 then 32 else bits) as bs"
  by (rule cidr4_prefix_aux [OF assms])

theorem cidr4_prefix_witness:
  "Curl_cidr4_match (s2b ''192.168.1.7'') (s2b ''192.168.0.0'') 23 \<longleftrightarrow>
     (23 :: nat) \<le> 32 \<and> same_prefix (if (23 :: nat) = 0 then 32 else 23) [192, 168, 1, 7] [192, 168, 0, 0]"
  by (rule cidr4_prefix) code_simp+

text \<open>
  C27. For IPv6 the bytes that the prefix fills must agree, but when the length is not a multiple
  of eight the match needs the bits of the prefix in the next byte to differ: no address of the
  network matches, and addresses outside it do.
\<close>
theorem cidr6_partial_inverted:
  assumes "inet_pton6 s = Some as" and "inet_pton6 t = Some bs" and "n = (if bits = 0 then 128 else bits)"
  shows "Curl_cidr6_match s t bits \<longleftrightarrow>
    n \<le> 128 \<and> same_prefix (8 * (n div 8)) as bs \<and> (n mod 8 = 0 \<or> \<not> same_prefix n as bs)"
  by (rule cidr6_prefix_aux [OF assms])

theorem cidr6_partial_inverted_witness:
  "Curl_cidr6_match (s2b ''2001::'') (s2b ''2081::'') 9 \<longleftrightarrow>
     (9 :: nat) \<le> 128 \<and> same_prefix (8 * (9 div 8)) (0x20 # 1 # replicate 14 0) (0x20 # 0x81 # replicate 14 0) \<and>
     ((9 :: nat) mod 8 = 0 \<or> \<not> same_prefix 9 (0x20 # 1 # replicate 14 0) (0x20 # 0x81 # replicate 14 0))"
  by (rule cidr6_partial_inverted) code_simp+

end
