(* ===== verification/Adler32.thy ===== *)
theory Adler32
  imports Prelude
begin

text \<open>
  The Adler-32 checksum of the compression library, \<open>adler32.c\<close>. \<open>uLong\<close> has the 32 bits it
  has at least, so the sums wrap around where the code lets them grow too far; that they never
  do is a consequence of \<open>NMAX\<close>. A pair is \<open>adler\<close> and \<open>sum2\<close>, and a pointer into the data is what is
  left of it.

  The unrolled and deferred computation is the sum of the definition of the checksum, reduced
  after every byte, and the checksum of a concatenation is computed from those of the parts.
\<close>

definition BASE :: "32 word" where "BASE = 65521"
definition NMAX :: nat where "NMAX = 5552"

type_synonym sums = "32 word \<times> 32 word"

definition DO1 :: "byte list \<Rightarrow> nat \<Rightarrow> sums \<Rightarrow> sums" where
  "DO1 buf i s = (case s of (adler, sum2) \<Rightarrow> let adler = adler + ucast (buf ! i) in (adler, sum2 + adler))"

definition DO2 :: "byte list \<Rightarrow> nat \<Rightarrow> sums \<Rightarrow> sums" where
  "DO2 buf i s = DO1 buf (i + 1) (DO1 buf i s)"

definition DO4 :: "byte list \<Rightarrow> nat \<Rightarrow> sums \<Rightarrow> sums" where
  "DO4 buf i s = DO2 buf (i + 2) (DO2 buf i s)"

definition DO8 :: "byte list \<Rightarrow> nat \<Rightarrow> sums \<Rightarrow> sums" where
  "DO8 buf i s = DO4 buf (i + 4) (DO4 buf i s)"

definition DO16 :: "byte list \<Rightarrow> sums \<Rightarrow> sums" where
  "DO16 buf s = DO8 buf 8 (DO8 buf 0 s)"

text \<open>The reductions for a processor without a division, and with one.\<close>

definition CHOP :: "32 word \<Rightarrow> 32 word" where
  "CHOP a = (let t = drop_bit 16 a in (a AND 0xffff) + (push_bit 4 t - t))"

definition MOD28_no_divide :: "32 word \<Rightarrow> 32 word" where
  "MOD28_no_divide a = (let a = CHOP a in if a \<ge> BASE then a - BASE else a)"

definition MOD_no_divide :: "32 word \<Rightarrow> 32 word" where
  "MOD_no_divide a = MOD28_no_divide (CHOP a)"

definition MOD63_no_divide :: "64 word \<Rightarrow> 64 word" where
  "MOD63_no_divide a =
     (let t = drop_bit 32 a; a = (a AND 0xffffffff) + (push_bit 8 t - push_bit 5 t + t);
          t = drop_bit 16 a; a = (a AND 0xffff) + (push_bit 4 t - t);
          t = drop_bit 16 a; a = (a AND 0xffff) + (push_bit 4 t - t)
      in if a \<ge> 65521 then a - 65521 else a)"

definition MOD_BASE :: "32 word \<Rightarrow> 32 word" where
  "MOD_BASE a = a mod BASE"

text \<open>The loops: byte by byte, and \<open>n\<close> times sixteen bytes.\<close>

fun byte_loop :: "byte list \<Rightarrow> sums \<Rightarrow> sums" where
  "byte_loop [] s = s"
| "byte_loop (b # buf) s = (case s of (adler, sum2) \<Rightarrow> let adler = adler + ucast b in byte_loop buf (adler, sum2 + adler))"

fun do16_loop :: "nat \<Rightarrow> byte list \<Rightarrow> sums \<Rightarrow> byte list \<times> sums" where
  "do16_loop 0 buf s = (buf, s)"
| "do16_loop (Suc n) buf s = do16_loop n (drop 16 buf) (DO16 buf s)"

function nmax_loop :: "byte list \<Rightarrow> sums \<Rightarrow> byte list \<times> sums" where
  "nmax_loop buf s =
     (if length buf \<ge> NMAX then
        case do16_loop (NMAX div 16) buf s of (buf', adler, sum2) \<Rightarrow> nmax_loop (drop NMAX buf) (MOD_BASE adler, MOD_BASE sum2)
      else (buf, s))"
  by pat_completeness auto

termination nmax_loop
  by (relation "measure (\<lambda>(buf, _). length buf)") (auto simp: NMAX_def)

declare nmax_loop.simps [simp del]

function tail16_loop :: "byte list \<Rightarrow> sums \<Rightarrow> byte list \<times> sums" where
  "tail16_loop buf s = (if length buf \<ge> 16 then tail16_loop (drop 16 buf) (DO16 buf s) else (buf, s))"
  by pat_completeness auto

termination tail16_loop
  by (relation "measure (\<lambda>(buf, _). length buf)") auto

declare tail16_loop.simps [simp del]

text \<open>\<open>len\<close> is the length of the data; there is none with \<open>Z_NULL\<close>.\<close>

definition adler32_z :: "32 word \<Rightarrow> byte list option \<Rightarrow> 32 word" where
  "adler32_z adler buf =
     (let sum2 = drop_bit 16 adler AND 0xffff; adler = adler AND 0xffff
      in case buf of
           None \<Rightarrow> 1
         | Some buf \<Rightarrow>
             if length buf = 1 then
               let adler = adler + ucast (buf ! 0);
                   adler = (if adler \<ge> BASE then adler - BASE else adler);
                   sum2 = sum2 + adler;
                   sum2 = (if sum2 \<ge> BASE then sum2 - BASE else sum2)
               in adler OR push_bit 16 sum2
             else if length buf < 16 then
               case byte_loop buf (adler, sum2) of
                 (adler, sum2) \<Rightarrow>
                   let adler = (if adler \<ge> BASE then adler - BASE else adler)
                   in adler OR push_bit 16 (MOD_BASE sum2)
             else
               case nmax_loop buf (adler, sum2) of
                 (buf, s) \<Rightarrow>
                   (case (if buf \<noteq> [] then
                            case tail16_loop buf s of
                              (buf, s) \<Rightarrow> (case byte_loop buf s of (adler, sum2) \<Rightarrow> (MOD_BASE adler, MOD_BASE sum2))
                          else s) of
                      (adler, sum2) \<Rightarrow> adler OR push_bit 16 sum2))"

definition adler32 :: "32 word \<Rightarrow> byte list option \<Rightarrow> 32 word" where
  "adler32 adler buf = adler32_z adler buf"

definition adler32_combine_impl :: "32 word \<Rightarrow> 32 word \<Rightarrow> int \<Rightarrow> 32 word" where
  "adler32_combine_impl adler1 adler2 len2 =
     (if len2 < 0 then 0xffffffff
      else
        let rem = word_of_int (len2 mod uint BASE);
            sum1 = adler1 AND 0xffff;
            sum2 = MOD_BASE (rem * sum1);
            sum1 = sum1 + ((adler2 AND 0xffff) + BASE - 1);
            sum2 = sum2 + ((drop_bit 16 adler1 AND 0xffff) + (drop_bit 16 adler2 AND 0xffff) + BASE - rem);
            sum1 = (if sum1 \<ge> BASE then sum1 - BASE else sum1);
            sum1 = (if sum1 \<ge> BASE then sum1 - BASE else sum1);
            sum2 = (if sum2 \<ge> push_bit 1 BASE then sum2 - push_bit 1 BASE else sum2);
            sum2 = (if sum2 \<ge> BASE then sum2 - BASE else sum2)
        in sum1 OR push_bit 16 sum2)"

definition adler32_combine :: "32 word \<Rightarrow> 32 word \<Rightarrow> int \<Rightarrow> 32 word" where
  "adler32_combine adler1 adler2 len2 = adler32_combine_impl adler1 adler2 len2"

definition adler32_combine64 :: "32 word \<Rightarrow> 32 word \<Rightarrow> int \<Rightarrow> 32 word" where
  "adler32_combine64 adler1 adler2 len2 = adler32_combine_impl adler1 adler2 len2"

subsection \<open>The definition of the checksum\<close>

text \<open>Two sums of natural numbers, reduced after every byte, and their packing into a word.\<close>

fun adler_spec :: "byte list \<Rightarrow> nat \<times> nat \<Rightarrow> nat \<times> nat" where
  "adler_spec [] s = s"
| "adler_spec (b # bs) s =
     (let a = (fst s + unat b) mod 65521 in adler_spec bs (a, (snd s + a) mod 65521))"

definition adler_parts :: "32 word \<Rightarrow> nat \<times> nat" where
  "adler_parts w = (unat w mod 65536, unat w div 65536)"

definition adler_valid :: "32 word \<Rightarrow> bool" where
  "adler_valid w \<longleftrightarrow> fst (adler_parts w) < 65521 \<and> snd (adler_parts w) < 65521"

text \<open>The sums as they are without reduction.\<close>

fun plain_sums :: "byte list \<Rightarrow> nat \<times> nat \<Rightarrow> nat \<times> nat" where
  "plain_sums [] s = s"
| "plain_sums (b # bs) s = plain_sums bs (fst s + unat b, snd s + fst s + unat b)"

definition nats :: "sums \<Rightarrow> nat \<times> nat" where
  "nats s = (unat (fst s), unat (snd s))"

definition mod_pair :: "nat \<times> nat \<Rightarrow> nat \<times> nat" where
  "mod_pair s = (fst s mod 65521, snd s mod 65521)"

lemma mod_pair_idem [simp]: "mod_pair (mod_pair s) = mod_pair s"
  by (simp add: mod_pair_def)

lemma plain_sums_mod: "mod_pair s = mod_pair s' \<Longrightarrow> mod_pair (plain_sums bs s) = mod_pair (plain_sums bs s')"
proof (induction bs arbitrary: s s')
  case (Cons b bs)
  have "mod_pair (fst s + unat b, snd s + fst s + unat b) = mod_pair (fst s' + unat b, snd s' + fst s' + unat b)"
  proof -
    have f: "fst s mod 65521 = fst s' mod 65521" and g: "snd s mod 65521 = snd s' mod 65521"
      using Cons.prems by (simp_all only: mod_pair_def prod.inject)
    show ?thesis
      unfolding mod_pair_def fst_conv snd_conv
      by (simp only: mod_add_cong [OF f refl] mod_add_cong [OF mod_add_cong [OF g f] refl])
  qed
  from Cons.IH [OF this] show ?case by (simp only: plain_sums.simps)
qed simp

lemma adler_spec_plain: "mod_pair s = s \<Longrightarrow> adler_spec bs s = mod_pair (plain_sums bs s)"
proof (induction bs arbitrary: s)
  case (Cons b bs)
  let ?a = "(fst s + unat b) mod 65521"
  let ?s = "(?a, (snd s + ?a) mod 65521)"
  have "mod_pair ?s = mod_pair (fst s + unat b, snd s + fst s + unat b)"
    unfolding mod_pair_def fst_conv snd_conv by (simp only: mod_mod_trivial mod_add_right_eq add.assoc)
  moreover have "mod_pair ?s = ?s"
    unfolding mod_pair_def fst_conv snd_conv by (simp only: mod_mod_trivial)
  ultimately show ?case
    using Cons.IH [of ?s] plain_sums_mod [of ?s "(fst s + unat b, snd s + fst s + unat b)" bs]
    by (simp only: adler_spec.simps plain_sums.simps Let_def)
qed simp

lemma plain_sums_append: "plain_sums (as @ bs) s = plain_sums bs (plain_sums as s)"
  by (induction as arbitrary: s) simp_all

lemma unat_ucast_byte: "unat (ucast (b :: byte) :: 32 word) = unat b"
proof -
  have "unat b < 2 ^ 32" by (rule less_le_trans [OF unat_byte]) simp
  then show ?thesis by (simp add: unsigned_ucast_eq take_bit_nat_eq_self)
qed

text \<open>After \<open>n\<close> bytes the sums are bounded, quadratically for the second.\<close>

lemma plain_sums_bound:
  "fst s \<le> A \<Longrightarrow> fst (plain_sums bs s) \<le> A + 255 * length bs \<and>
   2 * snd (plain_sums bs s) \<le> 2 * snd s + 2 * A * length bs + 255 * length bs * (length bs + 1)"
proof (induction bs arbitrary: s A)
  case (Cons b bs)
  have b: "unat b \<le> 255" using unat_byte [of b] by linarith
  then have "fst (fst s + unat b, snd s + fst s + unat b) \<le> A + 255" using Cons.prems by simp
  from Cons.IH [OF this] Cons.prems b show ?case by (simp add: algebra_simps)
qed simp

lemma plain_sums_fit:
  assumes "fst s < 65521" "snd s < 65521" "length bs \<le> 5552"
  shows "fst (plain_sums bs s) < 2 ^ 32" "snd (plain_sums bs s) < 2 ^ 32"
proof -
  have l: "length bs * (length bs + 1) \<le> 5552 * 5553" using assms(3) by (intro mult_le_mono) simp_all
  have p: "255 * length bs * (length bs + 1) = 255 * (length bs * (length bs + 1))" by (rule mult.assoc)
  from plain_sums_bound [of s 65520 bs] assms
  show "fst (plain_sums bs s) < 2 ^ 32" by simp
  have "2 * snd (plain_sums bs s) \<le> 2 * snd s + 2 * 65520 * length bs + 255 * (length bs * (length bs + 1))"
    using plain_sums_bound [of s 65520 bs] assms(1) unfolding p by simp
  then show "snd (plain_sums bs s) < 2 ^ 32" using assms(2,3) l by simp
qed

subsection \<open>The loops compute the plain sums\<close>

lemma byte_loop_plain:
  "fst (plain_sums bs (nats s)) < 2 ^ 32 \<Longrightarrow> snd (plain_sums bs (nats s)) < 2 ^ 32 \<Longrightarrow>
   nats (byte_loop bs s) = plain_sums bs (nats s)"
proof (induction bs arbitrary: s)
  case (Cons b bs)
  obtain a t where s: "s = (a, t)" by (cases s)
  let ?s = "(a + ucast b, t + (a + ucast b))"
  have mono: "fst u \<le> fst (plain_sums bs u) \<and> snd u \<le> snd (plain_sums bs u)" for u
  proof (induction bs arbitrary: u)
    case (Cons c cs)
    from Cons.IH [of "(fst u + unat c, snd u + fst u + unat c)"] show ?case by simp
  qed simp
  let ?n = "(unat a + unat b, unat t + unat a + unat b)"
  have p: "plain_sums (b # bs) (nats s) = plain_sums bs ?n" by (simp add: s nats_def)
  have "fst ?n < 2 ^ 32" "snd ?n < 2 ^ 32" using mono [of ?n] Cons.prems unfolding p by linarith+
  then have n: "nats ?s = ?n"
    by (simp add: nats_def unat_word_ariths unat_ucast_byte add.assoc)
  show ?case using Cons.IH [of ?s] Cons.prems unfolding p n [symmetric] by (simp add: s Let_def)
qed simp

lemma byte_loop_append: "byte_loop (as @ bs) s = byte_loop bs (byte_loop as s)"
proof (induction as arbitrary: s)
  case (Cons a as)
  then show ?case by (cases s) (simp add: Let_def)
qed simp

lemma DO1_take:
  "i < length buf \<Longrightarrow> DO1 buf i (byte_loop (take i buf) s) = byte_loop (take (Suc i) buf) s"
  by (simp add: take_Suc_conv_app_nth byte_loop_append DO1_def split: prod.split)

lemma DO_take:
  "i + 2 \<le> length buf \<Longrightarrow> DO2 buf i (byte_loop (take i buf) s) = byte_loop (take (i + 2) buf) s"
  "i + 4 \<le> length buf \<Longrightarrow> DO4 buf i (byte_loop (take i buf) s) = byte_loop (take (i + 4) buf) s"
  "i + 8 \<le> length buf \<Longrightarrow> DO8 buf i (byte_loop (take i buf) s) = byte_loop (take (i + 8) buf) s"
proof -
  show a: "i + 2 \<le> length buf \<Longrightarrow> DO2 buf i (byte_loop (take i buf) s) = byte_loop (take (i + 2) buf) s" for i
    using DO1_take [of i buf s] DO1_take [of "i + 1" buf s] by (simp add: DO2_def)
  show b: "i + 4 \<le> length buf \<Longrightarrow> DO4 buf i (byte_loop (take i buf) s) = byte_loop (take (i + 4) buf) s" for i
    using a [of i] a [of "i + 2"] by (simp add: DO4_def numeral_eq_Suc)
  show "i + 8 \<le> length buf \<Longrightarrow> DO8 buf i (byte_loop (take i buf) s) = byte_loop (take (i + 8) buf) s"
    using b [of i] b [of "i + 4"] by (simp add: DO8_def numeral_eq_Suc)
qed

lemma DO16_take: "16 \<le> length buf \<Longrightarrow> DO16 buf s = byte_loop (take 16 buf) s"
  using DO_take(3) [of 0 buf s] DO_take(3) [of 8 buf s] by (simp add: DO16_def)

lemma do16_loop_take:
  "16 * n \<le> length buf \<Longrightarrow> do16_loop n buf s = (drop (16 * n) buf, byte_loop (take (16 * n) buf) s)"
proof (induction n arbitrary: buf s)
  case (Suc n)
  have "take (16 * Suc n) buf = take 16 buf @ take (16 * n) (drop 16 buf)"
    using take_add [of 16 "16 * n" buf] by simp
  then show ?case using Suc.IH [of "drop 16 buf"] Suc.prems DO16_take [of buf s] by (simp add: byte_loop_append add.commute)
qed simp

lemma tail16_loop_byte:
  "case tail16_loop buf s of (rest, s') \<Rightarrow> byte_loop rest s' = byte_loop buf s"
proof (induction buf s rule: tail16_loop.induct)
  case (1 buf s)
  show ?case
  proof (cases "16 \<le> length buf")
    case True
    have "byte_loop buf s = byte_loop (drop 16 buf) (byte_loop (take 16 buf) s)"
      using byte_loop_append [of "take 16 buf" "drop 16 buf" s] by simp
    then show ?thesis using 1 True DO16_take [OF True, of s] by (simp add: tail16_loop.simps [of buf])
  qed (simp add: tail16_loop.simps [of buf])
qed

lemma nats_MOD: "nats (MOD_BASE a, MOD_BASE b) = mod_pair (nats (a, b))"
  by (simp add: nats_def mod_pair_def MOD_BASE_def BASE_def unat_mod)

subsection \<open>The checksum is the definition\<close>

definition reduced :: "nat \<times> nat \<Rightarrow> bool" where
  "reduced s \<longleftrightarrow> fst s < 65521 \<and> snd s < 65521"

lemma reduced_mod: "reduced s \<Longrightarrow> mod_pair s = s"
  by (simp add: reduced_def mod_pair_def)

lemma reduced_mod_pair [simp]: "reduced (mod_pair s)"
  by (simp add: reduced_def mod_pair_def)

lemma adler_spec_reduced: "reduced s \<Longrightarrow> reduced (adler_spec bs s)"
  using adler_spec_plain [OF reduced_mod] by simp

lemma adler_spec_append: "adler_spec (as @ bs) s = adler_spec bs (adler_spec as s)"
  by (induction as arbitrary: s) (simp_all add: Let_def)

lemma byte_loop_spec:
  assumes "reduced (nats s)" "length bs \<le> 5552"
  shows "nats (byte_loop bs s) = plain_sums bs (nats s)" "mod_pair (nats (byte_loop bs s)) = adler_spec bs (nats s)"
proof -
  show p: "nats (byte_loop bs s) = plain_sums bs (nats s)"
    using assms by (intro byte_loop_plain plain_sums_fit) (simp_all add: reduced_def)
  show "mod_pair (nats (byte_loop bs s)) = adler_spec bs (nats s)"
    unfolding p by (rule adler_spec_plain [OF reduced_mod [OF assms(1)], symmetric])
qed

lemma nmax_loop_spec:
  "reduced (nats s) \<Longrightarrow> case nmax_loop buf s of (rest, s') \<Rightarrow>
     reduced (nats s') \<and> length rest < 5552 \<and> adler_spec rest (nats s') = adler_spec buf (nats s)"
proof (induction buf s rule: nmax_loop.induct)
  case (1 buf s)
  show ?case
  proof (cases "NMAX \<le> length buf")
    case True
    let ?s = "byte_loop (take 5552 buf) s"
    have d: "do16_loop (NMAX div 16) buf s = (drop 5552 buf, ?s)"
      using do16_loop_take [of 347 buf s] True by (simp add: NMAX_def)
    obtain a t where s: "?s = (a, t)" by (cases ?s)
    have r: "nats (MOD_BASE a, MOD_BASE t) = adler_spec (take 5552 buf) (nats s)"
      unfolding nats_MOD s [symmetric] by (rule byte_loop_spec(2) [OF "1.prems"]) simp
    then have red: "reduced (nats (MOD_BASE a, MOD_BASE t))" using adler_spec_reduced [OF "1.prems"] by simp
    have n: "nmax_loop buf s = nmax_loop (drop NMAX buf) (MOD_BASE a, MOD_BASE t)"
      using True d s by (subst nmax_loop.simps) simp
    have "adler_spec buf (nats s) = adler_spec (drop NMAX buf) (nats (MOD_BASE a, MOD_BASE t))"
      using adler_spec_append [of "take 5552 buf" "drop 5552 buf" "nats s"] r by (simp add: NMAX_def)
    then show ?thesis using "1.IH" [OF True d [symmetric] s [symmetric] red] unfolding n by simp
  next
    case False
    then show ?thesis using "1.prems" by (simp add: nmax_loop.simps [of buf] NMAX_def)
  qed
qed

lemma adler_parts_nats: "nats (w AND 0xffff, drop_bit 16 w AND 0xffff) = adler_parts w"
proof -
  have m: "(0xffff :: 32 word) = mask 16" by (simp add: mask_numeral)
  have "unat w div 65536 < 65536"
    using unsigned_less [of w, where ?'a = nat] by (simp add: less_mult_imp_div_less)
  then show ?thesis
    unfolding nats_def adler_parts_def m take_bit_eq_mask [symmetric] fst_conv snd_conv
    by (simp only: take_bit_eq_mod unat_mod unat_drop_bit_div) simp
qed

lemma adler_parts_pack:
  assumes "unat a < 65536" "unat s < 65536"
  shows "adler_parts (a OR push_bit 16 s) = (unat a, unat s)"
proof -
  have "a OR push_bit 16 s = a + push_bit 16 s"
  proof (rule disjunctive_add [symmetric])
    fix n
    show "\<not> bit a n \<or> \<not> bit (push_bit 16 s) n"
    proof (cases "n < 16")
      case False
      have "take_bit 16 (unat a) = unat a" using assms(1) by (intro take_bit_nat_eq_self) simp
      then have "\<not> bit (unat a) n" using False by (metis bit_take_bit_iff)
      then show ?thesis using bit_imp_le_length [of a n] by (auto simp: bit_unsigned_iff)
    qed (simp add: bit_push_bit_iff)
  qed
  moreover have "unat (a + push_bit 16 s) = unat a + unat s * 65536"
    using assms by (simp add: push_bit_eq_mult unat_word_ariths)
  ultimately show ?thesis using assms by (simp add: adler_parts_def)
qed

lemma adler32_parts:
  assumes "adler_valid adler"
  shows "adler_parts (adler32 adler (Some buf)) = adler_spec buf (adler_parts adler)"
proof -
  define a t where "a = adler AND 0xffff" and "t = drop_bit 16 adler AND 0xffff"
  have n: "nats (a, t) = adler_parts adler" unfolding a_def t_def by (rule adler_parts_nats)
  then have red: "reduced (nats (a, t))" using assms by (simp add: adler_valid_def reduced_def)
  have sub: "unat (if x \<ge> BASE then x - BASE else x) = unat x mod 65521" if "unat x < 2 * 65521" for x
    using that by (simp add: BASE_def word_le_nat_alt unat_sub mod_if)
  have pack: "adler_parts (x OR push_bit 16 y) = nats (x, y)" if "reduced (nats (x, y))" for x y
    using that adler_parts_pack [of x y] by (simp add: reduced_def nats_def)
  consider "length buf = 1" | "length buf \<noteq> 1" "length buf < 16" | "16 \<le> length buf" by linarith
  then show ?thesis
  proof cases
    case 1
    then obtain b where b: "buf = [b]" by (cases buf) auto
    define x where "x = (let x = a + ucast b in if x \<ge> BASE then x - BASE else x)"
    define y where "y = (if t + x \<ge> BASE then t + x - BASE else t + x)"
    have ub: "unat b < 256" by simp
    have ab: "unat (a + ucast b) = unat a + unat b"
    proof -
      have "unat a + unat b < 2 ^ LENGTH(32)" using red ub by (simp add: reduced_def nats_def del: unat_byte)
      then show ?thesis by (simp only: unat_word_ariths unat_ucast_byte mod_less)
    qed
    then have x: "unat x = (unat a + unat b) mod 65521"
      using sub [of "a + ucast b"] red ub by (simp add: x_def Let_def reduced_def nats_def del: unat_byte)
    then have x1: "unat x < 65521" by simp
    then have "unat t + unat x < 2 ^ LENGTH(32)" using red by (simp add: reduced_def nats_def)
    then have tx: "unat (t + x) = unat t + unat x" by (simp only: unat_word_ariths mod_less)
    then have y: "unat y = (unat t + unat x) mod 65521"
      using sub [of "t + x"] red x1 by (simp add: y_def reduced_def nats_def)
    have s: "nats (x, y) = adler_spec buf (nats (a, t))" by (simp add: nats_def b x y Let_def)
    have "adler32 adler (Some buf) = x OR push_bit 16 y"
      unfolding adler32_def adler32_z_def a_def [symmetric] t_def [symmetric] Let_def by (simp add: b x_def y_def Let_def)
    then show ?thesis using pack [of x y] adler_spec_reduced [OF red, of buf] s n by simp
  next
    case 2
    obtain a1 t1 where l: "byte_loop buf (a, t) = (a1, t1)" by (cases "byte_loop buf (a, t)")
    have f: "nats (a1, t1) = plain_sums buf (nats (a, t))" "mod_pair (nats (a1, t1)) = adler_spec buf (nats (a, t))"
      using byte_loop_spec [OF red, of buf] 2 l by simp_all
    have "unat a1 < 2 * 65521"
      using plain_sums_bound [of "nats (a, t)" 65520 buf] arg_cong [OF f(1), of fst] red 2
      by (simp add: reduced_def nats_def)
    then have "nats (if a1 \<ge> BASE then a1 - BASE else a1, MOD_BASE t1) = mod_pair (nats (a1, t1))"
      using sub [of a1] by (simp add: nats_def mod_pair_def MOD_BASE_def BASE_def unat_mod)
    moreover have "adler32 adler (Some buf) = (if a1 \<ge> BASE then a1 - BASE else a1) OR push_bit 16 (MOD_BASE t1)"
      unfolding adler32_def adler32_z_def a_def [symmetric] t_def [symmetric] Let_def using 2 l by simp
    ultimately show ?thesis using pack f(2) n by (metis reduced_mod_pair)
  next
    case 3
    obtain rest s where m: "nmax_loop buf (a, t) = (rest, s)" by (cases "nmax_loop buf (a, t)")
    have r: "reduced (nats s)" "length rest < 5552" "adler_spec rest (nats s) = adler_spec buf (nats (a, t))"
      using nmax_loop_spec [OF red, of buf] m by simp_all
    obtain a1 t1 where l: "byte_loop rest s = (a1, t1)" by (cases "byte_loop rest s")
    obtain a2 t2 where s: "s = (a2, t2)" by (cases s)
    obtain rest' s' where t16: "tail16_loop rest s = (rest', s')" by (cases "tail16_loop rest s")
    then have bl: "byte_loop rest' s' = (a1, t1)" using tail16_loop_byte [of rest s] l by simp
    have res: "adler32 adler (Some buf) =
        (if rest \<noteq> [] then MOD_BASE a1 OR push_bit 16 (MOD_BASE t1) else a2 OR push_bit 16 t2)"
      unfolding adler32_def adler32_z_def a_def [symmetric] t_def [symmetric] Let_def using 3 m s t16 bl by simp
    show ?thesis
    proof (cases "rest = []")
      case True
      then show ?thesis using res pack [of a2 t2] r s n by simp
    next
      case False
      have "nats (MOD_BASE a1, MOD_BASE t1) = adler_spec rest (nats s)"
        unfolding nats_MOD l [symmetric] by (rule byte_loop_spec(2) [OF r(1)]) (use r(2) in simp)
      then show ?thesis using False res pack [of "MOD_BASE a1" "MOD_BASE t1"] r adler_spec_reduced [OF red, of buf] n by simp
    qed
  qed
qed

subsection \<open>Reductions without a division\<close>

lemma unat_and_ffff: "unat ((w :: 32 word) AND 0xffff) = unat w mod 65536"
  using adler_parts_nats [of w] by (simp add: nats_def adler_parts_def)

lemma CHOP_value:
  "unat (CHOP a) = unat a mod 65536 + 15 * (unat a div 65536)" "unat (CHOP a) mod 65521 = unat a mod 65521"
proof -
  define t where "t = drop_bit 16 a"
  have t: "unat t = unat a div 65536" by (simp add: t_def unat_drop_bit_div)
  have "unat a < 65536 * 65536" using unsigned_less [of a, where ?'a = nat] by simp
  then have lt: "unat t < 65536" unfolding t by (simp add: less_mult_imp_div_less)
  have "push_bit 4 t - t = 15 * t" by (simp add: push_bit_eq_mult)
  moreover have "unat (15 * t) = 15 * unat t" using lt by (simp add: unat_word_ariths)
  ultimately have "unat (push_bit 4 t - t) = 15 * unat t" by simp
  moreover have "unat a mod 65536 < 65536" by simp
  ultimately show v: "unat (CHOP a) = unat a mod 65536 + 15 * (unat a div 65536)"
    unfolding CHOP_def t_def [symmetric] Let_def
    using lt by (simp add: unat_word_ariths unat_and_ffff t)
  have "unat a = 65521 * (unat a div 65536) + (unat a mod 65536 + 15 * (unat a div 65536))"
    using div_mult_mod_eq [of "unat a" 65536] by linarith
  then show "unat (CHOP a) mod 65521 = unat a mod 65521" unfolding v by (metis mod_mult_self4)
qed

lemma MOD_no_divide_eq: "MOD_no_divide a = MOD_BASE a"
proof -
  have "unat a < 65536 * 65536" using unsigned_less [of a, where ?'a = nat] by simp
  then have "unat a div 65536 < 65536" by (simp add: less_mult_imp_div_less)
  moreover have m: "unat x mod 65536 < 65536" for x :: "32 word" by simp
  ultimately have "unat (CHOP a) < 65536 * 16" using CHOP_value(1) [of a] m [of a] by linarith
  then have "unat (CHOP a) div 65536 < 16" by (simp add: less_mult_imp_div_less)
  then have lt: "unat (CHOP (CHOP a)) < 2 * 65521" using CHOP_value(1) [of "CHOP a"] m [of "CHOP a"] by linarith
  have "unat (if CHOP (CHOP a) \<ge> BASE then CHOP (CHOP a) - BASE else CHOP (CHOP a)) = unat (CHOP (CHOP a)) mod 65521"
    using lt by (simp add: BASE_def word_le_nat_alt unat_sub mod_if)
  also have "\<dots> = unat (MOD_BASE a)" by (simp add: CHOP_value(2) MOD_BASE_def BASE_def unat_mod)
  finally show ?thesis
    unfolding MOD_no_divide_def MOD28_no_divide_def Let_def word_eq_iff_unsigned [where ?'a = nat, symmetric] by simp
qed

subsection \<open>Concatenation\<close>

lemma adler_spec_linear:
  "reduced (a, s) \<Longrightarrow>
   adler_spec bs (a, s) = mod_pair (a + fst (plain_sums bs (0, 0)), s + length bs * a + snd (plain_sums bs (0, 0)))"
proof -
  have p: "fst (plain_sums bs u) = fst u + fst (plain_sums bs (0, 0)) \<and>
      snd (plain_sums bs u) = snd u + length bs * fst u + snd (plain_sums bs (0, 0))" for u
  proof (induction bs arbitrary: u)
    case (Cons b bs)
    from Cons.IH [of "(fst u + unat b, snd u + fst u + unat b)"] Cons.IH [of "(unat b, unat b)"]
    show ?case by (simp add: algebra_simps)
  qed simp
  show "reduced (a, s) \<Longrightarrow> ?thesis" using adler_spec_plain [OF reduced_mod, of "(a, s)" bs] p [of "(a, s)"]
    by (simp add: mod_pair_def)
qed

lemma adler_parts_inject: "adler_parts v = adler_parts w \<Longrightarrow> v = w"
  unfolding adler_parts_def prod.inject by (metis div_mult_mod_eq word_eq_iff_unsigned)

lemma adler_parts_1: "adler_parts 1 = (1, 0)"
  by (simp add: adler_parts_def)

lemma mod_add_cancel: "(v + c) mod m = (w + c) mod m \<Longrightarrow> v mod m = w mod (m :: nat)"
proof (cases m)
  case (Suc k)
  assume "(v + c) mod m = (w + c) mod m"
  then have "(v + c + c * k) mod m = (w + c + c * k) mod m" by (rule mod_add_cong) (rule refl)
  moreover have "u + c + c * k = u + c * m" for u by (simp add: Suc)
  ultimately show ?thesis by simp
qed simp

lemma combine_aux:
  assumes "adler_valid adler1"
  shows "adler32_combine adler1 (adler32 1 (Some buf)) (int (length buf)) = adler32 adler1 (Some buf)"
proof (rule adler_parts_inject)
  define M :: nat where "M = 65521"
  define n where "n = length buf"
  define X Y where "X = fst (plain_sums buf (0, 0))" and "Y = snd (plain_sums buf (0, 0))"
  obtain a1 s1 where p1: "adler_parts adler1 = (a1, s1)" by (cases "adler_parts adler1")
  then have r1: "a1 < M" "s1 < M" using assms by (simp_all add: adler_valid_def M_def)
  define a2 s2 where "a2 = (1 + X) mod M" and "s2 = (n + Y) mod M"
  have "reduced (1, 0)" by (simp add: reduced_def)
  then have p2: "adler_parts (adler32 1 (Some buf)) = (a2, s2)"
    using adler32_parts [of 1 buf] adler_spec_linear [of 1 0 buf]
    by (simp add: adler_parts_1 adler_valid_def mod_pair_def a2_def s2_def M_def X_def Y_def n_def)
  have r2: "a2 < M" "s2 < M" by (simp_all add: a2_def s2_def M_def)
  have res: "adler_parts (adler32 adler1 (Some buf)) = ((a1 + X) mod M, (s1 + n * a1 + Y) mod M)"
    using adler32_parts [OF assms, of buf] adler_spec_linear [of a1 s1 buf] p1 r1
    by (simp add: reduced_def mod_pair_def M_def X_def Y_def n_def)
  define w1 t1 w2 t2 where "w1 = adler1 AND 0xffff" and "t1 = drop_bit 16 adler1 AND 0xffff"
    and "w2 = adler32 1 (Some buf) AND 0xffff" and "t2 = drop_bit 16 (adler32 1 (Some buf)) AND 0xffff"
  have u: "unat w1 = a1" "unat t1 = s1" "unat w2 = a2" "unat t2 = s2"
    using adler_parts_nats [of adler1] adler_parts_nats [of "adler32 1 (Some buf)"] p1 p2
    by (simp_all add: nats_def w1_def t1_def w2_def t2_def)
  define rem :: "32 word" where "rem = word_of_int (int n mod uint BASE)"
  have "int n mod uint BASE = int (n mod M)" by (simp add: BASE_def M_def zmod_int)
  then have rem: "unat rem = n mod M" by (simp add: rem_def M_def unat_of_nat)
  have rM: "unat rem < M" unfolding rem by (simp add: M_def)
  define x where "x = w1 + (w2 + BASE - 1)"
  define y where "y = MOD_BASE (rem * w1) + (t1 + t2 + BASE - rem)"
  have B: "unat BASE = M" by (simp add: BASE_def M_def)
  have W: "word_of_nat a1 = w1" "word_of_nat s1 = t1" "word_of_nat a2 = w2" "word_of_nat s2 = t2" "word_of_nat M = BASE"
      "word_of_nat (n mod M) = rem"
    unfolding rem [symmetric] unfolding u [symmetric] B [symmetric] by simp_all
  have small: "v < 6 * M \<Longrightarrow> unat (word_of_nat v :: 32 word) = v" for v by (simp add: unat_of_nat M_def)
  have M1: "1 \<le> a2 + M" by (simp add: M_def)
  have "x = word_of_nat (a1 + (a2 + M - 1))"
    by (simp add: x_def of_nat_diff [OF M1] W del: One_nat_def)
  moreover have "a1 + (a2 + M - 1) < 6 * M" using r1 r2 by linarith
  ultimately have x: "unat x = a1 + (a2 + M - 1)" by (simp only: small)
  have mw: "unat (MOD_BASE (rem * w1)) = (n mod M) * a1 mod M"
  proof -
    have "unat rem * unat w1 < M * M" using rM r1 u by (intro mult_strict_mono) simp_all
    then have "unat (rem * w1) = unat rem * unat w1" by (simp add: unat_word_ariths M_def)
    then show ?thesis by (simp add: MOD_BASE_def unat_mod B rem u)
  qed
  have "word_of_nat ((n mod M) * a1 mod M) = MOD_BASE (rem * w1)" unfolding mw [symmetric] by simp
  then have "y = word_of_nat ((n mod M) * a1 mod M + (s1 + s2 + M - n mod M))"
    using rM rem by (simp add: y_def of_nat_diff W)
  moreover have ya: "(n mod M) * a1 mod M < M" by (simp add: M_def)
  then have "(n mod M) * a1 mod M + (s1 + s2 + M - n mod M) < 6 * M" using r1 r2 by linarith
  ultimately have y: "unat y = (n mod M) * a1 mod M + (s1 + s2 + M - n mod M)" by (simp only: small)
  define x' where "x' = (if x \<ge> BASE then x - BASE else x)"
  define x'' where "x'' = (if x' \<ge> BASE then x' - BASE else x')"
  define y' where "y' = (if y \<ge> push_bit 1 BASE then y - push_bit 1 BASE else y)"
  define y'' where "y'' = (if y' \<ge> BASE then y' - BASE else y')"
  have sub: "unat (if v \<ge> BASE then v - BASE else v) = (if M \<le> unat v then unat v - M else unat v)" for v
    by (simp add: word_le_nat_alt unat_sub B)
  have red: "v < 2 * M \<Longrightarrow> (if M \<le> v then v - M else v) = v mod M" for v by (simp add: mod_if)
  have "unat x' = (if M \<le> unat x then unat x - M else unat x)" unfolding x'_def by (rule sub)
  then have "unat x' < 2 * M" "unat x' mod M = unat x mod M"
    using x r1 r2 by (auto simp: le_mod_geq)
  then have "unat x'' = unat x mod M" by (simp only: x''_def sub red)
  also have "\<dots> = (a1 + X) mod M"
  proof -
    have "unat x + 1 = a1 + a2 + M" using x r1 by simp
    then have "(unat x + 1) mod M = (a1 + X + 1) mod M" by (simp add: a2_def mod_simps ac_simps)
    then show ?thesis by (rule mod_add_cancel)
  qed
  finally have x'': "unat x'' = (a1 + X) mod M" .
  have "unat (push_bit 1 BASE) = 2 * M" by (simp add: BASE_def M_def)
  then have "unat y' = (if 2 * M \<le> unat y then unat y - 2 * M else unat y)"
    by (simp add: y'_def word_le_nat_alt unat_sub)
  moreover have "unat y < 4 * M" using y ya r1 r2 by linarith
  ultimately have "unat y' < 2 * M \<and> (unat y' = unat y \<or> unat y = unat y' + 2 * M)" by auto
  then have "unat y' < 2 * M" "unat y' mod M = unat y mod M" by auto
  then have "unat y'' = unat y mod M" by (simp only: y''_def sub red)
  also have "\<dots> = (s1 + n * a1 + Y) mod M"
  proof (rule mod_add_cancel [of _ "n mod M"])
    have "n mod M \<le> M" by (simp add: M_def)
    then have "unat y + n mod M = (n mod M) * a1 mod M + s1 + s2 + M" using y by linarith
    moreover have "(A mod M + s1 + C mod M + M) mod M = (A + s1 + C) mod M" for A C
      by (simp only: mod_add_self2) (intro mod_add_cong refl mod_mod_trivial)
    ultimately have "(unat y + n mod M) mod M = (n * a1 + s1 + (n + Y)) mod M"
      unfolding s2_def by (metis mod_mult_left_eq)
    also have "n * a1 + s1 + (n + Y) = s1 + n * a1 + Y + n" by simp
    also have "(s1 + n * a1 + Y + n) mod M = (s1 + n * a1 + Y + n mod M) mod M" by (rule mod_add_right_eq [symmetric])
    finally show "(unat y + n mod M) mod M = (s1 + n * a1 + Y + n mod M) mod M" .
  qed
  finally have y'': "unat y'' = (s1 + n * a1 + Y) mod M" .
  have "adler32_combine adler1 (adler32 1 (Some buf)) (int (length buf)) = x'' OR push_bit 16 y''"
    unfolding adler32_combine_def adler32_combine_impl_def w1_def [symmetric] t1_def [symmetric] w2_def [symmetric] t2_def [symmetric]
      n_def [symmetric] rem_def [symmetric] Let_def x_def [symmetric] y_def [symmetric] x'_def [symmetric] x''_def [symmetric]
      y'_def [symmetric] y''_def [symmetric]
    by simp
  moreover have "unat x'' < 65536" "unat y'' < 65536" unfolding x'' y'' M_def by (simp_all add: less_trans)
  ultimately show "adler_parts (adler32_combine adler1 (adler32 1 (Some buf)) (int (length buf))) = adler_parts (adler32 adler1 (Some buf))"
    using adler_parts_pack x'' y'' res by simp
qed

text \<open>The same for the 63 bits of a length: what is above is worth 225 and then 15.\<close>

lemma unat_and_mask64: "unat ((w :: 64 word) AND mask k) = unat w mod 2 ^ k"
proof -
  have "unat (w AND mask k) = take_bit k (unat w)" by (simp only: take_bit_eq_mask [symmetric] unsigned_take_bit_eq)
  then show ?thesis by (simp only: take_bit_eq_mod)
qed

lemma chop64:
  fixes a :: "64 word"
  assumes "unat a < 2 ^ 50" "t = drop_bit 16 a"
  shows "unat ((a AND 0xffff) + (push_bit 4 t - t)) = unat a mod 65536 + 15 * (unat a div 65536)"
proof -
  have t: "unat t = unat a div 65536" by (simp add: assms(2) unat_drop_bit_div)
  then have lt: "unat t < 2 ^ 34" using assms(1) by (simp add: less_mult_imp_div_less)
  have "push_bit 4 t - t = 15 * t" by (simp add: push_bit_eq_mult)
  moreover have "unat (15 * t) = 15 * unat t" using lt by (simp add: unat_word_ariths)
  moreover have "unat (a AND 0xffff) = unat a mod 65536" using unat_and_mask64 [of a 16] by (simp add: mask_numeral)
  moreover have "unat a mod 65536 < 65536" by simp
  ultimately show ?thesis using lt by (simp add: unat_word_ariths t)
qed

lemma fold_mod: "(x :: nat) mod b + c * (x div b) \<equiv> y \<Longrightarrow> b = m * k + c \<Longrightarrow> y mod m = x mod m"
proof -
  assume y: "x mod b + c * (x div b) \<equiv> y" and b: "b = m * k + c"
  have "x = b * (x div b) + x mod b" by simp
  then have "x = m * (k * (x div b)) + y" unfolding y [symmetric] by (simp add: b algebra_simps)
  then show "y mod m = x mod m" by (metis mod_mult_self4)
qed

lemma MOD63_no_divide_eq: "unat a < 2 ^ 63 \<Longrightarrow> unat (MOD63_no_divide a) = unat a mod 65521"
proof -
  assume a: "unat a < 2 ^ 63"
  define t where "t = drop_bit 32 a"
  define a1 where "a1 = (a AND 0xffffffff) + (push_bit 8 t - push_bit 5 t + t)"
  define a2 where "a2 = (a1 AND 0xffff) + (push_bit 4 (drop_bit 16 a1) - drop_bit 16 a1)"
  define a3 where "a3 = (a2 AND 0xffff) + (push_bit 4 (drop_bit 16 a2) - drop_bit 16 a2)"
  have t: "unat t = unat a div 2 ^ 32" by (simp add: t_def unat_drop_bit_div)
  then have lt: "unat t < 2 ^ 31" using a by (simp add: less_mult_imp_div_less)
  have "push_bit 8 t - push_bit 5 t + t = 225 * t" by (simp add: push_bit_eq_mult)
  moreover have "unat (225 * t) = 225 * unat t" using lt by (simp add: unat_word_ariths)
  moreover have "unat (a AND 0xffffffff) = unat a mod 2 ^ 32" using unat_and_mask64 [of a 32] by (simp add: mask_numeral)
  moreover have m: "unat a mod 2 ^ 32 < 2 ^ 32" by simp
  ultimately have v1: "unat a1 = unat a mod 2 ^ 32 + 225 * (unat a div 2 ^ 32)"
    unfolding a1_def using lt t by (simp add: unat_word_ariths)
  then have l1: "unat a1 < 2 ^ 40" using m lt t by simp
  then have v2: "unat a2 = unat a1 mod 65536 + 15 * (unat a1 div 65536)" unfolding a2_def by (intro chop64) simp_all
  have m2: "unat v mod 65536 < 65536" for v :: "64 word" by simp
  have "unat a1 div 65536 < 2 ^ 24" using l1 by (simp add: less_mult_imp_div_less)
  then have l2: "unat a2 < 2 ^ 28" using v2 m2 [of a1] by simp
  then have v3: "unat a3 = unat a2 mod 65536 + 15 * (unat a2 div 65536)" unfolding a3_def by (intro chop64) simp_all
  have "unat a2 div 65536 < 2 ^ 12" using l2 by (simp add: less_mult_imp_div_less)
  then have l3: "unat a3 < 2 * 65521" using v3 m2 [of a2] by simp
  have "unat a3 mod 65521 = unat a2 mod 65521" by (rule fold_mod [OF eq_reflection [OF v3 [symmetric]], of _ 1]) simp
  also have "\<dots> = unat a1 mod 65521" by (rule fold_mod [OF eq_reflection [OF v2 [symmetric]], of _ 1]) simp
  also have "\<dots> = unat a mod 65521" by (rule fold_mod [OF eq_reflection [OF v1 [symmetric]], of _ 65551]) simp
  finally have "unat a3 mod 65521 = unat a mod 65521" .
  moreover have "MOD63_no_divide a = (if a3 \<ge> 65521 then a3 - 65521 else a3)"
    unfolding MOD63_no_divide_def Let_def t_def [symmetric] a1_def [symmetric] a2_def [symmetric] a3_def [symmetric] ..
  moreover have "unat (if v \<ge> 65521 then v - 65521 else v) = unat v mod 65521" if "unat v < 2 * 65521" for v :: "64 word"
    using that by (simp add: word_le_nat_alt unat_sub mod_if)
  ultimately show ?thesis using l3 by (simp only:)
qed

text \<open>Data may be given in pieces.\<close>

lemma adler32_incremental:
  assumes "adler_valid adler"
  shows "adler_valid (adler32 adler (Some xs))"
    "adler32 (adler32 adler (Some xs)) (Some ys) = adler32 adler (Some (xs @ ys))"
proof -
  show v: "adler_valid (adler32 adler (Some xs))"
    using adler32_parts [OF assms, of xs] adler_spec_reduced [of "adler_parts adler" xs] assms
    by (simp add: adler_valid_def reduced_def)
  have "adler_parts (adler32 (adler32 adler (Some xs)) (Some ys)) = adler_parts (adler32 adler (Some (xs @ ys)))"
    by (simp add: adler32_parts [OF v] adler32_parts [OF assms] adler_spec_append)
  then show "adler32 (adler32 adler (Some xs)) (Some ys) = adler32 adler (Some (xs @ ys))" by (rule adler_parts_inject)
qed

subsection \<open>Properties\<close>

text \<open>
  C28. The checksum of any data, computed sixteen bytes at a time with the reduction put off for
  \<open>NMAX\<close> bytes in sums of 32 bits, is that of the definition, which reduces both sums after every
  byte: no sum wraps around.
\<close>
theorem adler32_exact:
  assumes "adler_valid adler"
  shows "adler_parts (adler32 adler (Some buf)) = adler_spec buf (adler_parts adler)"
  by (rule adler32_parts [OF assms])

theorem adler32_exact_witness:
  "adler_parts (adler32 1 (Some (replicate 6000 0xff))) = adler_spec (replicate 6000 0xff) (adler_parts 1)"
  by (rule adler32_exact) (simp add: adler_valid_def adler_parts_def)

text \<open>
  C29. The checksum of a concatenation is computed by \<open>adler32_combine\<close> from those of its parts
  and the length of the second, without its data.
\<close>
theorem adler32_combine_exact:
  assumes "adler_valid adler"
  shows "adler32_combine (adler32 adler (Some xs)) (adler32 1 (Some ys)) (int (length ys)) = adler32 adler (Some (xs @ ys))"
  using combine_aux [OF adler32_incremental(1) [OF assms], of xs ys] adler32_incremental(2) [OF assms] by simp

theorem adler32_combine_exact_witness:
  "adler32_combine (adler32 1 (Some [1, 2, 3])) (adler32 1 (Some [4, 5])) (int (length [4 :: byte, 5])) =
     adler32 1 (Some ([1, 2, 3] @ [4, 5]))"
  by (rule adler32_combine_exact) (simp add: adler_valid_def adler_parts_def)

end
