(* ===== verification/Crc32.thy ===== *)
theory Crc32
  imports Prelude
begin

text \<open>
  The CRC-32 of the compression library, \<open>crc32.c\<close>, as configured for a 64-bit processor: words
  of \<open>W = 8\<close> bytes and \<open>N = 5\<close> braids. \<open>uLong\<close> has 32 bits. The variables of the braids, \<open>crc0\<close> to
  \<open>crc4\<close>, are a list of \<open>N\<close>; the static tables that \<open>make_crc_table\<close> fills in are a record. The
  loops that need not end, in \<open>multmodp\<close> and \<open>x2nmodp\<close>, are \<open>partial_function\<close>s.

  A register is a polynomial with the lowest power in the highest bit. The braided computation
  with either byte order, the computation by bytes and the one by bits agree, and so does the
  combination of the checksums of two pieces.
\<close>

definition N :: nat where "N = 5"
definition W :: nat where "W = 8"

definition POLY :: "32 word" where "POLY = 0xedb88320"

definition byte_swap :: "64 word \<Rightarrow> 64 word" where
  "byte_swap w =
     drop_bit 56 (w AND 0xff00000000000000) OR
     drop_bit 40 (w AND 0xff000000000000) OR
     drop_bit 24 (w AND 0xff0000000000) OR
     drop_bit 8 (w AND 0xff00000000) OR
     push_bit 8 (w AND 0xff000000) OR
     push_bit 24 (w AND 0xff0000) OR
     push_bit 40 (w AND 0xff00) OR
     push_bit 56 (w AND 0xff)"

subsection \<open>Polynomials\<close>

text \<open>The register times \<open>x\<close>.\<close>

definition crc_shift :: "32 word \<Rightarrow> 32 word" where
  "crc_shift b = (if b AND 1 \<noteq> 0 then drop_bit 1 b XOR POLY else drop_bit 1 b)"

partial_function (option) multmodp_loop :: "32 word \<Rightarrow> 32 word \<Rightarrow> 32 word \<Rightarrow> 32 word \<Rightarrow> 32 word option" where
  "multmodp_loop a m p b =
     (if a AND m \<noteq> 0 \<and> a AND (m - 1) = 0 then Some (p XOR b)
      else multmodp_loop a (drop_bit 1 m) (if a AND m \<noteq> 0 then p XOR b else p) (crc_shift b))"

declare multmodp_loop.simps [code]

definition multmodp :: "32 word \<Rightarrow> 32 word \<Rightarrow> 32 word option" where
  "multmodp a b = multmodp_loop a (push_bit 31 1) 0 b"

partial_function (option) x2nmodp_loop :: "32 word list \<Rightarrow> int \<Rightarrow> nat \<Rightarrow> 32 word \<Rightarrow> 32 word option" where
  "x2nmodp_loop x2n n k p =
     (if n = 0 then Some p
      else
        case (if odd n then multmodp (x2n ! (k mod 32)) p else Some p) of
          None \<Rightarrow> None
        | Some p \<Rightarrow> x2nmodp_loop x2n (n div 2) (k + 1) p)"

declare x2nmodp_loop.simps [code]

definition x2nmodp :: "32 word list \<Rightarrow> int \<Rightarrow> nat \<Rightarrow> 32 word option" where
  "x2nmodp x2n n k = x2nmodp_loop x2n n k (push_bit 31 1)"

subsection \<open>Tables\<close>

text \<open>The tables of \<open>crc32.h\<close> for single bytes and for powers of \<open>x\<close>.\<close>

definition static_crc_table :: "32 word list" where
  "static_crc_table =
    [0x00000000, 0x77073096, 0xee0e612c, 0x990951ba, 0x076dc419, 0x706af48f, 0xe963a535, 0x9e6495a3,
     0x0edb8832, 0x79dcb8a4, 0xe0d5e91e, 0x97d2d988, 0x09b64c2b, 0x7eb17cbd, 0xe7b82d07, 0x90bf1d91,
     0x1db71064, 0x6ab020f2, 0xf3b97148, 0x84be41de, 0x1adad47d, 0x6ddde4eb, 0xf4d4b551, 0x83d385c7,
     0x136c9856, 0x646ba8c0, 0xfd62f97a, 0x8a65c9ec, 0x14015c4f, 0x63066cd9, 0xfa0f3d63, 0x8d080df5,
     0x3b6e20c8, 0x4c69105e, 0xd56041e4, 0xa2677172, 0x3c03e4d1, 0x4b04d447, 0xd20d85fd, 0xa50ab56b,
     0x35b5a8fa, 0x42b2986c, 0xdbbbc9d6, 0xacbcf940, 0x32d86ce3, 0x45df5c75, 0xdcd60dcf, 0xabd13d59,
     0x26d930ac, 0x51de003a, 0xc8d75180, 0xbfd06116, 0x21b4f4b5, 0x56b3c423, 0xcfba9599, 0xb8bda50f,
     0x2802b89e, 0x5f058808, 0xc60cd9b2, 0xb10be924, 0x2f6f7c87, 0x58684c11, 0xc1611dab, 0xb6662d3d,
     0x76dc4190, 0x01db7106, 0x98d220bc, 0xefd5102a, 0x71b18589, 0x06b6b51f, 0x9fbfe4a5, 0xe8b8d433,
     0x7807c9a2, 0x0f00f934, 0x9609a88e, 0xe10e9818, 0x7f6a0dbb, 0x086d3d2d, 0x91646c97, 0xe6635c01,
     0x6b6b51f4, 0x1c6c6162, 0x856530d8, 0xf262004e, 0x6c0695ed, 0x1b01a57b, 0x8208f4c1, 0xf50fc457,
     0x65b0d9c6, 0x12b7e950, 0x8bbeb8ea, 0xfcb9887c, 0x62dd1ddf, 0x15da2d49, 0x8cd37cf3, 0xfbd44c65,
     0x4db26158, 0x3ab551ce, 0xa3bc0074, 0xd4bb30e2, 0x4adfa541, 0x3dd895d7, 0xa4d1c46d, 0xd3d6f4fb,
     0x4369e96a, 0x346ed9fc, 0xad678846, 0xda60b8d0, 0x44042d73, 0x33031de5, 0xaa0a4c5f, 0xdd0d7cc9,
     0x5005713c, 0x270241aa, 0xbe0b1010, 0xc90c2086, 0x5768b525, 0x206f85b3, 0xb966d409, 0xce61e49f,
     0x5edef90e, 0x29d9c998, 0xb0d09822, 0xc7d7a8b4, 0x59b33d17, 0x2eb40d81, 0xb7bd5c3b, 0xc0ba6cad,
     0xedb88320, 0x9abfb3b6, 0x03b6e20c, 0x74b1d29a, 0xead54739, 0x9dd277af, 0x04db2615, 0x73dc1683,
     0xe3630b12, 0x94643b84, 0x0d6d6a3e, 0x7a6a5aa8, 0xe40ecf0b, 0x9309ff9d, 0x0a00ae27, 0x7d079eb1,
     0xf00f9344, 0x8708a3d2, 0x1e01f268, 0x6906c2fe, 0xf762575d, 0x806567cb, 0x196c3671, 0x6e6b06e7,
     0xfed41b76, 0x89d32be0, 0x10da7a5a, 0x67dd4acc, 0xf9b9df6f, 0x8ebeeff9, 0x17b7be43, 0x60b08ed5,
     0xd6d6a3e8, 0xa1d1937e, 0x38d8c2c4, 0x4fdff252, 0xd1bb67f1, 0xa6bc5767, 0x3fb506dd, 0x48b2364b,
     0xd80d2bda, 0xaf0a1b4c, 0x36034af6, 0x41047a60, 0xdf60efc3, 0xa867df55, 0x316e8eef, 0x4669be79,
     0xcb61b38c, 0xbc66831a, 0x256fd2a0, 0x5268e236, 0xcc0c7795, 0xbb0b4703, 0x220216b9, 0x5505262f,
     0xc5ba3bbe, 0xb2bd0b28, 0x2bb45a92, 0x5cb36a04, 0xc2d7ffa7, 0xb5d0cf31, 0x2cd99e8b, 0x5bdeae1d,
     0x9b64c2b0, 0xec63f226, 0x756aa39c, 0x026d930a, 0x9c0906a9, 0xeb0e363f, 0x72076785, 0x05005713,
     0x95bf4a82, 0xe2b87a14, 0x7bb12bae, 0x0cb61b38, 0x92d28e9b, 0xe5d5be0d, 0x7cdcefb7, 0x0bdbdf21,
     0x86d3d2d4, 0xf1d4e242, 0x68ddb3f8, 0x1fda836e, 0x81be16cd, 0xf6b9265b, 0x6fb077e1, 0x18b74777,
     0x88085ae6, 0xff0f6a70, 0x66063bca, 0x11010b5c, 0x8f659eff, 0xf862ae69, 0x616bffd3, 0x166ccf45,
     0xa00ae278, 0xd70dd2ee, 0x4e048354, 0x3903b3c2, 0xa7672661, 0xd06016f7, 0x4969474d, 0x3e6e77db,
     0xaed16a4a, 0xd9d65adc, 0x40df0b66, 0x37d83bf0, 0xa9bcae53, 0xdebb9ec5, 0x47b2cf7f, 0x30b5ffe9,
     0xbdbdf21c, 0xcabac28a, 0x53b39330, 0x24b4a3a6, 0xbad03605, 0xcdd70693, 0x54de5729, 0x23d967bf,
     0xb3667a2e, 0xc4614ab8, 0x5d681b02, 0x2a6f2b94, 0xb40bbe37, 0xc30c8ea1, 0x5a05df1b, 0x2d02ef8d]"

definition static_x2n_table :: "32 word list" where
  "static_x2n_table =
    [0x40000000, 0x20000000, 0x08000000, 0x00800000, 0x00008000, 0xedb88320, 0xb1e6b092, 0xa06a2517,
     0xed627dae, 0x88d14467, 0xd7bbfe6a, 0xec447f11, 0x8e7ea170, 0x6427800e, 0x4d47bae0, 0x09fe548f,
     0x83852d0f, 0x30362f1a, 0x7b5a9cc3, 0x31fec169, 0x9fec022a, 0x6c8dedc4, 0x15d6874d, 0x5fde7a4e,
     0xbad90e37, 0x2e4e5eef, 0x4eaba214, 0xa8a472c0, 0x429a969e, 0x148d302a, 0xc40ba6d0, 0xc4e22c3c]"

record crc_tables =
  crc_table :: "32 word list"
  crc_big_table :: "64 word list"
  x2n_table :: "32 word list"
  crc_braid_table :: "32 word list list"
  crc_braid_big_table :: "64 word list list"

text \<open>An entry, and the squares of \<open>x\<close>.\<close>

definition make_crc_entry :: "nat \<Rightarrow> 32 word" where
  "make_crc_entry i = (crc_shift ^^ 8) (word_of_nat i)"

fun make_x2n :: "nat \<Rightarrow> 32 word \<Rightarrow> 32 word list option" where
  "make_x2n 0 p = Some []"
| "make_x2n (Suc n) p =
     (case multmodp p p of
        None \<Rightarrow> None
      | Some q \<Rightarrow> (case make_x2n n q of None \<Rightarrow> None | Some t \<Rightarrow> Some (q # t)))"

text \<open>The rows of \<open>ltl\<close>, and of them \<open>big\<close>, whose row \<open>w - 1 - k\<close> is the row \<open>k\<close> with its bytes swapped.\<close>

fun braid_row :: "32 word \<Rightarrow> nat list \<Rightarrow> 32 word list option" where
  "braid_row p [] = Some []"
| "braid_row p (i # is) =
     (case (if i = 0 then Some 0 else multmodp (push_bit 24 (word_of_nat i)) p) of
        None \<Rightarrow> None
      | Some q \<Rightarrow> (case braid_row p is of None \<Rightarrow> None | Some t \<Rightarrow> Some (q # t)))"

fun braid_rows :: "32 word list \<Rightarrow> nat \<Rightarrow> nat \<Rightarrow> nat list \<Rightarrow> 32 word list list option" where
  "braid_rows x2n n w [] = Some []"
| "braid_rows x2n n w (k # ks) =
     (case x2nmodp x2n (push_bit 3 (int (n * w + 3) - int k)) 0 of
        None \<Rightarrow> None
      | Some p \<Rightarrow>
          (case braid_row p [0..<256] of
             None \<Rightarrow> None
           | Some row \<Rightarrow> (case braid_rows x2n n w ks of None \<Rightarrow> None | Some t \<Rightarrow> Some (row # t))))"

definition braid :: "32 word list \<Rightarrow> nat \<Rightarrow> nat \<Rightarrow> (32 word list list \<times> 64 word list list) option" where
  "braid x2n n w =
     (case braid_rows x2n n w [0..<w] of
        None \<Rightarrow> None
      | Some ltl \<Rightarrow> Some (ltl, rev (map (map (\<lambda>q. byte_swap (ucast q))) ltl)))"

definition make_crc_table :: "crc_tables option" where
  "make_crc_table =
     (let p = push_bit 30 1; tbl = map make_crc_entry [0..<256]
      in case make_x2n 31 p of
           None \<Rightarrow> None
         | Some t \<Rightarrow>
             let x2n = p # t
             in case braid x2n N W of
                  None \<Rightarrow> None
                | Some (ltl, big) \<Rightarrow>
                    Some \<lparr>crc_table = tbl, crc_big_table = map (\<lambda>p. byte_swap (ucast p)) tbl, x2n_table = x2n,
                      crc_braid_table = ltl, crc_braid_big_table = big\<rparr>)"

subsection \<open>The checksum\<close>

definition crc_byte :: "32 word list \<Rightarrow> 32 word \<Rightarrow> byte \<Rightarrow> 32 word" where
  "crc_byte tbl crc b = drop_bit 8 crc XOR tbl ! unat ((crc XOR ucast b) AND 0xff)"

definition crc_word :: "32 word list \<Rightarrow> 64 word \<Rightarrow> 32 word" where
  "crc_word tbl d = ucast (((\<lambda>d. drop_bit 8 d XOR ucast (tbl ! unat (d AND 0xff))) ^^ W) d)"

definition crc_word_big :: "64 word list \<Rightarrow> 64 word \<Rightarrow> 64 word" where
  "crc_word_big tbl d = ((\<lambda>d. push_bit 8 d XOR tbl ! unat (drop_bit (8 * (W - 1)) d AND 0xff)) ^^ W) d"

text \<open>Up to a word boundary; \<open>addr\<close> is the address of the data.\<close>

fun align_loop :: "32 word list \<Rightarrow> nat \<Rightarrow> 32 word \<Rightarrow> byte list \<Rightarrow> 32 word \<times> byte list" where
  "align_loop tbl addr crc [] = (crc, [])"
| "align_loop tbl addr crc (b # buf) =
     (if addr mod W \<noteq> 0 then align_loop tbl (addr + 1) (crc_byte tbl crc b) buf else (crc, b # buf))"

text \<open>The words in memory, with the byte order of the processor.\<close>

definition word_le :: "byte list \<Rightarrow> 64 word" where
  "word_le bs = foldr (\<lambda>b w. ucast b OR push_bit 8 w) bs 0"

definition load_word :: "bool \<Rightarrow> byte list \<Rightarrow> 64 word" where
  "load_word little bs = (if little then word_le bs else byte_swap (word_le bs))"

definition load_words :: "bool \<Rightarrow> nat \<Rightarrow> byte list \<Rightarrow> 64 word list" where
  "load_words little n buf = map (\<lambda>i. load_word little (take W (drop (W * i) buf))) [0..<n]"

text \<open>A word of a braid, and all but the last of the blocks, in both byte orders.\<close>

definition braid_word :: "'a::len word list list \<Rightarrow> 64 word \<Rightarrow> 'a word" where
  "braid_word tbl w =
     foldl (\<lambda>c k. c XOR tbl ! k ! unat (drop_bit (8 * k) w AND 0xff)) (tbl ! 0 ! unat (w AND 0xff)) [1..<W]"

fun braid_loop :: "32 word list list \<Rightarrow> nat \<Rightarrow> 32 word list \<Rightarrow> 64 word list \<Rightarrow> 32 word list \<times> 64 word list" where
  "braid_loop tbl 0 crcs words = (crcs, words)"
| "braid_loop tbl (Suc blks) crcs words =
     braid_loop tbl blks (map (braid_word tbl) (map2 (\<lambda>crc w. ucast crc XOR w) crcs (take N words))) (drop N words)"

fun braid_big_loop :: "64 word list list \<Rightarrow> nat \<Rightarrow> 64 word list \<Rightarrow> 64 word list \<Rightarrow> 64 word list \<times> 64 word list" where
  "braid_big_loop tbl 0 crcs words = (crcs, words)"
| "braid_big_loop tbl (Suc blks) crcs words =
     braid_big_loop tbl blks (map (braid_word tbl) (map2 (XOR) crcs (take N words))) (drop N words)"

text \<open>The last block.\<close>

definition combine_braids :: "32 word list \<Rightarrow> 32 word list \<Rightarrow> 64 word list \<Rightarrow> 32 word" where
  "combine_braids tbl crcs words =
     foldl (\<lambda>crc (c, w). crc_word tbl (ucast c XOR w XOR ucast crc))
       (crc_word tbl (ucast (crcs ! 0) XOR words ! 0)) (zip (drop 1 crcs) (drop 1 words))"

definition combine_big_braids :: "64 word list \<Rightarrow> 64 word list \<Rightarrow> 64 word list \<Rightarrow> 64 word" where
  "combine_big_braids tbl crcs words =
     foldl (\<lambda>comb (c, w). crc_word_big tbl (c XOR w XOR comb))
       (crc_word_big tbl (crcs ! 0 XOR words ! 0)) (zip (drop 1 crcs) (drop 1 words))"

definition crc_blocks :: "bool \<Rightarrow> crc_tables \<Rightarrow> 32 word \<Rightarrow> nat \<Rightarrow> 64 word list \<Rightarrow> 32 word" where
  "crc_blocks little T crc blks words =
     (if little then
        case braid_loop (crc_braid_table T) (blks - 1) (crc # replicate (N - 1) 0) words of
          (crcs, words) \<Rightarrow> combine_braids (crc_table T) crcs words
      else
        case braid_big_loop (crc_braid_big_table T) (blks - 1) (byte_swap (ucast crc) # replicate (N - 1) 0) words of
          (crcs, words) \<Rightarrow> ucast (byte_swap (combine_big_braids (crc_big_table T) crcs words)))"

text \<open>The remaining bytes, eight at a time and then one at a time.\<close>

function eight_loop :: "32 word list \<Rightarrow> 32 word \<Rightarrow> byte list \<Rightarrow> 32 word \<times> byte list" where
  "eight_loop tbl crc buf =
     (if length buf \<ge> 8 then
        let crc = crc_byte tbl crc (buf ! 0); crc = crc_byte tbl crc (buf ! 1);
            crc = crc_byte tbl crc (buf ! 2); crc = crc_byte tbl crc (buf ! 3);
            crc = crc_byte tbl crc (buf ! 4); crc = crc_byte tbl crc (buf ! 5);
            crc = crc_byte tbl crc (buf ! 6); crc = crc_byte tbl crc (buf ! 7)
        in eight_loop tbl crc (drop 8 buf)
      else (crc, buf))"
  by pat_completeness auto

termination eight_loop
  by (relation "measure (\<lambda>(_, _, buf). length buf)") auto

declare eight_loop.simps [simp del]

fun one_loop :: "32 word list \<Rightarrow> 32 word \<Rightarrow> byte list \<Rightarrow> 32 word" where
  "one_loop tbl crc [] = crc"
| "one_loop tbl crc (b # buf) = one_loop tbl (crc_byte tbl crc b) buf"

text \<open>With enough bytes, what is left of them after the braids.\<close>

definition crc_braided :: "bool \<Rightarrow> crc_tables \<Rightarrow> nat \<Rightarrow> 32 word \<Rightarrow> byte list \<Rightarrow> 32 word \<times> byte list" where
  "crc_braided little T addr crc buf =
     (if length buf \<ge> N * W + W - 1 then
        case align_loop (crc_table T) addr crc buf of
          (crc, buf) \<Rightarrow>
            let blks = length buf div (N * W)
            in (crc_blocks little T crc blks (load_words little (blks * N) buf), drop (blks * N * W) buf)
      else (crc, buf))"

definition crc32_z :: "bool \<Rightarrow> crc_tables \<Rightarrow> nat \<Rightarrow> 32 word \<Rightarrow> byte list option \<Rightarrow> 32 word" where
  "crc32_z little T addr crc buf =
     (case buf of
        None \<Rightarrow> 0
      | Some buf \<Rightarrow>
          (case crc_braided little T addr (NOT crc AND 0xffffffff) buf of
             (crc, buf) \<Rightarrow>
               (case eight_loop (crc_table T) crc buf of
                  (crc, buf) \<Rightarrow> one_loop (crc_table T) crc buf XOR 0xffffffff)))"

definition crc32 :: "bool \<Rightarrow> crc_tables \<Rightarrow> nat \<Rightarrow> 32 word \<Rightarrow> byte list option \<Rightarrow> 32 word" where
  "crc32 little T addr crc buf = crc32_z little T addr crc buf"

text \<open>The combination of two checksums; not returning is \<open>None\<close>.\<close>

definition crc32_combine64 :: "crc_tables \<Rightarrow> 32 word \<Rightarrow> 32 word \<Rightarrow> int \<Rightarrow> 32 word option" where
  "crc32_combine64 T crc1 crc2 len2 =
     (case x2nmodp (x2n_table T) len2 3 of
        None \<Rightarrow> None
      | Some p \<Rightarrow> (case multmodp p crc1 of None \<Rightarrow> None | Some r \<Rightarrow> Some (r XOR (crc2 AND 0xffffffff))))"

definition crc32_combine :: "crc_tables \<Rightarrow> 32 word \<Rightarrow> 32 word \<Rightarrow> int \<Rightarrow> 32 word option" where
  "crc32_combine T crc1 crc2 len2 = crc32_combine64 T crc1 crc2 len2"

definition crc32_combine_gen64 :: "crc_tables \<Rightarrow> int \<Rightarrow> 32 word option" where
  "crc32_combine_gen64 T len2 = x2nmodp (x2n_table T) len2 3"

definition crc32_combine_gen :: "crc_tables \<Rightarrow> int \<Rightarrow> 32 word option" where
  "crc32_combine_gen T len2 = crc32_combine_gen64 T len2"

definition crc32_combine_op :: "32 word \<Rightarrow> 32 word \<Rightarrow> 32 word \<Rightarrow> 32 word option" where
  "crc32_combine_op crc1 crc2 op =
     (case multmodp op crc1 of None \<Rightarrow> None | Some r \<Rightarrow> Some (r XOR (crc2 AND 0xffffffff)))"

subsection \<open>Multiplication by powers of x\<close>

lemma crc_shift_alt: "crc_shift b = drop_bit 1 b XOR (if bit b 0 then POLY else 0)"
  by (simp add: crc_shift_def bit_0 and_one_eq odd_iff_mod_2_eq_one)

lemma crc_shift_xor [simp]: "crc_shift (a XOR b) = crc_shift a XOR crc_shift b"
  by (simp add: crc_shift_alt bit_xor_iff ac_simps del: bit_0)

lemma crc_shift_0 [simp]: "crc_shift 0 = 0"
  by (simp add: crc_shift_def)

abbreviation shifts :: "nat \<Rightarrow> 32 word \<Rightarrow> 32 word" where
  "shifts n \<equiv> crc_shift ^^ n"

lemma shifts_xor [simp]: "shifts n (a XOR b) = shifts n a XOR shifts n b"
  by (induction n) simp_all

lemma shifts_0 [simp]: "shifts n 0 = 0"
  by (induction n) simp_all

lemma shifts_add: "shifts m (shifts n b) = shifts (m + n) b"
  by (simp add: funpow_add)

lemma shifts_comm: "shifts n (crc_shift b) = crc_shift (shifts n b)"
  by (simp add: funpow_swap1)

lemma crc_shift_eq_0: "crc_shift b = 0 \<longleftrightarrow> b = 0"
proof
  assume z: "crc_shift b = 0"
  have "bit (crc_shift b) 31 \<longleftrightarrow> bit b 0"
    using bit_imp_le_length [of b 32] by (auto simp: crc_shift_alt bit_xor_iff bit_drop_bit_eq POLY_def simp del: bit_0)
  then have "\<not> bit b 0" using z by simp
  then have "drop_bit 1 b = 0" "\<not> bit b 0" using z by (simp_all add: crc_shift_alt del: bit_0)
  then have "\<not> bit b i" for i using bit_drop_bit_eq [of 1 b] by (cases i) (auto simp del: bit_0 simp: fun_eq_iff)
  then show "b = 0" by (simp add: bit_eq_iff)
qed simp

lemma shifts_eq_0 [simp]: "shifts n b = 0 \<longleftrightarrow> b = 0"
  by (induction n) (simp_all add: crc_shift_eq_0)

lemma xor_eq_0_word: "a XOR b = 0 \<longleftrightarrow> a = (b :: 'a::len word)"
  by (auto simp: bit_eq_iff bit_xor_iff)

lemma shifts_low: "take_bit n b = 0 \<Longrightarrow> shifts n b = drop_bit n b"
proof (induction n)
  case (Suc n)
  have z: "\<not> bit b i" if "i < Suc n" for i using Suc.prems that by (metis bit_take_bit_iff bit_0_eq bot_apply bot_bool_def)
  then have "take_bit n b = 0" by (simp add: bit_eq_iff bit_take_bit_iff)
  then have "shifts n b = drop_bit n b" by (rule Suc.IH)
  then have "shifts (Suc n) b = crc_shift (drop_bit n b)" by simp
  also have "\<dots> = drop_bit (Suc n) b" using z [of n] by (simp add: crc_shift_alt bit_drop_bit_eq drop_bit_drop_bit del: bit_0)
  finally show ?case .
qed simp

text \<open>Sums, and the product as the sum of shifted copies.\<close>

primrec xsum :: "nat \<Rightarrow> (nat \<Rightarrow> 'a::len word) \<Rightarrow> 'a word" where
  "xsum 0 f = 0"
| "xsum (Suc n) f = xsum n f XOR f n"

lemma xsum_cong: "(\<And>i. i < n \<Longrightarrow> f i = g i) \<Longrightarrow> xsum n f = xsum n g"
  by (induction n) simp_all

lemma xsum_xor: "xsum n (\<lambda>i. f i XOR g i) = xsum n f XOR xsum n g"
  by (induction n) (simp_all add: ac_simps)

lemma xsum_linear: "h 0 = 0 \<Longrightarrow> (\<And>a b. h (a XOR b) = h a XOR h b) \<Longrightarrow> h (xsum n f) = xsum n (\<lambda>i. h (f i))"
  by (induction n) simp_all

definition pmult :: "32 word \<Rightarrow> 32 word \<Rightarrow> 32 word" where
  "pmult a b = xsum 32 (\<lambda>i. if bit a (31 - i) then shifts i b else 0)"

definition x0 :: "32 word" where "x0 = push_bit 31 1"

lemma bit_x0: "bit x0 j \<longleftrightarrow> j = 31"
  unfolding x0_def bit_push_bit_iff bit_1_iff by auto

lemma x0_nonzero [simp]: "x0 \<noteq> 0"
  using bit_x0 [of 31] by auto

lemma pmult_xor_left: "pmult (a XOR c) b = pmult a b XOR pmult c b"
  unfolding pmult_def xsum_xor [symmetric] by (rule xsum_cong) (simp add: bit_xor_iff)

lemma pmult_xor_right: "pmult a (b XOR c) = pmult a b XOR pmult a c"
  unfolding pmult_def xsum_xor [symmetric] by (rule xsum_cong) simp

lemma pmult_0 [simp]: "pmult 0 b = 0" "pmult a 0 = 0"
  using pmult_xor_left [of 0 0 b] pmult_xor_right [of a 0 0] by simp_all

lemma pmult_shifts: "pmult a (shifts n b) = shifts n (pmult a b)"
  unfolding pmult_def by (subst xsum_linear) (auto intro!: xsum_cong simp: shifts_add add.commute)

lemma pmult_x0_left: "pmult x0 b = b"
proof -
  have "xsum (Suc n) (\<lambda>i. if bit x0 (31 - i) then shifts i b else 0) = b" if "n < 32" for n
    using that by (induction n) (auto simp: bit_x0)
  from this [of 31] show ?thesis by (simp add: pmult_def numeral_eq_Suc)
qed

lemma shifts_x0: "i < 32 \<Longrightarrow> shifts i x0 = push_bit (31 - i) 1"
proof -
  assume i: "i < 32"
  have "take_bit i x0 = 0" using i by (intro bit_word_eqI) (auto simp: bit_take_bit_iff bit_x0)
  then have "shifts i x0 = drop_bit i x0" by (rule shifts_low)
  also have "\<dots> = push_bit (31 - i) 1" using i by (intro bit_word_eqI) (auto simp: bit_drop_bit_eq bit_x0 bit_exp_iff)
  finally show ?thesis .
qed

lemma pmult_x0_right: "pmult b x0 = b"
proof (rule bit_word_eqI)
  have n: "n \<le> 32 \<Longrightarrow> bit (xsum n (\<lambda>i. if bit b (31 - i) then shifts i x0 else 0)) j \<longleftrightarrow> j < 32 \<and> 31 - j < n \<and> bit b j" for n j
  proof (induction n)
    case (Suc n)
    have "bit (if bit b (31 - n) then shifts n x0 else 0) j \<longleftrightarrow> j = 31 - n \<and> bit b (31 - n)"
      using Suc.prems by (auto simp: shifts_x0 bit_exp_iff)
    with Suc show ?case by (auto simp: bit_xor_iff less_Suc_eq)
  qed simp
  fix j
  assume "j < LENGTH(32)"
  then show "bit (pmult b x0) j = bit b j" using n [of 32 j] by (auto simp: pmult_def)
qed

lemma shifts_32: "shifts 32 b = pmult POLY b"
proof -
  have "shifts 32 x0 = crc_shift (shifts 31 x0)" by (simp add: numeral_eq_Suc)
  also have "\<dots> = POLY" by (simp add: shifts_x0 crc_shift_alt)
  finally have p: "shifts 32 x0 = POLY" .
  have e: "b = xsum 32 (\<lambda>i. if bit b (31 - i) then shifts i x0 else 0)"
    using pmult_x0_right [of b] by (simp add: pmult_def)
  have "shifts 32 b = xsum 32 (\<lambda>i. if bit b (31 - i) then shifts i (shifts 32 x0) else 0)"
    by (subst e, subst xsum_linear) (auto intro!: xsum_cong simp: shifts_add add.commute)
  also have "\<dots> = pmult POLY b"
    unfolding p by (subst (2) e, subst xsum_linear [of "pmult POLY"])
      (auto intro!: xsum_cong simp: pmult_xor_right pmult_shifts pmult_x0_right)
  finally show ?thesis .
qed

lemma pmult_crc_shift: "pmult (crc_shift a) b = crc_shift (pmult a b)"
proof -
  have d: "n \<le> 31 \<Longrightarrow> xsum (Suc n) (\<lambda>i. if bit (drop_bit 1 a) (31 - i) then shifts i b else 0) =
    xsum n (\<lambda>i. if bit a (31 - i) then shifts i (crc_shift b) else 0)" for n
  proof (induction n)
    case 0
    have "\<not> bit a 32" using bit_imp_le_length [of a 32] by auto
    then show ?case by (simp add: bit_drop_bit_eq)
  next
    case (Suc n)
    then have "bit (drop_bit 1 a) (31 - Suc n) = bit a (31 - n)" by (simp add: bit_drop_bit_eq Suc_diff_Suc [symmetric])
    with Suc show ?case by (simp add: shifts_comm)
  qed
  have "pmult a (crc_shift b) = xsum 31 (\<lambda>i. if bit a (31 - i) then shifts i (crc_shift b) else 0) XOR (if bit a 0 then shifts 31 (crc_shift b) else 0)"
    by (simp add: pmult_def numeral_eq_Suc del: bit_0)
  also have "shifts 31 (crc_shift b) = pmult POLY b"
    using shifts_add [of 31 1 b] by (simp add: shifts_32)
  also have "xsum 31 (\<lambda>i. if bit a (31 - i) then shifts i (crc_shift b) else 0) = pmult (drop_bit 1 a) b"
    using d [of 31] by (simp add: pmult_def numeral_eq_Suc)
  finally have "pmult a (crc_shift b) = pmult (drop_bit 1 a) b XOR (if bit a 0 then pmult POLY b else 0)" .
  moreover have "pmult (crc_shift a) b = pmult (drop_bit 1 a) b XOR (if bit a 0 then pmult POLY b else 0)"
    by (simp add: crc_shift_alt pmult_xor_left del: bit_0)
  moreover have "pmult a (crc_shift b) = crc_shift (pmult a b)" using pmult_shifts [of a 1 b] by simp
  ultimately show ?thesis by simp
qed

lemma pmult_power: "pmult (shifts n x0) b = shifts n b"
  by (induction n) (simp_all add: pmult_crc_shift pmult_x0_left)

subsection \<open>\<open>multmodp\<close>\<close>

text \<open>With \<open>i\<close> bits done and bits left in \<open>a\<close>, the loop returns the product.\<close>

lemma and_power_bit: "n < 32 \<Longrightarrow> (a :: 32 word) AND push_bit n 1 \<noteq> 0 \<longleftrightarrow> bit a n"
proof -
  assume n: "n < 32"
  have b: "bit (a AND push_bit n 1) m \<longleftrightarrow> m = n \<and> bit a n" for m
    using n by (auto simp: bit_and_iff bit_exp_iff)
  show ?thesis
  proof
    show "bit a n" if "a AND push_bit n 1 \<noteq> 0"
      using that b by (metis bit_word_eqI bit_0_eq bot_apply bot_bool_def)
    show "a AND push_bit n 1 \<noteq> 0" if "bit a n" using that b [of n] by auto
  qed
qed

lemma multmodp_loop_value:
  assumes "take_bit (32 - i) a \<noteq> 0" "i < 32"
  shows "multmodp_loop a (push_bit (31 - i) 1) (xsum i (\<lambda>i. if bit a (31 - i) then shifts i b else 0)) (shifts i b) =
    Some (pmult a b)"
  using assms
proof (induction "32 - i" arbitrary: i)
  case (Suc d)
  let ?f = "\<lambda>i. if bit a (31 - i) then shifts i b else 0"
  have m: "push_bit (31 - i) 1 - 1 = (mask (31 - i) :: 32 word)" by (simp add: mask_eq_exp_minus_1)
  have low: "a AND (push_bit (31 - i) 1 - 1) = take_bit (31 - i) a" unfolding m by (simp add: take_bit_eq_mask)
  have set: "a AND push_bit (31 - i) 1 \<noteq> 0 \<longleftrightarrow> bit a (31 - i)" using Suc.prems(2) by (intro and_power_bit) simp
  show ?case
  proof (cases "take_bit (31 - i) a = 0")
    case True
    have rest: "j < 31 - i \<Longrightarrow> \<not> bit a j" for j using True by (metis bit_take_bit_iff bit_0_eq bot_apply bot_bool_def)
    have "bit a (31 - i)"
    proof (rule ccontr)
      assume "\<not> bit a (31 - i)"
      then have "take_bit (Suc (31 - i)) a = 0" using rest by (intro bit_word_eqI) (auto simp: bit_take_bit_iff less_Suc_eq)
      moreover have "Suc (31 - i) = 32 - i" using Suc.prems(2) by simp
      ultimately show False using Suc.prems(1) by simp
    qed
    have "xsum (Suc n) ?f = xsum (Suc i) ?f" if "i \<le> n" "n < 32" for n
      using that
    proof (induction n)
      case (Suc n)
      show ?case
      proof (cases "i \<le> n")
        case True
        then have "\<not> bit a (31 - Suc n)" using rest Suc.prems by simp
        then show ?thesis using Suc True by simp
      next
        case False
        then have "i = Suc n" using Suc.prems by simp
        then show ?thesis by simp
      qed
    qed simp
    from this [of 31] Suc.prems(2) have "pmult a b = xsum i ?f XOR shifts i b"
      using \<open>bit a (31 - i)\<close> by (simp add: pmult_def numeral_eq_Suc)
    then show ?thesis using True set low \<open>bit a (31 - i)\<close> by (subst multmodp_loop.simps) simp
  next
    case False
    then have "31 - i \<noteq> 0" by (metis take_bit_0)
    then have i: "Suc i < 32" "0 < 31 - i" by simp_all
    have h: "drop_bit 1 (push_bit (31 - i) 1) = (push_bit (31 - Suc i) 1 :: 32 word)"
      using i(1) by (intro bit_word_eqI) (auto simp: bit_drop_bit_eq bit_exp_iff)
    have "multmodp_loop a (push_bit (31 - i) 1) (xsum i ?f) (shifts i b) =
      multmodp_loop a (push_bit (31 - Suc i) 1) (xsum (Suc i) ?f) (shifts (Suc i) b)"
      by (subst multmodp_loop.simps) (use False set low h in auto)
    also have "\<dots> = Some (pmult a b)" by (rule Suc.hyps(1)) (use Suc i False in simp_all)
    finally show ?thesis .
  qed
qed simp

lemma multmodp_value: "a \<noteq> 0 \<Longrightarrow> multmodp a b = Some (pmult a b)"
proof -
  assume "a \<noteq> 0"
  then have "take_bit 32 a \<noteq> 0" by (simp add: take_bit_word_eq_self)
  then show ?thesis using multmodp_loop_value [of 0 a b] by (simp add: multmodp_def)
qed

text \<open>For zero the loop never ends.\<close>

lemma multmodp_loop_zero: "multmodp_loop 0 m p b = None"
proof -
  have "a \<noteq> 0" if "multmodp_loop a m p b = Some r" for a r
    by (rule multmodp_loop.raw_induct [OF _ that]) (auto split: if_splits)
  then show ?thesis by (cases "multmodp_loop 0 m p b") auto
qed

lemma multmodp_zero: "multmodp 0 b = None"
  by (simp add: multmodp_def multmodp_loop_zero)

lemma multmodp_power: "multmodp (shifts n x0) b = Some (shifts n b)"
  by (simp add: multmodp_value pmult_power)

subsection \<open>The table of powers\<close>

text \<open>The static table holds the squares; after 32 of them comes \<open>x\<close> again.\<close>

lemma static_squares:
  "list_all (\<lambda>i. multmodp (static_x2n_table ! i) (static_x2n_table ! i) = Some (static_x2n_table ! Suc i)) [0..<31]"
  by (simp add: upt_rec static_x2n_table_def multmodp_def multmodp_loop.simps crc_shift_def POLY_def)

lemma static_wrap: "multmodp (static_x2n_table ! 31) (static_x2n_table ! 31) = Some (push_bit 30 1)"
  by (simp add: static_x2n_table_def multmodp_def multmodp_loop.simps crc_shift_def POLY_def)

lemma static_first: "static_x2n_table ! 0 = shifts 1 x0"
proof -
  have "shifts 1 x0 = push_bit 30 1" using shifts_x0 [of 1] by simp
  then show ?thesis by (simp add: static_x2n_table_def)
qed

lemma square_power: "multmodp (shifts n x0) (shifts n x0) = Some (shifts (2 * n) x0)"
  by (simp add: multmodp_power shifts_add mult_2)

lemma static_powers: "k < 32 \<Longrightarrow> static_x2n_table ! k = shifts (2 ^ k) x0"
proof (induction k)
  case 0
  then show ?case using static_first by simp
next
  case (Suc k)
  have "k \<in> set [0..<31]" using Suc.prems by simp
  then have "multmodp (static_x2n_table ! k) (static_x2n_table ! k) = Some (static_x2n_table ! Suc k)"
    using static_squares unfolding list_all_iff by blast
  moreover have "static_x2n_table ! k = shifts (2 ^ k) x0" using Suc by simp
  ultimately show ?case using square_power [of "2 ^ k"] by (metis option.inject power_Suc)
qed

lemma x_period: "shifts (2 ^ 32) b = shifts 1 b"
proof -
  have "shifts (2 * 2 ^ 31) x0 = shifts 1 x0"
    using static_wrap square_power [of "2 ^ 31"] static_powers [of 31] static_first shifts_x0 [of 1] by simp
  also have "(2 :: nat) * 2 ^ 31 = 2 ^ 32" by simp
  finally have "shifts (2 ^ 32) x0 = shifts 1 x0" .
  then show ?thesis using pmult_power [of "2 ^ 32" b] pmult_power [of 1 b] by simp
qed

lemma power_mod_32: "shifts (2 ^ k) b = shifts (2 ^ (k mod 32)) b"
proof (induction k arbitrary: b rule: less_induct)
  case (less k)
  show ?case
  proof (cases "k < 32")
    case False
    have m: "shifts (2 ^ 32 * q) b = shifts q b" for q b
    proof (induction q arbitrary: b)
      case (Suc q)
      have "shifts (2 ^ 32 * Suc q) b = shifts (2 ^ 32 * q) (shifts (2 ^ 32) b)"
        unfolding shifts_add by (simp only: mult_Suc_right add.commute)
      also have "\<dots> = shifts q (shifts 1 b)" unfolding x_period by (rule Suc.IH)
      finally show ?case by (simp add: shifts_comm)
    qed simp
    have "(2 :: nat) ^ k = 2 ^ 32 * 2 ^ (k - 32)" using False by (simp only: power_add [symmetric]) simp
    then have "shifts (2 ^ k) b = shifts (2 ^ (k - 32)) b" by (simp only: m)
    also have "\<dots> = shifts (2 ^ ((k - 32) mod 32)) b" by (rule less.IH) (use False in simp)
    also have "(k - 32) mod 32 = k mod 32" using False by (simp add: le_mod_geq)
    finally show ?thesis .
  qed simp
qed

definition powers :: "32 word list \<Rightarrow> bool" where
  "powers t \<longleftrightarrow> (\<forall>k. t ! (k mod 32) = shifts (2 ^ k) x0)"

lemma powers_static: "powers static_x2n_table"
  unfolding powers_def using static_powers power_mod_32 by simp

lemma make_x2n_value: "make_x2n n (shifts m x0) = Some (map (\<lambda>k. shifts (m * 2 ^ Suc k) x0) [0..<n])"
proof (induction n arbitrary: m)
  case (Suc n)
  have "map (\<lambda>k. shifts (m * 2 ^ Suc k) x0) [0..<Suc n] =
    shifts (2 * m) x0 # map (\<lambda>k. shifts (2 * m * 2 ^ Suc k) x0) [0..<n]"
    unfolding upt_conv_Cons [OF zero_less_Suc] map_Suc_upt [symmetric] by (simp add: mult.left_commute mult.commute)
  then show ?case using Suc.IH [of "2 * m"] by (simp add: square_power)
qed simp

lemma make_x2n_static: "make_x2n 31 (push_bit 30 1) = Some (drop 1 static_x2n_table)"
proof -
  have "push_bit 30 1 = shifts 1 x0" using shifts_x0 [of 1] by simp
  moreover have "drop 1 static_x2n_table = map (\<lambda>k. shifts (1 * 2 ^ Suc k) x0) [0..<31]"
  proof (rule nth_equalityI)
    show "length (drop 1 static_x2n_table) = length (map (\<lambda>k. shifts (1 * 2 ^ Suc k) x0) [0..<31])"
      by (simp add: static_x2n_table_def)
    fix i
    assume "i < length (drop 1 static_x2n_table)"
    then have "i < 31" by (simp add: static_x2n_table_def)
    then show "drop 1 static_x2n_table ! i = map (\<lambda>k. shifts (1 * 2 ^ Suc k) x0) [0..<31] ! i"
      using static_powers [of "Suc i"] by (simp add: static_x2n_table_def)
  qed
  ultimately show ?thesis using make_x2n_value [of 31 1] by simp
qed

lemma x2nmodp_loop_value:
  "powers t \<Longrightarrow> x2nmodp_loop t (int n) k (shifts m x0) = Some (shifts (m + n * 2 ^ k) x0)"
proof (induction n arbitrary: k m rule: less_induct)
  case (less n)
  show ?case
  proof (cases "n = 0")
    case False
    have h: "int n div 2 = int (n div 2)" by (simp add: zdiv_int)
    have s: "(if odd (int n) then multmodp (t ! (k mod 32)) (shifts m x0) else Some (shifts m x0)) =
        Some (shifts (m + n mod 2 * 2 ^ k) x0)"
      using less.prems by (auto simp: powers_def multmodp_power shifts_add add.commute odd_iff_mod_2_eq_one)
    have "x2nmodp_loop t (int n) k (shifts m x0) = x2nmodp_loop t (int (n div 2)) (k + 1) (shifts (m + n mod 2 * 2 ^ k) x0)"
      using False s h by (subst x2nmodp_loop.simps) simp
    also have "\<dots> = Some (shifts (m + n mod 2 * 2 ^ k + n div 2 * 2 ^ (k + 1)) x0)"
      by (rule less.IH) (use False less.prems in simp_all)
    also have "m + n mod 2 * 2 ^ k + n div 2 * 2 ^ (k + 1) = m + (n mod 2 + n div 2 * 2) * 2 ^ k"
      unfolding add_mult_distrib by (simp add: ac_simps)
    also have "n mod 2 + n div 2 * 2 = n" by simp
    finally show ?thesis by simp
  qed (simp add: x2nmodp_loop.simps)
qed

lemma x2nmodp_value: "powers t \<Longrightarrow> x2nmodp t (int n) k = Some (shifts (n * 2 ^ k) x0)"
  using x2nmodp_loop_value [of t n k 0] by (simp add: x2nmodp_def x0_def)

text \<open>A negative number stays negative when it is halved.\<close>

lemma x2nmodp_loop_negative: "n < 0 \<Longrightarrow> x2nmodp_loop t n k p = None"
proof -
  have "0 \<le> n" if "x2nmodp_loop t n k p = Some r" for r
    by (rule x2nmodp_loop.raw_induct [OF _ that]) (fastforce split: if_splits option.splits)
  then show "n < 0 \<Longrightarrow> ?thesis" by (cases "x2nmodp_loop t n k p") force+
qed

subsection \<open>Registers\<close>

text \<open>The register after some bytes, one bit at a time: the definition of the checksum.\<close>

definition feed :: "32 word \<Rightarrow> byte \<Rightarrow> 32 word" where
  "feed c b = (crc_shift ^^ 8) (c XOR ucast b)"

definition crc_spec :: "32 word \<Rightarrow> byte list \<Rightarrow> 32 word" where
  "crc_spec crc buf = NOT (foldl feed (NOT crc) buf)"

definition byte_table :: "32 word list" where
  "byte_table = map make_crc_entry [0..<256]"

lemma byte_table_nth:
  fixes w :: "'a::len word"
  assumes "8 < LENGTH('a)"
  shows "byte_table ! unat (w AND 0xff) = shifts 8 (ucast (w AND 0xff))"
proof -
  have m: "(0xff :: 'a word) = mask 8" by (simp add: mask_numeral)
  have "unat (take_bit 8 w) = take_bit 8 (unat w)" by (rule unsigned_take_bit_eq)
  then have "unat (take_bit 8 w) < 256" by (simp add: take_bit_nat_less_exp [of 8, simplified])
  then have "byte_table ! unat (take_bit 8 w) = shifts 8 (word_of_nat (unat (take_bit 8 w)))"
    by (simp add: byte_table_def make_crc_entry_def)
  then show ?thesis unfolding m take_bit_eq_mask [symmetric] by simp
qed

lemma and_mask_8: "(w :: 'a::len word) AND 0xff = take_bit 8 w"
proof -
  have "(0xff :: 'a word) = mask 8" by (simp add: mask_numeral)
  then show ?thesis by (simp add: take_bit_eq_mask)
qed

lemma byte_table_step: "drop_bit 8 w XOR byte_table ! unat (w AND 0xff) = shifts 8 w"
proof -
  have split: "w = (w AND NOT (mask 8)) XOR take_bit 8 w"
    by (intro bit_word_eqI) (auto simp: bit_xor_iff bit_and_iff bit_not_iff bit_mask_iff bit_take_bit_iff)
  have "shifts 8 (w AND NOT (mask 8)) = drop_bit 8 (w AND NOT (mask 8))"
    by (intro shifts_low bit_word_eqI) (auto simp: bit_and_iff bit_not_iff bit_mask_iff bit_take_bit_iff)
  also have "\<dots> = drop_bit 8 w"
    by (intro bit_word_eqI) (auto simp: bit_and_iff bit_not_iff bit_mask_iff bit_drop_bit_eq dest: bit_imp_le_length)
  finally have "shifts 8 w = drop_bit 8 w XOR shifts 8 (take_bit 8 w)"
    by (subst split) simp
  moreover have "byte_table ! unat (w AND 0xff) = shifts 8 (take_bit 8 w)"
    using byte_table_nth [of w] by (simp add: and_mask_8)
  ultimately show ?thesis by simp
qed

lemma crc_byte_feed: "crc_byte byte_table c b = feed c b"
proof -
  have "drop_bit 8 (c XOR ucast b) = drop_bit 8 c"
    by (intro bit_word_eqI) (auto simp: bit_drop_bit_eq bit_xor_iff bit_ucast_iff)
  then show ?thesis using byte_table_step [of "c XOR ucast b"] by (simp add: crc_byte_def feed_def)
qed

lemma one_loop_feed: "one_loop byte_table c bs = foldl feed c bs"
  by (induction bs arbitrary: c) (simp_all add: crc_byte_feed)

lemma eight_loop_feed: "case eight_loop byte_table c bs of (c', rest) \<Rightarrow> foldl feed c' rest = foldl feed c bs"
proof (induction byte_table c bs rule: eight_loop.induct)
  case (1 c bs)
  show ?case
  proof (cases "8 \<le> length bs")
    case True
    then have "take 8 bs = map ((!) bs) [0..<8]" by (intro nth_equalityI) simp_all
    also have "\<dots> = [bs ! 0, bs ! 1, bs ! 2, bs ! 3, bs ! 4, bs ! 5, bs ! 6, bs ! 7]" by (simp add: upt_rec numeral_eq_Suc)
    finally have e: "bs = [bs ! 0, bs ! 1, bs ! 2, bs ! 3, bs ! 4, bs ! 5, bs ! 6, bs ! 7] @ drop 8 bs"
      by (metis append_take_drop_id)
    have "foldl feed c bs = foldl feed (feed (feed (feed (feed (feed (feed (feed (feed c (bs ! 0)) (bs ! 1)) (bs ! 2))
        (bs ! 3)) (bs ! 4)) (bs ! 5)) (bs ! 6)) (bs ! 7)) (drop 8 bs)"
      using arg_cong [OF e, of "foldl feed c"] by simp
    with 1 [OF True refl refl refl refl refl refl refl refl] True show ?thesis
      by (simp add: eight_loop.simps [of byte_table c bs] crc_byte_feed Let_def)
  qed (simp add: eight_loop.simps [of byte_table c bs])
qed

lemma align_loop_feed:
  "case align_loop byte_table addr c bs of (c', rest) \<Rightarrow> foldl feed c' rest = foldl feed c bs \<and>
     length bs < length rest + 8"
proof -
  have a: "case align_loop byte_table addr c bs of (c', rest) \<Rightarrow> foldl feed c' rest = foldl feed c bs"
    by (induction bs arbitrary: addr c) (simp_all add: crc_byte_feed)
  have l: "case align_loop byte_table addr c bs of (c', rest) \<Rightarrow>
      length bs \<le> length rest + (if addr mod 8 = 0 then 0 else 8 - addr mod 8)"
  proof (induction bs arbitrary: addr c)
    case (Cons b bs)
    show ?case
    proof (cases "addr mod 8 = 0")
      case False
      have e: "(if Suc addr mod 8 = 0 then 0 else 8 - Suc addr mod 8) + 1 = 8 - addr mod 8"
        using False mod_Suc [of addr 8] mod_less_divisor [of 8 addr] by auto
      obtain c' rest where r: "align_loop byte_table (Suc addr) (crc_byte byte_table c b) bs = (c', rest)" by fastforce
      then have "length bs \<le> length rest + (if Suc addr mod 8 = 0 then 0 else 8 - Suc addr mod 8)"
        using Cons [of "Suc addr" "crc_byte byte_table c b"] by simp
      then have "length (b # bs) \<le> length rest + (8 - addr mod 8)" unfolding e [symmetric] by simp
      then show ?thesis using False r by (simp add: W_def)
    qed (simp add: W_def)
  qed simp
  show ?thesis using a l by (auto split: prod.splits if_splits)
qed

subsection \<open>Words\<close>

text \<open>A turn of \<open>crc_word\<close>, and the register as the low part of the data.\<close>

definition word_turn :: "64 word \<Rightarrow> 64 word" where
  "word_turn d = drop_bit 8 d XOR ucast (byte_table ! unat (d AND 0xff))"

lemma crc_word_turns: "crc_word byte_table d = ucast ((word_turn ^^ 8) d)"
  by (simp add: crc_word_def word_turn_def [abs_def] W_def)

lemma ucast_xor: "ucast (a XOR b) = (ucast a XOR ucast b :: 'b::len word)" for a b :: "'a::len word"
  by (intro bit_word_eqI) (auto simp: bit_ucast_iff bit_xor_iff)

lemma word_turn_alt: "word_turn d = drop_bit 8 d XOR ucast (shifts 8 (ucast (take_bit 8 d)))"
  using byte_table_nth [of d] by (simp add: word_turn_def and_mask_8)

lemma word_turn_xor: "word_turn (a XOR b) = word_turn a XOR word_turn b"
  by (simp add: word_turn_alt drop_bit_xor take_bit_xor ucast_xor ac_simps)

lemma word_turns_xor: "(word_turn ^^ n) (a XOR b) = (word_turn ^^ n) a XOR (word_turn ^^ n) b"
  by (induction n) (simp_all add: word_turn_xor)

lemma word_turn_register: "word_turn (ucast c) = ucast (shifts 8 c)" for c :: "32 word"
proof -
  have "ucast (take_bit 8 (ucast c :: 64 word)) = take_bit 8 c" "drop_bit 8 (ucast c :: 64 word) = ucast (drop_bit 8 c)"
    by (intro bit_word_eqI; auto simp: bit_ucast_iff bit_take_bit_iff bit_drop_bit_eq dest: bit_imp_le_length)+
  then show ?thesis
    using byte_table_step [of c] byte_table_nth [of c] by (simp add: word_turn_alt and_mask_8 ucast_xor [symmetric])
qed

lemma word_turns_register: "(word_turn ^^ n) (ucast c) = ucast (shifts (8 * n) c)" for c :: "32 word"
  by (induction n) (simp_all add: word_turn_register shifts_add)

text \<open>A byte that is not reached yet moves down.\<close>

lemma word_turn_high: "word_turn (push_bit 8 d) = drop_bit 8 (push_bit 8 d)"
  by (simp add: word_turn_alt take_bit_push_bit)

lemma word_le_simps [simp]: "word_le [] = 0" "word_le (b # bs) = ucast b OR push_bit 8 (word_le bs)"
  by (simp_all add: word_le_def)

lemma word_turns_bytes:
  "length bs \<le> 8 \<Longrightarrow> (word_turn ^^ length bs) (ucast c XOR word_le bs) = ucast (foldl feed c bs)"
proof (induction bs arbitrary: c)
  case (Cons b bs)
  have small: "length bs \<le> k \<Longrightarrow> bit (word_le bs) i \<Longrightarrow> i < 8 * k" for bs k i
  proof (induction bs arbitrary: k i)
    case (Cons b bs)
    then obtain k' where k: "k = Suc k'" by (cases k) auto
    have "i < 8 \<or> 8 \<le> i \<and> bit (word_le bs) (i - 8)"
      using Cons.prems(2) bit_imp_le_length [of b i] by (auto simp: bit_or_iff bit_ucast_iff bit_push_bit_iff)
    then show ?case using Cons.IH [of k' "i - 8"] Cons.prems(1) k by auto
  qed simp
  have keep: "drop_bit 8 (push_bit 8 (word_le bs)) = word_le bs"
    using small [of bs 7] Cons.prems by (intro bit_word_eqI) (auto simp: bit_drop_bit_eq bit_push_bit_iff)
  have le: "word_le (b # bs) = ucast b XOR push_bit 8 (word_le bs)"
    using bit_imp_le_length [of b]
    by (intro bit_word_eqI) (fastforce simp: bit_or_iff bit_xor_iff bit_ucast_iff bit_push_bit_iff)
  have "ucast c XOR word_le (b # bs) = ucast (c XOR ucast b) XOR push_bit 8 (word_le bs)"
  proof -
    have "(ucast (ucast b :: 32 word) :: 64 word) = ucast b"
      by (intro bit_word_eqI) (auto simp: bit_ucast_iff dest: bit_imp_le_length)
    then show ?thesis by (simp add: le ucast_xor ac_simps del: word_le_simps)
  qed
  then have "word_turn (ucast c XOR word_le (b # bs)) = ucast (feed c b) XOR word_le bs"
    by (simp add: word_turn_xor word_turn_register word_turn_high keep feed_def)
  then have "(word_turn ^^ length (b # bs)) (ucast c XOR word_le (b # bs)) = (word_turn ^^ length bs) (ucast (feed c b) XOR word_le bs)"
    by (simp only: list.size(4) funpow_Suc_right comp_apply add_0_right add_Suc_right)
  then show ?case using Cons by simp
qed simp

lemma crc_word_xor: "crc_word byte_table (a XOR b) = crc_word byte_table a XOR crc_word byte_table b"
  by (simp add: crc_word_turns word_turns_xor ucast_xor)

lemma ucast_ucast_32: "ucast (ucast c :: 64 word) = (c :: 32 word)"
  by (intro bit_word_eqI) (auto simp: bit_ucast_iff dest: bit_imp_le_length)

lemma crc_word_register: "crc_word byte_table (ucast c) = shifts 64 c" for c :: "32 word"
  by (simp add: crc_word_turns word_turns_register ucast_ucast_32)

lemma crc_word_bytes: "length bs = 8 \<Longrightarrow> crc_word byte_table (ucast c XOR word_le bs) = foldl feed c bs"
  using word_turns_bytes [of bs c] by (simp add: crc_word_turns ucast_ucast_32)

subsection \<open>Braids\<close>

text \<open>The register after some words.\<close>

definition words_reg :: "32 word \<Rightarrow> 64 word list \<Rightarrow> 32 word" where
  "words_reg c ws = foldl (\<lambda>c w. crc_word byte_table (ucast c XOR w)) c ws"

lemma words_reg_simps [simp]:
  "words_reg c [] = c" "words_reg c (w # ws) = words_reg (shifts 64 c XOR crc_word byte_table w) ws"
  "words_reg c (us @ ws) = words_reg (words_reg c us) ws"
  by (simp_all add: words_reg_def crc_word_xor crc_word_register)

lemma words_reg_split: "words_reg c ws = shifts (64 * length ws) c XOR words_reg 0 ws"
proof (induction ws arbitrary: c)
  case (Cons w ws)
  have "words_reg c (w # ws) = shifts (64 * length ws) (shifts 64 c XOR crc_word byte_table w) XOR words_reg 0 ws"
    using Cons.IH [of "shifts 64 c XOR crc_word byte_table w"] by simp
  also have "\<dots> = shifts (64 * length (w # ws)) c XOR (shifts (64 * length ws) (crc_word byte_table w) XOR words_reg 0 ws)"
    by (simp add: shifts_add ac_simps)
  also have "shifts (64 * length ws) (crc_word byte_table w) XOR words_reg 0 ws = words_reg 0 (w # ws)"
    using Cons.IH [of "crc_word byte_table w"] by simp
  finally show ?case .
qed simp

abbreviation inject :: "32 word list \<Rightarrow> 64 word list \<Rightarrow> 64 word list" where
  "inject crcs words \<equiv> map2 (\<lambda>crc w. ucast crc XOR w) crcs words"

lemma words_reg_inject:
  "length crcs = length ws \<Longrightarrow> words_reg c (inject crcs ws) = words_reg c (map ucast crcs) XOR words_reg 0 ws"
proof (induction crcs ws arbitrary: c rule: list_induct2)
  case (Cons x xs w ws)
  let ?x = "shifts 64 c XOR shifts 64 x" and ?w = "crc_word byte_table w"
  have "words_reg c (inject (x # xs) (w # ws)) = words_reg (?x XOR ?w) (map ucast xs) XOR words_reg 0 ws"
    using Cons.IH [of "?x XOR ?w"] by (simp add: crc_word_xor crc_word_register ac_simps)
  also have "words_reg (?x XOR ?w) (map ucast xs) = words_reg ?x (map ucast xs) XOR shifts (64 * length xs) ?w"
    using words_reg_split [of "?x XOR ?w" "map ucast xs"] words_reg_split [of ?x "map ucast xs"] by (simp add: ac_simps)
  also have "\<dots> XOR words_reg 0 ws = words_reg ?x (map ucast xs) XOR words_reg 0 (w # ws)"
    using words_reg_split [of ?w ws] Cons.hyps by (simp add: ac_simps)
  finally show ?case by (simp add: crc_word_register)
qed simp

text \<open>A block of five words counts as its words moved on to the next block.\<close>

lemma words_reg_braid:
  "words_reg (shifts 320 c) (map (\<lambda>w. ucast (shifts 256 (crc_word byte_table w))) e) = shifts 320 (words_reg c e)"
proof (induction e arbitrary: c)
  case (Cons w e)
  from Cons.IH [of "shifts 64 c XOR crc_word byte_table w"] show ?case
    by (simp add: crc_word_register shifts_add)
qed simp

lemma block_step:
  assumes "length e = 5" "length vs = 5"
  shows "words_reg 0 (inject (map (\<lambda>w. shifts 256 (crc_word byte_table w)) e) vs @ rest) = words_reg 0 (e @ vs @ rest)"
proof -
  have "words_reg 0 (e @ vs) = shifts 320 (words_reg 0 e) XOR words_reg 0 vs"
    using words_reg_split [of "words_reg 0 e" vs] assms by simp
  also have "shifts 320 (words_reg 0 e) = words_reg 0 (map ucast (map (\<lambda>w. shifts 256 (crc_word byte_table w)) e))"
    using words_reg_braid [of 0 e] by (simp add: comp_def)
  finally have "words_reg 0 (inject (map (\<lambda>w. shifts 256 (crc_word byte_table w)) e) vs) = words_reg 0 (e @ vs)"
    using words_reg_inject [of "map (\<lambda>w. shifts 256 (crc_word byte_table w)) e" vs 0] assms by simp
  then show ?thesis by simp
qed

text \<open>The entries of the tables of the braids.\<close>

definition braid_entry :: "nat \<Rightarrow> nat \<Rightarrow> 32 word" where
  "braid_entry k i = shifts (8 * (43 - k)) (push_bit 24 (word_of_nat i))"

lemma braid_entry_byte:
  assumes "k < 8" "i < 256"
  shows "braid_entry k i = shifts (8 * (40 - k)) (word_of_nat i)"
proof -
  let ?v = "word_of_nat i :: 32 word"
  have "take_bit 8 i = i" using assms(2) by (simp add: take_bit_nat_eq_self)
  then have v: "take_bit 8 ?v = ?v" by (metis take_bit_of_nat)
  then have b: "bit ?v j \<Longrightarrow> j < 8" for j by (metis bit_take_bit_iff)
  have "take_bit 24 (push_bit 24 ?v) = 0" by (intro bit_word_eqI) (auto simp: bit_take_bit_iff bit_push_bit_iff)
  then have "shifts 24 (push_bit 24 ?v) = drop_bit 24 (push_bit 24 ?v)" by (rule shifts_low)
  also have "\<dots> = ?v" using b by (intro bit_word_eqI) (fastforce simp: bit_drop_bit_eq bit_push_bit_iff)
  finally have "shifts (8 * (40 - k)) (shifts 24 (push_bit 24 ?v)) = shifts (8 * (40 - k)) ?v" by simp
  moreover have "8 * (40 - k) + 24 = 8 * (43 - k)" using assms(1) by simp
  ultimately show ?thesis unfolding braid_entry_def shifts_add by simp
qed

lemma braid_row_value:
  "list_all (\<lambda>i. i < 256) is \<Longrightarrow> braid_row (shifts n x0) is = Some (map (\<lambda>i. shifts n (push_bit 24 (word_of_nat i))) is)"
proof (induction "is")
  case (Cons i "is")
  have "push_bit 24 (word_of_nat i :: 32 word) \<noteq> 0" if "i \<noteq> 0"
  proof
    assume "push_bit 24 (word_of_nat i :: 32 word) = 0"
    then have "unat (push_bit 24 (word_of_nat i :: 32 word)) = 0" by simp
    moreover have "unat (push_bit 24 (word_of_nat i :: 32 word)) = i * 2 ^ 24"
      using Cons.prems by (simp add: push_bit_eq_mult unat_word_ariths unat_of_nat)
    ultimately show False using that by simp
  qed
  then have "(if i = 0 then Some 0 else multmodp (push_bit 24 (word_of_nat i)) (shifts n x0)) =
      Some (shifts n (push_bit 24 (word_of_nat i)))"
    by (simp add: multmodp_value pmult_shifts pmult_x0_right)
  then show ?case using Cons by simp
qed simp

lemma braid_rows_value:
  "powers t \<Longrightarrow> list_all (\<lambda>k. k < 8) ks \<Longrightarrow>
   braid_rows t 5 8 ks = Some (map (\<lambda>k. map (braid_entry k) [0..<256]) ks)"
proof (induction ks)
  case (Cons k ks)
  have "push_bit 3 (int (5 * 8 + 3) - int k) = int (8 * (43 - k))"
    using Cons.prems(2) by (simp add: push_bit_eq_mult of_nat_diff)
  then have "x2nmodp t (push_bit 3 (int (5 * 8 + 3) - int k)) 0 = Some (shifts (8 * (43 - k)) x0)"
    using x2nmodp_value [OF Cons.prems(1), of "8 * (43 - k)" 0] by (simp only: power_0 mult_1_right)
  moreover have "braid_row (shifts (8 * (43 - k)) x0) [0..<256] = Some (map (braid_entry k) [0..<256])"
    by (subst braid_row_value) (simp_all add: list_all_iff braid_entry_def)
  ultimately show ?case using Cons by simp
qed simp

definition braid_table :: "32 word list list" where
  "braid_table = map (\<lambda>k. map (braid_entry k) [0..<256]) [0..<8]"

definition swapped :: "32 word \<Rightarrow> 64 word" where
  "swapped c = byte_swap (ucast c)"

definition made_tables :: crc_tables where
  "made_tables = \<lparr>crc_table = byte_table, crc_big_table = map swapped byte_table, x2n_table = static_x2n_table,
     crc_braid_table = braid_table, crc_braid_big_table = rev (map (map swapped) braid_table)\<rparr>"

lemma make_crc_table_value: "make_crc_table = Some made_tables"
proof -
  have "length static_x2n_table = 32" by (simp add: static_x2n_table_def)
  then have "static_x2n_table = static_x2n_table ! 0 # drop 1 static_x2n_table"
    by (metis Cons_nth_drop_Suc drop0 One_nat_def zero_less_numeral)
  moreover have "static_x2n_table ! 0 = push_bit 30 1" using static_first shifts_x0 [of 1] by simp
  ultimately have t: "push_bit 30 1 # drop 1 static_x2n_table = static_x2n_table" by simp
  have "braid_rows static_x2n_table 5 8 [0..<8] = Some braid_table"
    using braid_rows_value [OF powers_static, of "[0..<8]"] by (simp add: list_all_iff braid_table_def)
  then show ?thesis
    unfolding make_crc_table_def Let_def make_x2n_static option.case t braid_def N_def W_def
    by (simp add: made_tables_def byte_table_def swapped_def [abs_def] comp_def)
qed

text \<open>What a word adds to its braid.\<close>

lemma foldl_xsum: "0 < n \<Longrightarrow> foldl (\<lambda>c k. c XOR g k) (g 0) [1..<n] = xsum n g"
proof (induction n)
  case (Suc n)
  then show ?case by (cases "n = 0") simp_all
qed simp

lemma word_bytes_sum: "w = xsum 8 (\<lambda>k. push_bit (8 * k) (take_bit 8 (drop_bit (8 * k) (w :: 64 word))))"
proof (rule bit_word_eqI)
  have n: "bit (xsum n (\<lambda>k. push_bit (8 * k) (take_bit 8 (drop_bit (8 * k) w)))) i \<longleftrightarrow> i < 8 * n \<and> bit w i" for n i
  proof (induction n)
    case (Suc n)
    have "bit (push_bit (8 * n) (take_bit 8 (drop_bit (8 * n) w))) i \<longleftrightarrow> 8 * n \<le> i \<and> i < 8 * Suc n \<and> bit w i"
      using bit_imp_le_length [of w i] by (auto simp: bit_push_bit_iff bit_take_bit_iff bit_drop_bit_eq)
    with Suc show ?case by (auto simp: bit_xor_iff)
  qed simp
  fix i
  assume "i < LENGTH(64)"
  then show "bit w i = bit (xsum 8 (\<lambda>k. push_bit (8 * k) (take_bit 8 (drop_bit (8 * k) w)))) i" using n [of 8 i] by simp
qed

lemma crc_word_byte:
  fixes v :: "64 word"
  assumes "k < 8"
  shows "crc_word byte_table (push_bit (8 * k) (take_bit 8 v)) = shifts (8 * (8 - k)) (ucast (take_bit 8 v))"
proof -
  have down: "j \<le> k \<Longrightarrow> (word_turn ^^ j) (push_bit (8 * k) (take_bit 8 v)) = push_bit (8 * (k - j)) (take_bit 8 v)" for j
  proof (induction j)
    case (Suc j)
    have e1: "push_bit (8 * (k - j)) (take_bit 8 v) = push_bit 8 (push_bit (8 * (k - Suc j)) (take_bit 8 v))"
      using Suc.prems by (simp add: push_bit_push_bit Suc_diff_Suc algebra_simps)
    have e2: "drop_bit 8 (push_bit 8 (push_bit (8 * (k - Suc j)) (take_bit 8 v))) = push_bit (8 * (k - Suc j)) (take_bit 8 v)"
      using assms Suc.prems by (intro bit_word_eqI) (auto simp: bit_drop_bit_eq bit_push_bit_iff bit_take_bit_iff)
    have "j \<le> k" using Suc.prems by simp
    then show ?case by (simp only: funpow.simps comp_apply Suc.IH e1 word_turn_high e2)
  qed simp
  have "(word_turn ^^ 8) (push_bit (8 * k) (take_bit 8 v)) = (word_turn ^^ (8 - k)) ((word_turn ^^ k) (push_bit (8 * k) (take_bit 8 v)))"
    using assms by (simp add: funpow_add [symmetric, THEN fun_cong, unfolded comp_apply])
  also have "\<dots> = (word_turn ^^ (8 - k)) (ucast (ucast (take_bit 8 v) :: 32 word))"
  proof -
    have "take_bit 8 v = ucast (ucast (take_bit 8 v) :: 32 word)"
      by (intro bit_word_eqI) (auto simp: bit_ucast_iff bit_take_bit_iff)
    then show ?thesis using down [of k] by simp
  qed
  also have "\<dots> = ucast (shifts (8 * (8 - k)) (ucast (take_bit 8 v)))" by (rule word_turns_register)
  finally show ?thesis by (simp add: crc_word_turns ucast_ucast_32)
qed

lemma crc_word_sum: "crc_word byte_table w = xsum 8 (\<lambda>k. shifts (8 * (8 - k)) (ucast (take_bit 8 (drop_bit (8 * k) w))))"
proof -
  have z: "crc_word byte_table 0 = 0" using crc_word_xor [of 0 0] by simp
  have "crc_word byte_table w = xsum 8 (\<lambda>k. crc_word byte_table (push_bit (8 * k) (take_bit 8 (drop_bit (8 * k) w))))"
    by (subst word_bytes_sum [of w], rule xsum_linear [OF z crc_word_xor])
  also have "\<dots> = xsum 8 (\<lambda>k. shifts (8 * (8 - k)) (ucast (take_bit 8 (drop_bit (8 * k) w))))"
    by (rule xsum_cong) (simp add: crc_word_byte)
  finally show ?thesis .
qed

lemma unat_byte_64: "unat (take_bit 8 (w :: 64 word)) < 256"
proof -
  have "unat (take_bit 8 w) = take_bit 8 (unat w)" by (rule unsigned_take_bit_eq)
  then show ?thesis by (simp add: take_bit_nat_less_exp [of 8, simplified])
qed

lemma braid_entry_word: "k < 8 \<Longrightarrow> braid_table ! k ! unat (take_bit 8 w) = shifts (8 * (40 - k)) (ucast (take_bit 8 (w :: 64 word)))"
  using unat_byte_64 [of w] braid_entry_byte [of k "unat (take_bit 8 w)"] by (simp add: braid_table_def)

lemma braid_word_value: "braid_word braid_table w = shifts 256 (crc_word byte_table w)"
proof -
  have "braid_word braid_table w = xsum 8 (\<lambda>k. braid_table ! k ! unat (take_bit 8 (drop_bit (8 * k) w)))"
    using foldl_xsum [of 8 "\<lambda>k. braid_table ! k ! unat (take_bit 8 (drop_bit (8 * k) w))"]
    by (simp add: braid_word_def W_def and_mask_8)
  also have "\<dots> = xsum 8 (\<lambda>k. shifts 256 (shifts (8 * (8 - k)) (ucast (take_bit 8 (drop_bit (8 * k) w)))))"
    by (rule xsum_cong) (auto simp: braid_entry_word shifts_add intro!: arg_cong [of _ _ "\<lambda>n. shifts n _"])
  also have "\<dots> = shifts 256 (crc_word byte_table w)"
    unfolding crc_word_sum by (rule xsum_linear [symmetric]) simp_all
  finally show ?thesis .
qed

subsection \<open>Blocks\<close>

lemma combine_braids_value:
  assumes "length crcs = length words" "crcs \<noteq> []"
  shows "combine_braids byte_table crcs words = words_reg 0 (inject crcs words)"
proof -
  have f: "foldl (\<lambda>crc (c, w). crc_word byte_table (ucast c XOR w XOR ucast crc)) d (zip cs ws) = words_reg d (inject cs ws)" for d cs ws
  proof (induction cs arbitrary: d ws)
    case (Cons c cs)
    then show ?case by (cases ws) (simp_all add: crc_word_xor crc_word_register ac_simps)
  qed simp
  obtain c cs w ws where "crcs = c # cs" "words = w # ws"
    using assms by (cases crcs; cases words) auto
  then show ?thesis using f [of "crc_word byte_table (ucast c XOR w)" cs ws] by (simp add: combine_braids_def)
qed

lemma braid_loop_value:
  "length crcs = 5 \<Longrightarrow> length words = 5 * Suc n \<Longrightarrow>
   case braid_loop braid_table n crcs words of (crcs', words') \<Rightarrow>
     length crcs' = 5 \<and> length words' = 5 \<and>
     words_reg 0 (inject crcs' words') = words_reg 0 (inject crcs (take 5 words) @ drop 5 words)"
proof (induction n arbitrary: crcs words)
  case (Suc n)
  let ?e = "inject crcs (take 5 words)"
  let ?crcs = "map (\<lambda>w. shifts 256 (crc_word byte_table w)) ?e"
  have b: "map (braid_word braid_table) ?e = ?crcs" by (simp add: braid_word_value)
  have l: "length ?crcs = 5" "length (drop 5 words) = 5 * Suc n" "length ?e = 5" "length (take 5 (drop 5 words)) = 5"
    using Suc.prems by simp_all
  have "words_reg 0 (inject ?crcs (take 5 (drop 5 words)) @ drop 5 (drop 5 words)) = words_reg 0 (?e @ drop 5 words)"
    using block_step [OF l(3,4), of "drop 5 (drop 5 words)"] by (simp only: append_take_drop_id)
  with Suc.IH [OF l(1,2)] show ?case by (simp only: braid_loop.simps N_def b)
qed simp

lemma crc_blocks_little:
  assumes "length words = 5 * Suc n"
  shows "crc_blocks True made_tables c (Suc n) words = words_reg c words"
proof -
  obtain crcs' words' where r: "braid_loop braid_table n (c # replicate 4 0) words = (crcs', words')" by fastforce
  then have v: "length crcs' = 5" "length words' = 5"
    "words_reg 0 (inject crcs' words') = words_reg 0 (inject (c # replicate 4 0) (take 5 words) @ drop 5 words)"
    using braid_loop_value [of "c # replicate 4 0" words n] assms by simp_all
  define ts where "ts = take 5 words"
  have "length ts = 5" using assms by (simp add: ts_def)
  then obtain w0 w1 w2 w3 w4 where "ts = [w0, w1, w2, w3, w4]"
    by (auto simp: numeral_eq_Suc length_Suc_conv)
  then have t: "take 5 words = [w0, w1, w2, w3, w4]" by (simp add: ts_def)
  then have w: "words = [w0, w1, w2, w3, w4] @ drop 5 words" by (metis append_take_drop_id)
  have "words_reg 0 (inject (c # replicate 4 0) (take 5 words) @ drop 5 words) = words_reg c ([w0, w1, w2, w3, w4] @ drop 5 words)"
    unfolding t by (simp add: numeral_eq_Suc crc_word_xor crc_word_register)
  also have "\<dots> = words_reg c words" by (rule arg_cong [OF w [symmetric]])
  finally have "words_reg 0 (inject crcs' words') = words_reg c words" unfolding v(3) .
  moreover have "crcs' \<noteq> []" using v(1) by auto
  ultimately show ?thesis
    using r combine_braids_value [of crcs' words'] v(1,2) by (simp add: crc_blocks_def made_tables_def N_def)
qed

lemma load_words_value:
  "8 * n \<le> length buf \<Longrightarrow> words_reg c (load_words True n buf) = foldl feed c (take (8 * n) buf)"
proof (induction n)
  case (Suc n)
  have l: "length (take 8 (drop (8 * n) buf)) = 8" using Suc.prems by simp
  have "words_reg c (load_words True (Suc n) buf) =
      crc_word byte_table (ucast (words_reg c (load_words True n buf)) XOR word_le (take 8 (drop (8 * n) buf)))"
    by (simp add: load_words_def load_word_def W_def words_reg_def)
  also have "\<dots> = foldl feed (foldl feed c (take (8 * n) buf)) (take 8 (drop (8 * n) buf))"
    using Suc crc_word_bytes [OF l] by simp
  also have "\<dots> = foldl feed c (take (8 * Suc n) buf)"
    using take_add [of "8 * n" 8 buf] by (simp add: add.commute)
  finally show ?case .
qed (simp add: load_words_def)

subsection \<open>The other byte order\<close>

text \<open>Everything is swapped.\<close>

lemma bit_byte_swap:
  assumes "q < 8" "r < 8"
  shows "bit (byte_swap w) (8 * q + r) \<longleftrightarrow> bit w (8 * (7 - q) + r)"
proof -
  have m: "(0xff00000000000000 :: 64 word) = push_bit 56 (mask 8)" "(0xff000000000000 :: 64 word) = push_bit 48 (mask 8)"
    "(0xff0000000000 :: 64 word) = push_bit 40 (mask 8)" "(0xff00000000 :: 64 word) = push_bit 32 (mask 8)"
    "(0xff000000 :: 64 word) = push_bit 24 (mask 8)" "(0xff0000 :: 64 word) = push_bit 16 (mask 8)"
    "(0xff00 :: 64 word) = push_bit 8 (mask 8)" "(0xff :: 64 word) = mask 8"
    by (simp_all add: mask_numeral)
  have "q = 0 \<or> q = 1 \<or> q = 2 \<or> q = 3 \<or> q = 4 \<or> q = 5 \<or> q = 6 \<or> q = 7" using assms(1) by linarith
  then show ?thesis
    using assms(2) unfolding byte_swap_def m
    by (elim disjE) (auto simp: bit_or_iff bit_and_iff bit_push_bit_iff bit_drop_bit_eq bit_mask_iff ac_simps dest: bit_imp_le_length)
qed

lemma bytes_eqI:
  fixes a b :: "64 word"
  assumes "\<And>q r. q < 8 \<Longrightarrow> r < 8 \<Longrightarrow> bit a (8 * q + r) \<longleftrightarrow> bit b (8 * q + r)"
  shows "a = b"
proof (rule bit_word_eqI)
  fix i
  assume "i < LENGTH(64)"
  then show "bit a i = bit b i" using assms [of "i div 8" "i mod 8"] by simp
qed

lemma byte_swap_xor: "byte_swap (a XOR b) = byte_swap a XOR byte_swap b"
  by (rule bytes_eqI) (simp add: bit_byte_swap bit_xor_iff)

lemma byte_swap_0 [simp]: "byte_swap 0 = 0"
  by (simp add: byte_swap_def)

lemma byte_swap_swap [simp]: "byte_swap (byte_swap w) = w"
  by (rule bytes_eqI) (simp add: bit_byte_swap)

lemma byte_swap_drop: "byte_swap (drop_bit 8 w) = push_bit 8 (byte_swap w)"
proof (rule bytes_eqI)
  fix q r :: nat
  assume qr: "q < 8" "r < 8"
  show "bit (byte_swap (drop_bit 8 w)) (8 * q + r) = bit (push_bit 8 (byte_swap w)) (8 * q + r)"
  proof (cases q)
    case 0
    then show ?thesis using qr bit_imp_le_length [of w] bit_byte_swap [of 0 r "drop_bit 8 w"]
      by (fastforce simp: bit_drop_bit_eq bit_push_bit_iff)
  next
    case (Suc p)
    have e: "8 + (8 * (7 - q) + r) = 8 * (7 - p) + r" using Suc qr by simp
    have "bit (byte_swap (drop_bit 8 w)) (8 * q + r) = bit w (8 * (7 - p) + r)"
      unfolding bit_byte_swap [OF qr] bit_drop_bit_eq comp_apply e ..
    moreover have "bit (push_bit 8 (byte_swap w)) (8 * q + r) = bit (byte_swap w) (8 * p + r)"
      using qr Suc by (simp add: bit_push_bit_iff)
    ultimately show ?thesis using qr Suc by (simp add: bit_byte_swap)
  qed
qed

lemma byte_swap_byte: "k < 8 \<Longrightarrow> take_bit 8 (drop_bit (8 * k) (byte_swap w)) = take_bit 8 (drop_bit (8 * (7 - k)) w)"
  by (intro bit_word_eqI) (auto simp: bit_take_bit_iff bit_drop_bit_eq bit_byte_swap)

text \<open>A run on swapped values is the swapped run.\<close>

lemma swapped_nth: "i < 256 \<Longrightarrow> map swapped byte_table ! i = swapped (byte_table ! i)"
  by (simp add: byte_table_def)

lemma crc_word_big_swap: "crc_word_big (map swapped byte_table) (byte_swap d) = swapped (crc_word byte_table d)"
proof -
  let ?turn = "\<lambda>d. push_bit 8 d XOR map swapped byte_table ! unat (drop_bit 56 d AND 0xff)"
  have t: "?turn (byte_swap d) = byte_swap (word_turn d)" for d
  proof -
    have "drop_bit 56 (byte_swap d) AND 0xff = take_bit 8 d"
      using byte_swap_byte [of 7 d] by (simp add: and_mask_8)
    then have "?turn (byte_swap d) = push_bit 8 (byte_swap d) XOR swapped (byte_table ! unat (take_bit 8 d))"
      using swapped_nth unat_byte_64 by simp
    then show ?thesis by (simp add: word_turn_def and_mask_8 byte_swap_xor byte_swap_drop swapped_def)
  qed
  have n: "(?turn ^^ n) (byte_swap d) = byte_swap ((word_turn ^^ n) d)" for n
    by (induction n) (simp_all add: t)
  have small: "bit ((word_turn ^^ n) d) i \<Longrightarrow> i < 32 \<or> i + 8 * n < 64" for n i
  proof (induction n arbitrary: i)
    case (Suc n)
    have "bit (word_turn v) i \<Longrightarrow> bit (drop_bit 8 v) i \<or> i < 32" for v
      by (auto simp: word_turn_def bit_xor_iff bit_ucast_iff dest: bit_imp_le_length)
    then have "bit (drop_bit 8 ((word_turn ^^ n) d)) i \<or> i < 32" using Suc.prems by simp
    then show ?case using Suc.IH [of "8 + i"] by (auto simp: bit_drop_bit_eq)
  qed (auto dest: bit_imp_le_length)
  have "(word_turn ^^ 8) d = ucast (ucast ((word_turn ^^ 8) d) :: 32 word)"
    using small [of 8] by (intro bit_word_eqI) (auto simp: bit_ucast_iff)
  then obtain c where "(word_turn ^^ 8) d = ucast (c :: 32 word)" by blast
  then show ?thesis
    using n [of 8] by (simp add: crc_word_big_def W_def crc_word_turns swapped_def ucast_ucast_32)
qed

lemma braid_word_big: "braid_word (rev (map (map swapped) braid_table)) (byte_swap w) = swapped (braid_word braid_table w)"
proof -
  let ?big = "rev (map (map swapped) braid_table)"
  let ?b = "\<lambda>k. unat (take_bit 8 (drop_bit (8 * k) w))"
  have e: "?big ! k ! unat (take_bit 8 (drop_bit (8 * k) (byte_swap w))) = swapped (braid_table ! (7 - k) ! ?b (7 - k))"
    if "k < 8" for k
  proof -
    have "7 - k < 8" by simp
    then have "[0..<8] ! (7 - k) = 7 - k" using nth_upt [of 0 "7 - k" 8] by simp
    then show ?thesis
      using that unat_byte_64 [of "drop_bit (8 * (7 - k)) w"] by (simp add: byte_swap_byte rev_nth braid_table_def)
  qed
  have s: "swapped (a XOR b) = swapped a XOR swapped b" "swapped 0 = 0" for a b
    by (simp_all add: swapped_def ucast_xor byte_swap_xor)
  have "braid_word ?big (byte_swap w) = xsum 8 (\<lambda>k. swapped (braid_table ! (7 - k) ! ?b (7 - k)))"
    using foldl_xsum [of 8 "\<lambda>k. ?big ! k ! unat (take_bit 8 (drop_bit (8 * k) (byte_swap w)))"]
      xsum_cong [of 8 "\<lambda>k. ?big ! k ! unat (take_bit 8 (drop_bit (8 * k) (byte_swap w)))", OF e]
    by (simp add: braid_word_def W_def and_mask_8)
  also have "\<dots> = xsum 8 (\<lambda>k. swapped (braid_table ! k ! ?b k))"
    by (simp add: numeral_eq_Suc ac_simps)
  also have "\<dots> = swapped (xsum 8 (\<lambda>k. braid_table ! k ! ?b k))"
    by (rule xsum_linear [symmetric]) (simp_all add: s)
  also have "xsum 8 (\<lambda>k. braid_table ! k ! ?b k) = braid_word braid_table w"
    using foldl_xsum [of 8 "\<lambda>k. braid_table ! k ! ?b k"] by (simp add: braid_word_def W_def and_mask_8)
  finally show ?thesis .
qed

lemma braid_big_loop_swap:
  "braid_big_loop (rev (map (map swapped) braid_table)) n (map swapped crcs) (map byte_swap words) =
   (case braid_loop braid_table n crcs words of (crcs', words') \<Rightarrow> (map swapped crcs', map byte_swap words'))"
proof (induction n arbitrary: crcs words)
  case (Suc n)
  have i: "map2 (XOR) (map swapped crcs) (take N (map byte_swap words)) = map byte_swap (inject crcs (take N words))"
    by (simp add: take_map map2_map_map byte_swap_xor swapped_def zip_map1 zip_map2 comp_def split_def)
  have m: "map (braid_word (rev (map (map swapped) braid_table))) (map byte_swap ws) = map swapped (map (braid_word braid_table) ws)" for ws
    by (simp add: braid_word_big)
  show ?case
    by (simp only: braid_big_loop.simps braid_loop.simps i m drop_map Suc.IH)
qed simp

lemma combine_big_braids_swap:
  assumes "length crcs = length words" "crcs \<noteq> []"
  shows "combine_big_braids (map swapped byte_table) (map swapped crcs) (map byte_swap words) = swapped (combine_braids byte_table crcs words)"
proof -
  have x: "swapped c XOR byte_swap w = byte_swap (ucast c XOR w)" for c w
    by (simp add: swapped_def byte_swap_xor)
  have f: "foldl (\<lambda>comb (c, w). crc_word_big (map swapped byte_table) (c XOR w XOR comb)) (swapped d) (zip (map swapped cs) (map byte_swap ws)) =
      swapped (foldl (\<lambda>crc (c, w). crc_word byte_table (ucast c XOR w XOR ucast crc)) d (zip cs ws))" for d cs ws
  proof (induction cs arbitrary: d ws)
    case (Cons c cs)
    have "swapped c XOR byte_swap w XOR swapped d = byte_swap (ucast c XOR w XOR ucast d)" for w
      by (simp add: swapped_def byte_swap_xor)
    then show ?case using Cons.IH by (cases ws) (simp_all add: crc_word_big_swap)
  qed simp
  obtain c cs w ws where "crcs = c # cs" "words = w # ws"
    using assms by (cases crcs; cases words) auto
  then show ?thesis using f by (simp add: combine_big_braids_def combine_braids_def x crc_word_big_swap)
qed

lemma crc_blocks_big:
  assumes "length words = 5 * Suc n"
  shows "crc_blocks False made_tables c (Suc n) (map byte_swap words) = crc_blocks True made_tables c (Suc n) words"
proof -
  obtain crcs' words' where r: "braid_loop braid_table n (c # replicate 4 0) words = (crcs', words')" by fastforce
  then have l: "length crcs' = 5" "length words' = 5"
    using braid_loop_value [of "c # replicate 4 0" words n] assms by simp_all
  have "swapped 0 = 0" by (simp add: swapped_def)
  then have "map swapped (c # replicate 4 0) = byte_swap (ucast c) # replicate 4 0" by (simp add: swapped_def)
  then have "braid_big_loop (rev (map (map swapped) braid_table)) n (byte_swap (ucast c) # replicate 4 0) (map byte_swap words) =
      (map swapped crcs', map byte_swap words')"
    using braid_big_loop_swap [of n "c # replicate 4 0" words] r by simp
  moreover have "combine_big_braids (map swapped byte_table) (map swapped crcs') (map byte_swap words') =
      swapped (combine_braids byte_table crcs' words')"
    by (rule combine_big_braids_swap) (use l in auto)
  ultimately show ?thesis
    using r by (simp add: crc_blocks_def made_tables_def N_def swapped_def ucast_ucast_32)
qed

subsection \<open>The checksum is the definition\<close>

lemma load_words_big: "load_words False n buf = map byte_swap (load_words True n buf)"
  by (simp add: load_words_def load_word_def)

lemma crc_blocks_value:
  assumes "0 < blks" "40 * blks \<le> length buf"
  shows "crc_blocks little made_tables c blks (load_words little (blks * N) buf) = foldl feed c (take (40 * blks) buf)"
proof -
  obtain n where n: "blks = Suc n" using assms(1) by (cases blks) auto
  have l: "length (load_words True (blks * N) buf) = 5 * Suc n" by (simp add: load_words_def N_def n)
  have "crc_blocks little made_tables c blks (load_words little (blks * N) buf) = words_reg c (load_words True (blks * N) buf)"
    using crc_blocks_little [OF l] crc_blocks_big [OF l] by (cases little) (simp_all add: n load_words_big)
  then show ?thesis using load_words_value [of "blks * N" buf c] assms(2) by (simp add: N_def)
qed

lemma crc_braided_value: "case crc_braided little made_tables addr c buf of (c', rest) \<Rightarrow> foldl feed c' rest = foldl feed c buf"
proof (cases "length buf \<ge> N * W + W - 1")
  case True
  obtain c' rest where a: "align_loop byte_table addr c buf = (c', rest)" by fastforce
  then have f: "foldl feed c' rest = foldl feed c buf" "length buf < length rest + 8"
    using align_loop_feed [where addr = addr and c = c and bs = buf] by simp_all
  define blks where "blks = length rest div 40"
  have "40 \<le> length rest" using True f(2) by (simp add: N_def W_def)
  then have b: "0 < blks" "40 * blks \<le> length rest" by (simp_all add: blks_def div_greater_zero_iff)
  have "crc_braided little made_tables addr c buf =
      (crc_blocks little made_tables c' blks (load_words little (blks * N) rest), drop (40 * blks) rest)"
    using True a by (simp add: crc_braided_def made_tables_def blks_def N_def W_def Let_def mult.assoc mult.commute)
  moreover have "foldl feed (foldl feed c' (take (40 * blks) rest)) (drop (40 * blks) rest) = foldl feed c' rest"
    by (metis append_take_drop_id foldl_append)
  ultimately show ?thesis using f(1) crc_blocks_value [OF b] by simp
qed (simp add: crc_braided_def)

lemma crc32_value: "crc32 little made_tables addr crc (Some buf) = crc_spec crc buf"
proof -
  have m: "(0xffffffff :: 32 word) = - 1" by simp
  obtain c1 rest1 where b: "crc_braided little made_tables addr (NOT crc) buf = (c1, rest1)" by fastforce
  obtain c2 rest2 where e: "eight_loop byte_table c1 rest1 = (c2, rest2)" by fastforce
  have "foldl feed c2 rest2 = foldl feed (NOT crc) buf"
    using crc_braided_value [where little = little and addr = addr and c = "NOT crc" and buf = buf] b eight_loop_feed [where c = c1 and bs = rest1] e by simp
  moreover have "crc_table made_tables = byte_table" by (simp add: made_tables_def)
  ultimately show ?thesis
    using b e unfolding crc32_def crc32_z_def crc_spec_def m by (simp add: one_loop_feed)
qed

subsection \<open>Combination\<close>

lemma feed_linear: "feed c b = shifts 8 c XOR feed 0 b"
  by (simp add: feed_def)

lemma foldl_feed_linear: "foldl feed c bs = shifts (8 * length bs) c XOR foldl feed 0 bs"
proof (induction bs arbitrary: c)
  case (Cons b bs)
  have "foldl feed c (b # bs) = shifts (8 * length bs) (shifts 8 c XOR feed 0 b) XOR foldl feed 0 bs"
    using Cons.IH [of "feed c b"] feed_linear [of c b] by simp
  also have "\<dots> = shifts (8 * length (b # bs)) c XOR (shifts (8 * length bs) (feed 0 b) XOR foldl feed 0 bs)"
    by (simp add: shifts_add ac_simps)
  also have "shifts (8 * length bs) (feed 0 b) XOR foldl feed 0 bs = foldl feed 0 (b # bs)"
    using Cons.IH [of "feed 0 b"] by simp
  finally show ?case .
qed simp

lemma combine_spec: "shifts (8 * length ys) (crc_spec crc xs) XOR crc_spec 0 ys = crc_spec crc (xs @ ys)"
proof -
  let ?r = "foldl feed (NOT crc) xs" and ?S = "shifts (8 * length ys)"
  have n: "NOT v = v XOR - 1" for v :: "32 word" by simp
  have "?S (NOT ?r) = ?S ?r XOR ?S (- 1)" by (simp only: n [of ?r] shifts_xor)
  moreover have "crc_spec 0 ys = NOT (?S (- 1) XOR foldl feed 0 ys)"
    using foldl_feed_linear [of "- 1" ys] by (simp add: crc_spec_def)
  moreover have "crc_spec crc (xs @ ys) = NOT (?S ?r XOR foldl feed 0 ys)"
    using foldl_feed_linear [of ?r ys] by (simp add: crc_spec_def)
  moreover have "(a XOR b) XOR NOT (b XOR f) = NOT (a XOR f)" for a b f :: "32 word"
    by (intro bit_word_eqI) (auto simp: bit_xor_iff bit_not_iff)
  ultimately show ?thesis unfolding crc_spec_def [of crc xs] by (simp only:)
qed

lemma crc32_combine_value:
  "crc32_combine made_tables crc1 crc2 (int n) = Some (shifts (8 * n) crc1 XOR crc2)"
proof -
  have m: "(0xffffffff :: 32 word) = - 1" by simp
  have "x2nmodp static_x2n_table (int n) 3 = Some (shifts (8 * n) x0)"
    using x2nmodp_value [OF powers_static, of n 3] by (simp add: mult.commute)
  then show ?thesis
    unfolding crc32_combine_def crc32_combine64_def m by (simp add: made_tables_def multmodp_power)
qed

subsection \<open>The tables that are compiled in\<close>

text \<open>The table of bytes, doubled from its first entry on.\<close>

primrec table_upto :: "nat \<Rightarrow> 32 word list" where
  "table_upto 0 = [make_crc_entry 0]"
| "table_upto (Suc k) = table_upto k @ map ((XOR) (make_crc_entry (2 ^ k))) (table_upto k)"

lemma make_crc_entry_add: "k < 32 \<Longrightarrow> i < 2 ^ k \<Longrightarrow> make_crc_entry (2 ^ k + i) = make_crc_entry (2 ^ k) XOR make_crc_entry i"
proof -
  assume a: "k < 32" "i < 2 ^ k"
  have "take_bit k i = i" using a(2) by (simp add: take_bit_nat_eq_self)
  then have "bit i n \<Longrightarrow> n < k" for n by (metis bit_take_bit_iff)
  then have "(2 ^ k :: nat) AND i = 0" by (intro bit_eqI) (auto simp: bit_and_iff bit_exp_iff)
  then have "2 ^ k + i = 2 ^ k XOR i" by (rule disjunctive_add_eq_xor)
  then have "word_of_nat (2 ^ k + i) = (word_of_nat (2 ^ k) XOR word_of_nat i :: 32 word)"
    by (simp only: of_nat_xor_eq)
  then show ?thesis by (simp only: make_crc_entry_def shifts_xor)
qed

lemma table_upto_value: "k \<le> 8 \<Longrightarrow> table_upto k = map make_crc_entry [0..<2 ^ k]"
proof (induction k)
  case (Suc k)
  have "[0..<2 ^ Suc k] = [0..<2 ^ k] @ map (\<lambda>i. i + 2 ^ k) [0..<2 ^ k]"
    using upt_add_eq_append [of 0 "2 ^ k" "2 ^ k"] map_add_upt [of "2 ^ k" "2 ^ k"] by (simp add: mult_2)
  then show ?case using Suc by (simp add: add.commute [of _ "2 ^ k"] make_crc_entry_add)
qed (simp add: upt_rec)

lemma make_crc_entry_powers:
  "make_crc_entry 0 = 0" "make_crc_entry 1 = 0x77073096" "make_crc_entry 2 = 0xee0e612c" "make_crc_entry 4 = 0x076dc419"
  "make_crc_entry 8 = 0x0edb8832" "make_crc_entry 16 = 0x1db71064" "make_crc_entry 32 = 0x3b6e20c8"
  "make_crc_entry 64 = 0x76dc4190" "make_crc_entry 128 = 0xedb88320"
proof -
  have e: "make_crc_entry i = (crc_shift (crc_shift (crc_shift (crc_shift (crc_shift (crc_shift (crc_shift (crc_shift (word_of_nat i)))))))))" for i
    by (simp add: make_crc_entry_def numeral_eq_Suc)
  show "make_crc_entry 0 = 0" "make_crc_entry 1 = 0x77073096" "make_crc_entry 2 = 0xee0e612c" "make_crc_entry 4 = 0x076dc419"
    "make_crc_entry 8 = 0x0edb8832" "make_crc_entry 16 = 0x1db71064" "make_crc_entry 32 = 0x3b6e20c8"
    "make_crc_entry 64 = 0x76dc4190" "make_crc_entry 128 = 0xedb88320"
    unfolding e by (simp_all add: crc_shift_def POLY_def)
qed

lemma static_crc_table_value: "static_crc_table = byte_table"
proof -
  have "byte_table = table_upto (Suc (Suc (Suc (Suc (Suc (Suc (Suc (Suc 0))))))))"
    by (subst table_upto_value) (simp_all add: byte_table_def)
  also have "\<dots> = static_crc_table"
    by (simp add: make_crc_entry_powers [simplified] static_crc_table_def)
  finally show ?thesis by simp
qed

subsection \<open>Properties\<close>

text \<open>
  C30. With the tables that \<open>make_crc_table\<close> fills in, the checksum computed in five braids of
  words, for either byte order, any alignment of the data and any length, is that of the
  polynomial, one bit of the data at a time.
\<close>
theorem crc32_exact:
  "\<exists>T. make_crc_table = Some T \<and>
    (\<forall>little addr crc buf. crc32 little T addr crc (Some buf) = crc_spec crc buf)"
  using make_crc_table_value crc32_value by blast

text \<open>
  C31. The checksum of a concatenation is computed by \<open>crc32_combine\<close> from those of its parts and
  the length of the second.
\<close>
theorem crc32_combine_exact:
  "\<exists>T. make_crc_table = Some T \<and>
    (\<forall>little addr addr' crc xs ys.
       crc32_combine T (crc32 little T addr crc (Some xs)) (crc32 little T addr' 0 (Some ys)) (int (length ys)) =
       Some (crc32 little T addr crc (Some (xs @ ys))))"
  using make_crc_table_value combine_spec by (auto simp: crc32_value crc32_combine_value)

text \<open>
  \<open>crc32_combine\<close> returns exactly when the length is not negative: a negative number is
  shifted right for ever. \<open>crc32_combine_op\<close> returns exactly when its operator is not zero.
\<close>
theorem crc32_combine_returns:
  "\<exists>T. make_crc_table = Some T \<and>
    (\<forall>crc1 crc2 len2. crc32_combine T crc1 crc2 len2 \<noteq> None \<longleftrightarrow> 0 \<le> len2) \<and>
    (\<forall>crc1 crc2 op. crc32_combine_op crc1 crc2 op \<noteq> None \<longleftrightarrow> op \<noteq> 0)"
proof -
  have "crc32_combine made_tables crc1 crc2 len2 \<noteq> None \<longleftrightarrow> 0 \<le> len2" for crc1 crc2 len2
  proof (cases "0 \<le> len2")
    case True
    then obtain n where "len2 = int n" using nonneg_int_cases by blast
    then show ?thesis by (simp add: crc32_combine_value)
  next
    case False
    then show ?thesis
      by (simp add: crc32_combine_def crc32_combine64_def x2nmodp_def x2nmodp_loop_negative)
  qed
  moreover have "crc32_combine_op crc1 crc2 op \<noteq> None \<longleftrightarrow> op \<noteq> 0" for crc1 crc2 op
    by (cases "op = 0") (simp_all add: crc32_combine_op_def multmodp_zero multmodp_value)
  ultimately show ?thesis using make_crc_table_value by blast
qed

text \<open>
  The tables of bytes and of powers that are compiled in are the ones \<open>make_crc_table\<close> makes
  when the tables are made at run time.
\<close>
theorem crc_tables_static:
  "\<exists>T. make_crc_table = Some T \<and> crc_table T = static_crc_table \<and> x2n_table T = static_x2n_table"
  unfolding make_crc_table_value static_crc_table_value by (simp add: made_tables_def)

text \<open>The operator of a length, made once and applied to any two checksums.\<close>

lemma crc32_combine_gen_op:
  "crc32_combine_gen made_tables (int n) = Some p \<Longrightarrow>
   crc32_combine_op crc1 crc2 p = crc32_combine made_tables crc1 crc2 (int n)"
  by (simp add: crc32_combine_gen_def crc32_combine_gen64_def crc32_combine_op_def crc32_combine_def crc32_combine64_def)

end
