(* ===== verification/Blocks.thy ===== *)
theory Blocks
  imports Prelude
begin

text \<open>
  What the digests of the library share: a message is hashed in blocks of 64 bytes, after a
  padding of one bit, zeros and its length in 8 bytes. Here are the iteration of a compression
  function over the blocks of a message, the bytes of a message that do not fill a block yet,
  and the padding, with the facts by which a digest that is fed piece by piece has the value
  for the whole message. This is the specification side of \<open>Sha256\<close> and \<open>Md5\<close>; the one function
  of the code here is \<open>curlx_uztoui\<close> of \<open>warnless.c\<close>, by which both convert a length.
\<close>

fun blocks_fold :: "('s \<Rightarrow> byte list \<Rightarrow> 's) \<Rightarrow> 's \<Rightarrow> byte list \<Rightarrow> 's" where
  "blocks_fold f h m = (if length m < 64 then h else blocks_fold f (f h (take 64 m)) (drop 64 m))"

declare blocks_fold.simps [simp del]

definition pending :: "byte list \<Rightarrow> byte list" where
  "pending m = drop (length m - length m mod 64) m"

text \<open>One bit, and zeros up to the last 8 bytes of a block.\<close>

definition padding :: "nat \<Rightarrow> byte list" where
  "padding n = 0x80 # replicate (if n mod 64 < 56 then 55 - n mod 64 else 119 - n mod 64) 0"

definition be_bytes :: "nat \<Rightarrow> nat \<Rightarrow> byte list" where
  "be_bytes n v = map (\<lambda>i. word_of_nat (v div 256 ^ (n - 1 - i))) [0..<n]"

definition le_bytes :: "nat \<Rightarrow> nat \<Rightarrow> byte list" where
  "le_bytes n v = map (\<lambda>i. word_of_nat (v div 256 ^ i)) [0..<n]"

subsection \<open>Blocks\<close>

lemma blocks_fold_less [simp]: "length m < 64 \<Longrightarrow> blocks_fold f h m = h"
  by (simp add: blocks_fold.simps)

lemma blocks_fold_block:
  "length b = 64 \<Longrightarrow> blocks_fold f h (b @ m) = blocks_fold f (f h b) m"
  by (subst blocks_fold.simps) simp

lemma blocks_fold_append:
  "64 dvd length a \<Longrightarrow> blocks_fold f h (a @ b) = blocks_fold f (blocks_fold f h a) b"
proof (induction f h a rule: blocks_fold.induct)
  case (1 f h m)
  show ?case
  proof (cases "length m < 64")
    case True
    then have "m = []" using 1(2) by (auto dest: dvd_imp_le)
    then show ?thesis by simp
  next
    case False
    then have "64 dvd length (drop 64 m)" using 1(2) by (simp add: dvd_minus_self)
    then show ?thesis using 1(1) False
      by (simp add: blocks_fold.simps [of f h m] blocks_fold.simps [of f h "m @ b"])
  qed
qed

lemma length_pending [simp]: "length (pending m) = length m mod 64"
  by (simp add: pending_def)

lemma pending_decomp:
  obtains w where "m = w @ pending m" "64 dvd length w"
proof
  let ?w = "take (length m - length m mod 64) m"
  show "m = ?w @ pending m" by (simp add: pending_def)
  show "64 dvd length ?w" by (simp add: min_absorb2 dvd_minus_mod)
qed

lemma pending_append_block [simp]: "64 dvd length w \<Longrightarrow> pending (w @ b) = pending b"
  by (auto simp: pending_def elim!: dvdE)

lemma pending_less [simp]: "length b < 64 \<Longrightarrow> pending b = b"
  by (simp add: pending_def)

lemma pending_block [simp]: "64 dvd length b \<Longrightarrow> pending b = []"
  by (simp add: pending_def)

lemma blocks_fold_pending:
  "blocks_fold f h (m @ b) = blocks_fold f (blocks_fold f h m) (pending m @ b)"
proof -
  obtain w where w: "m = w @ pending m" "64 dvd length w" by (rule pending_decomp)
  have "blocks_fold f h m = blocks_fold f h (w @ pending m)" using w(1) by simp
  also have "\<dots> = blocks_fold f h w" by (simp only: blocks_fold_append [OF w(2)]) simp
  finally have f: "blocks_fold f h w = blocks_fold f h m" by simp
  have "blocks_fold f h (m @ b) = blocks_fold f h (w @ (pending m @ b))"
    using w(1) by (metis append.assoc)
  then show ?thesis by (simp only: blocks_fold_append [OF w(2)] f)
qed

lemma pending_pending: "pending (m @ b) = pending (pending m @ b)"
proof -
  obtain w where w: "m = w @ pending m" "64 dvd length w" by (rule pending_decomp)
  then have "pending (m @ b) = pending (w @ (pending m @ b))" by (metis append.assoc)
  then show ?thesis using w(2) by simp
qed

text \<open>A piece of a message either stays within the pending block or completes it.\<close>

lemma feed_less:
  assumes "length m mod 64 + length b < 64"
  shows "blocks_fold f h (m @ b) = blocks_fold f h m" "pending (m @ b) = pending m @ b"
  using assms by (simp_all add: blocks_fold_pending [of f h m b] pending_pending [of m b])

lemma feed_block:
  assumes "length m mod 64 + length b = 64"
  shows "blocks_fold f h (m @ b) = f (blocks_fold f h m) (pending m @ b)" "pending (m @ b) = []"
  using assms blocks_fold_block [of "pending m @ b" f "blocks_fold f h m" "[]"]
  by (simp_all add: blocks_fold_pending [of f h m b] pending_pending [of m b])

lemma blocks_fold_padding:
  fixes m :: "byte list" and f :: "'s \<Rightarrow> byte list \<Rightarrow> 's" and h :: 's
  assumes "length l = 8"
  defines "p \<equiv> pending m" and "g \<equiv> blocks_fold f h m"
  shows "blocks_fold f h (m @ padding (length m) @ l) =
    (if length p + 1 > 56
     then f (f g (p @ 0x80 # replicate (63 - length p) 0)) (replicate 56 0 @ l)
     else f g (p @ 0x80 # replicate (55 - length p) 0 @ l))"
proof -
  have c: "length p < 64" by (simp add: p_def)
  show ?thesis
  proof (cases "length p + 1 > 56")
    case True
    let ?a = "p @ 0x80 # replicate (63 - length p) 0" and ?b = "replicate 56 0 @ l"
    have "replicate (119 - length p) (0 :: byte) = replicate (63 - length p) 0 @ replicate 56 0"
      using c by (subst replicate_add [symmetric]) simp
    then have "p @ padding (length m) @ l = ?a @ ?b" using True
      by (simp add: padding_def p_def)
    then have "blocks_fold f h (m @ padding (length m) @ l) = blocks_fold f g (?a @ ?b)"
      by (simp only: blocks_fold_pending [of f h m] p_def [symmetric] g_def [symmetric])
    also have "\<dots> = blocks_fold f (f g ?a) (?b @ [])"
      by (subst blocks_fold_block) (use c in simp_all)
    also have "\<dots> = f (f g ?a) ?b" by (subst blocks_fold_block) (use assms(1) in simp_all)
    finally show ?thesis using True by simp
  next
    case False
    let ?a = "p @ 0x80 # replicate (55 - length p) 0 @ l"
    have "p @ padding (length m) @ l = ?a @ []" using False by (simp add: padding_def p_def)
    then have "blocks_fold f h (m @ padding (length m) @ l) = blocks_fold f g (?a @ [])"
      by (simp only: blocks_fold_pending [of f h m] p_def [symmetric] g_def [symmetric])
    also have "\<dots> = f g ?a" by (subst blocks_fold_block) (use assms(1) False in simp_all)
    finally show ?thesis using False by simp
  qed
qed

lemma length_be_bytes [simp]: "length (be_bytes n v) = n"
  by (simp add: be_bytes_def)

lemma length_le_bytes [simp]: "length (le_bytes n v) = n"
  by (simp add: le_bytes_def)

subsection \<open>A buffer that is padded\<close>

lemma put_last_block:
  assumes "length b = 64" "length p < 56" "take (length p) b = p" "length l = 8"
  shows "mem_write (mem_write (mem_write b (length p) [0x80]) (length p + 1) (replicate (56 - (length p + 1)) 0)) 56 l
    = p @ 0x80 # replicate (55 - length p) 0 @ l"
proof -
  have "56 - length p = Suc (55 - length p)" using assms(2) by simp
  then show ?thesis using assms by (simp add: mem_write_def)
qed

lemma put_full_block:
  assumes "length b = 64" "length p < 64" "take (length p) b = p"
  shows "mem_write (mem_write b (length p) [0x80]) (length p + 1) (replicate (64 - (length p + 1)) 0)
    = p @ 0x80 # replicate (63 - length p) 0"
  using assms by (simp add: mem_write_def)

lemma put_zero_block:
  assumes "length b = 64" "length l = 8"
  shows "mem_write (mem_write b 0 (replicate 56 0)) 56 l = replicate 56 0 @ l"
  using assms by (simp add: mem_write_def)

subsection \<open>Bits and bytes\<close>

lemma be_bytes_bits: "be_bytes n v = map (\<lambda>i. word_of_nat (drop_bit (8 * (n - 1 - i)) v)) [0..<n]"
proof -
  have "(256 :: nat) ^ k = 2 ^ (8 * k)" for k by (simp add: power_mult)
  then show ?thesis by (simp add: be_bytes_def drop_bit_eq_div)
qed

lemma be_bytes_mod: "be_bytes n (take_bit (8 * n) v) = be_bytes n v"
proof -
  have "word_of_nat (drop_bit (8 * (n - 1 - i)) (take_bit (8 * n) v)) =
      (word_of_nat (drop_bit (8 * (n - 1 - i)) v) :: byte)" if "i < n" for i
    by (rule bit_word_eqI) (use that in \<open>auto simp: bit_simps\<close>)
  then show ?thesis by (simp add: be_bytes_bits)
qed

lemma bit_255: "bit (255 :: int) n \<longleftrightarrow> n < 8"
proof -
  have "(255 :: int) = mask 8" by (simp add: mask_eq_exp_minus_1)
  then show ?thesis by (simp only: bit_mask_iff possible_bit_int) simp
qed

lemma or_add_push: "x < 2 ^ n \<Longrightarrow> push_bit n a OR (x :: nat) = a * 2 ^ n + x"
proof -
  assume "x < 2 ^ n"
  then have "take_bit n x = x" by (simp add: take_bit_nat_eq_self)
  then have "push_bit n a AND x = push_bit n a AND take_bit n x" by simp
  also have "\<dots> = 0" by (rule bit_eqI) (auto simp: bit_simps)
  finally show ?thesis by (simp add: disjunctive_add_eq_or [symmetric] push_bit_eq_mult)
qed

subsection \<open>Converting a length\<close>

text \<open>\<open>size_t\<close> to \<open>unsigned int\<close>: a debug build stops when bits are lost, any other drops them.\<close>

definition curlx_uztoui :: "nat \<Rightarrow> nat" where
  "curlx_uztoui uznum = uznum AND 0xFFFFFFFF"

lemma uztoui_mod: "curlx_uztoui n = n mod 2 ^ 32"
proof -
  have "(0xFFFFFFFF :: nat) = mask 32" by (simp add: mask_eq_exp_minus_1)
  then show ?thesis by (simp only: curlx_uztoui_def take_bit_eq_mask [symmetric] take_bit_eq_mod)
qed

end
