(* ===== verification/Sha256.thy ===== *)
theory Sha256
  imports Blocks
begin

text \<open>
  SHA-256 as the library computes it when no other implementation is compiled in, \<open>sha256.c\<close>.
  Its words are \<open>unsigned long\<close>, with 32 bits or more by platform; a type parameter \<open>'w\<close> stands
  for it, so that what is left above the low 32 bits is in the model. The number of bits
  hashed has 64 bits. \<open>curlen\<close> counts bytes of the buffer; the data of a call is the list of its
  \<open>inlen\<close> bytes.

  The reference is the definition of the standard on 32-bit words: a digest fed in any pieces
  is that of the padded message, its constants are the roots of the first primes.
\<close>

subsection \<open>The code\<close>

definition WPA_GET_BE32 :: "byte list \<Rightarrow> nat \<Rightarrow> 'w::len word" where
  "WPA_GET_BE32 a i =
     push_bit 24 (ucast (a ! i)) OR push_bit 16 (ucast (a ! (i + 1)))
     OR push_bit 8 (ucast (a ! (i + 2))) OR ucast (a ! (i + 3))"

definition WPA_PUT_BE32 :: "'w::len word \<Rightarrow> byte list" where
  "WPA_PUT_BE32 val =
     [ucast (drop_bit 24 val AND 0xff), ucast (drop_bit 16 val AND 0xff),
      ucast (drop_bit 8 val AND 0xff), ucast (val AND 0xff)]"

definition WPA_PUT_BE64 :: "64 word \<Rightarrow> byte list" where
  "WPA_PUT_BE64 val =
     [ucast (drop_bit 56 val), ucast (drop_bit 48 val), ucast (drop_bit 40 val), ucast (drop_bit 32 val),
      ucast (drop_bit 24 val), ucast (drop_bit 16 val), ucast (drop_bit 8 val), ucast (val AND 0xff)]"

record 'u sha256_state =
  md_length :: "64 word"
  md_state :: "'u list"
  md_curlen :: nat
  md_buf :: "byte list"

text \<open>The table in its rows of five.\<close>

definition sha256_K :: "'w::len word list" where
  "sha256_K =
     [0x428a2f98, 0x71374491, 0xb5c0fbcf, 0xe9b5dba5, 0x3956c25b] @
     [0x59f111f1, 0x923f82a4, 0xab1c5ed5, 0xd807aa98, 0x12835b01] @
     [0x243185be, 0x550c7dc3, 0x72be5d74, 0x80deb1fe, 0x9bdc06a7] @
     [0xc19bf174, 0xe49b69c1, 0xefbe4786, 0x0fc19dc6, 0x240ca1cc] @
     [0x2de92c6f, 0x4a7484aa, 0x5cb0a9dc, 0x76f988da, 0x983e5152] @
     [0xa831c66d, 0xb00327c8, 0xbf597fc7, 0xc6e00bf3, 0xd5a79147] @
     [0x06ca6351, 0x14292967, 0x27b70a85, 0x2e1b2138, 0x4d2c6dfc] @
     [0x53380d13, 0x650a7354, 0x766a0abb, 0x81c2c92e, 0x92722c85] @
     [0xa2bfe8a1, 0xa81a664b, 0xc24b8b70, 0xc76c51a3, 0xd192e819] @
     [0xd6990624, 0xf40e3585, 0x106aa070, 0x19a4c116, 0x1e376c08] @
     [0x2748774c, 0x34b0bcb5, 0x391c0cb3, 0x4ed8aa4a, 0x5b9cca4f] @
     [0x682e6ff3, 0x748f82ee, 0x78a5636f, 0x84c87814, 0x8cc70208] @
     [0x90befffa, 0xa4506ceb, 0xbef9a3f7, 0xc67178f2]"

definition RORc :: "'w::len word \<Rightarrow> nat \<Rightarrow> 'w word" where
  "RORc x y = (drop_bit (y AND 31) (x AND 0xFFFFFFFF) OR push_bit (32 - (y AND 31)) x) AND 0xFFFFFFFF"

definition Ch :: "'w::len word \<Rightarrow> 'w word \<Rightarrow> 'w word \<Rightarrow> 'w word" where
  "Ch x y z = z XOR (x AND (y XOR z))"

definition Maj :: "'w::len word \<Rightarrow> 'w word \<Rightarrow> 'w word \<Rightarrow> 'w word" where
  "Maj x y z = ((x OR y) AND z) OR (x AND y)"

definition sha256_S :: "'w::len word \<Rightarrow> nat \<Rightarrow> 'w word" where
  "sha256_S x n = RORc x n"

definition sha256_R :: "'w::len word \<Rightarrow> nat \<Rightarrow> 'w word" where
  "sha256_R x n = drop_bit n (x AND 0xFFFFFFFF)"

definition Sigma0 :: "'w::len word \<Rightarrow> 'w word" where
  "Sigma0 x = sha256_S x 2 XOR sha256_S x 13 XOR sha256_S x 22"

definition Sigma1 :: "'w::len word \<Rightarrow> 'w word" where
  "Sigma1 x = sha256_S x 6 XOR sha256_S x 11 XOR sha256_S x 25"

definition Gamma0 :: "'w::len word \<Rightarrow> 'w word" where
  "Gamma0 x = sha256_S x 7 XOR sha256_S x 18 XOR sha256_R x 3"

definition Gamma1 :: "'w::len word \<Rightarrow> 'w word" where
  "Gamma1 x = sha256_S x 17 XOR sha256_S x 19 XOR sha256_R x 10"

text \<open>The loop that fills \<open>W[16..63]\<close>, one more word at a time, and a round with its shift.\<close>

definition fill_W :: "byte list \<Rightarrow> 'w::len word list" where
  "fill_W buf =
     foldl (\<lambda>W i. W @ [Gamma1 (W ! (i - 2)) + W ! (i - 7) + Gamma0 (W ! (i - 15)) + W ! (i - 16)])
       (map (\<lambda>i. WPA_GET_BE32 buf (4 * i)) [0..<16]) [16..<64]"

definition RND :: "'w::len word list \<Rightarrow> 'w word list \<Rightarrow> nat \<Rightarrow> 'w word list" where
  "RND W S i =
     (let t0 = S ! 7 + Sigma1 (S ! 4) + Ch (S ! 4) (S ! 5) (S ! 6) + sha256_K ! i + W ! i;
          t1 = Sigma0 (S ! 0) + Maj (S ! 0) (S ! 1) (S ! 2)
      in S[3 := S ! 3 + t0, 7 := t0 + t1])"

definition shift_S :: "'w::len word list \<Rightarrow> 'w word list" where
  "shift_S S = [S ! 7, S ! 0, S ! 1, S ! 2, S ! 3, S ! 4, S ! 5, S ! 6]"

definition sha256_compress :: "'w::len word sha256_state \<Rightarrow> byte list \<Rightarrow> int \<times> 'w word sha256_state" where
  "sha256_compress md buf =
     (let W = fill_W buf;
          S = foldl (\<lambda>S i. shift_S (RND W S i)) (md_state md) [0..<64]
      in (0, md\<lparr>md_state := map (\<lambda>i. md_state md ! i + S ! i) [0..<8]\<rparr>))"

definition my_sha256_init :: "'w::len word sha256_state \<Rightarrow> CURLcode \<times> 'w word sha256_state" where
  "my_sha256_init md =
     (CURLE_OK, md\<lparr>md_curlen := 0, md_length := 0, md_state :=
       [0x6A09E667, 0xBB67AE85, 0x3C6EF372, 0xA54FF53A, 0x510E527F, 0x9B05688C, 0x1F83D9AB, 0x5BE0CD19]\<rparr>)"

text \<open>
  \<open>block_size - curlen\<close> would wrap around to a number larger than any object if \<open>curlen\<close> were
  larger than the buffer, which the guard of \<open>my_sha256_update\<close> excludes.
\<close>

definition room :: "nat \<Rightarrow> nat \<Rightarrow> nat" where
  "room inlen c = (if c \<le> 64 then min inlen (64 - c) else inlen)"

function update_loop :: "'w::len word sha256_state \<Rightarrow> byte list \<Rightarrow> int \<times> 'w word sha256_state" where
  "update_loop md inp =
     (if inp = [] then (0, md)
      else if md_curlen md = 0 \<and> length inp \<ge> 64 then
        (let (rc, md) = sha256_compress md (take 64 inp)
         in if rc < 0 then (-1, md)
            else update_loop (md\<lparr>md_length := md_length md + 64 * 8\<rparr>) (drop 64 inp))
      else
        (let n = room (length inp) (md_curlen md);
             md = md\<lparr>md_buf := mem_write (md_buf md) (md_curlen md) (take n inp), md_curlen := md_curlen md + n\<rparr>;
             inp = drop n inp
         in if md_curlen md = 64 then
              (let (rc, md) = sha256_compress md (md_buf md)
               in if rc < 0 then (-1, md)
                  else update_loop (md\<lparr>md_length := md_length md + 8 * 64, md_curlen := 0\<rparr>) inp)
            else update_loop md inp))"
  by pat_completeness auto
termination
  by (relation "measures [\<lambda>(md, inp). length inp, \<lambda>(md, inp). md_curlen md]")
    (auto simp: room_def sha256_compress_def Let_def min_def split: if_splits)

declare update_loop.simps [simp del]

definition my_sha256_update :: "'w::len word sha256_state \<Rightarrow> byte list \<Rightarrow> int \<times> 'w word sha256_state" where
  "my_sha256_update md inp = (if md_curlen md > 64 then (-1, md) else update_loop md inp)"

text \<open>The two loops that append zeros, up to a length of the buffer.\<close>

definition put_zeros :: "nat \<Rightarrow> 'w::len word sha256_state \<Rightarrow> 'w word sha256_state" where
  "put_zeros n md =
     md\<lparr>md_buf := mem_write (md_buf md) (md_curlen md) (replicate (n - md_curlen md) 0), md_curlen := max n (md_curlen md)\<rparr>"

definition my_sha256_final :: "byte list \<Rightarrow> 'w::len word sha256_state \<Rightarrow> int \<times> byte list \<times> 'w word sha256_state" where
  "my_sha256_final out md =
     (if md_curlen md \<ge> 64 then (-1, out, md)
      else
        (let md = md\<lparr>md_length := md_length md + of_nat (md_curlen md) * 8\<rparr>;
             md = md\<lparr>md_buf := mem_write (md_buf md) (md_curlen md) [0x80], md_curlen := md_curlen md + 1\<rparr>;
             md = (if md_curlen md > 56
                   then (let md = put_zeros 64 md in (snd (sha256_compress md (md_buf md)))\<lparr>md_curlen := 0\<rparr>)
                   else md);
             md = put_zeros 56 md;
             md = md\<lparr>md_buf := mem_write (md_buf md) 56 (WPA_PUT_BE64 (md_length md))\<rparr>;
             md = snd (sha256_compress md (md_buf md))
         in (0, mem_write out 0 (concat (map (\<lambda>i. WPA_PUT_BE32 (md_state md ! i)) [0..<8])), md)))"

text \<open>The context is a local variable, with whatever its memory holds.\<close>

definition Curl_sha256it :: "'w::len word sha256_state \<Rightarrow> byte list \<Rightarrow> byte list \<Rightarrow> CURLcode \<times> byte list" where
  "Curl_sha256it ctx output inp =
     (let (result, ctx) = my_sha256_init ctx
      in if result = CURLE_OK
         then (let ctx = snd (my_sha256_update ctx (take (curlx_uztoui (length inp)) inp))
               in (result, fst (snd (my_sha256_final output ctx))))
         else (result, output))"

subsection \<open>The standard\<close>

text \<open>Words of 32 bits, the message schedule by its recursion, a round on eight variables.\<close>

definition fips_Ch :: "32 word \<Rightarrow> 32 word \<Rightarrow> 32 word \<Rightarrow> 32 word" where
  "fips_Ch x y z = (x AND y) XOR (NOT x AND z)"

definition fips_Maj :: "32 word \<Rightarrow> 32 word \<Rightarrow> 32 word \<Rightarrow> 32 word" where
  "fips_Maj x y z = (x AND y) XOR (x AND z) XOR (y AND z)"

definition fips_Sigma0 :: "32 word \<Rightarrow> 32 word" where
  "fips_Sigma0 x = word_rotr 2 x XOR word_rotr 13 x XOR word_rotr 22 x"

definition fips_Sigma1 :: "32 word \<Rightarrow> 32 word" where
  "fips_Sigma1 x = word_rotr 6 x XOR word_rotr 11 x XOR word_rotr 25 x"

definition fips_sigma0 :: "32 word \<Rightarrow> 32 word" where
  "fips_sigma0 x = word_rotr 7 x XOR word_rotr 18 x XOR drop_bit 3 x"

definition fips_sigma1 :: "32 word \<Rightarrow> 32 word" where
  "fips_sigma1 x = word_rotr 17 x XOR word_rotr 19 x XOR drop_bit 10 x"

fun fips_W :: "byte list \<Rightarrow> nat \<Rightarrow> 32 word" where
  "fips_W m t =
     (if t < 16 then word_of_nat (unat (m ! (4 * t)) * 2 ^ 24 + unat (m ! (4 * t + 1)) * 2 ^ 16
        + unat (m ! (4 * t + 2)) * 2 ^ 8 + unat (m ! (4 * t + 3)))
      else fips_sigma1 (fips_W m (t - 2)) + fips_W m (t - 7) + fips_sigma0 (fips_W m (t - 15)) + fips_W m (t - 16))"

declare fips_W.simps [simp del]

fun fips_round :: "32 word \<Rightarrow> 32 word \<Rightarrow> 32 word list \<Rightarrow> 32 word list" where
  "fips_round k w [a, b, c, d, e, f, g, h] =
     (let T1 = h + fips_Sigma1 e + fips_Ch e f g + k + w;
          T2 = fips_Sigma0 a + fips_Maj a b c
      in [T1 + T2, a, b, c, d + T1, e, f, g])"
| "fips_round k w s = s"

text \<open>
  The constants are fractional parts of roots of primes: the low 32 bits of the truncated roots
  of the primes scaled up. Bit by bit, \<open>root_from\<close> finds the largest \<open>r\<close> with \<open>r ^ n \<le> x\<close>.
\<close>

fun root_from :: "nat \<Rightarrow> nat \<Rightarrow> nat \<Rightarrow> nat \<Rightarrow> nat" where
  "root_from n x 0 r = r"
| "root_from n x (Suc k) r = root_from n x k (if (r + 2 ^ k) ^ n \<le> x then r + 2 ^ k else r)"

definition fips_primes :: "nat list" where
  "fips_primes = [
  2, 3, 5, 7, 11, 13, 17, 19, 23, 29, 31, 37, 41, 43, 47, 53, 59, 61, 67, 71, 73, 79, 83, 89, 97,
  101, 103, 107, 109, 113, 127, 131, 137, 139, 149, 151, 157, 163, 167, 173, 179, 181, 191, 193,
  197, 199, 211, 223, 227, 229, 233, 239, 241, 251, 257, 263, 269, 271, 277, 281, 283, 293, 307, 311]"

definition fips_H0 :: "32 word list" where
  "fips_H0 = map (\<lambda>p. word_of_nat (root_from 2 (p * 2 ^ 64) 40 0)) (take 8 fips_primes)"

definition fips_K :: "32 word list" where
  "fips_K = map (\<lambda>p. word_of_nat (root_from 3 (p * 2 ^ 96) 40 0)) fips_primes"

definition fips_compress :: "32 word list \<Rightarrow> byte list \<Rightarrow> 32 word list" where
  "fips_compress h m = map2 (+) h (foldl (\<lambda>s t. fips_round (fips_K ! t) (fips_W m t) s) h [0..<64])"

definition SHA256 :: "byte list \<Rightarrow> byte list" where
  "SHA256 m = concat (map (\<lambda>w. be_bytes 4 (unat w))
     (blocks_fold fips_compress fips_H0 (m @ padding (length m) @ be_bytes 8 (8 * length m))))"

subsection \<open>The constants\<close>

text \<open>All the numbers up to 311 that no smaller prime divides; \<open>18\<^sup>2\<close> is larger.\<close>

lemma fips_primes_first:
  "fips_primes = filter (\<lambda>p. list_all (\<lambda>d. p = d \<or> \<not> d dvd p) [2, 3, 5, 7, 11, 13, 17]) [2..<312]"
  by (simp add: fips_primes_def)

lemma root_from_exact:
  fixes s :: nat
  assumes "s ^ n \<le> x" "x < (s + 1) ^ n" "r \<le> s" "s < r + 2 ^ k"
  shows "root_from n x k r = s"
  using assms(3,4)
proof (induction k arbitrary: r)
  case (Suc k)
  show ?case
  proof (cases "r + 2 ^ k \<le> s")
    case True
    then have "(r + 2 ^ k) ^ n \<le> s ^ n" by (rule power_mono) simp
    then have "(r + 2 ^ k) ^ n \<le> x" using assms(1) by simp
    then show ?thesis using Suc True by simp
  next
    case False
    then have "(s + 1) ^ n \<le> (r + 2 ^ k) ^ n" by (intro power_mono) simp_all
    then have "\<not> (r + 2 ^ k) ^ n \<le> x" using assms(2) by simp
    then show ?thesis using Suc False by simp
  qed
qed simp

lemma map_root_from:
  "list_all2 (\<lambda>p s. s ^ n \<le> p * c \<and> p * c < (s + 1) ^ n \<and> s < 2 ^ k) ps ss \<Longrightarrow>
    map (\<lambda>p. root_from n (p * c) k 0) ps = ss"
  by (induction rule: list_all2_induct) (auto intro!: root_from_exact)

lemma fips_H0_code:
  "fips_H0 = [0x6A09E667, 0xBB67AE85, 0x3C6EF372, 0xA54FF53A, 0x510E527F, 0x9B05688C, 0x1F83D9AB, 0x5BE0CD19]"
proof -
  have "map (\<lambda>p. root_from 2 (p * 2 ^ 64) 40 0) (take 8 fips_primes) = [
  6074000999, 7439101573, 9603838834, 11363415354, 14244795007, 15485724812, 17708603819,
  18721328409]"
    by (rule map_root_from) (simp add: fips_primes_def)
  from arg_cong [OF this, of "map (\<lambda>s. word_of_nat s :: 32 word)"]
  show ?thesis by (simp add: fips_H0_def comp_def)
qed

lemma fips_K_code: "fips_K = sha256_K"
proof -
  have "map (\<lambda>p. root_from 3 (p * 2 ^ 96) 40 0) fips_primes = [
  5411319704, 6194414737, 7344290767, 8215976869, 9551921755, 10098905585, 11043570340,
  11460697813, 12214315672, 13195500289, 13492127166, 14311783875, 14809980276, 15046980094,
  15499789991, 16133124468, 16720292289, 16907126662, 17444216262, 17784676812, 17950125167,
  18429019306, 18734950876, 19175934170, 19734090066, 20001703533, 20132865992, 20390182855,
  20516441075, 20764397895, 21588763473, 21813078375, 22141143685, 22248366392, 22769593852,
  22871018771, 23170020180, 23461497531, 23651862830, 23931792517, 24205322401, 24295138891,
  24734567280, 24820601251, 24990902297, 25075189284, 25569408389, 26045227120, 26200031510,
  26276752392, 26428864332, 26653801653, 26727943347, 27092625994, 27306805839, 27517677555,
  27725365998, 27793908591, 27997534228, 28131656200, 28198240250, 28526537963, 28973835255,
  29099129074]"
    by (rule map_root_from) (simp add: fips_primes_def)
  from arg_cong [OF this, of "map (\<lambda>s. word_of_nat s :: 32 word)"]
  show ?thesis by (simp add: fips_K_def sha256_K_def comp_def)
qed

subsection \<open>The low 32 bits\<close>

definition lo :: "'w::len word \<Rightarrow> 32 word" where
  "lo x = ucast x"

named_theorems lo_simps "the low 32 bits of the words of the code"

lemma bit_lo: "bit (lo x) n \<longleftrightarrow> n < 32 \<and> bit x n"
  by (simp add: lo_def bit_simps)

lemma lo_bitwise [lo_simps]: "lo (x AND y) = lo x AND lo y" "lo (x OR y) = lo x OR lo y" "lo (x XOR y) = lo x XOR lo y"
  by (auto simp: lo_def unsigned_and_eq unsigned_or_eq unsigned_xor_eq)

lemma take_bit_32_add:
  assumes "32 \<le> l" shows "take_bit 32 (take_bit l x + take_bit l y :: int) = take_bit 32 (x + y)"
proof -
  have "take_bit 32 (take_bit l x + take_bit l y) = take_bit 32 (take_bit 32 (take_bit l x) + take_bit 32 (take_bit l y))"
    by (simp only: take_bit_add)
  also have "\<dots> = take_bit 32 (x + y)" using assms by (simp only: take_bit_take_bit min_absorb1 take_bit_add)
  finally show ?thesis .
qed

lemma lo_add [lo_simps]: "32 \<le> LENGTH('w::len) \<Longrightarrow> lo (x + y :: 'w word) = lo x + lo y"
  unfolding lo_def by transfer (simp add: take_bit_32_add)

lemma lo_of_nat [lo_simps]: "32 \<le> LENGTH('w::len) \<Longrightarrow> lo (of_nat n :: 'w word) = of_nat n"
  unfolding lo_def by (rule bit_word_eqI) (auto simp: bit_simps bit_of_nat_iff)

lemma lo_numeral [lo_simps]: "32 \<le> LENGTH('w::len) \<Longrightarrow> lo (numeral n :: 'w word) = numeral n"
  using lo_of_nat [of "numeral n"] by simp

lemma lo_ucast_byte [lo_simps]: "32 \<le> LENGTH('w::len) \<Longrightarrow> lo (ucast (b :: byte) :: 'w word) = ucast b"
  unfolding lo_def by (rule bit_word_eqI) (auto simp: bit_simps)

lemma lo_push_bit [lo_simps]: "32 \<le> LENGTH('w::len) \<Longrightarrow> lo (push_bit n x :: 'w word) = push_bit n (lo x)"
  unfolding lo_def by (rule bit_word_eqI) (auto simp: bit_simps)

lemma bit_0xFFFFFFFF: "bit (0xFFFFFFFF :: int) n \<longleftrightarrow> n < 32"
proof -
  have "(0xFFFFFFFF :: int) = mask 32" by (simp add: mask_eq_exp_minus_1)
  then show ?thesis by (simp only: bit_mask_iff possible_bit_int) simp
qed

lemma lo_RORc [lo_simps]:
  assumes "32 \<le> LENGTH('w::len)" "0 < n" "n < 32"
  shows "lo (RORc x n :: 'w word) = word_rotr n (lo x)"
proof (rule bit_word_eqI)
  fix k assume "k < LENGTH(32)"
  then have k: "k < 32" by simp
  have "n AND 31 = n mod 2 ^ 5" using take_bit_eq_mask [of 5 n] by (simp add: take_bit_eq_mod mask_eq_exp_minus_1)
  then have "n AND 31 = n" using assms(3) by simp
  moreover have "(k + n) mod 32 = (if k + n < 32 then k + n else k + n - 32)"
    using k assms(3) by (cases "k + n < 32") (simp_all add: le_mod_geq)
  moreover have "k - (32 - n) = k + n - 32" using assms(3) by simp
  ultimately show "bit (lo (RORc x n)) k \<longleftrightarrow> bit (word_rotr n (lo x)) k"
    using k assms by (auto simp: bit_lo RORc_def bit_simps bit_0xFFFFFFFF add.commute)
qed

lemma lo_R [lo_simps]: "32 \<le> LENGTH('w::len) \<Longrightarrow> lo (sha256_R x n :: 'w word) = drop_bit n (lo x)"
  by (rule bit_word_eqI) (auto simp: bit_lo sha256_R_def bit_simps bit_0xFFFFFFFF dest: bit_imp_le_length)

lemma lo_Ch [lo_simps]: "lo (Ch x y z) = fips_Ch (lo x) (lo y) (lo z)"
  by (rule bit_word_eqI) (auto simp: Ch_def fips_Ch_def bit_simps bit_lo)

lemma lo_Maj [lo_simps]: "lo (Maj x y z) = fips_Maj (lo x) (lo y) (lo z)"
  by (rule bit_word_eqI) (auto simp: Maj_def fips_Maj_def bit_simps bit_lo)

lemma lo_Sigma [lo_simps]:
  assumes "32 \<le> LENGTH('w::len)"
  shows "lo (Sigma0 (x :: 'w word)) = fips_Sigma0 (lo x)" "lo (Sigma1 x) = fips_Sigma1 (lo x)"
    "lo (Gamma0 x) = fips_sigma0 (lo x)" "lo (Gamma1 x) = fips_sigma1 (lo x)"
  using assms by (simp_all add: Sigma0_def Sigma1_def Gamma0_def Gamma1_def sha256_S_def lo_simps
      fips_Sigma0_def fips_Sigma1_def fips_sigma0_def fips_sigma1_def)

lemma length_K [simp]: "length sha256_K = 64"
  by (simp add: sha256_K_def)

lemma lo_K: "32 \<le> LENGTH('w::len) \<Longrightarrow> map lo (sha256_K :: 'w word list) = fips_K"
  by (simp add: sha256_K_def fips_K_code lo_simps)

subsection \<open>One block\<close>

lemma lo_GET [lo_simps]:
  assumes "32 \<le> LENGTH('w::len)" "t < 16"
  shows "lo (WPA_GET_BE32 m (4 * t) :: 'w word) = fips_W m t"
proof -
  let ?a = "m ! (4 * t)" and ?b = "m ! (4 * t + 1)" and ?c = "m ! (4 * t + 2)" and ?d = "m ! (4 * t + 3)"
  have d: "unat ?d < 2 ^ 8" and c: "unat ?c * 2 ^ 8 + unat ?d < 2 ^ 16"
    and b: "unat ?b * 2 ^ 16 + (unat ?c * 2 ^ 8 + unat ?d) < 2 ^ 24"
    using unat_byte [of ?b] unat_byte [of ?c] unat_byte [of ?d]
    by (simp_all del: unat_byte)
  have "unat ?a * 2 ^ 24 + (unat ?b * 2 ^ 16 + (unat ?c * 2 ^ 8 + unat ?d)) =
      push_bit 24 (unat ?a) OR (push_bit 16 (unat ?b) OR (push_bit 8 (unat ?c) OR unat ?d))"
    by (simp only: or_add_push [OF d] or_add_push [OF c] or_add_push [OF b])
  moreover have "word_of_nat (push_bit 24 (unat ?a) OR (push_bit 16 (unat ?b) OR (push_bit 8 (unat ?c) OR unat ?d)))
      = (push_bit 24 (ucast ?a) OR push_bit 16 (ucast ?b) OR push_bit 8 (ucast ?c) OR ucast ?d :: 32 word)"
    by (rule bit_word_eqI) (auto simp: bit_simps)
  ultimately show ?thesis using assms
    by (simp add: WPA_GET_BE32_def lo_simps fips_W.simps [of m t] add.assoc or.assoc)
qed

lemma foldl_fill:
  fixes m :: "byte list"
  assumes "32 \<le> LENGTH('w::len)"
  defines "step \<equiv> \<lambda>W i. W @ [Gamma1 (W ! (i - 2)) + W ! (i - 7) + Gamma0 (W ! (i - 15)) + W ! (i - 16)]"
    and "W0 \<equiv> map (\<lambda>i. WPA_GET_BE32 m (4 * i)) [0..<16] :: 'w word list"
  shows "length (foldl step W0 [16..<16 + n]) = 16 + n \<and>
    (\<forall>t < 16 + n. lo (foldl step W0 [16..<16 + n] ! t) = fips_W m t)"
proof (induction n)
  case 0
  then show ?case using assms(1) by (auto simp: W0_def lo_simps)
next
  case (Suc n)
  let ?W = "foldl step W0 [16..<16 + n]"
  have e: "foldl step W0 [16..<16 + Suc n] = step ?W (16 + n)" by (simp only: add_Suc_right upt_Suc_append foldl_append foldl.simps le_add1)
  have "lo (step ?W (16 + n) ! (16 + n)) = fips_W m (16 + n)"
    using Suc assms(1) by (simp add: step_def nth_append lo_simps fips_W.simps [of m "16 + n"])
  moreover have "t < 16 + Suc n \<longleftrightarrow> t < 16 + n \<or> t = 16 + n" for t by auto
  moreover have "length (step ?W i) = Suc (length ?W)" "t < length ?W \<Longrightarrow> step ?W i ! t = ?W ! t" for i t
    by (simp_all add: step_def nth_append)
  ultimately show ?case using Suc unfolding e by auto
qed

lemma fill_W_exact:
  "32 \<le> LENGTH('w::len) \<Longrightarrow> t < 64 \<Longrightarrow> lo (fill_W m ! t :: 'w word) = fips_W m t"
  using foldl_fill [where n = 48 and m = m and 'w = 'w] by (simp add: fill_W_def del: upt_rec_numeral)

lemma length_8: "length xs = 8 \<longleftrightarrow> (\<exists>a b c d e f g h. xs = [a, b, c, d, e, f, g, h])"
  by (auto simp: length_Suc_conv numeral_eq_Suc)

lemma length_shift_S [simp]: "length (shift_S S) = 8"
  by (simp add: shift_S_def)

lemma lo_nth_K: "32 \<le> LENGTH('w::len) \<Longrightarrow> i < 64 \<Longrightarrow> lo (sha256_K ! i :: 'w word) = fips_K ! i"
  using lo_K [where 'w = 'w] by (metis length_map nth_map length_K)

lemma round_exact:
  assumes "32 \<le> LENGTH('w::len)" "length (S :: 'w word list) = 8" "i < 64" "lo (W ! i) = w"
  shows "map lo (shift_S (RND W S i)) = fips_round (fips_K ! i) w (map lo S)"
proof -
  obtain a b c d e f g h where S: "S = [a, b, c, d, e, f, g, h]" using assms(2) by (auto simp: length_8)
  show ?thesis using assms(1,3,4)
    by (simp add: S RND_def shift_S_def Let_def lo_simps lo_nth_K ac_simps)
qed

lemma rounds_exact:
  assumes "32 \<le> LENGTH('w::len)" "length (S :: 'w word list) = 8" "n \<le> 64"
  shows "map lo (foldl (\<lambda>S i. shift_S (RND (fill_W m) S i)) S [0..<n]) =
    foldl (\<lambda>s t. fips_round (fips_K ! t) (fips_W m t) s) (map lo S) [0..<n]
    \<and> length (foldl (\<lambda>S i. shift_S (RND (fill_W m) S i)) S [0..<n]) = 8"
  using assms(3) by (induction n) (auto simp: assms round_exact fill_W_exact)

lemma compress_exact:
  assumes "32 \<le> LENGTH('w::len)" "length (md_state (md :: 'w word sha256_state)) = 8"
  shows "map lo (md_state (snd (sha256_compress md m))) = fips_compress (map lo (md_state md)) m"
proof -
  let ?S = "foldl (\<lambda>S i. shift_S (RND (fill_W m) S i)) (md_state md) [0..<64]"
  note r = rounds_exact [OF assms, of 64 m]
  have "map lo (map (\<lambda>i. md_state md ! i + ?S ! i) [0..<8]) = map2 (+) (map lo (md_state md)) (map lo ?S)"
    by (rule nth_equalityI) (use assms r [THEN conjunct2] in \<open>simp_all add: lo_add del: upt_rec_numeral\<close>)
  then show ?thesis using r by (simp add: sha256_compress_def fips_compress_def Let_def del: upt_rec_numeral)
qed

lemma compress_frame [simp]:
  "fst (sha256_compress md m) = 0" "md_length (snd (sha256_compress md m)) = md_length md"
  "md_curlen (snd (sha256_compress md m)) = md_curlen md" "md_buf (snd (sha256_compress md m)) = md_buf md"
  "length (md_state (snd (sha256_compress md m))) = 8"
  by (simp_all add: sha256_compress_def Let_def del: upt_rec_numeral)

subsection \<open>Feeding a message\<close>

text \<open>A context that has been fed the bytes \<open>m\<close>.\<close>

definition sha_fed :: "'w::len word sha256_state \<Rightarrow> byte list \<Rightarrow> bool" where
  "sha_fed md m \<longleftrightarrow>
     length (md_buf md) = 64 \<and> length (md_state md) = 8 \<and> md_curlen md = length m mod 64
     \<and> take (length m mod 64) (md_buf md) = pending m
     \<and> md_length md = of_nat (8 * (length m - length m mod 64))
     \<and> map lo (md_state md) = blocks_fold fips_compress fips_H0 m"

lemma sha_fed_init:
  assumes "32 \<le> LENGTH('w::len)" "length (md_buf (md :: 'w word sha256_state)) = 64"
  shows "sha_fed (snd (my_sha256_init md)) []"
  using assms by (simp add: sha_fed_def my_sha256_init_def fips_H0_code lo_simps)

lemma fed_block:
  fixes md md' :: "'w::len word sha256_state"
  assumes w: "32 \<le> LENGTH('w)" and fed: "sha_fed md m" and b: "length m mod 64 + length b = 64"
    and s: "md_state md' = md_state (snd (sha256_compress md0 (pending m @ b)))" "md_state md0 = md_state md"
    and l: "md_length md' = md_length md + 512" "md_curlen md' = 0" "length (md_buf md') = 64"
  shows "sha_fed md' (m @ b)"
proof -
  have z: "(length m + length b) mod 64 = 0" by (metis b mod_add_left_eq mod_self)
  have "8 * (length m + length b) = 8 * (length m - length m mod 64) + 512"
    using b mod_less_eq_dividend [of "length m" 64] by (simp add: diff_mult_distrib2)
  then have "(of_nat (8 * (length m + length b)) :: 64 word) = of_nat (8 * (length m - length m mod 64)) + 512"
    by (metis of_nat_add of_nat_numeral)
  then have "md_length md' = of_nat (8 * (length m + length b))" using fed l(1) by (simp add: sha_fed_def)
  moreover have "map lo (md_state md') = fips_compress (blocks_fold fips_compress fips_H0 m) (pending m @ b)"
    using fed s compress_exact [OF w, of md0 "pending m @ b"] by (simp add: sha_fed_def)
  moreover have "length (md_state md') = 8" by (simp add: s)
  ultimately show ?thesis using l(2,3) unfolding sha_fed_def length_append z feed_block [OF b]
    by simp
qed

lemma fed_less:
  fixes md :: "'w::len word sha256_state"
  assumes "sha_fed md m" "length m mod 64 + length b < 64"
  shows "sha_fed (md\<lparr>md_buf := mem_write (md_buf md) (length m mod 64) b, md_curlen := length m mod 64 + length b\<rparr>) (m @ b)"
proof -
  have "(length m + length b) mod 64 = length m mod 64 + length b"
    by (metis assms(2) mod_add_left_eq mod_less)
  moreover have "length m + length b - (length m mod 64 + length b) = length m - length m mod 64" by simp
  moreover have "length m mod 64 \<le> 64 \<and> length m mod 64 + length b \<le> 64" using assms(2) by simp
  ultimately show ?thesis using assms(1) unfolding sha_fed_def length_append feed_less [OF assms(2)]
    by simp
qed

lemma update_loop_part:
  assumes "inp \<noteq> []" "\<not> (md_curlen md = 0 \<and> length inp \<ge> 64)" "md_curlen md < 64"
  defines "n \<equiv> min (length inp) (64 - md_curlen md)"
  defines "md1 \<equiv> md\<lparr>md_buf := mem_write (md_buf md) (md_curlen md) (take n inp), md_curlen := md_curlen md + n\<rparr>"
  shows "update_loop md inp = update_loop
    (if md_curlen md + n = 64
     then (snd (sha256_compress md1 (md_buf md1)))\<lparr>md_length := md_length md + 512, md_curlen := 0\<rparr>
     else md1) (drop n inp)"
proof -
  have "room (length inp) (md_curlen md) = n" using assms(3) by (simp add: room_def n_def)
  then show ?thesis using assms(1)
    by (simp only: update_loop.simps [of md inp] if_not_P [OF assms(2)] Let_def) (simp add: split_beta md1_def)
qed

lemma update_loop_feeds:
  fixes md :: "'w::len word sha256_state"
  assumes "32 \<le> LENGTH('w)" "sha_fed md m"
  shows "fst (update_loop md inp) = 0 \<and> sha_fed (snd (update_loop md inp)) (m @ inp)"
  using assms(2)
proof (induction inp arbitrary: md m rule: measure_induct_rule [of length])
  case (less inp)
  let ?c = "length m mod 64"
  have c: "md_curlen md = ?c" "length (md_buf md) = 64" "take ?c (md_buf md) = pending m"
    using less.prems by (simp_all add: sha_fed_def)
  consider (empty) "inp = []" | (block) "inp \<noteq> []" "?c = 0" "length inp \<ge> 64"
    | (part) "inp \<noteq> []" "\<not> (?c = 0 \<and> length inp \<ge> 64)" by auto
  then show ?case
  proof cases
    case empty
    then show ?thesis using less.prems by (simp add: update_loop.simps)
  next
    case block
    then have "pending m = []" by (metis length_0_conv length_pending)
    let ?md = "(snd (sha256_compress md (take 64 inp)))\<lparr>md_length := md_length md + 512\<rparr>"
    have "sha_fed ?md (m @ take 64 inp)"
      by (rule fed_block [OF assms(1) less.prems]) (use block c \<open>pending m = []\<close> in simp_all)
    then have "fst (update_loop ?md (drop 64 inp)) = 0 \<and> sha_fed (snd (update_loop ?md (drop 64 inp))) ((m @ take 64 inp) @ drop 64 inp)"
      by (rule less.IH [rotated]) (use block in simp)
    then show ?thesis using block c by (simp add: update_loop.simps [of md inp] split_beta)
  next
    case part
    let ?n = "min (length inp) (64 - ?c)"
    let ?md = "md\<lparr>md_buf := mem_write (md_buf md) ?c (take ?n inp), md_curlen := ?c + ?n\<rparr>"
    have "\<not> (md_curlen md = 0 \<and> length inp \<ge> 64)" "md_curlen md < 64" using part c by simp_all
    note e = update_loop_part [OF part(1) this, unfolded c(1)]
    show ?thesis
    proof (cases "?c + ?n = 64")
      case True
      have l: "?c + length (take ?n inp) = 64" using True by simp
      have "take 64 (md_buf ?md) = pending m @ take ?n inp" using c l take_mem_write_end [of ?c "take ?n inp" "md_buf md"] by simp
      then have buf: "md_buf ?md = pending m @ take ?n inp" using c l by simp
      let ?md' = "(snd (sha256_compress ?md (md_buf ?md)))\<lparr>md_length := md_length md + 512, md_curlen := 0\<rparr>"
      have s: "md_state ?md = md_state md" by simp
      have "sha_fed ?md' (m @ take ?n inp)"
        by (rule fed_block [OF assms(1) less.prems l _ s]) (use buf c l in simp_all)
      then have "fst (update_loop ?md' (drop ?n inp)) = 0 \<and> sha_fed (snd (update_loop ?md' (drop ?n inp))) ((m @ take ?n inp) @ drop ?n inp)"
        by (rule less.IH [rotated]) (use part True in auto)
      then show ?thesis unfolding e if_P [OF True] by (simp only: append.assoc append_take_drop_id)
    next
      case False
      have "sha_fed ?md (m @ take ?n inp)" using fed_less [OF less.prems, of "take ?n inp"] False by simp
      then have "fst (update_loop ?md (drop ?n inp)) = 0 \<and> sha_fed (snd (update_loop ?md (drop ?n inp))) ((m @ take ?n inp) @ drop ?n inp)"
        by (rule less.IH [rotated]) (use part False in auto)
      then show ?thesis unfolding e if_not_P [OF False] by (simp only: append.assoc append_take_drop_id)
    qed
  qed
qed

subsection \<open>The digest\<close>

lemma PUT_BE32_exact:
  "32 \<le> LENGTH('w::len) \<Longrightarrow> WPA_PUT_BE32 (v :: 'w word) = be_bytes 4 (unat (lo v))"
  by (simp add: WPA_PUT_BE32_def be_bytes_bits upt_rec, intro conjI; rule bit_word_eqI)
    (simp_all add: bit_simps bit_lo bit_255)

lemma PUT_BE64_exact: "WPA_PUT_BE64 (of_nat n) = be_bytes 8 n"
proof -
  have "WPA_PUT_BE64 v = be_bytes 8 (unat v)" for v
    by (simp add: WPA_PUT_BE64_def be_bytes_bits upt_rec, intro conjI; rule bit_word_eqI)
      (simp_all add: bit_simps bit_255)
  then show ?thesis using be_bytes_mod [of 8 n] by (simp add: unsigned_of_nat)
qed

lemma PUT_state:
  fixes s :: "'w::len word list"
  assumes "32 \<le> LENGTH('w)" "length s = 8"
  shows "concat (map (\<lambda>i. WPA_PUT_BE32 (s ! i)) [0..<8]) = concat (map (\<lambda>w. be_bytes 4 (unat w)) (map lo s))"
  using assms by (auto simp: length_8 PUT_BE32_exact upt_rec)

definition next_state :: "'w::len word list \<Rightarrow> byte list \<Rightarrow> 'w word list" where
  "next_state s b = map (\<lambda>i. s ! i + foldl (\<lambda>S i. shift_S (RND (fill_W b) S i)) s [0..<64] ! i) [0..<8]"

lemma compress_eq: "sha256_compress md b = (0, md\<lparr>md_state := next_state (md_state md) b\<rparr>)"
  by (simp add: sha256_compress_def next_state_def Let_def del: upt_rec_numeral)

lemma final_padded:
  fixes md :: "'w::len word sha256_state"
  assumes c: "md_curlen md = length p" "length (md_buf md) = 64" "take (length p) (md_buf md) = p" "length p < 64"
  defines "l \<equiv> WPA_PUT_BE64 (md_length md + of_nat (length p) * 8)"
  defines "s \<equiv> (if length p + 1 > 56
      then next_state (next_state (md_state md) (p @ 0x80 # replicate (63 - length p) 0)) (replicate 56 0 @ l)
      else next_state (md_state md) (p @ 0x80 # replicate (55 - length p) 0 @ l))"
  shows "fst (my_sha256_final out md) = 0" "fst (snd (my_sha256_final out md)) =
    mem_write out 0 (concat (map (\<lambda>i. WPA_PUT_BE32 (s ! i)) [0..<8]))"
proof -
  have ll: "length l = 8" by (simp add: l_def WPA_PUT_BE64_def)
  show "fst (my_sha256_final out md) = 0" using c by (simp add: my_sha256_final_def Let_def)
  show "fst (snd (my_sha256_final out md)) = mem_write out 0 (concat (map (\<lambda>i. WPA_PUT_BE32 (s ! i)) [0..<8]))"
  proof (cases "length p + 1 > 56")
    case True
    have "length (p @ 0x80 # replicate (63 - length p) 0 :: byte list) = 64" using c(4) by simp
    note z = put_full_block [OF c(2,4,3)] put_zero_block [OF this ll]
    have x: "max 64 (length p + 1) = 64" using c(4) by simp
    show ?thesis using True c(4) z
      by (simp add: my_sha256_final_def Let_def put_zeros_def compress_eq c(1) s_def l_def x del: upt_rec_numeral)
  next
    case False
    then have "length p < 56" by simp
    note z = put_last_block [OF c(2) this c(3) ll]
    have x: "max 56 (length p + 1) = 56" using False by simp
    show ?thesis using False c(4) z
      by (simp add: my_sha256_final_def Let_def put_zeros_def compress_eq c(1) s_def l_def x del: upt_rec_numeral)
  qed
qed

lemma final_digest:
  fixes md :: "'w::len word sha256_state"
  assumes w: "32 \<le> LENGTH('w)" and fed: "sha_fed md m"
  shows "fst (my_sha256_final out md) = 0" "fst (snd (my_sha256_final out md)) = mem_write out 0 (SHA256 m)"
proof -
  let ?p = "pending m" and ?l = "WPA_PUT_BE64 (of_nat (8 * length m))"
  have c: "md_curlen md = length ?p" "length (md_buf md) = 64" "take (length ?p) (md_buf md) = ?p" "length ?p < 64"
    and s: "length (md_state md) = 8" "map lo (md_state md) = blocks_fold fips_compress fips_H0 m"
    using fed by (simp_all add: sha_fed_def)
  have "8 * (length m - length m mod 64) + length m mod 64 * 8 = 8 * length m"
    by (simp add: diff_mult_distrib2)
  from arg_cong [OF this, of "of_nat :: nat \<Rightarrow> 64 word"]
  have "of_nat (8 * (length m - length m mod 64)) + of_nat (length m mod 64) * 8 = (of_nat (8 * length m) :: 64 word)"
    by (simp only: of_nat_add of_nat_mult of_nat_numeral)
  moreover have "md_length md = of_nat (8 * (length m - length m mod 64))" using fed by (simp only: sha_fed_def)
  ultimately have l: "md_length md + of_nat (length ?p) * 8 = of_nat (8 * length m)"
    by (simp only: length_pending)
  have n: "map lo (next_state t b) = fips_compress (map lo t) b \<and> length (next_state t b) = 8" if "length t = 8" for t :: "'w word list" and b
    using compress_exact [OF w, of "md\<lparr>md_state := t\<rparr>" b] compress_frame(5) [of "md\<lparr>md_state := t\<rparr>" b] that
    by (simp add: compress_eq)
  have ll: "length ?l = 8" by (simp add: WPA_PUT_BE64_def)
  let ?s = "if length ?p + 1 > 56
      then next_state (next_state (md_state md) (?p @ 0x80 # replicate (63 - length ?p) 0)) (replicate 56 0 @ ?l)
      else next_state (md_state md) (?p @ 0x80 # replicate (55 - length ?p) 0 @ ?l)"
  have "map lo ?s = blocks_fold fips_compress fips_H0 (m @ padding (length m) @ ?l)" and sl: "length ?s = 8"
    unfolding blocks_fold_padding [OF ll] using n s by (auto split: if_split)
  then have "SHA256 m = concat (map (\<lambda>w. be_bytes 4 (unat w)) (map lo ?s))"
    by (simp only: SHA256_def PUT_BE64_exact)
  also have "\<dots> = concat (map (\<lambda>i. WPA_PUT_BE32 (?s ! i)) [0..<8])" by (rule PUT_state [OF w sl, symmetric])
  finally show "fst (snd (my_sha256_final out md)) = mem_write out 0 (SHA256 m)"
    using final_padded(2) [OF c, of out, unfolded l] by (simp only:)
  show "fst (my_sha256_final out md) = 0" by (rule final_padded(1) [OF c])
qed

lemma update_feeds:
  fixes md :: "'w::len word sha256_state"
  assumes "32 \<le> LENGTH('w)" "sha_fed md m"
  shows "fst (my_sha256_update md d) = 0" "sha_fed (snd (my_sha256_update md d)) (m @ d)"
proof -
  have "\<not> md_curlen md > 64" using assms(2) by (simp add: sha_fed_def)
  then show "fst (my_sha256_update md d) = 0" "sha_fed (snd (my_sha256_update md d)) (m @ d)"
    using update_loop_feeds [OF assms, of d] by (simp_all add: my_sha256_update_def)
qed

lemma updates_feed:
  fixes md :: "'w::len word sha256_state"
  assumes "32 \<le> LENGTH('w)" "sha_fed md m"
  shows "sha_fed (foldl (\<lambda>c d. snd (my_sha256_update c d)) md ds) (m @ concat ds)"
  using assms(2)
proof (induction ds arbitrary: md m)
  case (Cons d ds)
  from Cons.IH [OF update_feeds(2) [OF assms(1) Cons.prems, of d]] show ?case by simp
qed simp

text \<open>
  C32. SHA-256 fed in any pieces: the context, initialised in whatever memory and fed the pieces
  of a message, gives the digest of the standard for the whole message, on any platform whose
  \<open>unsigned long\<close> has at least 32 bits; 32 bytes of the output are written.
\<close>

theorem sha256_streaming:
  fixes md :: "'w::len word sha256_state" and ds :: "byte list list"
  assumes "32 \<le> LENGTH('w)" "length (md_buf md) = 64"
  defines "fed \<equiv> foldl (\<lambda>c d. snd (my_sha256_update c d)) (snd (my_sha256_init md)) ds"
  shows "fst (my_sha256_final out fed) = 0 \<and>
    fst (snd (my_sha256_final out fed)) = mem_write out 0 (SHA256 (concat ds))"
proof -
  have "sha_fed fed ([] @ concat ds)"
    unfolding fed_def by (rule updates_feed [OF assms(1) sha_fed_init [OF assms(1,2)]])
  then show ?thesis using final_digest [OF assms(1)] by simp
qed

theorem sha256_streaming_witness:
  "let fed = foldl (\<lambda>c d. snd (my_sha256_update c d))
       (snd (my_sha256_init (\<lparr>md_length = 7, md_state = [], md_curlen = 99, md_buf = replicate 64 0\<rparr> :: 64 word sha256_state)))
       [s2b ''a'', s2b ''bc'']
   in fst (my_sha256_final (replicate 32 0) fed) = 0 \<and>
     fst (snd (my_sha256_final (replicate 32 0) fed)) = mem_write (replicate 32 0) 0 (SHA256 (concat [s2b ''a'', s2b ''bc'']))"
  unfolding Let_def by (rule sha256_streaming) simp_all

text \<open>
  \<open>Curl_sha256it\<close> writes the SHA-256 of its input, except that the length is converted to
  an \<open>unsigned int\<close>: of longer inputs it hashes what the low 32 bits of the length count.
\<close>

theorem sha256it_exact:
  fixes ctx :: "'w::len word sha256_state"
  assumes "32 \<le> LENGTH('w)" "length (md_buf ctx) = 64"
  shows "Curl_sha256it ctx output inp =
    (CURLE_OK, mem_write output 0 (SHA256 (take (length inp mod 2 ^ 32) inp)))"
  using final_digest(2) [OF assms(1) update_feeds(2) [OF assms(1) sha_fed_init [OF assms], of "take (curlx_uztoui (length inp)) inp"], of "output"]
  by (simp add: Curl_sha256it_def my_sha256_init_def Let_def uztoui_mod)

theorem sha256it_exact_witness:
  "Curl_sha256it (\<lparr>md_length = 7, md_state = [], md_curlen = 99, md_buf = replicate 64 0\<rparr> :: 32 word sha256_state) [] (s2b ''abc'') =
    (CURLE_OK, mem_write [] 0 (SHA256 (take (length (s2b ''abc'') mod 2 ^ 32) (s2b ''abc''))))"
  by (rule sha256it_exact) simp_all

lemma length_fips_round: "length s = 8 \<Longrightarrow> length (fips_round k w s) = 8"
  by (auto simp: length_8 Let_def)

lemma length_SHA256: "length (SHA256 m) = 32"
proof -
  have "length (fips_compress h b) = 8" if "length h = 8" for h b
  proof -
    have "length (foldl (\<lambda>s t. fips_round (fips_K ! t) (fips_W b t) s) h ts) = 8" for ts
      using that by (induction ts arbitrary: h) (simp_all add: length_fips_round)
    then show ?thesis using that by (simp add: fips_compress_def)
  qed
  then have "length (blocks_fold fips_compress h x) = 8" if "length h = 8" for h x
    using that by (induction fips_compress h x rule: blocks_fold.induct) (simp add: blocks_fold.simps)
  then have "length (blocks_fold fips_compress fips_H0 x) = 8" for x by (simp add: fips_H0_code)
  then show ?thesis by (simp add: SHA256_def length_concat comp_def sum_list_triv)
qed

end
