(* ===== verification/Md5.thy ===== *)
theory Md5
  imports Blocks
begin

text \<open>
  MD5 as the library computes it when no other implementation is compiled in, \<open>md5.c\<close>, and the
  handles through which a digest is fed piece by piece. A word is an \<open>unsigned int\<close>. The number
  of bytes fed is split: \<open>lo\<close> has its low 29 bits, \<open>hi\<close> the rest. Data passed with a length is the
  list of its bytes.

  The reference is the algorithm of RFC 1321, in its loop of 64 steps on rotating variables.
\<close>

subsection \<open>The code\<close>

record md5_ctx =
  md5_lo :: "32 word"
  md5_hi :: "32 word"
  md5_a :: "32 word"
  md5_b :: "32 word"
  md5_c :: "32 word"
  md5_d :: "32 word"
  md5_buffer :: "byte list"
  md5_block :: "32 word list"

definition md5_F :: "32 word \<Rightarrow> 32 word \<Rightarrow> 32 word \<Rightarrow> 32 word" where
  "md5_F x y z = z XOR (x AND (y XOR z))"

definition md5_G :: "32 word \<Rightarrow> 32 word \<Rightarrow> 32 word \<Rightarrow> 32 word" where
  "md5_G x y z = y XOR (z AND (x XOR y))"

definition md5_H :: "32 word \<Rightarrow> 32 word \<Rightarrow> 32 word \<Rightarrow> 32 word" where
  "md5_H x y z = (x XOR y) XOR z"

definition md5_H2 :: "32 word \<Rightarrow> 32 word \<Rightarrow> 32 word \<Rightarrow> 32 word" where
  "md5_H2 x y z = x XOR (y XOR z)"

definition md5_I :: "32 word \<Rightarrow> 32 word \<Rightarrow> 32 word \<Rightarrow> 32 word" where
  "md5_I x y z = y XOR (x OR NOT z)"

definition md5_STEP :: "(32 word \<Rightarrow> 32 word \<Rightarrow> 32 word \<Rightarrow> 32 word) \<Rightarrow> 32 word \<Rightarrow> 32 word \<Rightarrow> 32 word \<Rightarrow> 32 word
    \<Rightarrow> 32 word \<Rightarrow> 32 word \<Rightarrow> nat \<Rightarrow> 32 word" where
  "md5_STEP f a b c d x t s =
     (let a = a + (f b c d + x + t);
          a = push_bit s a OR drop_bit (32 - s) (a AND 0xffffffff)
      in a + b)"

text \<open>
  The word that \<open>SET\<close> reads, in little endian order, whether it loads it or assembles it from
  bytes. The first round sets the 16 words in order and the others get them.
\<close>

definition md5_SET :: "byte list \<Rightarrow> nat \<Rightarrow> 32 word" where
  "md5_SET ptr n =
     ucast (ptr ! (n * 4)) OR push_bit 8 (ucast (ptr ! (n * 4 + 1)))
     OR push_bit 16 (ucast (ptr ! (n * 4 + 2))) OR push_bit 24 (ucast (ptr ! (n * 4 + 3)))"

type_synonym md5_regs = "32 word \<times> 32 word \<times> 32 word \<times> 32 word"

definition md5_round1 :: "(nat \<Rightarrow> 32 word) \<Rightarrow> md5_regs \<Rightarrow> md5_regs" where
  "md5_round1 X = (\<lambda>(a, b, c, d).
     let a = md5_STEP md5_F a b c d (X 0) 0xd76aa478 7 in
     let d = md5_STEP md5_F d a b c (X 1) 0xe8c7b756 12 in
     let c = md5_STEP md5_F c d a b (X 2) 0x242070db 17 in
     let b = md5_STEP md5_F b c d a (X 3) 0xc1bdceee 22 in
     let a = md5_STEP md5_F a b c d (X 4) 0xf57c0faf 7 in
     let d = md5_STEP md5_F d a b c (X 5) 0x4787c62a 12 in
     let c = md5_STEP md5_F c d a b (X 6) 0xa8304613 17 in
     let b = md5_STEP md5_F b c d a (X 7) 0xfd469501 22 in
     let a = md5_STEP md5_F a b c d (X 8) 0x698098d8 7 in
     let d = md5_STEP md5_F d a b c (X 9) 0x8b44f7af 12 in
     let c = md5_STEP md5_F c d a b (X 10) 0xffff5bb1 17 in
     let b = md5_STEP md5_F b c d a (X 11) 0x895cd7be 22 in
     let a = md5_STEP md5_F a b c d (X 12) 0x6b901122 7 in
     let d = md5_STEP md5_F d a b c (X 13) 0xfd987193 12 in
     let c = md5_STEP md5_F c d a b (X 14) 0xa679438e 17 in
     let b = md5_STEP md5_F b c d a (X 15) 0x49b40821 22 in
     (a, b, c, d))"

definition md5_round2 :: "(nat \<Rightarrow> 32 word) \<Rightarrow> md5_regs \<Rightarrow> md5_regs" where
  "md5_round2 X = (\<lambda>(a, b, c, d).
     let a = md5_STEP md5_G a b c d (X 1) 0xf61e2562 5 in
     let d = md5_STEP md5_G d a b c (X 6) 0xc040b340 9 in
     let c = md5_STEP md5_G c d a b (X 11) 0x265e5a51 14 in
     let b = md5_STEP md5_G b c d a (X 0) 0xe9b6c7aa 20 in
     let a = md5_STEP md5_G a b c d (X 5) 0xd62f105d 5 in
     let d = md5_STEP md5_G d a b c (X 10) 0x02441453 9 in
     let c = md5_STEP md5_G c d a b (X 15) 0xd8a1e681 14 in
     let b = md5_STEP md5_G b c d a (X 4) 0xe7d3fbc8 20 in
     let a = md5_STEP md5_G a b c d (X 9) 0x21e1cde6 5 in
     let d = md5_STEP md5_G d a b c (X 14) 0xc33707d6 9 in
     let c = md5_STEP md5_G c d a b (X 3) 0xf4d50d87 14 in
     let b = md5_STEP md5_G b c d a (X 8) 0x455a14ed 20 in
     let a = md5_STEP md5_G a b c d (X 13) 0xa9e3e905 5 in
     let d = md5_STEP md5_G d a b c (X 2) 0xfcefa3f8 9 in
     let c = md5_STEP md5_G c d a b (X 7) 0x676f02d9 14 in
     let b = md5_STEP md5_G b c d a (X 12) 0x8d2a4c8a 20 in
     (a, b, c, d))"

definition md5_round3 :: "(nat \<Rightarrow> 32 word) \<Rightarrow> md5_regs \<Rightarrow> md5_regs" where
  "md5_round3 X = (\<lambda>(a, b, c, d).
     let a = md5_STEP md5_H a b c d (X 5) 0xfffa3942 4 in
     let d = md5_STEP md5_H2 d a b c (X 8) 0x8771f681 11 in
     let c = md5_STEP md5_H c d a b (X 11) 0x6d9d6122 16 in
     let b = md5_STEP md5_H2 b c d a (X 14) 0xfde5380c 23 in
     let a = md5_STEP md5_H a b c d (X 1) 0xa4beea44 4 in
     let d = md5_STEP md5_H2 d a b c (X 4) 0x4bdecfa9 11 in
     let c = md5_STEP md5_H c d a b (X 7) 0xf6bb4b60 16 in
     let b = md5_STEP md5_H2 b c d a (X 10) 0xbebfbc70 23 in
     let a = md5_STEP md5_H a b c d (X 13) 0x289b7ec6 4 in
     let d = md5_STEP md5_H2 d a b c (X 0) 0xeaa127fa 11 in
     let c = md5_STEP md5_H c d a b (X 3) 0xd4ef3085 16 in
     let b = md5_STEP md5_H2 b c d a (X 6) 0x04881d05 23 in
     let a = md5_STEP md5_H a b c d (X 9) 0xd9d4d039 4 in
     let d = md5_STEP md5_H2 d a b c (X 12) 0xe6db99e5 11 in
     let c = md5_STEP md5_H c d a b (X 15) 0x1fa27cf8 16 in
     let b = md5_STEP md5_H2 b c d a (X 2) 0xc4ac5665 23 in
     (a, b, c, d))"

definition md5_round4 :: "(nat \<Rightarrow> 32 word) \<Rightarrow> md5_regs \<Rightarrow> md5_regs" where
  "md5_round4 X = (\<lambda>(a, b, c, d).
     let a = md5_STEP md5_I a b c d (X 0) 0xf4292244 6 in
     let d = md5_STEP md5_I d a b c (X 7) 0x432aff97 10 in
     let c = md5_STEP md5_I c d a b (X 14) 0xab9423a7 15 in
     let b = md5_STEP md5_I b c d a (X 5) 0xfc93a039 21 in
     let a = md5_STEP md5_I a b c d (X 12) 0x655b59c3 6 in
     let d = md5_STEP md5_I d a b c (X 3) 0x8f0ccc92 10 in
     let c = md5_STEP md5_I c d a b (X 10) 0xffeff47d 15 in
     let b = md5_STEP md5_I b c d a (X 1) 0x85845dd1 21 in
     let a = md5_STEP md5_I a b c d (X 8) 0x6fa87e4f 6 in
     let d = md5_STEP md5_I d a b c (X 15) 0xfe2ce6e0 10 in
     let c = md5_STEP md5_I c d a b (X 6) 0xa3014314 15 in
     let b = md5_STEP md5_I b c d a (X 13) 0x4e0811a1 21 in
     let a = md5_STEP md5_I a b c d (X 4) 0xf7537e82 6 in
     let d = md5_STEP md5_I d a b c (X 11) 0xbd3af235 10 in
     let c = md5_STEP md5_I c d a b (X 2) 0x2ad7d2bb 15 in
     let b = md5_STEP md5_I b c d a (X 9) 0xeb86d391 21 in
     (a, b, c, d))"

definition md5_one_block :: "byte list \<Rightarrow> md5_regs \<Rightarrow> md5_regs" where
  "md5_one_block ptr = (\<lambda>(saved_a, saved_b, saved_c, saved_d).
     let X = md5_SET ptr;
         (a, b, c, d) = md5_round4 X (md5_round3 X (md5_round2 X (md5_round1 X (saved_a, saved_b, saved_c, saved_d))))
     in (a + saved_a, b + saved_b, c + saved_c, d + saved_d))"

text \<open>The loop \<open>do ... while(size -= 64)\<close>, entered with a positive multiple of 64 bytes.\<close>

fun md5_blocks :: "byte list \<Rightarrow> md5_regs \<Rightarrow> md5_regs" where
  "md5_blocks ptr r =
     (let r = md5_one_block (take 64 ptr) r; ptr = drop 64 ptr
      in if ptr = [] then r else md5_blocks ptr r)"

declare md5_blocks.simps [simp del]

text \<open>\<open>body\<close> leaves the words of the last block in \<open>block\<close>, where they are not read again.\<close>

definition md5_body :: "md5_ctx \<Rightarrow> byte list \<Rightarrow> md5_ctx" where
  "md5_body ctx data =
     (let (a, b, c, d) = md5_blocks data (md5_a ctx, md5_b ctx, md5_c ctx, md5_d ctx)
      in ctx\<lparr>md5_a := a, md5_b := b, md5_c := c, md5_d := d,
           md5_block := map (md5_SET (drop (length data - 64) data)) [0..<16]\<rparr>)"

definition my_md5_init :: "md5_ctx \<Rightarrow> CURLcode \<times> md5_ctx" where
  "my_md5_init ctx =
     (CURLE_OK, ctx\<lparr>md5_a := 0x67452301, md5_b := 0xefcdab89, md5_c := 0x98badcfe, md5_d := 0x10325476,
       md5_lo := 0, md5_hi := 0\<rparr>)"

definition md5_count :: "md5_ctx \<Rightarrow> nat \<Rightarrow> md5_ctx" where
  "md5_count ctx len =
     (let saved_lo = md5_lo ctx;
          ctx = ctx\<lparr>md5_lo := (saved_lo + of_nat len) AND 0x1fffffff\<rparr>;
          ctx = (if md5_lo ctx < saved_lo then ctx\<lparr>md5_hi := md5_hi ctx + 1\<rparr> else ctx)
      in ctx\<lparr>md5_hi := md5_hi ctx + drop_bit 29 (of_nat len)\<rparr>)"

definition md5_rest :: "md5_ctx \<Rightarrow> byte list \<Rightarrow> md5_ctx" where
  "md5_rest ctx data =
     (let len = length data;
          whole = len - len mod 64;
          ctx = (if len \<ge> 64 then md5_body ctx (take whole data) else ctx);
          data = (if len \<ge> 64 then drop whole data else data)
      in ctx\<lparr>md5_buffer := mem_write (md5_buffer ctx) 0 data\<rparr>)"

definition my_md5_update :: "md5_ctx \<Rightarrow> byte list \<Rightarrow> md5_ctx" where
  "my_md5_update ctx data =
     (let used = unat (md5_lo ctx AND 0x3f); ctx = md5_count ctx (length data)
      in if used \<noteq> 0 then
           (let available = 64 - used
            in if length data < available
               then ctx\<lparr>md5_buffer := mem_write (md5_buffer ctx) used data\<rparr>
               else
                 (let ctx = ctx\<lparr>md5_buffer := mem_write (md5_buffer ctx) used (take available data)\<rparr>
                  in md5_rest (md5_body ctx (md5_buffer ctx)) (drop available data)))
         else md5_rest ctx data)"

text \<open>A word, least significant byte first.\<close>

definition md5_put :: "32 word \<Rightarrow> byte list" where
  "md5_put w =
     [ucast (w AND 0xff), ucast (drop_bit 8 w AND 0xff), ucast (drop_bit 16 w AND 0xff), ucast (drop_bit 24 w)]"

text \<open>\<open>memset(ctx, 0, sizeof(*ctx))\<close>\<close>

definition md5_cleared :: md5_ctx where
  "md5_cleared = \<lparr>md5_lo = 0, md5_hi = 0, md5_a = 0, md5_b = 0, md5_c = 0, md5_d = 0,
     md5_buffer = replicate 64 0, md5_block = replicate 16 0\<rparr>"

definition my_md5_final :: "byte list \<Rightarrow> md5_ctx \<Rightarrow> byte list \<times> md5_ctx" where
  "my_md5_final result ctx =
     (let used = unat (md5_lo ctx AND 0x3f);
          ctx = ctx\<lparr>md5_buffer := mem_write (md5_buffer ctx) used [0x80]\<rparr>;
          used = used + 1;
          available = 64 - used;
          (ctx, used, available) =
            (if available < 8 then
               (let ctx = ctx\<lparr>md5_buffer := mem_write (md5_buffer ctx) used (replicate available 0)\<rparr>
                in (md5_body ctx (md5_buffer ctx), 0, 64))
             else (ctx, used, available));
          ctx = ctx\<lparr>md5_buffer := mem_write (md5_buffer ctx) used (replicate (available - 8) 0)\<rparr>;
          ctx = ctx\<lparr>md5_lo := push_bit 3 (md5_lo ctx)\<rparr>;
          ctx = ctx\<lparr>md5_buffer := mem_write (md5_buffer ctx) 56 (md5_put (md5_lo ctx) @ md5_put (md5_hi ctx))\<rparr>;
          ctx = md5_body ctx (md5_buffer ctx)
      in (mem_write result 0 (md5_put (md5_a ctx) @ md5_put (md5_b ctx) @ md5_put (md5_c ctx) @ md5_put (md5_d ctx)),
          md5_cleared))"

definition Curl_md5it :: "md5_ctx \<Rightarrow> byte list \<Rightarrow> byte list \<Rightarrow> CURLcode \<times> byte list" where
  "Curl_md5it ctx outbuffer inp =
     (let (result, ctx) = my_md5_init ctx
      in if result = CURLE_OK
         then (result, fst (my_md5_final outbuffer (my_md5_update ctx (take (curlx_uztoui (length inp)) inp))))
         else (result, outbuffer))"

text \<open>The handles: a table of functions, and the ctxt they work on, both allocated.\<close>

record 'c MD5_params =
  md5_init_func :: "'c \<Rightarrow> CURLcode \<times> 'c"
  md5_update_func :: "'c \<Rightarrow> byte list \<Rightarrow> 'c"
  md5_final_func :: "byte list \<Rightarrow> 'c \<Rightarrow> byte list \<times> 'c"
  md5_resultlen :: nat

record 'c MD5_context =
  md5_hash :: "'c MD5_params"
  md5_hashctx :: 'c

definition Curl_DIGEST_MD5 :: "md5_ctx MD5_params" where
  "Curl_DIGEST_MD5 = \<lparr>md5_init_func = my_md5_init, md5_update_func = my_md5_update,
     md5_final_func = my_md5_final, md5_resultlen = 16\<rparr>"

definition Curl_MD5_init :: "'c MD5_params \<Rightarrow> 'c \<Rightarrow> alloc_script \<Rightarrow> 'c MD5_context option \<times> alloc_script" where
  "Curl_MD5_init md5params mem A =
     (let (ok, A) = alloc A
      in if \<not> ok then (None, A)
         else
           (let (ok, A) = alloc A
            in if \<not> ok then (None, A)
               else
                 (let (rc, c) = md5_init_func md5params mem
                  in if rc \<noteq> CURLE_OK then (None, A) else (Some \<lparr>md5_hash = md5params, md5_hashctx = c\<rparr>, A))))"

definition Curl_MD5_update :: "'c MD5_context \<Rightarrow> byte list \<Rightarrow> CURLcode \<times> 'c MD5_context" where
  "Curl_MD5_update ctxt data =
     (CURLE_OK, ctxt\<lparr>md5_hashctx := md5_update_func (md5_hash ctxt) (md5_hashctx ctxt) data\<rparr>)"

text \<open>The handle is freed.\<close>

definition Curl_MD5_final :: "'c MD5_context \<Rightarrow> byte list \<Rightarrow> CURLcode \<times> byte list" where
  "Curl_MD5_final ctxt result =
     (CURLE_OK, fst (md5_final_func (md5_hash ctxt) result (md5_hashctx ctxt)))"

subsection \<open>RFC 1321\<close>

definition rfc_T :: "32 word list" where
  "rfc_T = [
  0xd76aa478, 0xe8c7b756, 0x242070db, 0xc1bdceee,
  0xf57c0faf, 0x4787c62a, 0xa8304613, 0xfd469501,
  0x698098d8, 0x8b44f7af, 0xffff5bb1, 0x895cd7be,
  0x6b901122, 0xfd987193, 0xa679438e, 0x49b40821,
  0xf61e2562, 0xc040b340, 0x265e5a51, 0xe9b6c7aa,
  0xd62f105d, 0x02441453, 0xd8a1e681, 0xe7d3fbc8,
  0x21e1cde6, 0xc33707d6, 0xf4d50d87, 0x455a14ed,
  0xa9e3e905, 0xfcefa3f8, 0x676f02d9, 0x8d2a4c8a,
  0xfffa3942, 0x8771f681, 0x6d9d6122, 0xfde5380c,
  0xa4beea44, 0x4bdecfa9, 0xf6bb4b60, 0xbebfbc70,
  0x289b7ec6, 0xeaa127fa, 0xd4ef3085, 0x04881d05,
  0xd9d4d039, 0xe6db99e5, 0x1fa27cf8, 0xc4ac5665,
  0xf4292244, 0x432aff97, 0xab9423a7, 0xfc93a039,
  0x655b59c3, 0x8f0ccc92, 0xffeff47d, 0x85845dd1,
  0x6fa87e4f, 0xfe2ce6e0, 0xa3014314, 0x4e0811a1,
  0xf7537e82, 0xbd3af235, 0x2ad7d2bb, 0xeb86d391]"

definition rfc_f :: "nat \<Rightarrow> 32 word \<Rightarrow> 32 word \<Rightarrow> 32 word \<Rightarrow> 32 word" where
  "rfc_f i x y z =
     (if i < 16 then (x AND y) OR (NOT x AND z)
      else if i < 32 then (x AND z) OR (y AND NOT z)
      else if i < 48 then x XOR y XOR z
      else y XOR (x OR NOT z))"

definition rfc_k :: "nat \<Rightarrow> nat" where
  "rfc_k i = (if i < 16 then i else if i < 32 then (5 * i + 1) mod 16 else if i < 48 then (3 * i + 5) mod 16 else 7 * i mod 16)"

definition rfc_s :: "nat \<Rightarrow> nat" where
  "rfc_s i = (if i < 16 then [7, 12, 17, 22] else if i < 32 then [5, 9, 14, 20]
     else if i < 48 then [4, 11, 16, 23] else [6, 10, 15, 21]) ! (i mod 4)"

definition rfc_word :: "byte list \<Rightarrow> nat \<Rightarrow> 32 word" where
  "rfc_word m k = word_of_nat (unat (m ! (4 * k)) + unat (m ! (4 * k + 1)) * 2 ^ 8
     + unat (m ! (4 * k + 2)) * 2 ^ 16 + unat (m ! (4 * k + 3)) * 2 ^ 24)"

definition rfc_step :: "(nat \<Rightarrow> 32 word) \<Rightarrow> md5_regs \<Rightarrow> nat \<Rightarrow> md5_regs" where
  "rfc_step X = (\<lambda>(a, b, c, d) i. (d, b + word_rotl (rfc_s i) (a + rfc_f i b c d + X (rfc_k i) + rfc_T ! i), b, c))"

definition rfc_compress :: "md5_regs \<Rightarrow> byte list \<Rightarrow> md5_regs" where
  "rfc_compress h m = (case (h, foldl (rfc_step (rfc_word m)) h [0..<64]) of
     ((a, b, c, d), (a', b', c', d')) \<Rightarrow> (a + a', b + b', c + c', d + d'))"

definition rfc_output :: "md5_regs \<Rightarrow> byte list" where
  "rfc_output = (\<lambda>(a, b, c, d). concat (map (\<lambda>w. le_bytes 4 (unat w)) [a, b, c, d]))"

definition MD5 :: "byte list \<Rightarrow> byte list" where
  "MD5 m = rfc_output (blocks_fold rfc_compress (0x67452301, 0xefcdab89, 0x98badcfe, 0x10325476)
     (m @ padding (length m) @ le_bytes 8 (8 * length m)))"

subsection \<open>A block\<close>

lemma SET_word: "md5_SET m = rfc_word m"
proof
  fix k
  let ?a = "m ! (4 * k)" and ?b = "m ! (4 * k + 1)" and ?c = "m ! (4 * k + 2)" and ?d = "m ! (4 * k + 3)"
  have a: "unat ?a < 2 ^ 8" and b: "unat ?b * 2 ^ 8 + unat ?a < 2 ^ 16"
    and c: "unat ?c * 2 ^ 16 + (unat ?b * 2 ^ 8 + unat ?a) < 2 ^ 24"
    using unat_byte [of ?a] unat_byte [of ?b] unat_byte [of ?c]
    by (simp_all del: unat_byte)
  have "unat ?a + unat ?b * 2 ^ 8 + unat ?c * 2 ^ 16 + unat ?d * 2 ^ 24 =
      unat ?d * 2 ^ 24 + (unat ?c * 2 ^ 16 + (unat ?b * 2 ^ 8 + unat ?a))" by simp
  also have "\<dots> = push_bit 24 (unat ?d) OR (push_bit 16 (unat ?c) OR (push_bit 8 (unat ?b) OR unat ?a))"
    by (simp only: or_add_push [OF a] or_add_push [OF b] or_add_push [OF c])
  finally have "rfc_word m k = word_of_nat (push_bit 24 (unat ?d) OR (push_bit 16 (unat ?c) OR (push_bit 8 (unat ?b) OR unat ?a)))"
    by (simp only: rfc_word_def)
  also have "\<dots> = md5_SET m k"
    unfolding md5_SET_def mult.commute [of k] by (rule bit_word_eqI) (auto simp: bit_simps)
  finally show "md5_SET m k = rfc_word m k" ..
qed

lemma bit_0xffffffff_32 [simp]: "(w :: 32 word) AND 0xffffffff = w"
proof -
  have "(0xffffffff :: 32 word) = - 1" by simp
  then show ?thesis by (simp only: and.right_neutral)
qed

lemma STEP_rotl:
  assumes "0 < s" "s < 32"
  shows "md5_STEP f a b c d x t s = b + word_rotl s (a + f b c d + x + t)"
proof -
  have "push_bit s w OR drop_bit (32 - s) w = word_rotl s w" for w :: "32 word"
  proof (rule bit_word_eqI)
    fix n assume "n < LENGTH(32)"
    then have n: "n < 32" by simp
    have "bit (push_bit s w OR drop_bit (32 - s) w) n \<longleftrightarrow> bit w (if n < s then n + (32 - s) else n - s)"
      using n assms by (auto simp: bit_simps add.commute dest: bit_imp_le_length)
    also have "(if n < s then n + (32 - s) else n - s) = (n + (32 - s)) mod 32"
      using assms n by (auto simp: le_mod_geq)
    also have "bit w \<dots> \<longleftrightarrow> bit (word_rotl s w) n" using n assms by (simp add: bit_word_rotl_iff)
    finally show "bit (push_bit s w OR drop_bit (32 - s) w) n \<longleftrightarrow> bit (word_rotl s w) n" .
  qed
  then show ?thesis by (simp add: md5_STEP_def Let_def add.commute add.left_commute)
qed

lemma rfc_f_code:
  "i < 16 \<Longrightarrow> rfc_f i = md5_F" "16 \<le> i \<Longrightarrow> i < 32 \<Longrightarrow> rfc_f i = md5_G"
  "32 \<le> i \<Longrightarrow> i < 48 \<Longrightarrow> rfc_f i = md5_H" "48 \<le> i \<Longrightarrow> rfc_f i = md5_I"
  by (intro ext bit_word_eqI; auto simp: rfc_f_def md5_F_def md5_G_def md5_H_def md5_I_def bit_simps)+

lemma H2_H: "md5_H2 = md5_H"
  by (intro ext) (simp add: md5_H2_def md5_H_def xor.assoc)

text \<open>Sixteen steps, as the table of their operands: the index of the word, the constant, the rotation.\<close>

definition table_step :: "(32 word \<Rightarrow> 32 word \<Rightarrow> 32 word \<Rightarrow> 32 word) \<Rightarrow> (nat \<Rightarrow> 32 word) \<Rightarrow> md5_regs \<Rightarrow> nat \<times> 32 word \<times> nat \<Rightarrow> md5_regs" where
  "table_step f X = (\<lambda>(a, b, c, d) (k, t, s). (d, md5_STEP f a b c d (X k) t s, b, c))"

definition rfc_row :: "nat \<Rightarrow> nat \<times> 32 word \<times> nat" where
  "rfc_row i = (rfc_k i, rfc_T ! i, rfc_s i)"

lemma rfc_s_bounds: "0 < rfc_s i \<and> rfc_s i < 32"
proof -
  have "i mod 4 = 0 \<or> i mod 4 = 1 \<or> i mod 4 = 2 \<or> i mod 4 = 3" by presburger
  then show ?thesis by (auto simp: rfc_s_def)
qed

lemma foldl_table:
  assumes "map rfc_row [i..<j] = rows" "\<And>n. i \<le> n \<Longrightarrow> n < j \<Longrightarrow> rfc_f n = f"
  shows "foldl (rfc_step X) r [i..<j] = foldl (table_step f X) r rows"
proof -
  have "foldl (rfc_step X) r [i..<j] = foldl (\<lambda>r n. table_step f X r (rfc_row n)) r [i..<j]"
    by (rule foldl_cong) (auto simp: rfc_step_def table_step_def rfc_row_def STEP_rotl rfc_s_bounds assms(2))
  then show ?thesis by (simp add: assms(1) [symmetric] foldl_map)
qed

lemma table_let:
  "foldl (table_step f X) (a, b, c, d) ((k, t, s) # rows) =
    (let a = md5_STEP f a b c d (X k) t s in foldl (table_step f X) (d, a, b, c) rows)"
  by (simp add: table_step_def)

lemma round1: "md5_round1 X r = foldl (rfc_step X) r [0..<16]"
proof -
  have "map rfc_row [0..<16] = [
    (0, 0xd76aa478, 7), (1, 0xe8c7b756, 12), (2, 0x242070db, 17), (3, 0xc1bdceee, 22),
    (4, 0xf57c0faf, 7), (5, 0x4787c62a, 12), (6, 0xa8304613, 17), (7, 0xfd469501, 22),
    (8, 0x698098d8, 7), (9, 0x8b44f7af, 12), (10, 0xffff5bb1, 17), (11, 0x895cd7be, 22),
    (12, 0x6b901122, 7), (13, 0xfd987193, 12), (14, 0xa679438e, 17), (15, 0x49b40821, 22)]"
    by (simp add: upt_rec rfc_row_def rfc_k_def rfc_s_def rfc_T_def)
  then have "foldl (rfc_step X) r [0..<16] = foldl (table_step md5_F X) r \<dots>"
    by (rule foldl_table) (simp add: rfc_f_code)
  then show ?thesis
    by (cases r) (simp only: md5_round1_def table_let foldl_Nil case_prod_conv)
qed

lemma round2: "md5_round2 X r = foldl (rfc_step X) r [16..<32]"
proof -
  have "map rfc_row [16..<32] = [
    (1, 0xf61e2562, 5), (6, 0xc040b340, 9), (11, 0x265e5a51, 14), (0, 0xe9b6c7aa, 20),
    (5, 0xd62f105d, 5), (10, 0x02441453, 9), (15, 0xd8a1e681, 14), (4, 0xe7d3fbc8, 20),
    (9, 0x21e1cde6, 5), (14, 0xc33707d6, 9), (3, 0xf4d50d87, 14), (8, 0x455a14ed, 20),
    (13, 0xa9e3e905, 5), (2, 0xfcefa3f8, 9), (7, 0x676f02d9, 14), (12, 0x8d2a4c8a, 20)]"
    by (simp add: upt_rec rfc_row_def rfc_k_def rfc_s_def rfc_T_def)
  then have "foldl (rfc_step X) r [16..<32] = foldl (table_step md5_G X) r \<dots>"
    by (rule foldl_table) (simp add: rfc_f_code)
  then show ?thesis
    by (cases r) (simp only: md5_round2_def table_let foldl_Nil case_prod_conv)
qed

lemma round3: "md5_round3 X r = foldl (rfc_step X) r [32..<48]"
proof -
  have "map rfc_row [32..<48] = [
    (5, 0xfffa3942, 4), (8, 0x8771f681, 11), (11, 0x6d9d6122, 16), (14, 0xfde5380c, 23),
    (1, 0xa4beea44, 4), (4, 0x4bdecfa9, 11), (7, 0xf6bb4b60, 16), (10, 0xbebfbc70, 23),
    (13, 0x289b7ec6, 4), (0, 0xeaa127fa, 11), (3, 0xd4ef3085, 16), (6, 0x04881d05, 23),
    (9, 0xd9d4d039, 4), (12, 0xe6db99e5, 11), (15, 0x1fa27cf8, 16), (2, 0xc4ac5665, 23)]"
    by (simp add: upt_rec rfc_row_def rfc_k_def rfc_s_def rfc_T_def)
  then have "foldl (rfc_step X) r [32..<48] = foldl (table_step md5_H X) r \<dots>"
    by (rule foldl_table) (simp add: rfc_f_code)
  then show ?thesis
    by (cases r) (simp only: md5_round3_def table_let foldl_Nil case_prod_conv H2_H)
qed

lemma round4: "md5_round4 X r = foldl (rfc_step X) r [48..<64]"
proof -
  have "map rfc_row [48..<64] = [
    (0, 0xf4292244, 6), (7, 0x432aff97, 10), (14, 0xab9423a7, 15), (5, 0xfc93a039, 21),
    (12, 0x655b59c3, 6), (3, 0x8f0ccc92, 10), (10, 0xffeff47d, 15), (1, 0x85845dd1, 21),
    (8, 0x6fa87e4f, 6), (15, 0xfe2ce6e0, 10), (6, 0xa3014314, 15), (13, 0x4e0811a1, 21),
    (4, 0xf7537e82, 6), (11, 0xbd3af235, 10), (2, 0x2ad7d2bb, 15), (9, 0xeb86d391, 21)]"
    by (simp add: upt_rec rfc_row_def rfc_k_def rfc_s_def rfc_T_def)
  then have "foldl (rfc_step X) r [48..<64] = foldl (table_step md5_I X) r \<dots>"
    by (rule foldl_table) (simp add: rfc_f_code)
  then show ?thesis
    by (cases r) (simp only: md5_round4_def table_let foldl_Nil case_prod_conv)
qed

lemma one_block_exact: "md5_one_block m r = rfc_compress r m"
proof -
  have "[0..<64] = [0..<16] @ [16..<32] @ [32..<48] @ [48..<64 :: nat]"
    using upt_add_eq_append [of 0 16 48] upt_add_eq_append [of 16 32 32] upt_add_eq_append [of 32 48 16]
    by (simp del: upt_rec_numeral)
  then show ?thesis
    by (simp add: md5_one_block_def rfc_compress_def round1 round2 round3 round4 SET_word Let_def split_beta add.commute
        del: upt_rec_numeral)
qed

lemma blocks_exact:
  "64 dvd length m \<Longrightarrow> m \<noteq> [] \<Longrightarrow> md5_blocks m r = blocks_fold rfc_compress r m"
proof (induction m r rule: md5_blocks.induct)
  case (1 m r)
  have l: "length m \<ge> 64" using 1(2,3) by (auto dest: dvd_imp_le)
  have d: "64 dvd length (drop 64 m)" using 1(2) by (simp add: dvd_minus_self)
  show ?case
  proof (cases "drop 64 m = []")
    case True
    then show ?thesis using l by (simp add: md5_blocks.simps [of m] blocks_fold.simps [of _ r m] one_block_exact Let_def)
  next
    case False
    then show ?thesis using l 1(1) [OF refl refl False d False]
      by (simp add: md5_blocks.simps [of m] blocks_fold.simps [of _ r m] one_block_exact Let_def)
  qed
qed

subsection \<open>Feeding a message\<close>

abbreviation rfc_blocks :: "byte list \<Rightarrow> md5_regs" where
  "rfc_blocks \<equiv> blocks_fold rfc_compress (0x67452301, 0xefcdab89, 0x98badcfe, 0x10325476)"

definition md5_regs_of :: "md5_ctx \<Rightarrow> md5_regs" where
  "md5_regs_of ctx = (md5_a ctx, md5_b ctx, md5_c ctx, md5_d ctx)"

text \<open>A context that has been fed the bytes \<open>m\<close>.\<close>

definition md5_counted :: "md5_ctx \<Rightarrow> nat \<Rightarrow> bool" where
  "md5_counted ctx n \<longleftrightarrow> md5_lo ctx = of_nat (n mod 2 ^ 29) \<and> md5_hi ctx = of_nat (n div 2 ^ 29)"

definition md5_fed :: "md5_ctx \<Rightarrow> byte list \<Rightarrow> bool" where
  "md5_fed ctx m \<longleftrightarrow>
     length (md5_buffer ctx) = 64 \<and> take (length m mod 64) (md5_buffer ctx) = pending m
     \<and> md5_counted ctx (length m) \<and> md5_regs_of ctx = rfc_blocks m"

lemma body_frame [simp]:
  "md5_buffer (md5_body ctx m) = md5_buffer ctx" "md5_lo (md5_body ctx m) = md5_lo ctx" "md5_hi (md5_body ctx m) = md5_hi ctx"
  by (simp_all add: md5_body_def split_beta)

lemma body_exact:
  "64 dvd length m \<Longrightarrow> m \<noteq> [] \<Longrightarrow> md5_regs_of (md5_body ctx m) = blocks_fold rfc_compress (md5_regs_of ctx) m"
  by (simp add: md5_body_def md5_regs_of_def split_beta blocks_exact)

lemma carry:
  fixes l n :: nat
  assumes "0 < k"
  shows "(l + n) div k = l div k + n div k + (if (l + n) mod k < l mod k then 1 else 0)"
proof -
  let ?a = "l mod k" and ?b = "n mod k"
  have ab: "?a < k" "?b < k" using assms by simp_all
  have d: "(l + n) div k = l div k + n div k + (?a + ?b) div k" by (rule div_add1_eq)
  have m: "(l + n) mod k = (?a + ?b) mod k" by (simp add: mod_add_eq)
  show ?thesis
  proof (cases "?a + ?b < k")
    case True
    then show ?thesis by (simp add: d m)
  next
    case False
    then have "?a + ?b - k < k" using ab by linarith
    then have "(?a + ?b) div k = 1" "(?a + ?b) mod k = ?a + ?b - k"
      using ab False by (simp_all add: le_div_geq le_mod_geq)
    then show ?thesis using ab False by (simp add: d m)
  qed
qed

lemma and_mask_word: "(w :: 32 word) AND 0x1fffffff = of_nat (unat w mod 2 ^ 29)"
proof -
  have "w AND 0x1fffffff = take_bit 29 w" by (simp add: take_bit_eq_mask mask_eq_exp_minus_1)
  also have "\<dots> = of_nat (take_bit 29 (unat w))" by (simp add: unsigned_take_bit_eq [symmetric])
  finally show ?thesis by (simp add: take_bit_eq_mod)
qed

lemma unat_of_nat_small: "n < 2 ^ 32 \<Longrightarrow> unat (of_nat n :: 32 word) = n"
  by (simp add: unsigned_of_nat take_bit_nat_eq_self)

lemma count_exact:
  assumes "md5_counted ctx l" "n < 2 ^ 32"
  shows "md5_counted (md5_count ctx n) (l + n)"
proof -
  let ?s = "md5_lo ctx"
  have s: "?s = of_nat (l mod 2 ^ 29)" "md5_hi ctx = of_nat (l div 2 ^ 29)" using assms(1) by (simp_all add: md5_counted_def)
  have us: "unat ?s = l mod 2 ^ 29" unfolding s by (rule unat_of_nat_small) (rule less_trans [of _ "2 ^ 29"]; simp)
  have "unat (?s + of_nat n) mod 2 ^ 29 = take_bit 29 (take_bit 32 (l mod 2 ^ 29 + n))"
    using us unat_of_nat_small [OF assms(2)] by (simp add: unat_word_ariths take_bit_eq_mod)
  also have "\<dots> = (l mod 2 ^ 29 + n) mod 2 ^ 29" by (simp only: take_bit_take_bit min_def) (simp add: take_bit_eq_mod)
  finally have "unat (?s + of_nat n) mod 2 ^ 29 = (l + n) mod 2 ^ 29" by (simp add: mod_add_left_eq)
  then have lo: "(?s + of_nat n) AND 0x1fffffff = of_nat ((l + n) mod 2 ^ 29)" by (simp only: and_mask_word)
  have ul: "unat (of_nat ((l + n) mod 2 ^ 29) :: 32 word) = (l + n) mod 2 ^ 29"
    by (rule unat_of_nat_small) (rule less_trans [of _ "2 ^ 29"]; simp)
  have c: "of_nat ((l + n) mod 2 ^ 29) < ?s \<longleftrightarrow> (l + n) mod 2 ^ 29 < l mod 2 ^ 29"
    by (simp only: word_less_nat_alt ul us)
  have d: "drop_bit 29 (of_nat n :: 32 word) = of_nat (n div 2 ^ 29)"
  proof -
    have "unat (drop_bit 29 (of_nat n :: 32 word)) = n div 2 ^ 29"
      by (simp only: unat_drop_bit_div unat_of_nat_small [OF assms(2)])
    then show ?thesis by (metis of_nat_unat ucast_id)
  qed
  have "md5_lo (md5_count ctx n) = of_nat ((l + n) mod 2 ^ 29)"
    by (simp only: md5_count_def Let_def) (simp add: lo)
  moreover have "md5_hi (md5_count ctx n) = of_nat (l div 2 ^ 29) + of_nat (if (l + n) mod 2 ^ 29 < l mod 2 ^ 29 then 1 else 0) + of_nat (n div 2 ^ 29)"
    using c s(2) d lo by (cases "(l + n) mod 2 ^ 29 < l mod 2 ^ 29") (simp_all add: md5_count_def Let_def)
  then have "md5_hi (md5_count ctx n) = of_nat ((l + n) div 2 ^ 29)"
    using carry [of "2 ^ 29" l n] by (simp add: ac_simps del: of_nat_add flip: of_nat_add)
  ultimately show ?thesis by (simp add: md5_counted_def)
qed

lemma used_exact: "md5_counted ctx l \<Longrightarrow> unat (md5_lo ctx AND 0x3f) = l mod 64"
proof -
  assume a: "md5_counted ctx l"
  have "md5_lo ctx AND 0x3f = take_bit 6 (md5_lo ctx)" by (simp add: take_bit_eq_mask mask_eq_exp_minus_1)
  then have "unat (md5_lo ctx AND 0x3f) = take_bit 6 (unat (md5_lo ctx))" by (simp only: unsigned_take_bit_eq)
  then have "unat (md5_lo ctx AND 0x3f) = unat (md5_lo ctx) mod 64" by (simp add: take_bit_eq_mod)
  also have "unat (md5_lo ctx) = l mod 2 ^ 29"
    using a unat_of_nat_small [of "l mod 2 ^ 29"] mod_less_divisor [of "2 ^ 29" l]
    unfolding md5_counted_def by simp
  also have "l mod 2 ^ 29 mod 64 = l mod 64" by (rule mod_mod_cancel) simp
  finally show ?thesis .
qed

lemma blocks_fold_whole: "blocks_fold f h (take (length d - length d mod 64) d) = blocks_fold f h d"
proof -
  let ?w = "take (length d - length d mod 64) d"
  have "blocks_fold f h d = blocks_fold f h (?w @ pending d)" by (simp add: pending_def)
  also have "\<dots> = blocks_fold f (blocks_fold f h ?w) (pending d)"
    by (rule blocks_fold_append) (simp add: min_absorb2 dvd_minus_mod)
  finally show ?thesis by simp
qed

lemma count_frame [simp]: "md5_buffer (md5_count ctx n) = md5_buffer ctx" "md5_regs_of (md5_count ctx n) = md5_regs_of ctx"
  by (simp_all add: md5_count_def md5_regs_of_def Let_def)

lemma rest_exact:
  assumes "length (md5_buffer ctx) = 64"
  shows "length (md5_buffer (md5_rest ctx d)) = 64" "take (length d mod 64) (md5_buffer (md5_rest ctx d)) = pending d"
    "md5_lo (md5_rest ctx d) = md5_lo ctx" "md5_hi (md5_rest ctx d) = md5_hi ctx"
    "md5_regs_of (md5_rest ctx d) = blocks_fold rfc_compress (md5_regs_of ctx) d"
proof -
  have p: "(if length d \<ge> 64 then drop (length d - length d mod 64) d else d) = pending d"
    by (simp add: pending_def)
  have l: "length (pending d) \<le> 64" by (simp add: less_imp_le)
  show "length (md5_buffer (md5_rest ctx d)) = 64" "take (length d mod 64) (md5_buffer (md5_rest ctx d)) = pending d"
    "md5_lo (md5_rest ctx d) = md5_lo ctx" "md5_hi (md5_rest ctx d) = md5_hi ctx"
    using assms l by (simp_all add: md5_rest_def Let_def p mem_write_def)
  show "md5_regs_of (md5_rest ctx d) = blocks_fold rfc_compress (md5_regs_of ctx) d"
  proof (cases "length d \<ge> 64")
    case True
    let ?w = "take (length d - length d mod 64) d"
    have "64 dvd length ?w" by (simp add: min_absorb2 dvd_minus_mod)
    moreover have "length d mod 64 < 64" by simp
    then have "?w \<noteq> []" using True by (auto simp del: mod_less_divisor)
    moreover have "md5_regs_of (md5_rest ctx d) = md5_regs_of (md5_body ctx ?w)"
      using True by (simp add: md5_rest_def md5_regs_of_def Let_def)
    ultimately show ?thesis using body_exact [of ?w ctx] blocks_fold_whole [of rfc_compress _ d] by metis
  next
    case False
    then show ?thesis by (simp add: md5_rest_def md5_regs_of_def Let_def)
  qed
qed

lemma md5_update_feeds:
  assumes fed: "md5_fed ctx m" and d: "length d < 2 ^ 32"
  shows "md5_fed (my_md5_update ctx d) (m @ d)"
proof -
  let ?c = "length m mod 64" and ?ctx = "md5_count ctx (length d)"
  have f: "length (md5_buffer ctx) = 64" "take ?c (md5_buffer ctx) = pending m" "md5_counted ctx (length m)"
    "md5_regs_of ctx = rfc_blocks m" using fed by (simp_all add: md5_fed_def)
  note u = used_exact [OF f(3)]
  have n: "md5_counted ?ctx (length (m @ d))" using count_exact [OF f(3) d] by simp
  then have cong: "md5_counted ctx' (length (m @ d))" if "md5_lo ctx' = md5_lo ?ctx" "md5_hi ctx' = md5_hi ?ctx" for ctx'
    using that by (simp only: md5_counted_def)
  consider (aligned) "?c = 0" | (within) "?c \<noteq> 0" "length d < 64 - ?c" | (full) "?c \<noteq> 0" "length d \<ge> 64 - ?c"
    by linarith
  then show ?thesis
  proof cases
    case aligned
    then have "my_md5_update ctx d = md5_rest ?ctx d" by (simp add: my_md5_update_def Let_def u)
    moreover have "pending m = []" using aligned by (metis length_0_conv length_pending)
    moreover have "length (m @ d) mod 64 = length d mod 64" using aligned mod_add_left_eq [of "length m" 64 "length d"] by simp
    moreover have "md5_counted (md5_rest ?ctx d) (length (m @ d))" using f(1) by (intro cong) (simp_all add: rest_exact)
    ultimately show ?thesis using f rest_exact [of ?ctx d] blocks_fold_pending [of rfc_compress _ m d] pending_pending [of m d]
      by (simp add: md5_fed_def)
  next
    case within
    let ?ctx' = "?ctx\<lparr>md5_buffer := mem_write (md5_buffer ctx) ?c d\<rparr>"
    have e: "my_md5_update ctx d = ?ctx'" using within by (simp add: my_md5_update_def Let_def u)
    have l: "?c + length d < 64" using within by linarith
    have "length (m @ d) mod 64 = ?c + length d" by (metis l length_append mod_add_left_eq mod_less)
    moreover have "md5_regs_of ?ctx' = rfc_blocks m" using f(4) count_frame(2) [of ctx "length d"] by (simp add: md5_regs_of_def)
    ultimately show ?thesis using f l cong [of ?ctx'] unfolding e md5_fed_def feed_less [OF l] by simp
  next
    case full
    let ?a = "take (64 - ?c) d" and ?r = "drop (64 - ?c) d"
    let ?buf = "mem_write (md5_buffer ctx) ?c ?a"
    let ?ctx' = "md5_body (?ctx\<lparr>md5_buffer := ?buf\<rparr>) ?buf"
    have e: "my_md5_update ctx d = md5_rest ?ctx' ?r" using full by (simp add: my_md5_update_def Let_def u)
    have l: "?c + length ?a = 64" using full mod_less_divisor [of 64 "length m"] by simp
    then have lb: "length ?buf = 64" using f(1) by simp
    have "take 64 ?buf = pending m @ ?a" using f(2) l take_mem_write_end [of ?c ?a "md5_buffer ctx"] f(1) by simp
    then have buf: "?buf = pending m @ ?a" using lb by simp
    have z: "pending (m @ ?a) = []" by (rule feed_block(2) [OF l])
    have md: "m @ d = (m @ ?a) @ ?r" by simp
    have "md5_regs_of (?ctx\<lparr>md5_buffer := ?buf\<rparr>) = rfc_blocks m"
      using f(4) count_frame(2) [of ctx "length d"] by (simp add: md5_regs_of_def)
    moreover have "?buf \<noteq> []" using lb by auto
    ultimately have "md5_regs_of ?ctx' = blocks_fold rfc_compress (rfc_blocks m) ?buf"
      using lb body_exact [of ?buf "?ctx\<lparr>md5_buffer := ?buf\<rparr>"] by simp
    also have "\<dots> = rfc_blocks (m @ ?a)" unfolding buf by (rule blocks_fold_pending [symmetric])
    finally have g: "md5_regs_of ?ctx' = rfc_blocks (m @ ?a)" .
    have P: "pending (m @ d) = pending ?r" using pending_pending [of "m @ ?a" ?r] by (simp only: md [symmetric] z append_Nil)
    have "rfc_blocks (m @ d) = blocks_fold rfc_compress (rfc_blocks (m @ ?a)) ?r"
      using blocks_fold_pending [of rfc_compress _ "m @ ?a" ?r] by (simp only: md [symmetric] z append_Nil)
    then have G: "md5_regs_of (md5_rest ?ctx' ?r) = rfc_blocks (m @ d)"
      using rest_exact(5) [of ?ctx' ?r] lb g by simp
    have L: "length (m @ d) mod 64 = length ?r mod 64" by (metis P length_pending)
    have "length (md5_buffer ?ctx') = 64" using lb by simp
    note R = rest_exact [OF this, of ?r]
    have "md5_counted (md5_rest ?ctx' ?r) (length (m @ d))" by (rule cong) (simp_all add: R)
    then show ?thesis unfolding e md5_fed_def L P using R(1,2) G by simp
  qed
qed

subsection \<open>The digest\<close>

lemma le_bytes_bits: "le_bytes n v = map (\<lambda>i. word_of_nat (drop_bit (8 * i) v)) [0..<n]"
proof -
  have "(256 :: nat) ^ k = 2 ^ (8 * k)" for k by (simp add: power_mult)
  then show ?thesis by (simp add: le_bytes_def drop_bit_eq_div)
qed

lemma md5_put_exact: "md5_put w = le_bytes 4 (unat w)"
  by (simp add: md5_put_def le_bytes_bits upt_rec, intro conjI; rule bit_word_eqI) (simp_all add: bit_simps bit_255)

lemma le_bytes_8: "le_bytes 8 v = le_bytes 4 (take_bit 32 v) @ le_bytes 4 (drop_bit 32 v)"
  by (simp add: le_bytes_bits upt_rec, intro conjI; rule bit_word_eqI) (auto simp: bit_simps)

lemma le_bytes_4_take: "le_bytes 4 (take_bit 32 v) = le_bytes 4 v"
  by (simp add: le_bytes_bits upt_rec, intro conjI; rule bit_word_eqI) (auto simp: bit_simps)

lemma put_length:
  assumes "md5_counted ctx l"
  shows "md5_put (push_bit 3 (md5_lo ctx)) @ md5_put (md5_hi ctx) = le_bytes 8 (8 * l)"
proof -
  have lo: "unat (md5_lo ctx) = take_bit 29 l"
    using assms unat_of_nat_small [of "l mod 2 ^ 29"] mod_less_divisor [of "2 ^ 29" l]
    unfolding md5_counted_def by (simp add: take_bit_eq_mod)
  have hi: "unat (md5_hi ctx) = take_bit 32 (drop_bit 29 l)"
    using assms unfolding md5_counted_def by (simp add: unsigned_of_nat drop_bit_eq_div)
  have b: "8 * l = push_bit 3 l" by (simp add: push_bit_eq_mult)
  have "unat (push_bit 3 (md5_lo ctx)) = take_bit 32 (push_bit 3 (unat (md5_lo ctx)))"
    by (simp add: unsigned_push_bit_eq)
  also have "\<dots> = take_bit 32 (8 * l)" unfolding lo b by (rule bit_eqI) (auto simp: bit_simps)
  finally have "unat (push_bit 3 (md5_lo ctx)) = take_bit 32 (8 * l)" .
  moreover have "drop_bit 29 l = drop_bit 32 (8 * l)" unfolding b by (rule bit_eqI) (auto simp: bit_simps add.commute)
  ultimately show ?thesis by (simp only: md5_put_exact le_bytes_8 hi le_bytes_4_take)
qed

lemma rfc_output_put: "rfc_output (md5_regs_of ctx) = md5_put (md5_a ctx) @ md5_put (md5_b ctx) @ md5_put (md5_c ctx) @ md5_put (md5_d ctx)"
  by (simp add: rfc_output_def md5_regs_of_def md5_put_exact)

lemma body_block:
  assumes "md5_regs_of ctx = r" "length b = 64"
  shows "md5_regs_of (md5_body ctx b) = rfc_compress r b"
proof -
  have "b \<noteq> []" using assms(2) by auto
  then have "md5_regs_of (md5_body ctx b) = blocks_fold rfc_compress r (b @ [])" using assms body_exact [of b ctx] by simp
  then show ?thesis by (simp only: blocks_fold_block [OF assms(2)]) simp
qed

text \<open>The blocks that are hashed last, for the pending bytes \<open>p\<close>.\<close>

lemma md5_final_padded:
  assumes f: "length (md5_buffer ctx) = 64" "take (length p) (md5_buffer ctx) = p" "length p < 64"
    "unat (md5_lo ctx AND 0x3f) = length p"
  assumes l: "md5_put (push_bit 3 (md5_lo ctx)) @ md5_put (md5_hi ctx) = l" "length l = 8"
  shows "fst (my_md5_final result ctx) = mem_write result 0 (rfc_output
    (if length p + 1 > 56
     then rfc_compress (rfc_compress (md5_regs_of ctx) (p @ 0x80 # replicate (63 - length p) 0)) (replicate 56 0 @ l)
     else rfc_compress (md5_regs_of ctx) (p @ 0x80 # replicate (55 - length p) 0 @ l)))"
proof (cases "length p + 1 > 56")
  case True
  let ?a = "p @ 0x80 # replicate (63 - length p) 0" and ?b = "replicate 56 0 @ l"
  have la: "length ?a = 64" "length ?b = 64" using f(3) l(2) by simp_all
  note z = put_full_block [OF f(1,3,2), simplified] put_zero_block [OF la(1) l(2), simplified]
  have n: "64 - (length p + 1) < 8" "(64 :: nat) - 8 = 56" using True by linarith+
  let ?c1 = "md5_body (ctx\<lparr>md5_buffer := ?a\<rparr>) ?a"
  let ?c2 = "md5_body (?c1\<lparr>md5_lo := push_bit 3 (md5_lo ctx), md5_buffer := ?b\<rparr>) ?b"
  have "fst (my_md5_final result ctx) = mem_write result 0 (rfc_output (md5_regs_of ?c2))"
    by (simp only: my_md5_final_def Let_def f(4) n if_True case_prod_conv) (simp add: z l(1) rfc_output_put)
  moreover have "md5_regs_of ?c1 = rfc_compress (md5_regs_of ctx) ?a"
    by (rule body_block [OF _ la(1)]) (simp add: md5_regs_of_def)
  then have "md5_regs_of ?c2 = rfc_compress (rfc_compress (md5_regs_of ctx) ?a) ?b"
    by (intro body_block [OF _ la(2)]) (simp add: md5_regs_of_def)
  ultimately show ?thesis using True by simp
next
  case False
  then have c: "length p < 56" by simp
  let ?a = "p @ 0x80 # replicate (55 - length p) 0 @ l"
  have la: "length ?a = 64" using c l(2) by simp
  note z = put_last_block [OF f(1) c f(2) l(2), simplified]
  let ?c1 = "md5_body (ctx\<lparr>md5_lo := push_bit 3 (md5_lo ctx), md5_buffer := ?a\<rparr>) ?a"
  have n: "\<not> 64 - (length p + 1) < 8" "64 - (length p + 1) - 8 = 56 - (length p + 1)" using c by linarith+
  have "fst (my_md5_final result ctx) = mem_write result 0 (rfc_output (md5_regs_of ?c1))"
    by (simp only: my_md5_final_def Let_def f(4) n if_False case_prod_conv) (simp add: z l(1) rfc_output_put)
  moreover have "md5_regs_of ?c1 = rfc_compress (md5_regs_of ctx) ?a"
    by (rule body_block [OF _ la]) (simp add: md5_regs_of_def)
  ultimately show ?thesis using False by simp
qed

lemma md5_final_digest:
  assumes fed: "md5_fed ctx m"
  shows "fst (my_md5_final result ctx) = mem_write result 0 (MD5 m)" "snd (my_md5_final result ctx) = md5_cleared"
proof -
  show "snd (my_md5_final result ctx) = md5_cleared" by (simp add: my_md5_final_def Let_def split_beta)
  have f: "length (md5_buffer ctx) = 64" "take (length (pending m)) (md5_buffer ctx) = pending m" "length (pending m) < 64"
    and c: "md5_counted ctx (length m)" and r: "md5_regs_of ctx = rfc_blocks m"
    using fed by (simp_all add: md5_fed_def)
  have u: "unat (md5_lo ctx AND 0x3f) = length (pending m)" using used_exact [OF c] by simp
  have ll: "length (le_bytes 8 (8 * length m)) = 8" by simp
  show "fst (my_md5_final result ctx) = mem_write result 0 (MD5 m)"
    using md5_final_padded [OF f u put_length [OF c] ll] unfolding r MD5_def blocks_fold_padding [OF ll] .
qed

lemma md5_fed_init: "length (md5_buffer ctx) = 64 \<Longrightarrow> md5_fed (snd (my_md5_init ctx)) []"
  by (simp add: md5_fed_def md5_counted_def my_md5_init_def md5_regs_of_def)

lemma md5_updates_feed:
  assumes "md5_fed ctx m" "list_all (\<lambda>d. length d < 2 ^ 32) ds"
  shows "md5_fed (foldl my_md5_update ctx ds) (m @ concat ds)"
  using assms
proof (induction ds arbitrary: ctx m)
  case (Cons d ds)
  then have "md5_fed (my_md5_update ctx d) (m @ d)" by (simp add: md5_update_feeds)
  from Cons.IH [OF this] Cons.prems show ?case by simp
qed simp

lemma handle_updates:
  "md5_hash (foldl (\<lambda>c d. snd (Curl_MD5_update c d)) ctxt ds) = md5_hash ctxt"
  "md5_hashctx (foldl (\<lambda>c d. snd (Curl_MD5_update c d)) ctxt ds) = foldl (md5_update_func (md5_hash ctxt)) (md5_hashctx ctxt) ds"
  by (induction ds arbitrary: ctxt) (simp_all add: Curl_MD5_update_def)

text \<open>
  C33. A digest through a handle: whenever \<open>Curl_MD5_init\<close> gives one, feeding the pieces of a
  message and finishing writes the MD5 of RFC 1321 of the whole message. A piece has a length
  that fits an \<open>unsigned int\<close>, as the interface has it.
\<close>

theorem md5_streaming:
  assumes "length (md5_buffer mem) = 64" "list_all (\<lambda>d. length d < 2 ^ 32) ds"
    "fst (Curl_MD5_init Curl_DIGEST_MD5 mem A) = Some ctxt"
  shows "Curl_MD5_final (foldl (\<lambda>c d. snd (Curl_MD5_update c d)) ctxt ds) result =
    (CURLE_OK, mem_write result 0 (MD5 (concat ds)))"
proof -
  have c: "ctxt = \<lparr>md5_hash = Curl_DIGEST_MD5, md5_hashctx = snd (my_md5_init mem)\<rparr>"
    using assms(3) by (auto simp: Curl_MD5_init_def Curl_DIGEST_MD5_def my_md5_init_def Let_def split: prod.splits bool.splits if_splits)
  have "md5_fed (foldl my_md5_update (snd (my_md5_init mem)) ds) ([] @ concat ds)"
    by (rule md5_updates_feed [OF md5_fed_init [OF assms(1)] assms(2)])
  then show ?thesis
    by (simp add: Curl_MD5_final_def handle_updates c Curl_DIGEST_MD5_def md5_final_digest)
qed

theorem md5_streaming_witness:
  "let ctxt = \<lparr>md5_hash = Curl_DIGEST_MD5, md5_hashctx = snd (my_md5_init md5_cleared)\<rparr>
   in Curl_MD5_final (foldl (\<lambda>c d. snd (Curl_MD5_update c d)) ctxt [s2b ''a'', s2b ''bc'']) (replicate 16 0) =
    (CURLE_OK, mem_write (replicate 16 0) 0 (MD5 (concat [s2b ''a'', s2b ''bc''])))"
  unfolding Let_def
  by (rule md5_streaming [where mem = md5_cleared and A = "[True, True]"])
    (simp_all add: md5_cleared_def Curl_MD5_init_def Curl_DIGEST_MD5_def my_md5_init_def)

text \<open>
  \<open>Curl_md5it\<close> writes the MD5 of its input, except that the length is converted to an
  \<open>unsigned int\<close>: of longer inputs it hashes what the low 32 bits of the length count.
\<close>

theorem md5it_exact:
  assumes "length (md5_buffer ctx) = 64"
  shows "Curl_md5it ctx outbuffer inp = (CURLE_OK, mem_write outbuffer 0 (MD5 (take (length inp mod 2 ^ 32) inp)))"
proof -
  let ?d = "take (length inp mod 2 ^ 32) inp"
  have "length ?d < 2 ^ 32" by (rule le_less_trans [of _ "length inp mod 2 ^ 32"]) simp_all
  then have "md5_fed (my_md5_update (snd (my_md5_init ctx)) ?d) ([] @ ?d)"
    by (rule md5_update_feeds [OF md5_fed_init [OF assms]])
  then show ?thesis by (simp add: Curl_md5it_def my_md5_init_def Let_def uztoui_mod md5_final_digest)
qed

theorem md5it_exact_witness:
  "Curl_md5it md5_cleared [] (s2b ''abc'') = (CURLE_OK, mem_write [] 0 (MD5 (take (length (s2b ''abc'') mod 2 ^ 32) (s2b ''abc''))))"
  by (rule md5it_exact) (simp add: md5_cleared_def)

text \<open>Without memory there is no handle.\<close>

lemma md5_init_out_of_memory:
  "fst (Curl_MD5_init Curl_DIGEST_MD5 mem A) = None \<longleftrightarrow> \<not> fst (alloc A) \<or> \<not> fst (alloc (snd (alloc A)))"
  by (auto simp: Curl_MD5_init_def Curl_DIGEST_MD5_def my_md5_init_def Let_def split: prod.splits bool.splits if_splits)

lemma length_MD5: "length (MD5 m) = 16"
  by (simp add: MD5_def rfc_output_def split_beta)

end
