(* ===== verification/Hmac.thy ===== *)
theory Hmac
  imports Sha256 Md5
begin

text \<open>
  Keyed digests over any of the library's hash functions, \<open>hmac.c\<close>. A hash function is a table
  of its operations on a context, \<open>HMAC_params\<close>; the two contexts and the room for a result lie
  behind the handle in one allocation, so the fields of the handle are that memory, with
  whatever it holds at first. What HMAC needs of a hash function is the locale \<open>keyed_hash\<close>, and
  both tables of the library give it: \<open>Curl_HMAC_SHA256\<close> and \<open>Curl_HMAC_MD5\<close>.
\<close>

subsection \<open>The code\<close>

record 'c HMAC_params =
  hmac_hinit :: "'c \<Rightarrow> CURLcode \<times> 'c"
  hmac_hupdate :: "'c \<Rightarrow> byte list \<Rightarrow> 'c"
  hmac_hfinal :: "byte list \<Rightarrow> 'c \<Rightarrow> byte list \<times> 'c"
  hmac_maxkeylen :: nat
  hmac_resultlen :: nat

record 'c HMAC_context =
  hmac_hash :: "'c HMAC_params"
  hmac_hashctxt1 :: 'c
  hmac_hashctxt2 :: 'c
  hmac_room :: "byte list"

definition hmac_ipad :: byte where "hmac_ipad = 0x36"
definition hmac_opad :: byte where "hmac_opad = 0x5C"

text \<open>A byte to the first context and a byte to the second.\<close>

definition hmac_feed :: "'c HMAC_context \<Rightarrow> byte \<Rightarrow> byte \<Rightarrow> 'c HMAC_context" where
  "hmac_feed ctxt b1 b2 =
     (let hp = hmac_hash ctxt;
          ctxt = ctxt\<lparr>hmac_hashctxt1 := hmac_hupdate hp (hmac_hashctxt1 ctxt) [b1]\<rparr>
      in ctxt\<lparr>hmac_hashctxt2 := hmac_hupdate hp (hmac_hashctxt2 ctxt) [b2]\<rparr>)"

fun hmac_feed_key :: "'c HMAC_context \<Rightarrow> byte list \<Rightarrow> 'c HMAC_context" where
  "hmac_feed_key ctxt [] = ctxt"
| "hmac_feed_key ctxt (k # key) = hmac_feed_key (hmac_feed ctxt (k XOR hmac_ipad) (k XOR hmac_opad)) key"

text \<open>The loop that goes on from \<open>i\<close> to the maximal length of a key, by the rounds that are left.\<close>

fun hmac_feed_pad :: "'c HMAC_context \<Rightarrow> nat \<Rightarrow> 'c HMAC_context" where
  "hmac_feed_pad ctxt 0 = ctxt"
| "hmac_feed_pad ctxt (Suc n) = hmac_feed_pad (hmac_feed ctxt hmac_ipad hmac_opad) n"

definition hmac_key :: "'c HMAC_context \<Rightarrow> byte list \<Rightarrow> byte list \<times> 'c HMAC_context" where
  "hmac_key ctxt key =
     (let hp = hmac_hash ctxt
      in if length key > hmac_maxkeylen hp then
           (let c = snd (hmac_hinit hp (hmac_hashctxt1 ctxt));
                c = hmac_hupdate hp c key;
                (hkey, c) = hmac_hfinal hp (hmac_room ctxt) c
            in (take (hmac_resultlen hp) hkey, ctxt\<lparr>hmac_hashctxt1 := c, hmac_room := hkey\<rparr>))
         else (key, ctxt))"

definition Curl_HMAC_init ::
  "'c HMAC_params \<Rightarrow> byte list \<Rightarrow> 'c HMAC_context \<Rightarrow> alloc_script \<Rightarrow> 'c HMAC_context option \<times> alloc_script" where
  "Curl_HMAC_init hashparams key mem A =
     (let (ok, A) = alloc A
      in if \<not> ok then (None, A)
         else
           (let ctxt = mem\<lparr>hmac_hash := hashparams\<rparr>;
                (key, ctxt) = hmac_key ctxt key;
                ctxt = ctxt\<lparr>hmac_hashctxt1 := snd (hmac_hinit hashparams (hmac_hashctxt1 ctxt))\<rparr>;
                ctxt = ctxt\<lparr>hmac_hashctxt2 := snd (hmac_hinit hashparams (hmac_hashctxt2 ctxt))\<rparr>;
                ctxt = hmac_feed_key ctxt key;
                ctxt = hmac_feed_pad ctxt (hmac_maxkeylen hashparams - length key)
            in (Some ctxt, A)))"

definition Curl_HMAC_update :: "'c HMAC_context \<Rightarrow> byte list \<Rightarrow> int \<times> 'c HMAC_context" where
  "Curl_HMAC_update ctxt data =
     (0, ctxt\<lparr>hmac_hashctxt1 := hmac_hupdate (hmac_hash ctxt) (hmac_hashctxt1 ctxt) data\<rparr>)"

text \<open>\<open>None\<close> is a null result pointer: the room behind the handle is used, and freed with it.\<close>

definition Curl_HMAC_final :: "'c HMAC_context \<Rightarrow> byte list option \<Rightarrow> int \<times> byte list option" where
  "Curl_HMAC_final ctxt result =
     (let hp = hmac_hash ctxt;
          r = (case result of None \<Rightarrow> hmac_room ctxt | Some r \<Rightarrow> r);
          (r, c1) = hmac_hfinal hp r (hmac_hashctxt1 ctxt);
          c2 = hmac_hupdate hp (hmac_hashctxt2 ctxt) (take (hmac_resultlen hp) r);
          (r, c2) = hmac_hfinal hp r c2
      in (0, map_option (\<lambda>_. r) result))"

definition Curl_hmacit ::
  "'c HMAC_params \<Rightarrow> byte list \<Rightarrow> byte list \<Rightarrow> byte list \<Rightarrow> 'c HMAC_context \<Rightarrow> alloc_script \<Rightarrow> CURLcode \<times> byte list" where
  "Curl_hmacit hashparams key data output mem A =
     (case fst (Curl_HMAC_init hashparams (take (curlx_uztoui (length key)) key) mem A) of
        None \<Rightarrow> (CURLE_OUT_OF_MEMORY, output)
      | Some ctxt \<Rightarrow>
          (let ctxt = snd (Curl_HMAC_update ctxt (take (curlx_uztoui (length data)) data));
               (rc, r) = Curl_HMAC_final ctxt (Some output)
           in (CURLE_OK, the r)))"

text \<open>The tables; their functions return nothing, what the digest functions return is dropped by the cast.\<close>

definition Curl_HMAC_SHA256 :: "'w::len word sha256_state HMAC_params" where
  "Curl_HMAC_SHA256 =
     \<lparr>hmac_hinit = my_sha256_init, hmac_hupdate = (\<lambda>c d. snd (my_sha256_update c d)),
      hmac_hfinal = (\<lambda>out c. snd (my_sha256_final out c)), hmac_maxkeylen = 64, hmac_resultlen = 32\<rparr>"

definition Curl_HMAC_MD5 :: "md5_ctx HMAC_params" where
  "Curl_HMAC_MD5 =
     \<lparr>hmac_hinit = my_md5_init, hmac_hupdate = my_md5_update,
      hmac_hfinal = my_md5_final, hmac_maxkeylen = 64, hmac_resultlen = 16\<rparr>"

subsection \<open>The definition of HMAC\<close>

definition hmac_block_key :: "(byte list \<Rightarrow> byte list) \<Rightarrow> nat \<Rightarrow> byte list \<Rightarrow> byte list" where
  "hmac_block_key h B k = (let k0 = (if length k > B then h k else k) in k0 @ replicate (B - length k0) 0)"

definition HMAC :: "(byte list \<Rightarrow> byte list) \<Rightarrow> nat \<Rightarrow> byte list \<Rightarrow> byte list \<Rightarrow> byte list" where
  "HMAC h B k m =
     (let k0 = hmac_block_key h B k
      in h (map (\<lambda>b. b XOR 0x5C) k0 @ h (map (\<lambda>b. b XOR 0x36) k0 @ m)))"

subsection \<open>What HMAC needs of a hash function\<close>

text \<open>
  A context in memory of its own, \<open>mem_ok\<close>, initialised and fed pieces of a message, gives the
  digest \<open>h\<close> of the whole message, and is then a context in memory again. A piece has a length
  of 32 bits.
\<close>

locale keyed_hash =
  fixes hp :: "'c HMAC_params" and h :: "byte list \<Rightarrow> byte list" and mem_ok :: "'c \<Rightarrow> bool"
  assumes digest: "mem_ok c \<Longrightarrow> list_all (\<lambda>d. length d < 2 ^ 32) ds \<Longrightarrow>
      fst (hmac_hfinal hp out (foldl (hmac_hupdate hp) (snd (hmac_hinit hp c)) ds)) = mem_write out 0 (h (concat ds))"
    and mem_final: "mem_ok c \<Longrightarrow> list_all (\<lambda>d. length d < 2 ^ 32) ds \<Longrightarrow>
      mem_ok (snd (hmac_hfinal hp out (foldl (hmac_hupdate hp) (snd (hmac_hinit hp c)) ds)))"
    and length_digest: "length (h m) = hmac_resultlen hp"
    and digest_fits: "hmac_resultlen hp \<le> hmac_maxkeylen hp" "hmac_maxkeylen hp < 2 ^ 32"
begin

lemma feed_key_contexts:
  "hmac_hash (hmac_feed_key ctxt key) = hmac_hash ctxt"
  "hmac_hashctxt1 (hmac_feed_key ctxt key) =
    foldl (hmac_hupdate (hmac_hash ctxt)) (hmac_hashctxt1 ctxt) (map (\<lambda>k. [k XOR hmac_ipad]) key)"
  "hmac_hashctxt2 (hmac_feed_key ctxt key) =
    foldl (hmac_hupdate (hmac_hash ctxt)) (hmac_hashctxt2 ctxt) (map (\<lambda>k. [k XOR hmac_opad]) key)"
  by (induction ctxt key rule: hmac_feed_key.induct) (simp_all add: hmac_feed_def Let_def)

lemma feed_pad_contexts:
  "hmac_hash (hmac_feed_pad ctxt n) = hmac_hash ctxt"
  "hmac_hashctxt1 (hmac_feed_pad ctxt n) =
    foldl (hmac_hupdate (hmac_hash ctxt)) (hmac_hashctxt1 ctxt) (replicate n [hmac_ipad])"
  "hmac_hashctxt2 (hmac_feed_pad ctxt n) =
    foldl (hmac_hupdate (hmac_hash ctxt)) (hmac_hashctxt2 ctxt) (replicate n [hmac_opad])"
  by (induction ctxt n rule: hmac_feed_pad.induct) (simp_all add: hmac_feed_def Let_def)

lemma take_digest: "take (hmac_resultlen hp) (mem_write out 0 (h m)) = h m"
  by (simp add: mem_write_def length_digest)

lemma hmac_key_exact:
  assumes "hmac_hash ctxt = hp" "mem_ok (hmac_hashctxt1 ctxt)" "length key < 2 ^ 32"
  shows "fst (hmac_key ctxt key) = (if length key > hmac_maxkeylen hp then h key else key)"
    "hmac_hash (snd (hmac_key ctxt key)) = hp" "mem_ok (hmac_hashctxt1 (snd (hmac_key ctxt key)))"
    "hmac_hashctxt2 (snd (hmac_key ctxt key)) = hmac_hashctxt2 ctxt"
  using assms digest [of "hmac_hashctxt1 ctxt" "[key]" "hmac_room ctxt"] mem_final [of "hmac_hashctxt1 ctxt" "[key]" "hmac_room ctxt"]
  by (simp_all add: hmac_key_def Let_def split_beta take_digest)

text \<open>The pieces that the two contexts have been fed make up the padded key.\<close>

definition key_pieces :: "byte \<Rightarrow> byte list \<Rightarrow> byte list list" where
  "key_pieces p k = map (\<lambda>b. [b XOR p]) k @ replicate (hmac_maxkeylen hp - length k) [p]"

lemma concat_key_pieces:
  "concat (key_pieces p k) = map (\<lambda>b. b XOR p) (k @ replicate (hmac_maxkeylen hp - length k) 0)"
proof -
  have "concat (replicate n [p]) = replicate n p" for n by (induction n) simp_all
  moreover have "concat (map (\<lambda>b. [b XOR p]) k) = map (\<lambda>b. b XOR p) k" by (induction k) simp_all
  ultimately show ?thesis by (simp add: key_pieces_def)
qed

lemma key_pieces_short: "list_all (\<lambda>d. length d < 2 ^ 32) (key_pieces p k)"
  by (auto simp: key_pieces_def list_all_iff set_replicate_conv_if)

lemma init_contexts:
  assumes "mem_ok (hmac_hashctxt1 mem)" "mem_ok (hmac_hashctxt2 mem)" "length key < 2 ^ 32" "fst (alloc A)"
  shows "\<exists>ctxt c. fst (Curl_HMAC_init hp key mem A) = Some ctxt \<and> hmac_hash ctxt = hp \<and> mem_ok c
    \<and> (let k = (if length key > hmac_maxkeylen hp then h key else key)
       in hmac_hashctxt1 ctxt = foldl (hmac_hupdate hp) (snd (hmac_hinit hp c)) (key_pieces hmac_ipad k)
        \<and> hmac_hashctxt2 ctxt = foldl (hmac_hupdate hp) (snd (hmac_hinit hp (hmac_hashctxt2 mem))) (key_pieces hmac_opad k))"
proof -
  let ?m = "mem\<lparr>hmac_hash := hp\<rparr>"
  have "hmac_hash ?m = hp" "mem_ok (hmac_hashctxt1 ?m)" using assms(1) by simp_all
  note k = hmac_key_exact [OF this assms(3)]
  show ?thesis using assms(2,4) k
    by (intro exI [of _ "the (fst (Curl_HMAC_init hp key mem A))"] exI [of _ "hmac_hashctxt1 (snd (hmac_key ?m key))"])
      (simp add: Curl_HMAC_init_def Let_def split_beta feed_key_contexts feed_pad_contexts key_pieces_def)
qed

lemma hmac_final_digest:
  assumes "hmac_hash ctxt = hp" "mem_ok c1" "mem_ok c2" "length k \<le> hmac_maxkeylen hp"
    "hmac_hashctxt1 ctxt = foldl (hmac_hupdate hp) (snd (hmac_hinit hp c1)) (key_pieces hmac_ipad k @ ds)"
    "hmac_hashctxt2 ctxt = foldl (hmac_hupdate hp) (snd (hmac_hinit hp c2)) (key_pieces hmac_opad k)"
    "list_all (\<lambda>d. length d < 2 ^ 32) ds"
  shows "\<exists>r. Curl_HMAC_final ctxt (Some result) = (0, Some (mem_write r 0
    (h (map (\<lambda>b. b XOR hmac_opad) (k @ replicate (hmac_maxkeylen hp - length k) 0)
      @ h (map (\<lambda>b. b XOR hmac_ipad) (k @ replicate (hmac_maxkeylen hp - length k) 0) @ concat ds)))))
    \<and> r = mem_write result 0 (h (map (\<lambda>b. b XOR hmac_ipad) (k @ replicate (hmac_maxkeylen hp - length k) 0) @ concat ds))"
proof -
  have l: "list_all (\<lambda>d. length d < 2 ^ 32) (key_pieces hmac_ipad k @ ds)"
    using assms(7) key_pieces_short by (simp add: list_all_iff) blast
  note d1 = digest [OF assms(2) l, of result, unfolded concat_append concat_key_pieces]
  let ?i = "h (map (\<lambda>b. b XOR hmac_ipad) (k @ replicate (hmac_maxkeylen hp - length k) 0) @ concat ds)"
  have "length ?i < 2 ^ 32" using digest_fits by (simp add: length_digest)
  then have "list_all (\<lambda>d. length d < 2 ^ 32) (key_pieces hmac_opad k @ [?i])"
    using key_pieces_short by (simp add: list_all_iff)
  note d2 = digest [OF assms(3) this, unfolded concat_append concat_key_pieces]
  show ?thesis using d1 d2
    by (simp add: Curl_HMAC_final_def assms(1,5,6) Let_def split_beta take_digest del: map_append)
qed

lemma mem_write_twice: "length a = length b \<Longrightarrow> mem_write (mem_write m 0 a) 0 b = mem_write m 0 b"
  by (simp add: mem_write_def)

lemma updates_contexts:
  "hmac_hash (foldl (\<lambda>c d. snd (Curl_HMAC_update c d)) ctxt ds) = hmac_hash ctxt"
  "hmac_hashctxt1 (foldl (\<lambda>c d. snd (Curl_HMAC_update c d)) ctxt ds) = foldl (hmac_hupdate (hmac_hash ctxt)) (hmac_hashctxt1 ctxt) ds"
  "hmac_hashctxt2 (foldl (\<lambda>c d. snd (Curl_HMAC_update c d)) ctxt ds) = hmac_hashctxt2 ctxt"
  by (induction ds arbitrary: ctxt) (simp_all add: Curl_HMAC_update_def)

lemma stream:
  assumes mem: "mem_ok (hmac_hashctxt1 mem)" "mem_ok (hmac_hashctxt2 mem)"
    and key: "length key < 2 ^ 32" and ds: "list_all (\<lambda>d. length d < 2 ^ 32) ds"
    and init: "fst (Curl_HMAC_init hp key mem A) = Some ctxt"
  shows "Curl_HMAC_final (foldl (\<lambda>c d. snd (Curl_HMAC_update c d)) ctxt ds) (Some result) =
    (0, Some (mem_write result 0 (HMAC h (hmac_maxkeylen hp) key (concat ds))))"
proof -
  let ?k = "if length key > hmac_maxkeylen hp then h key else key"
  have "fst (alloc A)" using init by (auto simp: Curl_HMAC_init_def split_beta split: if_splits)
  note i = init_contexts [OF mem key this, unfolded init Let_def option.inject]
  obtain c where ctxt: "hmac_hash ctxt = hp" "mem_ok c"
    "hmac_hashctxt1 ctxt = foldl (hmac_hupdate hp) (snd (hmac_hinit hp c)) (key_pieces hmac_ipad ?k)"
    "hmac_hashctxt2 ctxt = foldl (hmac_hupdate hp) (snd (hmac_hinit hp (hmac_hashctxt2 mem))) (key_pieces hmac_opad ?k)"
    using i by blast
  have kl: "length ?k \<le> hmac_maxkeylen hp" using digest_fits by (simp add: length_digest)
  let ?u = "foldl (\<lambda>c d. snd (Curl_HMAC_update c d)) ctxt ds"
  have u: "hmac_hash ?u = hp"
    "hmac_hashctxt1 ?u = foldl (hmac_hupdate hp) (snd (hmac_hinit hp c)) (key_pieces hmac_ipad ?k @ ds)"
    by (simp_all add: updates_contexts ctxt)
  note f = hmac_final_digest [OF u(1) ctxt(2) mem(2) kl u(2) trans [OF updates_contexts(3) ctxt(4)] ds, of result]
  have m: "mem_write (mem_write result 0 (h a)) 0 (h b) = mem_write result 0 (h b)" for a b
    by (simp add: mem_write_twice length_digest)
  show ?thesis using f by (auto simp: m HMAC_def hmac_block_key_def Let_def hmac_ipad_def hmac_opad_def)
qed

lemma hmacit:
  assumes "mem_ok (hmac_hashctxt1 mem)" "mem_ok (hmac_hashctxt2 mem)"
  shows "Curl_hmacit hp key data output mem A =
    (if fst (alloc A)
     then (CURLE_OK, mem_write output 0 (HMAC h (hmac_maxkeylen hp)
       (take (length key mod 2 ^ 32) key) (take (length data mod 2 ^ 32) data)))
     else (CURLE_OUT_OF_MEMORY, output))"
proof (cases "fst (alloc A)")
  case False
  then show ?thesis by (simp add: Curl_hmacit_def Curl_HMAC_init_def split_beta)
next
  case True
  let ?key = "take (length key mod 2 ^ 32) key" and ?d = "take (length data mod 2 ^ 32) data"
  have s: "length ?key < 2 ^ 32" "length ?d < 2 ^ 32"
    by (rule le_less_trans [of _ "length key mod 2 ^ 32"] le_less_trans [of _ "length data mod 2 ^ 32"]; simp)+
  then have l: "list_all (\<lambda>d. length d < 2 ^ 32) [?d]" by simp
  obtain ctxt where c: "fst (Curl_HMAC_init hp ?key mem A) = Some ctxt"
    using init_contexts [OF assms s(1) True] by blast
  show ?thesis using stream [OF assms s(1) l c, of "output"] True
    unfolding Curl_hmacit_def uztoui_mod c by simp
qed

end

subsection \<open>The hash functions of the library\<close>

lemma sha_final_buffer:
  assumes "sha_fed md m"
  shows "length (md_buf (snd (snd (my_sha256_final out md)))) = 64"
proof -
  have "length (md_buf md) = 64" "md_curlen md < 64" using assms by (simp_all add: sha_fed_def)
  then show ?thesis
    by (cases "md_curlen md + 1 > 56")
      (simp_all add: my_sha256_final_def put_zeros_def Let_def WPA_PUT_BE64_def del: upt_rec_numeral)
qed

lemma keyed_sha256:
  assumes "32 \<le> LENGTH('w::len)"
  shows "keyed_hash (Curl_HMAC_SHA256 :: 'w word sha256_state HMAC_params) SHA256 (\<lambda>c. length (md_buf c) = 64)"
proof
  fix c :: "'w word sha256_state" and ds :: "byte list list" and out
  assume c: "length (md_buf c) = 64"
  let ?fed = "foldl (hmac_hupdate Curl_HMAC_SHA256) (snd (hmac_hinit Curl_HMAC_SHA256 c)) ds"
  have "sha_fed ?fed ([] @ concat ds)"
    using updates_feed [OF assms sha_fed_init [OF assms c]] by (simp add: Curl_HMAC_SHA256_def)
  then show "fst (hmac_hfinal Curl_HMAC_SHA256 out ?fed) = mem_write out 0 (SHA256 (concat ds))"
    and "length (md_buf (snd (hmac_hfinal Curl_HMAC_SHA256 out ?fed))) = 64"
    using final_digest(2) [OF assms] sha_final_buffer by (auto simp: Curl_HMAC_SHA256_def)
next
  fix m show "length (SHA256 m) = hmac_resultlen (Curl_HMAC_SHA256 :: 'w word sha256_state HMAC_params)"
    by (simp add: Curl_HMAC_SHA256_def length_SHA256)
qed (simp_all add: Curl_HMAC_SHA256_def)

interpretation hmac_md5: keyed_hash Curl_HMAC_MD5 MD5 "\<lambda>c. length (md5_buffer c) = 64"
proof
  fix c :: md5_ctx and ds :: "byte list list" and out
  assume c: "length (md5_buffer c) = 64" and ds: "list_all (\<lambda>d. length d < 2 ^ 32) ds"
  let ?fed = "foldl (hmac_hupdate Curl_HMAC_MD5) (snd (hmac_hinit Curl_HMAC_MD5 c)) ds"
  have "md5_fed ?fed ([] @ concat ds)"
    using md5_updates_feed [OF md5_fed_init [OF c] ds] by (simp add: Curl_HMAC_MD5_def)
  then show "fst (hmac_hfinal Curl_HMAC_MD5 out ?fed) = mem_write out 0 (MD5 (concat ds))"
    and "length (md5_buffer (snd (hmac_hfinal Curl_HMAC_MD5 out ?fed))) = 64"
    by (simp_all add: Curl_HMAC_MD5_def md5_final_digest md5_cleared_def)
next
  fix m show "length (MD5 m) = hmac_resultlen Curl_HMAC_MD5"
    by (simp add: Curl_HMAC_MD5_def length_MD5)
qed (simp_all add: Curl_HMAC_MD5_def)

text \<open>An \<open>unsigned long\<close> of 32 bits and one of 64 bits.\<close>

interpretation hmac_sha256_32: keyed_hash "Curl_HMAC_SHA256 :: 32 word sha256_state HMAC_params" SHA256 "\<lambda>c. length (md_buf c) = 64"
  by (rule keyed_sha256) simp

interpretation hmac_sha256_64: keyed_hash "Curl_HMAC_SHA256 :: 64 word sha256_state HMAC_params" SHA256 "\<lambda>c. length (md_buf c) = 64"
  by (rule keyed_sha256) simp

text \<open>
  C34. \<open>Curl_hmacit\<close> with SHA-256: the HMAC of FIPS 198-1 with blocks of 64 bytes, of the key and
  the data as far as the low 32 bits of their lengths count, or an error when there is no memory
  for the handle. A key that is too long is hashed first, a short one padded.
\<close>

theorem hmac_sha256_exact:
  fixes mem :: "'w::len word sha256_state HMAC_context"
  assumes "32 \<le> LENGTH('w)" "length (md_buf (hmac_hashctxt1 mem)) = 64" "length (md_buf (hmac_hashctxt2 mem)) = 64"
  shows "Curl_hmacit Curl_HMAC_SHA256 key data output mem A =
    (if fst (alloc A)
     then (CURLE_OK, mem_write output 0 (HMAC SHA256 64
       (take (length key mod 2 ^ 32) key) (take (length data mod 2 ^ 32) data)))
     else (CURLE_OUT_OF_MEMORY, output))"
  using keyed_hash.hmacit [OF keyed_sha256 [OF assms(1)] assms(2,3)] by (simp add: Curl_HMAC_SHA256_def)

theorem hmac_sha256_exact_witness:
  "let c = \<lparr>md_length = 7, md_state = [], md_curlen = 99, md_buf = replicate 64 0\<rparr> :: 64 word sha256_state;
       mem = \<lparr>hmac_hash = Curl_HMAC_SHA256, hmac_hashctxt1 = c, hmac_hashctxt2 = c, hmac_room = []\<rparr>
   in Curl_hmacit Curl_HMAC_SHA256 (s2b ''key'') (s2b ''abc'') [] mem [] =
    (if fst (alloc [])
     then (CURLE_OK, mem_write [] 0 (HMAC SHA256 64
       (take (length (s2b ''key'') mod 2 ^ 32) (s2b ''key'')) (take (length (s2b ''abc'') mod 2 ^ 32) (s2b ''abc''))))
     else (CURLE_OUT_OF_MEMORY, []))"
  unfolding Let_def by (rule hmac_sha256_exact) simp_all

text \<open>
  C35. HMAC with MD5 through a handle: whenever \<open>Curl_HMAC_init\<close> gives one for a key, feeding the
  pieces of a message and finishing writes the HMAC of the whole message under that key. Key and
  pieces have lengths that fit an \<open>unsigned int\<close>, as the interface has it.
\<close>

theorem hmac_md5_streaming:
  assumes "length (md5_buffer (hmac_hashctxt1 mem)) = 64" "length (md5_buffer (hmac_hashctxt2 mem)) = 64"
    "length key < 2 ^ 32" "list_all (\<lambda>d. length d < 2 ^ 32) ds"
    "fst (Curl_HMAC_init Curl_HMAC_MD5 key mem A) = Some ctxt"
  shows "Curl_HMAC_final (foldl (\<lambda>c d. snd (Curl_HMAC_update c d)) ctxt ds) (Some result) =
    (0, Some (mem_write result 0 (HMAC MD5 64 key (concat ds))))"
  using hmac_md5.stream [OF assms] by (simp add: Curl_HMAC_MD5_def)

theorem hmac_md5_streaming_witness:
  "let mem = \<lparr>hmac_hash = Curl_HMAC_MD5, hmac_hashctxt1 = md5_cleared, hmac_hashctxt2 = md5_cleared, hmac_room = []\<rparr>;
       ctxt = the (fst (Curl_HMAC_init Curl_HMAC_MD5 (s2b ''key'') mem []))
   in Curl_HMAC_final (foldl (\<lambda>c d. snd (Curl_HMAC_update c d)) ctxt [s2b ''a'', s2b ''bc'']) (Some []) =
    (0, Some (mem_write [] 0 (HMAC MD5 64 (s2b ''key'') (concat [s2b ''a'', s2b ''bc'']))))"
  unfolding Let_def
  by (rule hmac_md5_streaming [where A = "[]" and mem =
        "\<lparr>hmac_hash = Curl_HMAC_MD5, hmac_hashctxt1 = md5_cleared, hmac_hashctxt2 = md5_cleared, hmac_room = []\<rparr>"])
    (simp_all add: md5_cleared_def Curl_HMAC_init_def Let_def split_beta)

end
