(* ===== verification/Dynhds.thy ===== *)
theory Dynhds
  imports Ctype
begin

text \<open>
  Collected headers with limits, \<open>dynhds.c\<close>. The array \<open>hds\<close> is \<open>None\<close> before it is allocated
  and otherwise a list of exactly \<open>hds_allc\<close> slots; a slot is \<open>None\<close> when it holds no pointer. An
  entry is one block with a name and a value and their lengths. \<open>strs_len\<close> and its limit are
  words, since the code adds and subtracts without looking for an overflow.

  What is shown: a collection refines a list of headers with two limits; the limits hold as long
  as no line continues another; a continued line escapes the limit on the size.
\<close>

subsection \<open>The code\<close>

record dynhds_entry =
  e_name :: "byte list"
  e_value :: "byte list"

record dynhds =
  hds :: "dynhds_entry option list option"
  hds_len :: nat
  hds_allc :: nat
  max_entries :: nat
  strs_len :: "64 word"
  max_strs_size :: "64 word"
  opts :: nat

definition DYNHDS_OPT_LOWERCASE :: nat where
  "DYNHDS_OPT_LOWERCASE = 1"

definition entry_new :: "byte list \<Rightarrow> byte list \<Rightarrow> nat \<Rightarrow> alloc_script \<Rightarrow> dynhds_entry option \<times> alloc_script" where
  "entry_new name value op A =
     (let (ok, A) = alloc A
      in if \<not> ok then (None, A)
         else
           (let e = \<lparr>e_name = name, e_value = value\<rparr>
            in (Some (if op AND DYNHDS_OPT_LOWERCASE \<noteq> 0
                      then e\<lparr>e_name := mem_write name 0 (Curl_strntolower (cstr name) (length name))\<rparr> else e), A)))"

definition entry_append :: "dynhds_entry \<Rightarrow> byte list \<Rightarrow> alloc_script \<Rightarrow> dynhds_entry option \<times> alloc_script" where
  "entry_append e value A =
     (let (ok, A) = alloc A
      in if \<not> ok then (None, A) else (Some \<lparr>e_name = e_name e, e_value = e_value e @ 0x20 # value\<rparr>, A))"

definition Curl_dynhds_init :: "nat \<Rightarrow> 64 word \<Rightarrow> dynhds" where
  "Curl_dynhds_init me ms = \<lparr>hds = None, hds_len = 0, hds_allc = 0, max_entries = me,
     strs_len = 0, max_strs_size = ms, opts = 0\<rparr>"

definition Curl_dynhds_free :: "dynhds \<Rightarrow> dynhds" where
  "Curl_dynhds_free d = d\<lparr>hds := None, hds_len := 0, hds_allc := 0, strs_len := 0\<rparr>"

definition Curl_dynhds_reset :: "dynhds \<Rightarrow> dynhds" where
  "Curl_dynhds_reset d =
     d\<lparr>hds := map_option (\<lambda>s. replicate (hds_len d) None @ drop (hds_len d) s) (hds d), hds_len := 0, strs_len := 0\<rparr>"

definition Curl_dynhds_count :: "dynhds \<Rightarrow> nat" where
  "Curl_dynhds_count d = hds_len d"

definition Curl_dynhds_set_opts :: "dynhds \<Rightarrow> nat \<Rightarrow> dynhds" where
  "Curl_dynhds_set_opts d op = d\<lparr>opts := op\<rparr>"

text \<open>\<open>hds[i]\<close>, for an index below \<open>hds_len\<close>.\<close>

definition hds_at :: "dynhds \<Rightarrow> nat \<Rightarrow> dynhds_entry" where
  "hds_at d i = the (the (hds d) ! i)"

definition Curl_dynhds_getn :: "dynhds \<Rightarrow> nat \<Rightarrow> dynhds_entry option" where
  "Curl_dynhds_getn d n = (if n < hds_len d then Some (hds_at d n) else None)"

text \<open>
  The removal and the count call the comparison with the two names in the other order, which
  makes no difference (\<open>ncasecompare_sym\<close>).
\<close>

definition name_matches :: "dynhds_entry \<Rightarrow> byte list \<Rightarrow> bool" where
  "name_matches e name \<longleftrightarrow>
     length (e_name e) = length name \<and> curl_strnequal (Some (cstr (e_name e))) (Some (cstr name)) (length name)"

function get_loop :: "dynhds \<Rightarrow> byte list \<Rightarrow> nat \<Rightarrow> dynhds_entry option" where
  "get_loop d name i =
     (if i < hds_len d
      then if name_matches (hds_at d i) name then Some (hds_at d i) else get_loop d name (i + 1)
      else None)"
  by pat_completeness auto
termination by (relation "measure (\<lambda>(d, name, i). hds_len d - i)") auto

declare get_loop.simps [simp del]

definition Curl_dynhds_get :: "dynhds \<Rightarrow> byte list \<Rightarrow> dynhds_entry option" where
  "Curl_dynhds_get d name = get_loop d name 0"

definition Curl_dynhds_add :: "dynhds \<Rightarrow> byte list \<Rightarrow> byte list \<Rightarrow> alloc_script \<Rightarrow> CURLcode \<times> dynhds \<times> alloc_script" where
  "Curl_dynhds_add d name value A =
     (if max_entries d \<noteq> 0 \<and> hds_len d \<ge> max_entries d then (CURLE_OUT_OF_MEMORY, d, A)
      else if strs_len d + of_nat (length name) + of_nat (length value) > max_strs_size d then (CURLE_OUT_OF_MEMORY, d, A)
      else
        (case entry_new name value (opts d) A of
           (None, A) \<Rightarrow> (CURLE_OUT_OF_MEMORY, d, A)
         | (Some entry, A) \<Rightarrow>
             (let (ok, d, A) =
                (if hds_len d + 1 \<ge> hds_allc d then
                   (let nallc = hds_len d + 16;
                        nallc = (if max_entries d \<noteq> 0 \<and> nallc > max_entries d then max_entries d else nallc);
                        (ok, A) = alloc A
                    in if \<not> ok then (False, d, A)
                       else
                         (let nhds = replicate nallc None;
                              nhds = (case hds d of None \<Rightarrow> nhds
                                      | Some s \<Rightarrow> take (hds_len d) s @ drop (hds_len d) nhds)
                          in (True, d\<lparr>hds := Some nhds, hds_allc := nallc\<rparr>, A)))
                 else (True, d, A))
              in if \<not> ok then (CURLE_OUT_OF_MEMORY, d, A)
                 else
                   (CURLE_OK, d\<lparr>hds := map_option (\<lambda>s. s[hds_len d := Some entry]) (hds d), hds_len := hds_len d + 1,
                      strs_len := strs_len d + of_nat (length name + length value)\<rparr>, A))))"

definition memchr :: "byte \<Rightarrow> byte list \<Rightarrow> nat option" where
  "memchr c s = (let n = length (takeWhile (\<lambda>b. b \<noteq> c) s) in if n < length s then Some n else None)"

definition line_end :: "byte list \<Rightarrow> nat" where
  "line_end value =
     (case memchr 0x0D value of
        Some p \<Rightarrow> p
      | None \<Rightarrow> (case memchr 0x0A value of Some p \<Rightarrow> p | None \<Rightarrow> length value))"

definition h1_continue :: "dynhds \<Rightarrow> byte list \<Rightarrow> alloc_script \<Rightarrow> CURLcode \<times> dynhds \<times> alloc_script" where
  "h1_continue d line A =
     (if hds_len d = 0 then (CURLE_BAD_FUNCTION_ARGUMENT, d, A)
      else
        (let line = dropWhile ISBLANK line
         in if line = [] then (CURLE_BAD_FUNCTION_ARGUMENT, d, A)
            else
              (case entry_append (hds_at d (hds_len d - 1)) line A of
                 (None, A) \<Rightarrow> (CURLE_OUT_OF_MEMORY, d, A)
               | (Some e2, A) \<Rightarrow> (CURLE_OK, d\<lparr>hds := map_option (\<lambda>s. s[hds_len d - 1 := Some e2]) (hds d)\<rparr>, A))))"

definition Curl_dynhds_h1_add_line :: "dynhds \<Rightarrow> byte list option \<Rightarrow> alloc_script \<Rightarrow> CURLcode \<times> dynhds \<times> alloc_script" where
  "Curl_dynhds_h1_add_line d line A =
     (case line of
        None \<Rightarrow> (CURLE_OK, d, A)
      | Some [] \<Rightarrow> (CURLE_OK, d, A)
      | Some (c # cs) \<Rightarrow>
          if c = 0x20 \<or> c = 0x09 then h1_continue d (c # cs) A
          else
            (case memchr 0x3A (c # cs) of
               None \<Rightarrow> (CURLE_BAD_FUNCTION_ARGUMENT, d, A)
             | Some namelen \<Rightarrow>
                 (let value = dropWhile ISBLANK (drop (namelen + 1) (c # cs))
                  in Curl_dynhds_add d (take namelen (c # cs)) (take (line_end value) value) A)))"

text \<open>Functions of a debug build.\<close>

definition Curl_dynhds_contains :: "dynhds \<Rightarrow> byte list \<Rightarrow> bool" where
  "Curl_dynhds_contains d name \<longleftrightarrow> Curl_dynhds_get d name \<noteq> None"

definition Curl_dynhds_count_name :: "dynhds \<Rightarrow> byte list \<Rightarrow> nat" where
  "Curl_dynhds_count_name d name =
     foldl (\<lambda>n i. if name_matches (hds_at d i) name then n + 1 else n) 0 [0..<hds_len d]"

definition remove_at :: "dynhds \<Rightarrow> nat \<Rightarrow> dynhds" where
  "remove_at d i =
     (let e = hds_at d i;
          d = d\<lparr>hds_len := hds_len d - 1, strs_len := strs_len d - of_nat (length (e_name e) + length (e_value e))\<rparr>;
          len = hds_len d - i
      in if len \<noteq> 0
         then d\<lparr>hds := map_option (\<lambda>s. take i s @ take len (drop (i + 1) s) @ drop (i + len) s) (hds d)\<rparr>
         else d)"

function remove_loop :: "dynhds \<Rightarrow> byte list \<Rightarrow> nat \<Rightarrow> nat \<Rightarrow> nat \<times> dynhds" where
  "remove_loop d name i n =
     (if i < hds_len d
      then if name_matches (hds_at d i) name then remove_loop (remove_at d i) name i (n + 1)
           else remove_loop d name (i + 1) n
      else (n, d))"
  by pat_completeness auto
termination
  by (relation "measure (\<lambda>(d, name, i, n). hds_len d - i)") (auto simp: remove_at_def Let_def)

declare remove_loop.simps [simp del]

definition Curl_dynhds_remove :: "dynhds \<Rightarrow> byte list \<Rightarrow> nat \<times> dynhds" where
  "Curl_dynhds_remove d name = remove_loop d name 0 0"

definition Curl_dynhds_set :: "dynhds \<Rightarrow> byte list \<Rightarrow> byte list \<Rightarrow> alloc_script \<Rightarrow> CURLcode \<times> dynhds \<times> alloc_script" where
  "Curl_dynhds_set d name value A = Curl_dynhds_add (snd (Curl_dynhds_remove d name)) name value A"

text \<open>The same with strings that end at a zero byte.\<close>

definition Curl_dynhds_cget :: "dynhds \<Rightarrow> byte list \<Rightarrow> dynhds_entry option" where
  "Curl_dynhds_cget d name = Curl_dynhds_get d (cstr name)"

definition Curl_dynhds_cadd :: "dynhds \<Rightarrow> byte list \<Rightarrow> byte list \<Rightarrow> alloc_script \<Rightarrow> CURLcode \<times> dynhds \<times> alloc_script" where
  "Curl_dynhds_cadd d name value A = Curl_dynhds_add d (cstr name) (cstr value) A"

definition Curl_dynhds_h1_cadd_line :: "dynhds \<Rightarrow> byte list option \<Rightarrow> alloc_script \<Rightarrow> CURLcode \<times> dynhds \<times> alloc_script" where
  "Curl_dynhds_h1_cadd_line d line A = Curl_dynhds_h1_add_line d (map_option cstr line) A"

definition Curl_dynhds_ccontains :: "dynhds \<Rightarrow> byte list \<Rightarrow> bool" where
  "Curl_dynhds_ccontains d name = Curl_dynhds_contains d (cstr name)"

definition Curl_dynhds_ccount_name :: "dynhds \<Rightarrow> byte list \<Rightarrow> nat" where
  "Curl_dynhds_ccount_name d name = Curl_dynhds_count_name d (cstr name)"

definition Curl_dynhds_cremove :: "dynhds \<Rightarrow> byte list \<Rightarrow> nat \<times> dynhds" where
  "Curl_dynhds_cremove d name = Curl_dynhds_remove d (cstr name)"

subsection \<open>A list of headers with limits\<close>

definition dynhds_inv :: "dynhds \<Rightarrow> bool" where
  "dynhds_inv d \<longleftrightarrow>
     hds_len d \<le> hds_allc d
     \<and> (case hds d of None \<Rightarrow> hds_allc d = 0 | Some s \<Rightarrow> length s = hds_allc d \<and> None \<notin> set (take (hds_len d) s))
     \<and> (max_entries d = 0 \<or> hds_len d \<le> max_entries d)"

definition headers :: "dynhds \<Rightarrow> dynhds_entry list" where
  "headers d = map the (take (hds_len d) (case hds d of None \<Rightarrow> [] | Some s \<Rightarrow> s))"

definition hd_size :: "dynhds_entry \<Rightarrow> nat" where
  "hd_size e = length (e_name e) + length (e_value e)"

definition new_header :: "nat \<Rightarrow> byte list \<Rightarrow> byte list \<Rightarrow> dynhds_entry" where
  "new_header op name value =
     \<lparr>e_name = (if op AND DYNHDS_OPT_LOWERCASE \<noteq> 0
        then mem_write name 0 (Curl_strntolower (cstr name) (length name)) else name), e_value = value\<rparr>"

type_synonym header_list = "dynhds_entry list \<times> 64 word \<times> nat"

definition list_add :: "nat \<Rightarrow> 64 word \<Rightarrow> byte list \<Rightarrow> byte list \<Rightarrow> header_list \<Rightarrow> CURLcode \<times> header_list" where
  "list_add me ms name value = (\<lambda>(hs, used, op).
     if me \<noteq> 0 \<and> length hs \<ge> me \<or> used + of_nat (length name) + of_nat (length value) > ms
     then (CURLE_OUT_OF_MEMORY, hs, used, op)
     else (CURLE_OK, hs @ [new_header op name value], used + of_nat (length name + length value), op))"

definition list_continue :: "byte list \<Rightarrow> header_list \<Rightarrow> CURLcode \<times> header_list" where
  "list_continue line = (\<lambda>(hs, used, op).
     if hs = [] \<or> dropWhile ISBLANK line = [] then (CURLE_BAD_FUNCTION_ARGUMENT, hs, used, op)
     else (CURLE_OK, butlast hs @ [(last hs)\<lparr>e_value := e_value (last hs) @ 0x20 # dropWhile ISBLANK line\<rparr>], used, op))"

definition list_remove :: "byte list \<Rightarrow> header_list \<Rightarrow> nat \<times> header_list" where
  "list_remove name = (\<lambda>(hs, used, op).
     let gone = filter (\<lambda>e. name_matches e name) hs
     in (length gone, filter (\<lambda>e. \<not> name_matches e name) hs, used - of_nat (sum_list (map hd_size gone)), op))"

text \<open>A line, as what it asks for: to go on with the last header, a new header, or nothing.\<close>

datatype h1_line = Nothing | Continue "byte list" | Header "byte list" "byte list" | Malformed

definition h1_parse :: "byte list option \<Rightarrow> h1_line" where
  "h1_parse line =
     (case line of
        None \<Rightarrow> Nothing
      | Some [] \<Rightarrow> Nothing
      | Some (c # cs) \<Rightarrow>
          if c = 0x20 \<or> c = 0x09 then Continue (c # cs)
          else if 0x3A \<notin> set (c # cs) then Malformed
          else
            (let value = dropWhile ISBLANK (tl (dropWhile (\<lambda>b. b \<noteq> 0x3A) (c # cs)))
             in Header (takeWhile (\<lambda>b. b \<noteq> 0x3A) (c # cs))
                  (if 0x0D \<in> set value then takeWhile (\<lambda>b. b \<noteq> 0x0D) value else takeWhile (\<lambda>b. b \<noteq> 0x0A) value)))"

definition list_line :: "nat \<Rightarrow> 64 word \<Rightarrow> byte list option \<Rightarrow> header_list \<Rightarrow> CURLcode \<times> header_list" where
  "list_line me ms line st =
     (case h1_parse line of
        Nothing \<Rightarrow> (CURLE_OK, st)
      | Continue l \<Rightarrow> list_continue l st
      | Header name value \<Rightarrow> list_add me ms name value st
      | Malformed \<Rightarrow> (CURLE_BAD_FUNCTION_ARGUMENT, st))"

definition dynhds_abs :: "dynhds \<Rightarrow> header_list" where
  "dynhds_abs d = (headers d, strs_len d, opts d)"

subsection \<open>The array\<close>

lemma dynhds_init_inv [inv_intros]: "dynhds_inv (Curl_dynhds_init me ms)"
  and dynhds_init_headers: "headers (Curl_dynhds_init me ms) = []"
  by (simp_all add: dynhds_inv_def headers_def Curl_dynhds_init_def)

lemma dynhds_slots:
  assumes "dynhds_inv d" "hds_len d > 0"
  obtains s where "hds d = Some s" "length s = hds_allc d" "hds_len d \<le> length s" "None \<notin> set (take (hds_len d) s)"
  using assms by (auto simp: dynhds_inv_def split: option.splits)

lemma length_headers [simp]: "dynhds_inv d \<Longrightarrow> length (headers d) = hds_len d"
  by (auto simp: dynhds_inv_def headers_def split: option.splits)

lemma hds_at_headers: "dynhds_inv d \<Longrightarrow> i < hds_len d \<Longrightarrow> hds_at d i = headers d ! i"
  by (auto simp: dynhds_inv_def headers_def hds_at_def split: option.splits)

lemma entry_new_exact:
  "entry_new name value op A = (if fst (alloc A) then (Some (new_header op name value), snd (alloc A)) else (None, snd (alloc A)))"
  by (simp add: entry_new_def new_header_def split_beta Let_def)

text \<open>The array is made to have a free slot; \<open>n\<close> entries stay.\<close>

definition dynhds_grown :: "dynhds \<Rightarrow> dynhds" where
  "dynhds_grown d =
     (if hds_len d + 1 \<ge> hds_allc d then
        (let nallc = (if max_entries d \<noteq> 0 \<and> hds_len d + 16 > max_entries d then max_entries d else hds_len d + 16)
         in d\<lparr>hds := Some (case hds d of None \<Rightarrow> replicate nallc None
                | Some s \<Rightarrow> take (hds_len d) s @ drop (hds_len d) (replicate nallc None)), hds_allc := nallc\<rparr>)
      else d)"

lemma dynhds_add_cases:
  obtains (full) "max_entries d \<noteq> 0 \<and> hds_len d \<ge> max_entries d
        \<or> strs_len d + of_nat (length name) + of_nat (length value) > max_strs_size d"
      "Curl_dynhds_add d name value A = (CURLE_OUT_OF_MEMORY, d, A)"
  | (oom) A' where "\<not> no_oom A" "Curl_dynhds_add d name value A = (CURLE_OUT_OF_MEMORY, d, A')"
  | (added) A' where "\<not> (max_entries d \<noteq> 0 \<and> hds_len d \<ge> max_entries d
        \<or> strs_len d + of_nat (length name) + of_nat (length value) > max_strs_size d)"
      "no_oom A \<Longrightarrow> no_oom A'"
      "Curl_dynhds_add d name value A = (CURLE_OK,
        (dynhds_grown d)\<lparr>hds := map_option (\<lambda>s. s[hds_len d := Some (new_header (opts d) name value)]) (hds (dynhds_grown d)),
          hds_len := hds_len d + 1, strs_len := strs_len d + of_nat (length name + length value)\<rparr>, A')"
proof -
  obtain ok1 A1 ok2 A2 where a: "alloc A = (ok1, A1)" "alloc A1 = (ok2, A2)" by fastforce
  have n: "no_oom A \<Longrightarrow> ok1 \<and> no_oom A1" "no_oom A1 \<Longrightarrow> ok2 \<and> no_oom A2"
    using alloc_no_oomD a by blast+
  show ?thesis
  proof (cases "max_entries d \<noteq> 0 \<and> hds_len d \<ge> max_entries d
      \<or> strs_len d + of_nat (length name) + of_nat (length value) > max_strs_size d")
    case True
    then show ?thesis by (intro full) (auto simp: Curl_dynhds_add_def)
  next
    case False
    note c = False [unfolded de_Morgan_disj, THEN conjunct1] False [unfolded de_Morgan_disj, THEN conjunct2]
    show ?thesis
    proof (cases "\<not> ok1 \<or> hds_len d + 1 \<ge> hds_allc d \<and> \<not> ok2")
      case True
      then have "\<not> no_oom A" using n by blast
      moreover have "\<exists>A'. Curl_dynhds_add d name value A = (CURLE_OUT_OF_MEMORY, d, A')"
        using True c by (auto simp: Curl_dynhds_add_def entry_new_exact a Let_def)
      ultimately show ?thesis using oom by blast
    next
      case False
      let ?A = "if hds_len d + 1 \<ge> hds_allc d then A2 else A1"
      have "no_oom A \<Longrightarrow> no_oom ?A" using n by auto
      then show ?thesis using False c a
        by (intro added [of ?A]) (auto simp: Curl_dynhds_add_def entry_new_exact dynhds_grown_def Let_def)
    qed
  qed
qed

lemma grown_exact:
  assumes "dynhds_inv d" "max_entries d = 0 \<or> hds_len d < max_entries d"
  obtains s where "hds (dynhds_grown d) = Some s" "length s = hds_allc (dynhds_grown d)" "hds_len d < length s"
    "map the (take (hds_len d) s) = headers d" "None \<notin> set (take (hds_len d) s)"
    "max_entries (dynhds_grown d) = max_entries d" "max_strs_size (dynhds_grown d) = max_strs_size d" "opts (dynhds_grown d) = opts d"
proof (cases "hds_len d + 1 \<ge> hds_allc d")
  case True
  let ?n = "if max_entries d \<noteq> 0 \<and> hds_len d + 16 > max_entries d then max_entries d else hds_len d + 16"
  have n: "hds_len d < ?n" using assms(2) by auto
  show ?thesis
  proof (cases "hds d")
    case None
    then have "hds_len d = 0" using assms(1) by (simp add: dynhds_inv_def)
    then show ?thesis using that True None n by (simp add: dynhds_grown_def headers_def Let_def)
  next
    case (Some s)
    then have "hds_len d \<le> length s" using assms(1) by (simp add: dynhds_inv_def)
    then show ?thesis using that True Some n assms(1)
      by (simp add: dynhds_grown_def headers_def Let_def dynhds_inv_def min_absorb2)
  qed
next
  case False
  then have "hds_allc d > 0" by simp
  then obtain s where "hds d = Some s" using assms(1) by (auto simp: dynhds_inv_def split: option.splits)
  then show ?thesis using that False assms(1) by (simp add: dynhds_grown_def headers_def dynhds_inv_def)
qed

subsection \<open>Operations on the list\<close>

lemma dynhds_add_added:
  assumes inv: "dynhds_inv d" and m: "max_entries d = 0 \<or> hds_len d < max_entries d"
    and d': "d' = (dynhds_grown d)\<lparr>hds := map_option (\<lambda>s. s[hds_len d := Some e]) (hds (dynhds_grown d)),
      hds_len := hds_len d + 1, strs_len := u\<rparr>"
  shows "dynhds_inv d'" "headers d' = headers d @ [e]" "max_entries d' = max_entries d" "max_strs_size d' = max_strs_size d"
    "opts d' = opts d" "strs_len d' = u"
proof -
  obtain s where s: "hds (dynhds_grown d) = Some s" "length s = hds_allc (dynhds_grown d)" "hds_len d < length s"
    "map the (take (hds_len d) s) = headers d" "None \<notin> set (take (hds_len d) s)"
    "max_entries (dynhds_grown d) = max_entries d" "max_strs_size (dynhds_grown d) = max_strs_size d" "opts (dynhds_grown d) = opts d"
    by (rule grown_exact [OF inv m])
  have t: "take (Suc (hds_len d)) (s[hds_len d := Some e]) = take (hds_len d) s @ [Some e]"
    using s(3) by (simp add: take_Suc_conv_app_nth)
  show "dynhds_inv d'" using s t m by (auto simp: d' dynhds_inv_def)
  show "headers d' = headers d @ [e]" using s t by (simp add: d' headers_def)
  show "max_entries d' = max_entries d" "max_strs_size d' = max_strs_size d" "opts d' = opts d" "strs_len d' = u"
    using s by (simp_all add: d')
qed

text \<open>What an operation keeps: the invariant and the limits.\<close>

definition keeps :: "dynhds \<Rightarrow> dynhds \<Rightarrow> bool" where
  "keeps d d' \<longleftrightarrow> dynhds_inv d' \<and> max_entries d' = max_entries d \<and> max_strs_size d' = max_strs_size d"

lemma add_refines:
  assumes "dynhds_inv d" "no_oom A"
  shows "\<exists>d' A'. Curl_dynhds_add d name value A = (fst (list_add (max_entries d) (max_strs_size d) name value (dynhds_abs d)), d', A')
    \<and> dynhds_abs d' = snd (list_add (max_entries d) (max_strs_size d) name value (dynhds_abs d)) \<and> keeps d d' \<and> no_oom A'"
proof (rule dynhds_add_cases [of d name "value" A])
  assume "max_entries d \<noteq> 0 \<and> hds_len d \<ge> max_entries d
        \<or> strs_len d + of_nat (length name) + of_nat (length value) > max_strs_size d"
    "Curl_dynhds_add d name value A = (CURLE_OUT_OF_MEMORY, d, A)"
  then show ?thesis using assms by (auto simp: list_add_def dynhds_abs_def keeps_def)
next
  fix A' assume "\<not> no_oom A"
  then show ?thesis using assms(2) by simp
next
  fix A'
  let ?d = "(dynhds_grown d)\<lparr>hds := map_option (\<lambda>s. s[hds_len d := Some (new_header (opts d) name value)]) (hds (dynhds_grown d)),
      hds_len := hds_len d + 1, strs_len := strs_len d + of_nat (length name + length value)\<rparr>"
  assume c: "\<not> (max_entries d \<noteq> 0 \<and> hds_len d \<ge> max_entries d
        \<or> strs_len d + of_nat (length name) + of_nat (length value) > max_strs_size d)"
    and A': "no_oom A \<Longrightarrow> no_oom A'" and e: "Curl_dynhds_add d name value A = (CURLE_OK, ?d, A')"
  have m: "max_entries d = 0 \<or> hds_len d < max_entries d" using c by auto
  note a = dynhds_add_added [OF assms(1) m refl, where e = "new_header (opts d) name value" and u = "strs_len d + of_nat (length name + length value)"]
  have "list_add (max_entries d) (max_strs_size d) name value (dynhds_abs d) = (CURLE_OK, dynhds_abs ?d)"
    using c assms(1) a by (auto simp: list_add_def dynhds_abs_def)
  then show ?thesis using e a A' assms(2) by (intro exI [of _ ?d] exI [of _ A']) (simp add: keeps_def)
qed

lemma remove_at_exact:
  assumes inv: "dynhds_inv d" and i: "i < hds_len d"
  shows "keeps d (remove_at d i)" "headers (remove_at d i) = take i (headers d) @ drop (Suc i) (headers d)"
    "strs_len (remove_at d i) = strs_len d - of_nat (hd_size (headers d ! i))" "opts (remove_at d i) = opts d"
    "hds_len (remove_at d i) = hds_len d - 1"
proof -
  obtain s where s: "hds d = Some s" "length s = hds_allc d" "hds_len d \<le> length s" "None \<notin> set (take (hds_len d) s)"
    by (rule dynhds_slots [OF inv]) (use i in simp_all)
  let ?n = "hds_len d - 1" and ?len = "hds_len d - 1 - i"
  let ?s = "if ?len \<noteq> 0 then take i s @ take ?len (drop (i + 1) s) @ drop (i + ?len) s else s"
  have h: "hds (remove_at d i) = Some ?s" "hds_allc (remove_at d i) = hds_allc d" "max_entries (remove_at d i) = max_entries d"
    "max_strs_size (remove_at d i) = max_strs_size d"
    using i by (auto simp: remove_at_def Let_def s(1))
  show l: "hds_len (remove_at d i) = ?n" and "opts (remove_at d i) = opts d"
    by (simp_all add: remove_at_def Let_def)
  show "strs_len (remove_at d i) = strs_len d - of_nat (hd_size (headers d ! i))"
    using inv i by (simp add: remove_at_def Let_def hd_size_def hds_at_headers)
  have ls: "length ?s = length s" using i s(3) by auto
  have t: "take ?n ?s = take i (take (hds_len d) s) @ drop (Suc i) (take (hds_len d) s)"
  proof (cases "?len = 0")
    case True
    then have "?n = i" "hds_len d = Suc i" using i by simp_all
    then show ?thesis by simp
  next
    case False
    then show ?thesis using i s(3) by (simp add: min_absorb1 min_absorb2 drop_take)
  qed
  then show "headers (remove_at d i) = take i (headers d) @ drop (Suc i) (headers d)"
    by (simp add: headers_def l h(1) s(1) take_map drop_map)
  have "None \<notin> set (take ?n ?s)" unfolding t set_append
    using s(4) set_take_subset [of i "take (hds_len d) s"] set_drop_subset [of "Suc i" "take (hds_len d) s"] by blast
  then show "keeps d (remove_at d i)" using inv ls s h l by (auto simp: keeps_def dynhds_inv_def)
qed

lemma remove_loop_exact:
  fixes name :: "byte list"
  assumes "dynhds_inv d" "i \<le> hds_len d"
  defines "gone \<equiv> filter (\<lambda>e. name_matches e name) (drop i (headers d))"
  shows "\<exists>d'. remove_loop d name i n = (n + length gone, d') \<and> keeps d d' \<and> opts d' = opts d
    \<and> headers d' = take i (headers d) @ filter (\<lambda>e. \<not> name_matches e name) (drop i (headers d))
    \<and> strs_len d' = strs_len d - of_nat (sum_list (map hd_size gone))"
  using assms(1,2) unfolding gone_def
proof (induction d name i n rule: remove_loop.induct)
  case (1 d name i n)
  show ?case
  proof (cases "i < hds_len d")
    case False
    then show ?thesis using 1(3,4) by (simp add: remove_loop.simps [of d] keeps_def)
  next
    case True
    let ?e = "headers d ! i" and ?d = "remove_at d i"
    have at: "hds_at d i = ?e" using 1(3) True by (rule hds_at_headers)
    have dr: "drop i (headers d) = ?e # drop (Suc i) (headers d)" using 1(3) True by (simp add: Cons_nth_drop_Suc)
    show ?thesis
    proof (cases "name_matches ?e name")
      case match: True
      note r = remove_at_exact [OF 1(3) True]
      have inv: "dynhds_inv ?d" using r(1) by (simp add: keeps_def)
      have "i \<le> hds_len ?d" using True by (simp add: r(5))
      moreover have "take i (headers ?d) = take i (headers d)" "drop i (headers ?d) = drop (Suc i) (headers d)"
        using 1(3) True by (simp_all add: r(2))
      ultimately show ?thesis using 1(1) [OF True _ inv] match r at True
        by (auto simp: remove_loop.simps [of d] dr keeps_def)
    next
      case False
      have "take (Suc i) (headers d) = take i (headers d) @ [?e]" using 1(3) True by (simp add: take_Suc_conv_app_nth)
      then show ?thesis using 1(2) [OF True _ 1(3)] False True at
        by (auto simp: remove_loop.simps [of d] dr)
    qed
  qed
qed

lemma remove_refines:
  assumes "dynhds_inv d"
  shows "\<exists>d'. Curl_dynhds_remove d name = (fst (list_remove name (dynhds_abs d)), d')
    \<and> dynhds_abs d' = snd (list_remove name (dynhds_abs d)) \<and> keeps d d'"
  using remove_loop_exact [OF assms, of 0 name 0]
  by (auto simp: Curl_dynhds_remove_def list_remove_def dynhds_abs_def Let_def)

lemma continue_exact:
  assumes inv: "dynhds_inv d"
  obtains (bad) "headers d = [] \<or> dropWhile ISBLANK line = []" "h1_continue d line A = (CURLE_BAD_FUNCTION_ARGUMENT, d, A)"
  | (oom) A' where "\<not> no_oom A" "h1_continue d line A = (CURLE_OUT_OF_MEMORY, d, A')"
  | (done_) d' A' where "headers d \<noteq> []" "dropWhile ISBLANK line \<noteq> []" "h1_continue d line A = (CURLE_OK, d', A')"
      "headers d' = butlast (headers d) @ [(last (headers d))\<lparr>e_value := e_value (last (headers d)) @ 0x20 # dropWhile ISBLANK line\<rparr>]"
      "keeps d d'" "strs_len d' = strs_len d" "opts d' = opts d" "no_oom A \<Longrightarrow> no_oom A'"
proof (cases "headers d = [] \<or> dropWhile ISBLANK line = []")
  case True
  moreover have "headers d = [] \<longleftrightarrow> hds_len d = 0" using length_headers [OF inv] by (metis length_0_conv)
  ultimately show ?thesis by (intro bad) (auto simp: h1_continue_def)
next
  case False
  then have "headers d \<noteq> []" by simp
  then have n: "0 < hds_len d" using length_headers [OF inv] by (metis length_greater_0_conv)
  obtain s where s: "hds d = Some s" "length s = hds_allc d" "hds_len d \<le> length s" "None \<notin> set (take (hds_len d) s)"
    by (rule dynhds_slots [OF inv n])
  let ?i = "hds_len d - 1"
  have at: "hds_at d ?i = last (headers d)" using hds_at_headers [OF inv, of ?i] n False length_headers [OF inv] by (simp add: last_conv_nth)
  obtain ok A' where a: "alloc A = (ok, A')" by fastforce
  let ?e = "(last (headers d))\<lparr>e_value := e_value (last (headers d)) @ 0x20 # dropWhile ISBLANK line\<rparr>"
  have e: "\<lparr>e_name = e_name h, e_value = v\<rparr> = h\<lparr>e_value := v\<rparr>" for h v by simp
  show ?thesis
  proof (cases ok)
    case False
    then have "\<not> no_oom A" using alloc_no_oomD [OF _ a] by blast
    then show ?thesis using False n \<open>\<not> (headers d = [] \<or> dropWhile ISBLANK line = [])\<close>
      by (intro oom [of A']) (simp_all add: h1_continue_def entry_append_def a)
  next
    case True
    let ?d = "d\<lparr>hds := map_option (\<lambda>s. s[?i := Some ?e]) (hds d)\<rparr>"
    have t: "take (hds_len d) (s[?i := Some ?e]) = butlast (take (hds_len d) s) @ [Some ?e]"
      using n s(3) by (cases "hds_len d") (simp_all add: take_Suc_conv_app_nth butlast_take)
    have "headers ?d = butlast (headers d) @ [?e]" using t by (simp add: headers_def s(1) map_butlast)
    moreover have "keeps d ?d" using inv s t by (auto simp: keeps_def dynhds_inv_def dest: in_set_butlastD)
    moreover have "h1_continue d line A = (CURLE_OK, ?d, A')"
      using True n False at by (simp add: h1_continue_def entry_append_def a e Let_def)
    ultimately show ?thesis using False alloc_no_oomD [OF _ a] by (intro done_ [of ?d A']) auto
  qed
qed

subsection \<open>Lines\<close>

lemma memchr_exact: "memchr c s = (if c \<in> set s then Some (length (takeWhile (\<lambda>b. b \<noteq> c) s)) else None)"
proof -
  have "length (takeWhile (\<lambda>b. b \<noteq> c) s) < length s \<longleftrightarrow> c \<in> set s" by (induction s) auto
  then show ?thesis by (simp add: memchr_def Let_def)
qed

lemma take_line_end:
  "take (line_end v) v = (if 0x0D \<in> set v then takeWhile (\<lambda>b. b \<noteq> 0x0D) v else takeWhile (\<lambda>b. b \<noteq> 0x0A) v)"
proof -
  have w: "v = takeWhile (\<lambda>b. b \<noteq> 0x0A) v" if "0x0A \<notin> set v" using that by (induction v) auto
  show ?thesis by (simp add: line_end_def memchr_exact takeWhile_eq_take [symmetric]) (use w in blast)
qed

lemma drop_takeWhile_Suc: "drop (Suc (length (takeWhile P s))) s = tl (dropWhile P s)"
  by (simp add: dropWhile_eq_drop tl_drop drop_Suc)

lemma h1_add_line_parse:
  "Curl_dynhds_h1_add_line d line A =
    (case h1_parse line of
       Nothing \<Rightarrow> (CURLE_OK, d, A)
     | Continue l \<Rightarrow> h1_continue d l A
     | Header name value \<Rightarrow> Curl_dynhds_add d name value A
     | Malformed \<Rightarrow> (CURLE_BAD_FUNCTION_ARGUMENT, d, A))"
proof (cases line)
  case (Some s)
  show ?thesis
  proof (cases s)
    case (Cons c cs)
    show ?thesis
      unfolding Some Cons Curl_dynhds_h1_add_line_def h1_parse_def memchr_exact option.case list.case Let_def
      by (simp del: takeWhile.simps dropWhile.simps set_simps drop_Suc_Cons take_Suc_Cons list.set
          add: take_line_end drop_takeWhile_Suc takeWhile_eq_take [symmetric])
  qed (simp add: Some Curl_dynhds_h1_add_line_def h1_parse_def)
qed (simp add: Curl_dynhds_h1_add_line_def h1_parse_def)

text \<open>A header as it is written in HTTP/1.1 is added as this name and value.\<close>

lemma h1_line_header:
  assumes "0x3A \<notin> set name" "name \<noteq> []" "\<not> ISBLANK (hd name)"
    and "0x0D \<notin> set v" "0x0A \<notin> set v" "v = [] \<or> \<not> ISBLANK (hd v)"
    and "eol = [] \<or> eol = [0x0D, 0x0A] \<or> eol = [0x0A]"
  shows "Curl_dynhds_h1_add_line d (Some (name @ [0x3A, 0x20] @ v @ eol)) A = Curl_dynhds_add d name v A"
proof -
  obtain c cs where n: "name = c # cs" using assms(2) by (cases name) auto
  let ?r = "[0x20] @ v @ eol"
  have tw: "takeWhile (\<lambda>b. b \<noteq> 0x3A) (name @ 0x3A # ?r) = name" "dropWhile (\<lambda>b. b \<noteq> 0x3A) (name @ 0x3A # ?r) = 0x3A # ?r"
    using assms(1) by (auto simp: takeWhile_append dropWhile_append)
  have dr: "dropWhile ISBLANK ?r = v @ eol"
    using assms(6,7) by (cases v) (auto simp: ISBLANK_def)
  have v: "(if 0x0D \<in> set (v @ eol) then takeWhile (\<lambda>b. b \<noteq> 0x0D) (v @ eol) else takeWhile (\<lambda>b. b \<noteq> 0x0A) (v @ eol)) = v"
    using assms(4,5,7) by (auto simp: takeWhile_append takeWhile_eq_all_conv)
  have "h1_parse (Some (name @ 0x3A # ?r)) = Header name v"
    using tw dr v assms(1,3) unfolding h1_parse_def n by (simp add: ISBLANK_def)
  then show ?thesis unfolding h1_add_line_parse by simp
qed

lemma line_refines:
  assumes "dynhds_inv d" "no_oom A"
  shows "\<exists>d' A'. Curl_dynhds_h1_add_line d line A = (fst (list_line (max_entries d) (max_strs_size d) line (dynhds_abs d)), d', A')
    \<and> dynhds_abs d' = snd (list_line (max_entries d) (max_strs_size d) line (dynhds_abs d)) \<and> keeps d d' \<and> no_oom A'"
proof (cases "h1_parse line")
  case (Continue l)
  show ?thesis
    by (rule continue_exact [OF assms(1), of l A])
      (use Continue assms in \<open>auto simp: h1_add_line_parse list_line_def list_continue_def dynhds_abs_def keeps_def\<close>)
next
  case (Header n v)
  then show ?thesis using add_refines [OF assms, of n v] by (simp add: h1_add_line_parse list_line_def)
qed (use assms in \<open>simp_all add: h1_add_line_parse list_line_def keeps_def\<close>)

subsection \<open>Runs of operations\<close>

datatype dynhds_op =
    HAdd "byte list" "byte list"
  | HLine "byte list option"
  | HRemove "byte list"
  | HSet "byte list" "byte list"
  | HOpts nat
  | HReset
  | HFree

definition with_code :: "CURLcode \<times> 'a \<Rightarrow> (CURLcode \<times> nat) \<times> 'a" where
  "with_code r = ((fst r, 0), snd r)"

fun dynhds_step :: "dynhds_op \<Rightarrow> dynhds \<Rightarrow> alloc_script \<Rightarrow> (CURLcode \<times> nat) \<times> dynhds \<times> alloc_script" where
  "dynhds_step (HAdd n v) d A = with_code (Curl_dynhds_add d n v A)"
| "dynhds_step (HLine l) d A = with_code (Curl_dynhds_h1_add_line d l A)"
| "dynhds_step (HRemove n) d A = (case Curl_dynhds_remove d n of (k, d) \<Rightarrow> ((CURLE_OK, k), d, A))"
| "dynhds_step (HSet n v) d A = with_code (Curl_dynhds_set d n v A)"
| "dynhds_step (HOpts op) d A = ((CURLE_OK, 0), Curl_dynhds_set_opts d op, A)"
| "dynhds_step HReset d A = ((CURLE_OK, 0), Curl_dynhds_reset d, A)"
| "dynhds_step HFree d A = ((CURLE_OK, 0), Curl_dynhds_free d, A)"

fun dynhds_run :: "dynhds_op list \<Rightarrow> dynhds \<Rightarrow> alloc_script \<Rightarrow> (CURLcode \<times> nat) list \<times> dynhds \<times> alloc_script" where
  "dynhds_run [] d A = ([], d, A)"
| "dynhds_run (x # xs) d A =
     (case dynhds_step x d A of (r, d, A) \<Rightarrow> case dynhds_run xs d A of (rs, d, A) \<Rightarrow> (r # rs, d, A))"

fun list_step :: "nat \<Rightarrow> 64 word \<Rightarrow> dynhds_op \<Rightarrow> header_list \<Rightarrow> (CURLcode \<times> nat) \<times> header_list" where
  "list_step me ms (HAdd n v) st = with_code (list_add me ms n v st)"
| "list_step me ms (HLine l) st = with_code (list_line me ms l st)"
| "list_step me ms (HRemove n) st = (case list_remove n st of (k, st) \<Rightarrow> ((CURLE_OK, k), st))"
| "list_step me ms (HSet n v) st = with_code (list_add me ms n v (snd (list_remove n st)))"
| "list_step me ms (HOpts op) st = ((CURLE_OK, 0), fst st, fst (snd st), op)"
| "list_step me ms HReset st = ((CURLE_OK, 0), [], 0, snd (snd st))"
| "list_step me ms HFree st = ((CURLE_OK, 0), [], 0, snd (snd st))"

fun list_run :: "nat \<Rightarrow> 64 word \<Rightarrow> dynhds_op list \<Rightarrow> header_list \<Rightarrow> (CURLcode \<times> nat) list \<times> header_list" where
  "list_run me ms [] st = ([], st)"
| "list_run me ms (x # xs) st =
     (case list_step me ms x st of (r, st) \<Rightarrow> case list_run me ms xs st of (rs, st) \<Rightarrow> (r # rs, st))"

lemma step_refines:
  assumes inv: "dynhds_inv d" and A: "no_oom A"
  shows "\<exists>d' A'. dynhds_step x d A = (fst (list_step (max_entries d) (max_strs_size d) x (dynhds_abs d)), d', A')
    \<and> dynhds_abs d' = snd (list_step (max_entries d) (max_strs_size d) x (dynhds_abs d)) \<and> keeps d d' \<and> no_oom A'"
proof (cases x)
  case (HAdd n v)
  then show ?thesis using add_refines [OF assms, of n v] by (auto simp: with_code_def)
next
  case (HLine l)
  then show ?thesis using line_refines [OF assms, of l] by (auto simp: with_code_def)
next
  case (HRemove n)
  then show ?thesis using remove_refines [OF inv, of n] A by (auto simp: split_beta)
next
  case (HSet n v)
  obtain d' where d': "Curl_dynhds_remove d n = (fst (list_remove n (dynhds_abs d)), d')"
    "dynhds_abs d' = snd (list_remove n (dynhds_abs d))" "keeps d d'"
    using remove_refines [OF inv] by blast
  then show ?thesis using HSet add_refines [of d' A n v] A
    by (auto simp: Curl_dynhds_set_def with_code_def keeps_def)
next
  case (HOpts op)
  have "keeps d (d\<lparr>opts := op\<rparr>)" "headers (d\<lparr>opts := op\<rparr>) = headers d"
    using inv by (auto simp: keeps_def dynhds_inv_def headers_def split: option.splits)
  then show ?thesis using HOpts A by (simp add: Curl_dynhds_set_opts_def dynhds_abs_def)
next
  case HReset
  have "keeps d (Curl_dynhds_reset d)" "headers (Curl_dynhds_reset d) = []"
    using inv by (auto simp: Curl_dynhds_reset_def keeps_def dynhds_inv_def headers_def split: option.splits)
  then show ?thesis using HReset A by (simp add: dynhds_abs_def Curl_dynhds_reset_def)
next
  case HFree
  then show ?thesis using assms
    by (simp add: Curl_dynhds_free_def dynhds_abs_def keeps_def dynhds_inv_def headers_def)
qed

lemma run_refines:
  assumes "dynhds_inv d" "no_oom A" "max_entries d = me" "max_strs_size d = ms"
  shows "\<exists>d' A'. dynhds_run xs d A = (fst (list_run me ms xs (dynhds_abs d)), d', A')
    \<and> dynhds_abs d' = snd (list_run me ms xs (dynhds_abs d)) \<and> keeps d d'"
  using assms
proof (induction xs arbitrary: d A)
  case (Cons x xs)
  obtain d1 A1 where s: "dynhds_step x d A = (fst (list_step me ms x (dynhds_abs d)), d1, A1)"
    "dynhds_abs d1 = snd (list_step me ms x (dynhds_abs d))" "keeps d d1" "no_oom A1"
    using step_refines [OF Cons.prems(1,2)] Cons.prems(3,4) by blast
  have "dynhds_inv d1" "max_entries d1 = me" "max_strs_size d1 = ms" using s(3) Cons.prems by (simp_all add: keeps_def)
  from Cons.IH [OF this(1) s(4) this(2,3)] s show ?case
    by (auto simp: split_beta keeps_def)
qed (simp add: keeps_def)

subsection \<open>Reading\<close>

lemma get_loop_exact:
  "dynhds_inv d \<Longrightarrow> i \<le> hds_len d \<Longrightarrow> get_loop d name i = find (\<lambda>e. name_matches e name) (drop i (headers d))"
proof (induction d name i rule: get_loop.induct)
  case (1 d name i)
  show ?case
  proof (cases "i < hds_len d")
    case True
    then have "drop i (headers d) = headers d ! i # drop (Suc i) (headers d)" using 1(2) by (simp add: Cons_nth_drop_Suc)
    then show ?thesis using 1 True hds_at_headers [OF 1(2) True] by (simp add: get_loop.simps [of d])
  qed (use 1 in \<open>simp add: get_loop.simps [of d]\<close>)
qed

lemma count_name_exact:
  assumes "dynhds_inv d"
  shows "Curl_dynhds_count_name d name = length (filter (\<lambda>e. name_matches e name) (headers d))"
proof -
  have "foldl (\<lambda>n i. if name_matches (hds_at d i) name then n + 1 else n) 0 [0..<k]
      = length (filter (\<lambda>e. name_matches e name) (take k (headers d)))" if "k \<le> hds_len d" for k
    using that
  proof (induction k)
    case (Suc k)
    then show ?case using assms by (simp add: take_Suc_conv_app_nth hds_at_headers)
  qed simp
  from this [of "hds_len d"] show ?thesis using assms by (simp add: Curl_dynhds_count_name_def)
qed

lemma ncasecompare_sym: "ncasecompare a b n = ncasecompare b a n"
proof (induction n arbitrary: a b)
  case (Suc n)
  then show ?case by (cases a; cases b) (auto simp: ncasecompare.simps [of _ _ "Suc n"])
qed (simp add: ncasecompare.simps [of _ _ 0] split: list.splits)

lemma name_matches_exact:
  assumes "0 \<notin> set (e_name e)" "0 \<notin> set name"
  shows "name_matches e name \<longleftrightarrow> map Curl_raw_toupper (e_name e) = map Curl_raw_toupper name"
proof -
  have "length a = length b \<Longrightarrow> ncasecompare a b (length b) \<longleftrightarrow> map Curl_raw_toupper a = map Curl_raw_toupper b" for a b
    by (induction a b rule: list_induct2) (simp_all add: ncasecompare.simps)
  from this [of "e_name e" name] show ?thesis
    using assms by (auto simp: name_matches_def curl_strnequal_def dest: map_eq_imp_length_eq)
qed

subsection \<open>Limits\<close>

definition within :: "dynhds \<Rightarrow> bool" where
  "within d \<longleftrightarrow> sum_list (map hd_size (headers d)) = unat (strs_len d) \<and> strs_len d \<le> max_strs_size d"

text \<open>The sizes of the strings of a call, added to the limit, fit a word; no line continues another.\<close>

definition call_fits :: "64 word \<Rightarrow> dynhds_op \<Rightarrow> bool" where
  "call_fits ms x =
     (case x of
        HAdd n v \<Rightarrow> length n + length v + unat ms < 2 ^ 64
      | HSet n v \<Rightarrow> length n + length v + unat ms < 2 ^ 64
      | HLine l \<Rightarrow> (case h1_parse l of
            Continue c \<Rightarrow> False | Header n v \<Rightarrow> length n + length v + unat ms < 2 ^ 64 | _ \<Rightarrow> True)
      | _ \<Rightarrow> True)"

lemma length_strntolower: "length (Curl_strntolower s n) \<le> n"
  by (induction s n rule: Curl_strntolower.induct) simp_all

lemma hd_size_new: "hd_size (new_header op n v) = length n + length v"
  using length_strntolower [of "cstr n" "length n"] by (simp add: hd_size_def new_header_def)

lemma unat_add_64: "unat (u :: 64 word) + k < 2 ^ 64 \<Longrightarrow> unat (u + of_nat k) = unat u + k"
  by (simp add: unat_word_ariths unsigned_of_nat take_bit_nat_eq_self)

lemma add_within:
  assumes inv: "dynhds_inv d" and w: "within d" and s: "length n + length v + unat (max_strs_size d) < 2 ^ 64"
  shows "keeps d (fst (snd (Curl_dynhds_add d n v A))) \<and> within (fst (snd (Curl_dynhds_add d n v A)))"
proof (rule dynhds_add_cases [of d n v A])
  fix A'
  let ?u = "strs_len d + of_nat (length n + length v)"
  let ?d = "(dynhds_grown d)\<lparr>hds := map_option (\<lambda>s. s[hds_len d := Some (new_header (opts d) n v)]) (hds (dynhds_grown d)),
      hds_len := hds_len d + 1, strs_len := ?u\<rparr>"
  assume c: "\<not> (max_entries d \<noteq> 0 \<and> hds_len d \<ge> max_entries d
        \<or> strs_len d + of_nat (length n) + of_nat (length v) > max_strs_size d)"
    and e: "Curl_dynhds_add d n v A = (CURLE_OK, ?d, A')"
  have m: "max_entries d = 0 \<or> hds_len d < max_entries d" using c by auto
  note a = dynhds_add_added [OF inv m refl, where e = "new_header (opts d) n v" and u = ?u]
  have "unat (strs_len d) \<le> unat (max_strs_size d)" using w by (simp add: within_def word_le_nat_alt)
  then have "unat ?u = unat (strs_len d) + (length n + length v)" using s by (intro unat_add_64) linarith
  moreover have "?u \<le> max_strs_size d" using c by (simp add: add.assoc not_less)
  ultimately show ?thesis using w a by (simp add: e keeps_def within_def hd_size_new)
qed (use inv w in \<open>simp_all add: keeps_def\<close>)

lemma sum_list_split: "sum_list (map f xs) = sum_list (map f (filter P xs)) + (sum_list (map f (filter (\<lambda>x. \<not> P x) xs)) :: nat)"
  by (induction xs) simp_all

lemma remove_within:
  assumes inv: "dynhds_inv d" and w: "within d"
  shows "keeps d (snd (Curl_dynhds_remove d name)) \<and> within (snd (Curl_dynhds_remove d name))"
proof -
  let ?gone = "filter (\<lambda>e. name_matches e name) (headers d)" and ?d = "snd (Curl_dynhds_remove d name)"
  let ?kept = "filter (\<lambda>e. \<not> name_matches e name) (headers d)"
  obtain d' where r: "Curl_dynhds_remove d name = (length ?gone, d')" "keeps d d'" "headers d' = ?kept"
    "strs_len d' = strs_len d - of_nat (sum_list (map hd_size ?gone))"
    using remove_loop_exact [OF inv, of 0 name 0] by (auto simp: Curl_dynhds_remove_def)
  have "sum_list (map hd_size (headers d)) = sum_list (map hd_size ?gone) + sum_list (map hd_size ?kept)"
    by (rule sum_list_split)
  then have u: "unat (strs_len d) = sum_list (map hd_size ?gone) + sum_list (map hd_size ?kept)"
    using w by (simp add: within_def)
  then have s: "strs_len d = of_nat (sum_list (map hd_size ?gone)) + of_nat (sum_list (map hd_size ?kept))"
    by (metis of_nat_add of_nat_unat ucast_id)
  then have k: "strs_len d' = of_nat (sum_list (map hd_size ?kept))" by (simp add: r(4))
  have "sum_list (map hd_size ?kept) < 2 ^ 64"
    using u unsigned_less [of "strs_len d", where ?'a = nat] by simp
  then have un: "unat (strs_len d') = sum_list (map hd_size ?kept)"
    by (simp add: k unsigned_of_nat take_bit_nat_eq_self)
  then have "unat (strs_len d') \<le> unat (strs_len d)" using u by simp
  then have "strs_len d' \<le> strs_len d" by (simp add: word_le_nat_alt)
  then show ?thesis using r w un by (auto simp: within_def keeps_def)
qed

lemma step_within:
  assumes inv: "dynhds_inv d" and w: "within d" and f: "call_fits (max_strs_size d) x"
  shows "keeps d (fst (snd (dynhds_step x d A))) \<and> within (fst (snd (dynhds_step x d A)))"
proof (cases x)
  case (HAdd n v)
  then show ?thesis using add_within [OF inv w, of n v A] f by (simp add: call_fits_def with_code_def)
next
  case (HLine l)
  then show ?thesis using add_within [OF inv w] f inv w
    by (cases "h1_parse l") (simp_all add: call_fits_def with_code_def h1_add_line_parse keeps_def)
next
  case (HRemove n)
  then show ?thesis using remove_within [OF inv w, of n] by (simp add: split_beta)
next
  case (HSet n v)
  have r: "keeps d (snd (Curl_dynhds_remove d n))" "within (snd (Curl_dynhds_remove d n))"
    using remove_within [OF inv w] by auto
  then show ?thesis using add_within [of "snd (Curl_dynhds_remove d n)" n v A] f HSet
    by (simp add: call_fits_def with_code_def Curl_dynhds_set_def keeps_def)
next
  case (HOpts op)
  then show ?thesis using inv w
    by (auto simp: Curl_dynhds_set_opts_def keeps_def dynhds_inv_def headers_def within_def split: option.splits)
next
  case HReset
  then show ?thesis using inv
    by (auto simp: Curl_dynhds_reset_def keeps_def dynhds_inv_def headers_def within_def split: option.splits)
next
  case HFree
  then show ?thesis using inv
    by (auto simp: Curl_dynhds_free_def keeps_def dynhds_inv_def headers_def within_def)
qed

lemma run_within:
  assumes "dynhds_inv d" "within d" "list_all (call_fits (max_strs_size d)) xs"
  shows "keeps d (fst (snd (dynhds_run xs d A))) \<and> within (fst (snd (dynhds_run xs d A)))"
  using assms
proof (induction xs arbitrary: d A)
  case (Cons x xs)
  let ?d = "fst (snd (dynhds_step x d A))"
  have "keeps d ?d" "within ?d" using step_within [OF Cons.prems(1,2)] Cons.prems(3) by auto
  then show ?case using Cons.IH [of ?d "snd (snd (dynhds_step x d A))"] Cons.prems(3)
    by (simp add: keeps_def split_beta)
qed (simp add: keeps_def)

text \<open>
  A delimiter is not always where a line ends: a newline that comes before a carriage return stays
  in the value, and a line that continues another keeps its delimiter.
\<close>

lemma h1_line_keeps_newline:
  "h1_parse (Some (s2b ''a: b'' @ [0x0A] @ s2b ''c'' @ [0x0D])) = Header (s2b ''a'') (s2b ''b'' @ [0x0A] @ s2b ''c'')"
  by (simp add: h1_parse_def ISBLANK_def)

lemma h1_continue_keeps_delimiter:
  "list_line 0 100 (Some (s2b '' c'' @ [0x0D, 0x0A])) ([\<lparr>e_name = s2b ''a'', e_value = s2b ''b''\<rparr>], 2, 0) =
    (CURLE_OK, [\<lparr>e_name = s2b ''a'', e_value = s2b ''b c'' @ [0x0D, 0x0A]\<rparr>], 2, 0)"
  by (simp add: list_line_def list_continue_def h1_parse_def ISBLANK_def)

text \<open>Removing a continued header takes off more than was added: the count wraps around.\<close>

lemma remove_continued_wraps:
  "snd (list_run 0 100 [HAdd (s2b ''a'') [], HLine (Some (s2b '' bc'')), HRemove (s2b ''a'')] ([], 0, 0)) = ([], - 3, 0)"
  by (simp add: with_code_def list_add_def list_line_def list_continue_def list_remove_def h1_parse_def new_header_def
      ISBLANK_def Let_def name_matches_def hd_size_def curl_strnequal_def ncasecompare.simps cstr_def)

subsection \<open>Properties\<close>

text \<open>
  A reset empties the collection but keeps the options, while the header file says that it
  goes back to the initial state, where there are none. A header added after it is still
  changed to lower case. The list of the next theorem does as the code does.
\<close>

lemma reset_keeps_opts:
  "dynhds_abs (Curl_dynhds_reset (Curl_dynhds_set_opts (Curl_dynhds_init me ms) op)) = ([], 0, op)"
  "dynhds_abs (Curl_dynhds_init me ms) = ([], 0, 0)"
  by (simp_all add: dynhds_abs_def headers_def Curl_dynhds_reset_def Curl_dynhds_set_opts_def Curl_dynhds_init_def)

text \<open>
  C36. Collected headers are a list with two limits and with options: as long as memory lasts,
  any sequence of calls, lines and removals among them, returns what the same calls on such a
  list return and ends with its headers, size and options. The options stay through a reset and
  through freeing, as in the code; the header file says otherwise of a reset
  (\<open>reset_keeps_opts\<close>). What is read then, by index or by name in any letter case, is what the
  list has, the first match first. No access is outside the array.
\<close>

theorem dynhds_refines_list:
  assumes "no_oom A"
  shows "\<exists>d A'. dynhds_run xs (Curl_dynhds_init me ms) A = (fst (list_run me ms xs ([], 0, 0)), d, A')
    \<and> dynhds_inv d \<and> dynhds_abs d = snd (list_run me ms xs ([], 0, 0))
    \<and> Curl_dynhds_count d = length (headers d)
    \<and> Curl_dynhds_getn d = (\<lambda>n. if n < length (headers d) then Some (headers d ! n) else None)
    \<and> Curl_dynhds_get d = (\<lambda>name. find (\<lambda>e. name_matches e name) (headers d))
    \<and> Curl_dynhds_count_name d = (\<lambda>name. length (filter (\<lambda>e. name_matches e name) (headers d)))"
proof -
  let ?d = "Curl_dynhds_init me ms"
  have i: "dynhds_inv ?d" "max_entries ?d = me" "max_strs_size ?d = ms" "dynhds_abs ?d = ([], 0, 0)"
    by (simp_all add: dynhds_init_inv dynhds_init_headers dynhds_abs_def) (simp_all add: Curl_dynhds_init_def)
  obtain d A' where d: "dynhds_run xs ?d A = (fst (list_run me ms xs ([], 0, 0)), d, A')"
    "dynhds_abs d = snd (list_run me ms xs ([], 0, 0))" "dynhds_inv d"
    using run_refines [OF i(1) assms i(2,3), of xs] unfolding i(4) keeps_def by blast
  then show ?thesis
    using get_loop_exact [OF d(3), of 0] count_name_exact [OF d(3)] hds_at_headers [OF d(3)]
    by (intro exI [of _ d] exI [of _ A'])
      (auto simp: Curl_dynhds_count_def Curl_dynhds_getn_def Curl_dynhds_get_def fun_eq_iff)
qed

theorem dynhds_refines_list_witness:
  "let xs = [HOpts 1, HAdd (s2b ''a'') (s2b ''b''), HReset, HAdd (s2b ''C'') (s2b ''d'')]
   in \<exists>d A'. dynhds_run xs (Curl_dynhds_init 2 10) [True, True] = (fst (list_run 2 10 xs ([], 0, 0)), d, A')
    \<and> dynhds_inv d \<and> dynhds_abs d = snd (list_run 2 10 xs ([], 0, 0))
    \<and> Curl_dynhds_count d = length (headers d)
    \<and> Curl_dynhds_getn d = (\<lambda>n. if n < length (headers d) then Some (headers d ! n) else None)
    \<and> Curl_dynhds_get d = (\<lambda>name. find (\<lambda>e. name_matches e name) (headers d))
    \<and> Curl_dynhds_count_name d = (\<lambda>name. length (filter (\<lambda>e. name_matches e name) (headers d)))"
  unfolding Let_def by (rule dynhds_refines_list) (simp add: no_oom_def)

text \<open>
  C37. The limits hold when no line continues another: after any sequence of such calls, whatever
  allocations fail, there are no more headers than allowed, and \<open>strs_len\<close> is the size of all
  names and values, within its limit.
\<close>

theorem dynhds_limits:
  fixes A :: alloc_script and me :: nat
  assumes "list_all (call_fits ms) xs"
  defines "d \<equiv> fst (snd (dynhds_run xs (Curl_dynhds_init me ms) A))"
  shows "(me = 0 \<or> length (headers d) \<le> me) \<and> sum_list (map hd_size (headers d)) = unat (strs_len d) \<and> strs_len d \<le> ms"
proof -
  let ?d = "Curl_dynhds_init me ms"
  have i: "dynhds_inv ?d" "within ?d" "max_entries ?d = me" "max_strs_size ?d = ms"
    by (simp_all add: dynhds_init_inv within_def dynhds_init_headers) (simp_all add: Curl_dynhds_init_def)
  have "keeps ?d d \<and> within d"
    unfolding d_def by (rule run_within [OF i(1,2)]) (simp add: i(4) assms(1))
  then show ?thesis using length_headers [of d] i(3,4) by (auto simp: keeps_def within_def dynhds_inv_def)
qed

theorem dynhds_limits_witness:
  "let d = fst (snd (dynhds_run [HAdd (s2b ''a'') (s2b ''b''), HLine (Some (s2b ''c:d''))] (Curl_dynhds_init 1 10) [False]))
   in (1 = (0 :: nat) \<or> length (headers d) \<le> 1) \<and> sum_list (map hd_size (headers d)) = unat (strs_len d) \<and> strs_len d \<le> 10"
  unfolding Let_def by (rule dynhds_limits) (simp add: call_fits_def h1_parse_def)

text \<open>
  C38. Lines that continue the last header escape the limit on the size: under any limit that
  admits one byte, a header of one byte and one further line are accepted and hold as many
  bytes as one likes.
\<close>

theorem dynhds_continuation_escapes_limit:
  fixes A :: alloc_script and me :: nat
  assumes "1 \<le> ms" "0 < k"
  defines "r \<equiv> dynhds_run [HAdd (s2b ''a'') [], HLine (Some (0x20 # replicate k 0x61))] (Curl_dynhds_init me ms) A"
  assumes "no_oom A"
  shows "map fst (fst r) = [CURLE_OK, CURLE_OK] \<and> sum_list (map hd_size (headers (fst (snd r)))) = k + 2"
proof -
  let ?d = "Curl_dynhds_init me ms"
  have i: "dynhds_inv ?d" "max_entries ?d = me" "max_strs_size ?d = ms" "dynhds_abs ?d = ([], 0, 0)"
    by (simp_all add: dynhds_init_inv dynhds_init_headers dynhds_abs_def) (simp_all add: Curl_dynhds_init_def)
  have b: "dropWhile ISBLANK (replicate k 0x61) = replicate k 0x61" using assms(2) by (cases k) (simp_all add: ISBLANK_def)
  have "ms \<noteq> 0" using assms(1) by (auto simp: word_le_nat_alt)
  let ?xs = "[HAdd (s2b ''a'') [], HLine (Some (0x20 # replicate k 0x61))]"
  let ?h = "\<lparr>e_name = s2b ''a'', e_value = 0x20 # replicate k 0x61\<rparr>"
  have l: "list_run me ms ?xs ([], 0, 0) = ([(CURLE_OK, 0), (CURLE_OK, 0)], [?h], 1, 0)"
    using \<open>ms \<noteq> 0\<close> assms(2) b by (cases "me = 0") (simp_all add: with_code_def list_add_def list_line_def h1_parse_def
        list_continue_def new_header_def ISBLANK_def Let_def)
  obtain d A' where "r = (fst (list_run me ms ?xs ([], 0, 0)), d, A')" "dynhds_abs d = snd (list_run me ms ?xs ([], 0, 0))"
    using run_refines [OF i(1) assms(4) i(2,3), of ?xs] unfolding i(4) r_def by blast
  then have "r = ([(CURLE_OK, 0), (CURLE_OK, 0)], d, A')" "headers d = [?h]"
    by (simp_all only: l dynhds_abs_def fst_conv snd_conv prod.inject)
  then show ?thesis by (simp add: hd_size_def)
qed

theorem dynhds_continuation_escapes_limit_witness:
  "let r = dynhds_run [HAdd (s2b ''a'') [], HLine (Some (0x20 # replicate 100 0x61))] (Curl_dynhds_init 1 1) []
   in map fst (fst r) = [CURLE_OK, CURLE_OK] \<and> sum_list (map hd_size (headers (fst (snd r)))) = 100 + 2"
  unfolding Let_def by (rule dynhds_continuation_escapes_limit) simp_all

end
