(* ===== verification/Spec2Isabelle.thy ===== *)
theory Spec2Isabelle
  imports Ctype Dynbuf Base64 Escape Llist Hash Splay Bufq Strtoofft HttpChunks Parsedate Timers Inet Noproxy Adler32 Crc32 Sha256 Md5 Hmac Dynhds
begin

text \<open>
  A verification development for the C code of this repository: the support layer of the
  vendored transfer library under \<^verbatim>\<open>src/upstream/libcurl/libcurl/lib\<close> (below: \<^verbatim>\<open>lib\<close>), on which
  every transfer of the program runs, and the checksums of the vendored compression library
  under \<^verbatim>\<open>src/upstream/libz/libz\<close>.

  \<^bold>\<open>The parts and how they interact.\<close> Memory: growing string buffers (\<^verbatim>\<open>dynbuf.c\<close>), doubly linked
  lists (\<^verbatim>\<open>llist.c\<close>), and on the lists hash tables (\<^verbatim>\<open>hash.c\<close>: connections, DNS, sockets) and, with
  their own links, the timer tree (\<^verbatim>\<open>splay.c\<close>) from which the multi handle takes expired
  timers (\<^verbatim>\<open>multi.c\<close>, with a list of timers for each transfer). Bytes in flight: chunked byte queues (\<^verbatim>\<open>bufq.c\<close>) between the protocol layers; the
  chunked transfer encoding (\<^verbatim>\<open>http_chunks.c\<close>), whose decoder collects trailers in a growing
  buffer, reads sizes with \<^verbatim>\<open>strtoofft.c\<close>, and whose encoder fills a byte queue. Text: character
  classes and comparison (\<^verbatim>\<open>curl_ctype.h\<close>, \<^verbatim>\<open>strcase.c\<close>), base64, percent escaping, dates,
  network addresses and the list of hosts reached without a proxy, which uses them. Checksums
  of compressed data: Adler-32 and CRC-32, each with the function that combines the checksums
  of two pieces; they use nothing of the rest. Digests for authentication: SHA-256 and MD5, as the
  library computes them itself, and HMAC over either, chosen through a table of functions.
  Header fields: collections with limits, filled from lines, which compare names as
  \<^verbatim>\<open>strcase.c\<close> does.

  \<^bold>\<open>Theories and sources.\<close>
  \<^item> \<^theory_text>\<open>Prelude\<close>: bytes, C strings, blocks of memory, \<open>CURLcode\<close> (\<^verbatim>\<open>curl.h\<close>), the script of
    allocations.
  \<^item> \<^theory_text>\<open>Ctype\<close>: the macros of \<^verbatim>\<open>curl_ctype.h\<close> and all functions of \<^verbatim>\<open>strcase.c\<close> as functions on
    bytes and byte lists.
  \<^item> \<^theory_text>\<open>Dynbuf\<close>: \<open>struct dynbuf\<close> is the record \<open>dynbuf\<close>, its block a list of exactly the
    allocated length; \<open>Curl_dyn_*\<close> and \<open>dyn_nappend\<close>. A run of operations refines the same run
    on a string with a size limit; a failed append frees the buffer. A store through a NULL
    pointer is \<open>None\<close>: only \<open>Curl_dyn_setlen\<close> with the length 0 and no block does one. The locale
    \<open>append_buffer\<close> is what clients of the buffer use.
  \<^item> \<^theory_text>\<open>Base64\<close>, \<^theory_text>\<open>Escape\<close>: \<^verbatim>\<open>base64.c\<close> and \<^verbatim>\<open>escape.c\<close>, loops as recursion over the input; round
    trips, the set of accepted strings, the rejected bytes, the bounds of the output.
  \<^item> \<^theory_text>\<open>Llist\<close>: \<^verbatim>\<open>llist.c\<close> on an explicit store of elements, so the aliasing of \<open>prev\<close> and \<open>next\<close>
    is in the model; every operation keeps the links and refines a sequence.
  \<^item> \<^theory_text>\<open>Hash\<close>: \<^verbatim>\<open>hash.c\<close> on a table of such lists; the search loops are \<open>partial_function\<close>s, and
    that they end is part of what is proved. Any run of calls refines a finite map; the
    iterator, the cleaning sweep and the destructor calls are exact.
  \<^item> \<^theory_text>\<open>Splay\<close>: \<^verbatim>\<open>splay.c\<close>; the shape of the tree is a value, keys and the rings of nodes with
    equal keys are in a store. The tree with its rings is a queue ordered by time.
  \<^item> \<^theory_text>\<open>Bufq\<close>: \<^verbatim>\<open>bufq.c\<close>, chunks, spares, pools and limits; any session is first in, first out;
    passing to a writer and slurping from a reader, both arguments, lose nothing.
  \<^item> \<^theory_text>\<open>Strtoofft\<close>: \<^verbatim>\<open>strtoofft.c\<close>, \<open>curlx_strtoofft\<close> on the library's own \<open>strtooff\<close>.
  \<^item> \<^theory_text>\<open>HttpChunks\<close>: \<^verbatim>\<open>http_chunks.c\<close>; the decoder's state machine one turn at a time
    (\<open>chunk_step\<close>) and as the loop (\<open>httpchunk_loop\<close>), the client writer (\<open>cw_chunked_*\<close>), the
    encoding reader (\<open>cr_chunked_*\<close>). Invariant, independence of the segmentation of the
    input, correctness on well-formed bodies, round trip with the encoder.
  \<^item> \<^theory_text>\<open>Parsedate\<close>: \<^verbatim>\<open>parsedate.c\<close>; the calendar, the RFC 1123 format, the bounds of all values. Divisions
    round towards zero as in C (\<open>sdiv\<close>), so the calendar is exact from the year 1 on.

  \<^item> \<^theory_text>\<open>Timers\<close>: the timer functions of \<^verbatim>\<open>multi.c\<close> (\<open>Curl_expire\<close>, \<open>Curl_expire_done\<close>,
    \<open>Curl_expire_clear\<close>, \<open>add_next_timeout\<close>, \<open>multi_timeout\<close>, \<open>Curl_update_timer\<close>, the loop of
    \<open>curl_multi_perform\<close> and its body \<open>expire_one\<close>) on the lists of \<^theory_text>\<open>Llist\<close> and the tree of
    \<^theory_text>\<open>Splay\<close>, and the differences of times of \<^verbatim>\<open>timeval.c\<close>. The invariant between lists and tree,
    the loop that takes what is due, the time reported, which is narrowed to a \<open>long\<close> of any
    width. Which waiting transfers are over their time (\<open>multi_handle_timeout\<close>) is an argument
    of the loop; the invariant holds unless one of them is met less than a millisecond after
    its expiry time, and C8 shows that it is lost then.
  \<^item> \<^theory_text>\<open>Inet\<close>: \<^verbatim>\<open>inet_pton.c\<close> and \<^verbatim>\<open>inet_ntop.c\<close>; printed addresses are read back, IPv4 addresses
    are read in their canonical form only.
  \<^item> \<^theory_text>\<open>Noproxy\<close>: \<^verbatim>\<open>noproxy.c\<close>; the entries of the list, names in domains, addresses in networks.

  \<^item> \<^theory_text>\<open>Adler32\<close>: \<^verbatim>\<open>adler32.c\<close>; the deferred reductions are exact, no sum passes 32 bits, and the
    combined checksum is that of the concatenation.
  \<^item> \<^theory_text>\<open>Crc32\<close>: \<^verbatim>\<open>crc32.c\<close> with words of 8 bytes and 5 braids, for both byte orders; the
    tables, made at run time or read from \<^verbatim>\<open>crc32.h\<close>, the braided loops, the arithmetic of
    polynomials and the combination, against the remainder computed bit by bit.

  \<^item> \<^theory_text>\<open>Blocks\<close>: blocks of 64 bytes and the padding, the specification both digests share, and
    the conversion of a length of \<^verbatim>\<open>warnless.c\<close>.
  \<^item> \<^theory_text>\<open>Sha256\<close>, \<^theory_text>\<open>Md5\<close>: \<^verbatim>\<open>sha256.c\<close>, for every width of \<open>unsigned long\<close>, and \<^verbatim>\<open>md5.c\<close>, its 64
    steps as they are written; a message fed in any pieces has the digest that FIPS 180-4 and
    RFC 1321 define. The constants of SHA-256 are shown to be the roots of the primes.
  \<^item> \<^theory_text>\<open>Hmac\<close>: \<^verbatim>\<open>hmac.c\<close> over a table of hash functions; for both digests it is the HMAC of
    FIPS 198-1.

  \<^item> \<^theory_text>\<open>Dynhds\<close>: \<^verbatim>\<open>dynhds.c\<close>, collected headers in a growing array; a list of headers with two
    limits, which continued lines escape, and with options, which a reset keeps.

  Interfaces are locales (\<open>append_buffer\<close>, \<open>sequence_of\<close>, \<open>hashing\<close>, \<open>timer_queue\<close>,
  \<open>byte_queue\<close>, \<open>keyed_hash\<close>), each interpreted on the model of the code in the theory of its provider.

  \<^bold>\<open>Conventions.\<close> A C string is the list of its bytes before the terminating zero; \<open>at\<close> reads
  that zero at the end. A call that allocates takes its successes and failures from a script,
  so a property holds for every pattern of failed allocations unless it says otherwise
  (\<open>no_oom\<close>). Sizes are natural numbers, values whose wrap-around matters are words;
  \<open>curl_off_t\<close> and \<open>time_t\<close> have 64 bits. Callbacks (readers, writers, hash functions,
  destructors) are parameters, with what the code relies on as hypotheses.

  \<^bold>\<open>Bounds and termination.\<close> The loop of the date parser has six turns, as the code has.
  \<open>httpchunk_loop\<close> ends by the measure of its input and \<open>turn_rank\<close>, the turns that consume
  nothing. The loops over linked memory and over callbacks are \<open>partial_function\<close>s, where not
  ending is \<open>None\<close>; the properties state that they end. So are the loops of \<open>multmodp\<close> and
  \<open>x2nmodp\<close>, which run for ever on a zero operand and a negative length (\<open>crc32_combine_returns\<close>).
  No other fuel is used.

  \<^bold>\<open>Not modelled.\<close> Sockets, connection filters and the back ends for TLS, SSH and QUIC, whose
  behaviour is that of the system and of other libraries; the protocol handlers and the
  easy interface above this layer, and of the multi interface what is not about timers; formatted printing (\<^verbatim>\<open>mprintf.c\<close>), so
  \<open>Curl_dyn_addf\<close> and \<open>Curl_dynhds_h1_dprint\<close>; \<open>Curl_gmtime\<close>, a call of the C library; of the compression library the
  compressor and the decompressor, and of \<^verbatim>\<open>crc32.c\<close> the variant in ARM instructions, the guard
  that makes the tables once across threads and the program that writes \<^verbatim>\<open>crc32.h\<close>; the digests of
  other libraries that may take the place of the library's own, and MD4; the logging library
  under \<^verbatim>\<open>src/upstream/libquill\<close>, C++ templates in headers; the program's own C++ under
  \<^verbatim>\<open>src/libiw4x\<close>, which patches and hooks another process. Tables that only hold text
  (messages) are left out.
\<close>

end
